(* ===== verification/Prelude.thy ===== *)
theory Prelude
  imports Main "HOL-Library.Word" "HOL-Library.Multiset" "HOL-Library.AList"
begin

text \<open>
  Shared vocabulary of the development: the machine integers of the Rust code, the byte orders
  it uses (\<open>to_be_bytes\<close>, \<open>to_le_bytes\<close> and their inverses), the error kinds of
  \<open>std::io\<close>, and the generic lemmas on lists, options and words that the components share.
  The collections declared here (\<open>wire_simps\<close>, \<open>order_simps\<close>, \<open>map_simps\<close>,
  \<open>inv_intros\<close>) are filled by the component theories.
\<close>

unbundle bit_operations_syntax

named_theorems wire_simps and order_simps and map_simps and inv_intros

section \<open>Machine integers and results\<close>

type_synonym u8 = "8 word"
type_synonym u16 = "16 word"
type_synonym u32 = "32 word"
type_synonym u64 = "64 word"
type_synonym bytes = "u8 list"

text \<open>\<open>std::io::ErrorKind\<close>, the kinds the code constructs.\<close>

datatype io_error = InvalidInput | InvalidData | UnexpectedEof

section \<open>Byte orders\<close>

text \<open>
  \<open>le_bytes n w\<close> is the little-endian image of a word in \<open>n\<close> bytes; the big-endian image is
  its reverse. \<open>from_le_bytes\<close> and \<open>from_be_bytes\<close> read such an image.
\<close>

definition le_bytes :: "nat \<Rightarrow> 'a::len word \<Rightarrow> bytes" where
  "le_bytes n w = map (\<lambda>i. ucast (drop_bit (8 * i) w)) [0..<n]"

definition be_bytes :: "nat \<Rightarrow> 'a::len word \<Rightarrow> bytes" where
  "be_bytes n w = rev (le_bytes n w)"

fun from_le_bytes :: "bytes \<Rightarrow> 'a::len word" where
  "from_le_bytes [] = 0"
| "from_le_bytes (b # bs) = ucast b OR push_bit 8 (from_le_bytes bs)"

definition from_be_bytes :: "bytes \<Rightarrow> 'a::len word" where
  "from_be_bytes bs = from_le_bytes (rev bs)"

lemma length_le_bytes [simp]: "length (le_bytes n w) = n"
  by (simp add: le_bytes_def)

lemma length_be_bytes [simp]: "length (be_bytes n w) = n"
  by (simp add: be_bytes_def)

lemma nth_le_bytes: "i < n \<Longrightarrow> le_bytes n w ! i = ucast (drop_bit (8 * i) w)"
  by (simp add: le_bytes_def)

lemma le_bytes_Suc: "le_bytes (Suc n) w = ucast w # le_bytes n (drop_bit 8 w)"
proof -
  have "[0..<Suc n] = 0 # map Suc [0..<n]"
    by (simp add: upt_conv_Cons map_Suc_upt del: upt_Suc)
  then show ?thesis
    by (simp add: le_bytes_def comp_def add.commute del: upt_Suc)
qed

lemma le_bytes_0 [simp]: "le_bytes 0 w = []"
  by (simp add: le_bytes_def)

lemma be_bytes_2: "be_bytes 2 w = [ucast (drop_bit 8 w), ucast w]"
  by (simp add: be_bytes_def le_bytes_def numeral_2_eq_2)

lemma bit_from_le_bytes:
  "bit (from_le_bytes bs :: 'a::len word) i
     \<longleftrightarrow> i < LENGTH('a) \<and> i < 8 * length bs \<and> bit (bs ! (i div 8)) (i mod 8)"
proof (induction bs arbitrary: i)
  case Nil
  then show ?case by simp
next
  case (Cons b bs)
  show ?case
  proof (cases "i < 8")
    case True
    then show ?thesis
      by (auto simp: bit_or_iff bit_push_bit_iff bit_ucast_iff dest: bit_imp_le_length)
  next
    case False
    then have i: "i div 8 = Suc ((i - 8) div 8)" "i mod 8 = (i - 8) mod 8"
      by (simp_all add: le_div_geq le_mod_geq)
    have "\<not> bit (ucast b :: 'a word) i"
      using False bit_imp_le_length[of b i] by (auto simp: bit_ucast_iff)
    then have "bit (from_le_bytes (b # bs) :: 'a word) i
        \<longleftrightarrow> i < LENGTH('a) \<and> bit (from_le_bytes bs :: 'a word) (i - 8)"
      using False by (simp add: bit_or_iff bit_push_bit_iff)
    also have "\<dots> \<longleftrightarrow> i < LENGTH('a) \<and> i - 8 < 8 * length bs \<and> bit (bs ! ((i - 8) div 8)) ((i - 8) mod 8)"
      unfolding Cons.IH by (meson diff_le_self le_less_trans)
    finally show ?thesis
      unfolding i nth_Cons_Suc using False by auto
  qed
qed

lemma from_le_le_bytes [simp]:
  assumes "LENGTH('a) \<le> 8 * n"
  shows "from_le_bytes (le_bytes n (w :: 'a::len word)) = w"
proof (rule bit_word_eqI)
  fix i assume i: "i < LENGTH('a)"
  then have "i div 8 < n" using assms by (simp add: div_less_iff_less_mult mult.commute)
  then show "bit (from_le_bytes (le_bytes n w) :: 'a word) i \<longleftrightarrow> bit w i"
    using i assms
    by (simp add: bit_from_le_bytes nth_le_bytes bit_ucast_iff bit_drop_bit_eq)
qed

lemma from_be_be_bytes [simp]:
  "LENGTH('a) \<le> 8 * n \<Longrightarrow> from_be_bytes (be_bytes n (w :: 'a::len word)) = w"
  by (simp add: from_be_bytes_def be_bytes_def)

lemma le_from_le_bytes:
  assumes "length bs = n" and "8 * n \<le> LENGTH('a)"
  shows "le_bytes n (from_le_bytes bs :: 'a::len word) = bs"
proof (rule nth_equalityI)
  show "length (le_bytes n (from_le_bytes bs :: 'a word)) = length bs"
    using assms by simp
next
  fix i assume "i < length (le_bytes n (from_le_bytes bs :: 'a word))"
  then have i: "i < n" by simp
  have "bit (ucast (drop_bit (8 * i) (from_le_bytes bs :: 'a word)) :: u8) j \<longleftrightarrow> bit (bs ! i) j"
    if "j < 8" for j
    using that i assms
    by (simp add: bit_ucast_iff bit_drop_bit_eq bit_from_le_bytes)
  then show "le_bytes n (from_le_bytes bs :: 'a word) ! i = bs ! i"
    using i by (intro bit_word_eqI) (simp add: nth_le_bytes)
qed

lemma le_bytes_inject:
  fixes v w :: "'a::len word"
  assumes "LENGTH('a) \<le> 8 * n" and "le_bytes n v = le_bytes n w"
  shows "v = w"
  using assms by (metis from_le_le_bytes)

section \<open>Generic lemmas\<close>

lemma take_append_exact [simp]: "length xs = n \<Longrightarrow> take n (xs @ ys) = xs"
  by simp

lemma drop_append_exact [simp]: "length xs = n \<Longrightarrow> drop n (xs @ ys) = ys"
  by simp

lemma unat_less_pow: "unat (w :: 'a::len word) < 2 ^ LENGTH('a)"
  by (rule unsigned_less)

lemma unat_u8_less [simp]: "unat (w :: u8) < 256"
  using unat_less_pow[of w] by simp

lemma unat_u16_less [simp]: "unat (w :: u16) < 65536"
  using unat_less_pow[of w] by simp

lemma and_push_bit_1: "w AND push_bit i 1 \<noteq> 0 \<longleftrightarrow> bit w i" for w :: u64
proof -
  have b: "bit (w AND push_bit i 1) n \<longleftrightarrow> bit w n \<and> n = i" for n
    unfolding bit_and_iff bit_push_bit_iff bit_1_iff using bit_imp_le_length[of w n] by auto
  show ?thesis
  proof
    assume "w AND push_bit i 1 \<noteq> 0"
    then obtain n where "bit (w AND push_bit i 1) n" by (metis bit_0_eq bot_apply bot_bool_def bit_word_eqI)
    with b show "bit w i" by metis
  next
    assume "bit w i"
    then have "bit (w AND push_bit i 1) i" by (simp only: b simp_thms)
    then show "w AND push_bit i 1 \<noteq> 0" by (metis bit_0_eq bot_apply bot_bool_def)
  qed
qed

lemma and_power_2: "w AND 2 ^ i = 0 \<longleftrightarrow> \<not> bit w i" for w :: u64
  using and_push_bit_1[of w i] unfolding push_bit_eq_mult mult_1 by blast

lemma foldl_invariant:
  assumes "P a" and "\<And>a x. P a \<Longrightarrow> x \<in> set xs \<Longrightarrow> P (f a x)"
  shows "P (foldl f a xs)"
  using assms by (induction xs arbitrary: a) auto

section \<open>Components as state machines\<close>

text \<open>
  The contract every stateful component is verified against: an initial state and one
  transition per operation, all of which keep an invariant. The client's lemma is that every
  run, in any order of operations, stays inside the invariant.
\<close>

locale invariant_machine =
  fixes ok_op :: "'op \<Rightarrow> bool"
    and step :: "'op \<Rightarrow> 's \<Rightarrow> 's"
    and inv :: "'s \<Rightarrow> bool"
  assumes step_inv: "ok_op a \<Longrightarrow> inv s \<Longrightarrow> inv (step a s)"
begin

lemma run_inv:
  "(\<And>a. a \<in> set as \<Longrightarrow> ok_op a) \<Longrightarrow> inv s \<Longrightarrow> inv (fold step as s)"
  by (induction as arbitrary: s) (auto intro: step_inv)

lemma prefix_run_inv:
  "(\<And>a. a \<in> set (as @ bs) \<Longrightarrow> ok_op a) \<Longrightarrow> inv s \<Longrightarrow> inv (fold step as s)"
  by (rule run_inv) auto

end

end
