(* ===== verification/Bit_IO.thy ===== *)
theory Bit_IO
  imports Prelude
begin

text \<open>
  The bit buffer of \<open>gbnet/src/serialize/mod.rs\<close> (module \<open>bit_io\<close>): \<open>write_bit\<close>,
  \<open>write_bits\<close> with its byte-aligned fast path and its general loop, \<open>read_bit\<close>,
  \<open>read_bits\<close> likewise, \<open>flush\<close>, \<open>into_bytes\<close>, \<open>from_bytes\<close> and the measuring mode.

  An operation on a \<open>&mut BitBuffer\<close> returning \<open>io::Result<T>\<close> is a function from the buffer
  to the result and the buffer it leaves behind (\<open>'a bio\<close>); the buffer is returned on an error
  too, because the reads advance before they fail.

  The refinement: a written buffer represents a list of bits (\<open>writer_rep\<close>), and every write
  appends the most significant bits first; a buffer being read has a list of remaining bits, and
  every read takes its value from the front of it.
\<close>

section \<open>State, results and sequencing\<close>

record bit_buffer =
  bb_buffer :: bytes
  bb_bit_pos :: nat
  bb_read_pos :: nat
  bb_unpadded_length :: nat
  bb_measure_only :: bool

type_synonym 'a bio = "bit_buffer \<Rightarrow> (io_error + 'a) \<times> bit_buffer"

definition bio_return :: "'a \<Rightarrow> 'a bio" where
  "bio_return a b = (Inr a, b)"

definition bio_fail :: "io_error \<Rightarrow> 'a bio" where
  "bio_fail e b = (Inl e, b)"

text \<open>The \<open>?\<close> operator: stop at the first error, keeping the buffer it left.\<close>

definition bio_bind :: "'a bio \<Rightarrow> ('a \<Rightarrow> 'b bio) \<Rightarrow> 'b bio" where
  "bio_bind m f b = (case m b of (Inl e, b') \<Rightarrow> (Inl e, b') | (Inr a, b') \<Rightarrow> f a b')"

definition bio_then :: "'a bio \<Rightarrow> 'b bio \<Rightarrow> 'b bio" where
  "bio_then m k = bio_bind m (\<lambda>_. k)"

lemmas bio_defs = bio_return_def bio_fail_def bio_bind_def bio_then_def

definition BitBuffer_new :: bit_buffer where
  "BitBuffer_new = \<lparr>bb_buffer = [], bb_bit_pos = 0, bb_read_pos = 0,
     bb_unpadded_length = 0, bb_measure_only = False\<rparr>"

definition BitBuffer_measure :: bit_buffer where
  "BitBuffer_measure = \<lparr>bb_buffer = [], bb_bit_pos = 0, bb_read_pos = 0,
     bb_unpadded_length = 0, bb_measure_only = True\<rparr>"

definition BitBuffer_from_bytes :: "bytes \<Rightarrow> bit_buffer" where
  "BitBuffer_from_bytes bs = \<lparr>bb_buffer = bs, bb_bit_pos = 0, bb_read_pos = 0,
     bb_unpadded_length = 0, bb_measure_only = False\<rparr>"

definition serialized_size_bits :: "bit_buffer \<Rightarrow> nat" where
  "serialized_size_bits b = bb_unpadded_length b"

definition serialized_size_bytes :: "bit_buffer \<Rightarrow> nat" where
  "serialized_size_bytes b = (bb_unpadded_length b + 7) div 8"

section \<open>Writing\<close>

definition skip_bits :: "nat \<Rightarrow> bit_buffer \<Rightarrow> bit_buffer" where
  "skip_bits n b = b\<lparr>bb_bit_pos := bb_bit_pos b + n,
     bb_unpadded_length := bb_unpadded_length b + n\<rparr>"

definition write_bit :: "bool \<Rightarrow> unit bio" where
  "write_bit v b =
     (if bb_measure_only b then (Inr (), skip_bits 1 b)
      else
        let byte_pos = bb_bit_pos b div 8;
            bit_offset = bb_bit_pos b mod 8;
            buf = (if byte_pos \<ge> length (bb_buffer b) then bb_buffer b @ [0] else bb_buffer b);
            byte = (if v then buf ! byte_pos OR push_bit (7 - bit_offset) 1
                    else buf ! byte_pos AND NOT (push_bit (7 - bit_offset) 1))
        in (Inr (), skip_bits 1 (b\<lparr>bb_buffer := buf[byte_pos := byte]\<rparr>)))"

definition write_bytes_fast :: "u64 \<Rightarrow> nat \<Rightarrow> unit bio" where
  "write_bytes_fast value n b =
     (if bb_measure_only b then (Inr (), skip_bits (n * 8) b)
      else (Inr (), skip_bits (n * 8)
        (b\<lparr>bb_buffer := bb_buffer b @
             map (\<lambda>i. ucast (drop_bit (8 * (n - 1 - i)) value AND 0xFF)) [0..<n]\<rparr>)))"

text \<open>
  The body of the \<open>while remaining_bits > 0\<close> loop of \<open>write_bits_optimized\<close>: it fills the
  current byte with the next \<open>write_chunk\<close> bits of the value.
\<close>

definition write_chunk :: "nat \<Rightarrow> bit_buffer \<Rightarrow> nat" where
  "write_chunk remaining b = min remaining (8 - bb_bit_pos b mod 8)"

definition write_step :: "u64 \<Rightarrow> nat \<Rightarrow> bit_buffer \<Rightarrow> bit_buffer" where
  "write_step val remaining b =
     (let byte_pos = bb_bit_pos b div 8;
          bit_offset = bb_bit_pos b mod 8;
          bits_available_in_byte = 8 - bit_offset;
          bits_to_write = write_chunk remaining b;
          buf = bb_buffer b @ replicate (byte_pos + 1 - length (bb_buffer b)) 0;
          shift = remaining - bits_to_write;
          bits_to_write_val =
            (if shift < 64 then drop_bit shift val AND (push_bit bits_to_write 1 - 1) else 0);
          byte_shift = bits_available_in_byte - bits_to_write
      in b\<lparr>bb_buffer := buf[byte_pos := buf ! byte_pos OR push_bit byte_shift (ucast bits_to_write_val)],
           bb_bit_pos := bb_bit_pos b + bits_to_write\<rparr>)"

definition next_val :: "u64 \<Rightarrow> nat \<Rightarrow> u64" where
  "next_val val remaining =
     val AND (if 0 < remaining \<and> remaining < 64 then push_bit remaining 1 - 1
              else if remaining = 0 then 0 else - 1)"

lemma write_chunk_less: "remaining \<noteq> 0 \<Longrightarrow> remaining - write_chunk remaining b < remaining"
  by (simp add: write_chunk_def)

function write_loop :: "u64 \<Rightarrow> nat \<Rightarrow> bit_buffer \<Rightarrow> bit_buffer" where
  "write_loop val remaining b =
     (if remaining = 0 then b
      else
        let rest = remaining - write_chunk remaining b
        in write_loop (next_val val rest) rest (write_step val remaining b))"
  by pat_completeness auto
termination
  by (relation "measure (fst \<circ> snd)", rule wf_measure)
    (simp only: in_measure comp_apply snd_conv fst_conv, erule write_chunk_less)

declare write_loop.simps [simp del]

definition write_bits_optimized :: "u64 \<Rightarrow> nat \<Rightarrow> unit bio" where
  "write_bits_optimized value bits b =
     (if bb_measure_only b then (Inr (), skip_bits bits b)
      else
        let b' = write_loop value bits b
        in (Inr (), b'\<lparr>bb_unpadded_length := bb_unpadded_length b' + bits\<rparr>))"

definition write_bits :: "u64 \<Rightarrow> nat \<Rightarrow> unit bio" where
  "write_bits value bits b =
     (if bits > 64 then (Inl InvalidInput, b)
      else if bits = 0 then (Inr (), b)
      else
        let val = (if bits \<ge> 64 then value else value AND (push_bit bits 1 - 1))
        in if bb_bit_pos b mod 8 = 0 \<and> bits mod 8 = 0 then write_bytes_fast val (bits div 8) b
           else write_bits_optimized val bits b)"

text \<open>\<open>flush\<close> writes zero bits up to the next byte boundary, at most seven of them.\<close>

function flush_loop :: "bit_buffer \<Rightarrow> bit_buffer" where
  "flush_loop b = (if bb_bit_pos b mod 8 = 0 then b else flush_loop (snd (write_bit False b)))"
  by pat_completeness auto
termination
proof (relation "measure (\<lambda>b. (8 - bb_bit_pos b mod 8) mod 8)", simp)
  fix b :: bit_buffer
  assume *: "bb_bit_pos b mod 8 \<noteq> 0"
  have "bb_bit_pos (snd (write_bit False b)) = bb_bit_pos b + 1"
    by (simp add: write_bit_def skip_bits_def Let_def)
  moreover have "(8 - (n + 1) mod 8) mod 8 < (8 - n mod 8) mod 8" if "n mod 8 \<noteq> 0" for n :: nat
  proof -
    have "n mod 8 < 8" and "(n + 1) mod 8 = (if n mod 8 = 7 then 0 else n mod 8 + 1)"
      by (simp, presburger)
    with that show ?thesis by auto
  qed
  ultimately show "(snd (write_bit False b), b) \<in> measure (\<lambda>b. (8 - bb_bit_pos b mod 8) mod 8)"
    using * by simp
qed

declare flush_loop.simps [simp del]

definition flush :: "bool \<Rightarrow> bit_buffer \<Rightarrow> bit_buffer" where
  "flush pad_to_byte b = (if pad_to_byte then flush_loop b else b)"

definition into_bytes :: "bool \<Rightarrow> bit_buffer \<Rightarrow> io_error + bytes" where
  "into_bytes pad_to_byte b = Inr (bb_buffer (flush pad_to_byte b))"

section \<open>Reading\<close>

definition read_bit :: "bool bio" where
  "read_bit b =
     (let byte_pos = bb_read_pos b div 8;
          bit_offset = bb_read_pos b mod 8
      in if byte_pos \<ge> length (bb_buffer b) then (Inl UnexpectedEof, b)
         else (Inr (bb_buffer b ! byte_pos AND push_bit (7 - bit_offset) 1 \<noteq> 0),
               b\<lparr>bb_read_pos := bb_read_pos b + 1\<rparr>))"

definition read_bytes_fast :: "nat \<Rightarrow> u64 bio" where
  "read_bytes_fast n b =
     (let start_byte = bb_read_pos b div 8
      in if start_byte + n > length (bb_buffer b) then (Inl UnexpectedEof, b)
         else (Inr (foldl (\<lambda>value i. value OR
                 push_bit (8 * (n - 1 - i)) (ucast (bb_buffer b ! (start_byte + i)))) 0 [0..<n]),
               b\<lparr>bb_read_pos := bb_read_pos b + n * 8\<rparr>))"

definition read_chunk :: "nat \<Rightarrow> bit_buffer \<Rightarrow> nat" where
  "read_chunk remaining b = min remaining (8 - bb_read_pos b mod 8)"

lemma read_chunk_less: "remaining \<noteq> 0 \<Longrightarrow> remaining - read_chunk remaining b < remaining"
  by (simp add: read_chunk_def)

function read_loop :: "nat \<Rightarrow> u64 \<Rightarrow> u64 bio" where
  "read_loop remaining value b =
     (if remaining = 0 then (Inr value, b)
      else
        let byte_pos = bb_read_pos b div 8;
            bit_offset = bb_read_pos b mod 8;
            bits_available_in_byte = 8 - bit_offset;
            bits_to_read = read_chunk remaining b
        in if byte_pos \<ge> length (bb_buffer b) then (Inl UnexpectedEof, b)
           else
             let byte_shift = bits_available_in_byte - bits_to_read;
                 mask = (if bits_to_read \<ge> 8 then 0xFF else push_bit bits_to_read 1 - 1 :: u8);
                 bits_value = drop_bit byte_shift (bb_buffer b ! byte_pos) AND mask;
                 result_shift = remaining - bits_to_read;
                 value' = (if result_shift < 64
                           then value OR push_bit result_shift (ucast bits_value) else value)
             in read_loop (remaining - bits_to_read) value'
                  (b\<lparr>bb_read_pos := bb_read_pos b + bits_to_read\<rparr>))"
  by pat_completeness auto
termination
  by (relation "measure fst", rule wf_measure) (simp only: in_measure fst_conv, erule read_chunk_less)

declare read_loop.simps [simp del]

definition read_bits_optimized :: "nat \<Rightarrow> u64 bio" where
  "read_bits_optimized bits = read_loop bits 0"

definition read_bits :: "nat \<Rightarrow> u64 bio" where
  "read_bits bits b =
     (if bits > 64 then (Inl InvalidInput, b)
      else if bits = 0 then (Inr 0, b)
      else if bb_read_pos b mod 8 = 0 \<and> bits mod 8 = 0 then read_bytes_fast (bits div 8) b
      else read_bits_optimized bits b)"

section \<open>Bits of a byte sequence\<close>

text \<open>
  Bit \<open>i\<close> of a byte sequence, most significant bit of each byte first; the first \<open>n\<close> bits of a
  value as a list, and the value of such a list.
\<close>

definition bit_at :: "bytes \<Rightarrow> nat \<Rightarrow> bool" where
  "bit_at bs i = bit (bs ! (i div 8)) (7 - i mod 8)"

definition bytes_bits :: "bytes \<Rightarrow> bool list" where
  "bytes_bits bs = map (bit_at bs) [0..<8 * length bs]"

definition msb_bits :: "nat \<Rightarrow> u64 \<Rightarrow> bool list" where
  "msb_bits n v = map (\<lambda>i. bit v (n - 1 - i)) [0..<n]"

definition bits_val :: "bool list \<Rightarrow> u64" where
  "bits_val bs = horner_sum of_bool 2 (rev bs)"

lemma length_bytes_bits [simp]: "length (bytes_bits bs) = 8 * length bs"
  by (simp add: bytes_bits_def)

lemma length_msb_bits [simp]: "length (msb_bits n v) = n"
  by (simp add: msb_bits_def)

lemma nth_bytes_bits [simp]: "i < 8 * length bs \<Longrightarrow> bytes_bits bs ! i = bit_at bs i"
  by (simp add: bytes_bits_def)

lemma nth_msb_bits [simp]: "i < n \<Longrightarrow> msb_bits n v ! i = bit v (n - 1 - i)"
  by (simp add: msb_bits_def)

lemma bit_bits_val:
  "bit (bits_val bs) i \<longleftrightarrow> i < 64 \<and> i < length bs \<and> bs ! (length bs - 1 - i)"
  by (auto simp: bits_val_def bit_horner_sum_bit_iff rev_nth)

lemma bits_val_msb_bits: "n \<le> 64 \<Longrightarrow> bits_val (msb_bits n v) = take_bit n v"
  by (rule bit_word_eqI) (auto simp: bit_bits_val bit_take_bit_iff)

lemma bits_val_Nil [simp]: "bits_val [] = 0"
  by (simp add: bits_val_def)

lemma msb_bits_0 [simp]: "msb_bits 0 v = []"
  by (simp add: msb_bits_def)

lemma msb_bits_split:
  assumes "k \<le> n"
  shows "msb_bits n v = msb_bits k (drop_bit (n - k) v) @ msb_bits (n - k) v"
proof (rule nth_equalityI)
  fix i assume "i < length (msb_bits n v)"
  with assms show "msb_bits n v ! i = (msb_bits k (drop_bit (n - k) v) @ msb_bits (n - k) v) ! i"
    by (auto simp: nth_append bit_drop_bit_eq)
qed (use assms in simp)

lemma msb_bits_cong: "(\<And>i. i < n \<Longrightarrow> bit v i = bit w i) \<Longrightarrow> msb_bits n v = msb_bits n w"
  by (simp add: msb_bits_def)

lemma bit_mask_u64: "bit (2 ^ n - 1 :: u64) i \<longleftrightarrow> i < n \<and> i < 64"
  by (simp add: mask_eq_exp_minus_1 [symmetric] bit_mask_iff) auto

section \<open>What a written buffer represents\<close>

definition packed :: "bytes \<Rightarrow> bool list \<Rightarrow> bool" where
  "packed buf bits \<longleftrightarrow>
     length buf = (length bits + 7) div 8 \<and>
     (\<forall>i < 8 * length buf. bit_at buf i = (i < length bits \<and> bits ! i))"

definition writer_rep :: "bit_buffer \<Rightarrow> bool list \<Rightarrow> bool" where
  "writer_rep b bits \<longleftrightarrow>
     \<not> bb_measure_only b \<and> bb_bit_pos b = length bits \<and> bb_unpadded_length b = length bits \<and>
     packed (bb_buffer b) bits"

lemma packed_Nil [simp]: "packed [] []"
  by (simp add: packed_def)

lemma writer_rep_new: "writer_rep BitBuffer_new []"
  by (simp add: writer_rep_def BitBuffer_new_def)

text \<open>
  Appending at most a byte's rest: the current byte is or-ed with a byte that carries the new
  bits at their place and zeros elsewhere.
\<close>

lemma div8_append:
  fixes p l :: nat
  assumes "0 < l" "l \<le> 8 - p mod 8"
  shows "(p + l + 7) div 8 = p div 8 + 1"
proof -
  obtain q m where pq: "p = 8 * q + m" and m: "m < 8"
    by (metis mod_less_divisor mult_div_mod_eq zero_less_numeral)
  then have "p div 8 = q" "p mod 8 = m" by simp_all
  with assms pq show ?thesis by (intro div_nat_eqI) auto
qed

lemma div8_ceil: "(p + 7) div 8 = p div 8 + (if p mod 8 = 0 then 0 else 1 :: nat)"
proof -
  obtain q m where pq: "p = 8 * q + m" and m: "m < 8"
    by (metis mod_less_divisor mult_div_mod_eq zero_less_numeral)
  then have d: "p div 8 = q" "p mod 8 = m" by simp_all
  show ?thesis
  proof (cases "m = 0")
    case True
    then show ?thesis using pq by simp
  next
    case False
    then have "(8 * q + m + 7) div 8 = q + 1" using m by (intro div_nat_eqI) auto
    with False d pq show ?thesis by simp
  qed
qed

text \<open>The buffer with the byte at the write position in place (\<open>push(0)\<close> where it is new).\<close>

definition padded :: "bytes \<Rightarrow> nat \<Rightarrow> bytes" where
  "padded buf p = buf @ replicate (p div 8 + 1 - length buf) 0"

lemma length_padded: "packed buf bits \<Longrightarrow> length (padded buf (length bits)) = length bits div 8 + 1"
  by (simp add: packed_def padded_def div8_ceil)

lemma bit_at_padded:
  assumes pk: "packed buf bits" and i: "i < 8 * length (padded buf (length bits))"
  shows "bit_at (padded buf (length bits)) i \<longleftrightarrow> i < length bits \<and> bits ! i"
proof (cases "i div 8 < length buf")
  case True
  then have "i < 8 * length buf" by (simp add: div_less_iff_less_mult mult.commute)
  with True pk show ?thesis
    by (simp add: bit_at_def padded_def nth_append packed_def)
next
  case False
  have "length bits \<le> i"
    using False pk div_le_mono[of "i + 8" "length bits + 7" 8] by (simp add: packed_def not_less)
  moreover have "i div 8 - length buf < length bits div 8 + 1 - length buf"
    using False i length_padded[OF pk] less_mult_imp_div_less[of i "length bits div 8 + 1" 8] by simp
  then have "padded buf (length bits) ! (i div 8) = 0"
    using False by (simp add: nth_append padded_def)
  ultimately show ?thesis by (simp add: bit_at_def)
qed

lemma packed_append:
  assumes pk: "packed buf bits" and n: "0 < length ns" "length ns \<le> 8 - length bits mod 8"
    and p: "p = length bits"
    and buf1: "buf1 = padded buf p"
    and w: "\<And>j. j < 8 \<Longrightarrow> bit (w :: u8) (7 - j) \<longleftrightarrow>
              p mod 8 \<le> j \<and> j < p mod 8 + length ns \<and> ns ! (j - p mod 8)"
  shows "packed (buf1[p div 8 := buf1 ! (p div 8) OR w]) (bits @ ns)" (is "packed ?buf' _")
proof -
  have l1: "length buf1 = p div 8 + 1"
    using length_padded[OF pk] by (simp add: buf1 p)
  have l2: "(p + length ns + 7) div 8 = p div 8 + 1"
    using n p by (intro div8_append) auto
  have old: "bit_at buf1 i \<longleftrightarrow> i < p \<and> bits ! i" if "i < 8 * length buf1" for i
    using bit_at_padded[OF pk] that by (simp add: buf1 p)
  have new: "bit_at ?buf' i \<longleftrightarrow> i < length (bits @ ns) \<and> (bits @ ns) ! i"
    if i: "i < 8 * length buf1" for i
  proof (cases "i div 8 = p div 8")
    case False
    with i l1 have "i div 8 < p div 8"
      using less_mult_imp_div_less[of i "p div 8 + 1" 8] by simp
    then have "i < p" by (metis div_le_mono not_le)
    with False i old[OF i] p show ?thesis
      by (simp add: bit_at_def nth_append)
  next
    case True
    have j: "i mod 8 < 8" by simp
    obtain q a c where qac: "p = 8 * q + a" "i = 8 * q + c" "p mod 8 = a" "i mod 8 = c"
      using True by (metis mult_div_mod_eq)
    then have diff: "p mod 8 \<le> i mod 8 \<Longrightarrow> i mod 8 - p mod 8 = i - p \<and> p \<le> i"
      "i mod 8 < p mod 8 \<Longrightarrow> i < p"
      "(i mod 8 < p mod 8 + length ns) = (i < p + length ns)"
      by auto
    have "bit_at ?buf' i \<longleftrightarrow> bit_at buf1 i \<or> bit w (7 - i mod 8)"
      using True l1 by (simp add: bit_at_def bit_or_iff)
    also have "\<dots> \<longleftrightarrow> (i < p \<and> bits ! i) \<or>
        (p mod 8 \<le> i mod 8 \<and> i mod 8 < p mod 8 + length ns \<and> ns ! (i mod 8 - p mod 8))"
      using old[OF i] w[OF j] by simp
    finally show ?thesis
      using diff p by (cases "p mod 8 \<le> i mod 8") (auto simp: nth_append)
  qed
  show ?thesis
    unfolding packed_def using new l1 l2 p by simp
qed

lemma chunk_shift:
  fixes m j k :: nat
  assumes "m \<le> j" "j < m + k" "k \<le> 8 - m"
  shows "7 - j - (8 - m - k) = k - 1 - (j - m)" "8 - m - k \<le> 7 - j"
  using assms by linarith+

lemma chunk_shift_out:
  fixes m j k :: nat
  assumes "j < 8" "k \<le> 8 - m" "\<not> (m \<le> j \<and> j < m + k)"
  shows "\<not> (8 - m - k \<le> 7 - j \<and> 7 - j - (8 - m - k) < k)"
  using assms by linarith

text \<open>One round of the writing loop appends the next chunk of the value.\<close>

lemma write_step_packed:
  assumes pk: "packed (bb_buffer b) bits" and pos: "bb_bit_pos b = length bits"
    and r: "0 < remaining"
  defines "k \<equiv> write_chunk remaining b"
  shows "packed (bb_buffer (write_step val remaining b))
           (bits @ msb_bits k (drop_bit (remaining - k) val))"
    and "bb_bit_pos (write_step val remaining b) = length bits + k"
proof -
  let ?p = "length bits"
  have k: "0 < k" "k \<le> 8 - ?p mod 8" "k \<le> remaining" "k \<le> 8"
    using r pos by (auto simp: k_def write_chunk_def)
  define v where "v = (if remaining - k < 64
      then drop_bit (remaining - k) val AND (push_bit k 1 - 1) else 0)"
  have bv: "bit v i \<longleftrightarrow> i < k \<and> bit val (remaining - k + i)" for i
    using k bit_imp_le_length[of val "remaining - k + i"]
    by (auto simp: v_def bit_and_iff bit_mask_u64 bit_drop_bit_eq)
  have w: "bit (push_bit (8 - ?p mod 8 - k) (ucast v :: u8)) (7 - j) \<longleftrightarrow>
      ?p mod 8 \<le> j \<and> j < ?p mod 8 + length (msb_bits k (drop_bit (remaining - k) val)) \<and>
      msb_bits k (drop_bit (remaining - k) val) ! (j - ?p mod 8)" if j: "j < 8" for j
  proof -
    have m: "?p mod 8 < 8" by simp
    have "bit (push_bit (8 - ?p mod 8 - k) (ucast v :: u8)) (7 - j)
        \<longleftrightarrow> 8 - ?p mod 8 - k \<le> 7 - j \<and> bit v (7 - j - (8 - ?p mod 8 - k))"
      by (auto simp: bit_push_bit_iff bit_ucast_iff)
    also have "\<dots> \<longleftrightarrow> ?p mod 8 \<le> j \<and> j < ?p mod 8 + k \<and> bit val (remaining - k + (k - 1 - (j - ?p mod 8)))"
    proof (cases "?p mod 8 \<le> j \<and> j < ?p mod 8 + k")
      case True
      then have e: "7 - j - (8 - ?p mod 8 - k) = k - 1 - (j - ?p mod 8)"
        using k by (intro chunk_shift) auto
      have "8 - ?p mod 8 - k \<le> 7 - j" and "k - 1 - (j - ?p mod 8) < k"
        using True k by (intro chunk_shift, auto)
      then show ?thesis unfolding e bv using True by blast
    next
      case False
      then have "\<not> (8 - ?p mod 8 - k \<le> 7 - j \<and> 7 - j - (8 - ?p mod 8 - k) < k)"
        using chunk_shift_out[of j "?p mod 8" k] j k by auto
      then show ?thesis using False by (auto simp: bv)
    qed
    also have "\<dots> \<longleftrightarrow> ?p mod 8 \<le> j \<and> j < ?p mod 8 + k \<and>
        msb_bits k (drop_bit (remaining - k) val) ! (j - ?p mod 8)"
      using k by (auto simp: bit_drop_bit_eq)
    finally show ?thesis by simp
  qed
  have "packed (bb_buffer (write_step val remaining b))
           (bits @ msb_bits k (drop_bit (remaining - k) val))"
    using packed_append[OF pk _ _ refl refl w] k pos
    by (simp add: write_step_def Let_def k_def[symmetric] v_def padded_def)
  then show "packed (bb_buffer (write_step val remaining b))
           (bits @ msb_bits k (drop_bit (remaining - k) val))" .
  show "bb_bit_pos (write_step val remaining b) = length bits + k"
    by (simp add: write_step_def Let_def k_def pos)
qed

lemma write_step_frame [simp]:
  "bb_measure_only (write_step val r b) = bb_measure_only b"
  "bb_unpadded_length (write_step val r b) = bb_unpadded_length b"
  "bb_read_pos (write_step val r b) = bb_read_pos b"
  by (simp_all add: write_step_def Let_def)

lemma bit_next_val: "i < remaining \<Longrightarrow> bit (next_val val remaining) i \<longleftrightarrow> bit val i"
  using bit_imp_le_length[of val i]
  by (auto simp: next_val_def bit_and_iff bit_mask_u64)

lemma write_loop_packed:
  assumes "packed (bb_buffer b) bits" and "bb_bit_pos b = length bits"
  shows "packed (bb_buffer (write_loop val remaining b)) (bits @ msb_bits remaining val)
    \<and> bb_bit_pos (write_loop val remaining b) = length bits + remaining
    \<and> bb_measure_only (write_loop val remaining b) = bb_measure_only b
    \<and> bb_unpadded_length (write_loop val remaining b) = bb_unpadded_length b"
  using assms
proof (induction val remaining b arbitrary: bits rule: write_loop.induct)
  case (1 val remaining b)
  show ?case
  proof (cases "remaining = 0")
    case True
    then show ?thesis using 1 by (simp add: write_loop.simps)
  next
    case False
    define k where "k = write_chunk remaining b"
    define bits' where "bits' = bits @ msb_bits k (drop_bit (remaining - k) val)"
    have k: "k \<le> remaining" by (simp add: k_def write_chunk_def)
    have st: "packed (bb_buffer (write_step val remaining b)) bits'"
      "bb_bit_pos (write_step val remaining b) = length bits'"
      using write_step_packed[OF "1.prems", of remaining val] False
      by (simp_all add: bits'_def k_def)
    have "msb_bits (remaining - k) (next_val val (remaining - k)) = msb_bits (remaining - k) val"
      by (rule msb_bits_cong) (rule bit_next_val)
    then have eq: "bits' @ msb_bits (remaining - k) (next_val val (remaining - k))
        = bits @ msb_bits remaining val"
      using msb_bits_split[OF k, of val] by (simp add: bits'_def)
    show ?thesis
      using "1.IH"[OF False refl st[unfolded k_def]] k eq False
      by (simp add: write_loop.simps[of val remaining b] Let_def k_def[symmetric] bits'_def)
  qed
qed

lemma write_bits_optimized_rep:
  assumes "writer_rep b bits"
  shows "\<exists>b'. write_bits_optimized v n b = (Inr (), b') \<and> writer_rep b' (bits @ msb_bits n v)"
  using assms write_loop_packed[of b bits v n]
  by (auto simp: writer_rep_def write_bits_optimized_def Let_def)

lemma packed_append_bytes:
  assumes "packed buf bits" and "length bits mod 8 = 0"
  shows "packed (buf @ bs) (bits @ bytes_bits bs)"
proof -
  let ?p = "length bits"
  have p: "?p = 8 * length buf"
    using assms by (auto simp: packed_def elim!: dvdE simp: mod_eq_0_iff_dvd)
  have "bit_at (buf @ bs) i \<longleftrightarrow> (bits @ bytes_bits bs) ! i" if i: "i < 8 * (length buf + length bs)" for i
  proof (cases "i < ?p")
    case True
    with p have "i div 8 < length buf" by simp
    with True assms p show ?thesis
      by (simp add: packed_def bit_at_def nth_append)
  next
    case False
    then obtain j where j: "i = 8 * length buf + j"
      using p by (metis le_Suc_ex not_less)
    with i p show ?thesis
      by (simp add: bit_at_def nth_append)
  qed
  then show ?thesis
    using p by (simp add: packed_def)
qed

lemma bytes_bits_be:
  "bytes_bits (map (\<lambda>i. ucast (drop_bit (8 * (n - 1 - i)) v AND 0xFF)) [0..<n]) = msb_bits (n * 8) v"
  (is "bytes_bits ?bs = _")
proof (rule nth_equalityI)
  fix i assume i: "i < length (bytes_bits ?bs)"
  then have d: "i div 8 < n" by simp
  have e: "8 * (n - 1 - i div 8) + (7 - i mod 8) = n * 8 - 1 - i"
  proof -
    have "i = 8 * (i div 8) + i mod 8" "i mod 8 < 8" by simp_all
    with d show ?thesis by (simp add: diff_mult_distrib2)
  qed
  have "7 - i mod 8 < 8"
    by (rule le_less_trans[OF diff_le_self]) simp
  then have ff: "bit (0xFF :: u64) (7 - i mod 8)" "7 - i mod 8 < 8"
    using bit_mask_u64[of 8 "7 - i mod 8"] by simp_all
  show "bytes_bits ?bs ! i = msb_bits (n * 8) v ! i"
    using i d e ff
    by (simp add: bit_at_def bit_ucast_iff bit_and_iff bit_drop_bit_eq mult.commute)
qed simp

lemma write_bytes_fast_rep:
  assumes "writer_rep b bits" and "length bits mod 8 = 0"
  shows "\<exists>b'. write_bytes_fast v n b = (Inr (), b') \<and> writer_rep b' (bits @ msb_bits (n * 8) v)"
proof -
  have "packed (bb_buffer b) bits" using assms by (simp add: writer_rep_def)
  from packed_append_bytes[OF this assms(2), of
      "map (\<lambda>i. ucast (drop_bit (8 * (n - 1 - i)) v AND 0xFF)) [0..<n]", unfolded bytes_bits_be]
  show ?thesis
    using assms by (simp add: writer_rep_def write_bytes_fast_def skip_bits_def)
qed

theorem write_bits_rep:
  assumes "writer_rep b bits" and "n \<le> 64"
  shows "\<exists>b'. write_bits v n b = (Inr (), b') \<and> writer_rep b' (bits @ msb_bits n v)"
proof -
  define v' where "v' = (if n \<ge> 64 then v else v AND (push_bit n 1 - 1))"
  have eq: "msb_bits n v' = msb_bits n v"
    by (rule msb_bits_cong) (auto simp: v'_def bit_and_iff bit_mask_u64)
  show ?thesis
  proof (cases "n = 0")
    case True
    then show ?thesis using assms by (simp add: write_bits_def)
  next
    case False
    show ?thesis
    proof (cases "bb_bit_pos b mod 8 = 0 \<and> n mod 8 = 0")
      case True
      then have "length bits mod 8 = 0" "n div 8 * 8 = n"
        using assms by (auto simp: writer_rep_def)
      with True False assms(2) eq show ?thesis
        using write_bytes_fast_rep[OF assms(1), of v' "n div 8"]
        unfolding write_bits_def v'_def[symmetric] by simp
    next
      case notaligned: False
      then show ?thesis
        using False assms(2) eq write_bits_optimized_rep[OF assms(1), of v' n]
        unfolding write_bits_def v'_def[symmetric] by auto
    qed
  qed
qed

lemma write_bits_too_wide: "n > 64 \<Longrightarrow> write_bits v n b = (Inl InvalidInput, b)"
  by (simp add: write_bits_def)

lemma write_bit_rep:
  assumes "writer_rep b bits"
  shows "\<exists>b'. write_bit v b = (Inr (), b') \<and> writer_rep b' (bits @ [v])"
proof -
  let ?p = "length bits"
  let ?buf1 = "padded (bb_buffer b) ?p"
  let ?w = "if v then push_bit (7 - ?p mod 8) 1 else (0 :: u8)"
  have pk: "packed (bb_buffer b) bits" and pos: "bb_bit_pos b = ?p" and m: "\<not> bb_measure_only b"
    and u: "bb_unpadded_length b = ?p"
    using assms by (auto simp: writer_rep_def)
  have buf: "(if ?p div 8 \<ge> length (bb_buffer b) then bb_buffer b @ [0] else bb_buffer b) = ?buf1"
    using pk by (simp add: packed_def padded_def div8_ceil)
  have "packed (?buf1[?p div 8 := ?buf1 ! (?p div 8) OR ?w]) (bits @ [v])"
  proof (rule packed_append[OF pk _ _ refl refl])
    show "bit ?w (7 - j) = (?p mod 8 \<le> j \<and> j < ?p mod 8 + length [v] \<and> [v] ! (j - ?p mod 8))"
      if "j < 8" for j
    proof -
      have "?p mod 8 < 8" by simp
      with that have "7 - j = 7 - ?p mod 8 \<longleftrightarrow> j = ?p mod 8" by linarith
      then show ?thesis by (cases "j = ?p mod 8") (auto simp: bit_push_bit_iff bit_1_iff bit_exp_iff)
    qed
  qed auto
  moreover have "?buf1 ! (?p div 8) OR ?w =
      (if v then ?buf1 ! (?p div 8) OR push_bit (7 - ?p mod 8) 1
       else ?buf1 ! (?p div 8) AND NOT (push_bit (7 - ?p mod 8) 1))"
  proof -
    have "\<not> bit (?buf1 ! (?p div 8)) (7 - ?p mod 8)"
      using bit_at_padded[OF pk, of ?p] length_padded[OF pk] by (simp add: bit_at_def)
    then show ?thesis
      by (auto simp: bit_and_iff bit_not_iff bit_push_bit_iff bit_1_iff bit_exp_iff intro!: bit_word_eqI)
  qed
  ultimately show ?thesis
    using pos m u by (cases v) (simp_all add: write_bit_def Let_def buf skip_bits_def writer_rep_def)
qed

text \<open>\<open>flush\<close> pads with zero bits, so the bytes handed out pack the bits written.\<close>

lemma flush_loop_rep:
  assumes "writer_rep b bits"
  shows "\<exists>k. writer_rep (flush_loop b) (bits @ replicate k False) \<and> (length bits + k) mod 8 = 0 \<and> k < 8"
  using assms
proof (induction b arbitrary: bits rule: flush_loop.induct)
  case (1 b)
  have pos: "bb_bit_pos b = length bits" using "1.prems" by (simp add: writer_rep_def)
  show ?case
  proof (cases "bb_bit_pos b mod 8 = 0")
    case True
    then show ?thesis
      using "1.prems" pos by (intro exI[of _ 0]) (simp add: flush_loop.simps)
  next
    case False
    from write_bit_rep[OF "1.prems", of False]
    have "writer_rep (snd (write_bit False b)) (bits @ [False])" by auto
    from "1.IH"[OF False this] obtain k where
      "writer_rep (flush_loop (snd (write_bit False b))) ((bits @ [False]) @ replicate k False) \<and>
       (length (bits @ [False]) + k) mod 8 = 0 \<and> k < 8" ..
    then have k: "writer_rep (flush_loop (snd (write_bit False b))) ((bits @ [False]) @ replicate k False)"
      "(length (bits @ [False]) + k) mod 8 = 0" "k < 8" by simp_all
    have "Suc k < 8"
    proof (rule ccontr)
      assume "\<not> Suc k < 8"
      with k(3) have "k = 7" by simp
      with k(2) False pos show False by simp
    qed
    with k False show ?thesis
      by (intro exI[of _ "Suc k"]) (simp add: flush_loop.simps[of b])
  qed
qed

definition pad_bits :: "nat \<Rightarrow> nat" where
  "pad_bits n = (8 - n mod 8) mod 8"

lemma pad_bits_unique:
  assumes "k < 8" and "(n + k) mod 8 = 0"
  shows "k = pad_bits n"
proof -
  obtain q a where n: "n = 8 * q + a" "a < 8" "n mod 8 = a"
    by (metis mod_less_divisor mult_div_mod_eq zero_less_numeral)
  with assms have "(a + k) mod 8 = 0" by (simp add: add.assoc)
  then obtain j where "a + k = 8 * j" by (metis dvdE mod_0_imp_dvd)
  with assms n have "a + k = 0 \<or> a + k = 8" by (cases j) auto
  with n assms(1) show ?thesis by (auto simp: pad_bits_def)
qed

lemma packed_full: "packed buf bits \<Longrightarrow> length bits mod 8 = 0 \<Longrightarrow> bytes_bits buf = bits"
proof (rule nth_equalityI)
  assume pk: "packed buf bits" and z: "length bits mod 8 = 0"
  then show l: "length (bytes_bits buf) = length bits"
    by (auto simp: packed_def div8_ceil)
  show "bytes_bits buf ! i = bits ! i" if "i < length (bytes_bits buf)" for i
    using that pk l by (simp add: packed_def)
qed

lemma into_bytes_rep:
  assumes "writer_rep b bits"
  obtains bs where "into_bytes True b = Inr bs"
    and "bytes_bits bs = bits @ replicate (pad_bits (length bits)) False"
proof -
  from flush_loop_rep[OF assms] obtain k where
    "writer_rep (flush_loop b) (bits @ replicate k False) \<and> (length bits + k) mod 8 = 0 \<and> k < 8" ..
  then have k: "writer_rep (flush_loop b) (bits @ replicate k False)"
    "(length bits + k) mod 8 = 0" "k < 8" by simp_all
  then have "bytes_bits (bb_buffer (flush_loop b)) = bits @ replicate k False"
    by (intro packed_full) (auto simp: writer_rep_def)
  with k pad_bits_unique[OF k(3,2)] show ?thesis
    by (intro that[of "bb_buffer (flush_loop b)"]) (simp_all add: into_bytes_def flush_def)
qed

section \<open>What a buffer being read has left\<close>

definition reader_rep :: "bit_buffer \<Rightarrow> bool list \<Rightarrow> bool" where
  "reader_rep b rest \<longleftrightarrow>
     bb_read_pos b \<le> 8 * length (bb_buffer b) \<and> rest = drop (bb_read_pos b) (bytes_bits (bb_buffer b))"

definition advance :: "nat \<Rightarrow> bit_buffer \<Rightarrow> bit_buffer" where
  "advance n b = b\<lparr>bb_read_pos := bb_read_pos b + n\<rparr>"

lemma advance_0 [simp]: "advance 0 b = b"
  by (simp add: advance_def)

lemma advance_advance [simp]: "advance m (advance n b) = advance (n + m) b"
  by (simp add: advance_def add.assoc)

lemma advance_frame [simp]:
  "bb_buffer (advance n b) = bb_buffer b" "bb_read_pos (advance n b) = bb_read_pos b + n"
  by (simp_all add: advance_def)

lemma reader_rep_from_bytes: "reader_rep (BitBuffer_from_bytes bs) (bytes_bits bs)"
  by (simp add: reader_rep_def BitBuffer_from_bytes_def)

lemma reader_rep_advance:
  "reader_rep b rest \<Longrightarrow> n \<le> length rest \<Longrightarrow> reader_rep (advance n b) (drop n rest)"
  by (auto simp: reader_rep_def add.commute)

text \<open>The segment of \<open>n\<close> bits at position \<open>p\<close> and its value.\<close>

definition bit_seg :: "bytes \<Rightarrow> nat \<Rightarrow> nat \<Rightarrow> bool list" where
  "bit_seg bs p n = map (\<lambda>i. bit_at bs (p + i)) [0..<n]"

lemma length_bit_seg [simp]: "length (bit_seg bs p n) = n"
  by (simp add: bit_seg_def)

lemma nth_bit_seg [simp]: "i < n \<Longrightarrow> bit_seg bs p n ! i = bit_at bs (p + i)"
  by (simp add: bit_seg_def)

lemma bit_seg_take:
  assumes "reader_rep b rest" and "n \<le> length rest"
  shows "bit_seg (bb_buffer b) (bb_read_pos b) n = take n rest"
  using assms by (intro nth_equalityI) (auto simp: reader_rep_def)

lemma bit_bits_val_seg:
  "bit (bits_val (bit_seg bs p n)) i \<longleftrightarrow> i < 64 \<and> i < n \<and> bit_at bs (p + (n - 1 - i))"
  by (auto simp: bit_bits_val)

lemma bits_val_seg_split:
  assumes "k \<le> n" and "n \<le> 64"
  shows "bits_val (bit_seg bs p n) =
           push_bit (n - k) (bits_val (bit_seg bs p k)) OR bits_val (bit_seg bs (p + k) (n - k))"
proof (rule bit_word_eqI)
  fix i assume "i < LENGTH(64)"
  then have "i < 64" by simp
  show "bit (bits_val (bit_seg bs p n)) i \<longleftrightarrow>
      bit (push_bit (n - k) (bits_val (bit_seg bs p k)) OR bits_val (bit_seg bs (p + k) (n - k))) i"
  proof (cases "i < n - k")
    case True
    then have "p + k + (n - k - 1 - i) = p + (n - 1 - i)" "i < n" using assms by simp_all
    with True \<open>i < 64\<close> show ?thesis
      by (simp add: bit_bits_val_seg bit_or_iff bit_push_bit_iff)
  next
    case False
    show ?thesis
    proof (cases "i < n")
      case True
      then have "k - 1 - (i - (n - k)) = n - 1 - i" "i - (n - k) < k" "i - (n - k) < 64"
        using False assms by simp_all
      with True False \<open>i < 64\<close> show ?thesis
        by (simp add: bit_bits_val_seg bit_or_iff bit_push_bit_iff)
    next
      case ge: False
      then have "\<not> i - (n - k) < k" using assms by simp
      with ge show ?thesis
        by (auto simp: bit_bits_val_seg bit_or_iff bit_push_bit_iff)
    qed
  qed
qed

lemma same_byte:
  fixes p x :: nat
  assumes "p mod 8 + x < 8"
  shows "(p + x) div 8 = p div 8" "(p + x) mod 8 = p mod 8 + x"
proof -
  obtain q a where "p = 8 * q + a" "p mod 8 = a" "p div 8 = q"
    by (metis mult_div_mod_eq)
  with assms show "(p + x) div 8 = p div 8" "(p + x) mod 8 = p mod 8 + x"
    by (simp_all add: add.assoc)
qed

lemma read_chunk_bits:
  assumes "k \<le> 8 - p mod 8" and "0 < k"
  shows "ucast (drop_bit (8 - p mod 8 - k) (bs ! (p div 8))
            AND (if k \<ge> 8 then 0xFF else push_bit k 1 - 1 :: u8))
         = bits_val (bit_seg bs p k)" (is "ucast (?d AND ?m) = _")
proof (rule bit_word_eqI)
  fix i assume i: "i < LENGTH(64)"
  have m: "bit ?m i \<longleftrightarrow> i < k \<and> i < 8" if "k \<le> 8"
  proof (cases "k = 8")
    case True
    then show ?thesis using bit_mask_iff[of 8 i, where ?'a = u8] by (simp add: mask_eq_exp_minus_1)
  next
    case False
    then show ?thesis using that bit_mask_iff[of k i, where ?'a = u8]
      by (simp add: mask_eq_exp_minus_1) auto
  qed
  have "bit (ucast (?d AND ?m) :: u64) i \<longleftrightarrow> i < k \<and> bit (bs ! (p div 8)) (8 - p mod 8 - k + i)"
    using assms m i by (auto simp: bit_ucast_iff bit_and_iff bit_drop_bit_eq)
  also have "\<dots> \<longleftrightarrow> i < k \<and> bit_at bs (p + (k - 1 - i))"
  proof (cases "i < k")
    case True
    have "p mod 8 < 8" by simp
    with True assms have "p mod 8 + (k - 1 - i) < 8" by linarith
    then have "(p + (k - 1 - i)) div 8 = p div 8" "(p + (k - 1 - i)) mod 8 = p mod 8 + (k - 1 - i)"
      using same_byte by blast+
    moreover have "7 - (p mod 8 + (k - 1 - i)) = 8 - p mod 8 - k + i"
      using True assms \<open>p mod 8 + (k - 1 - i) < 8\<close> by simp
    ultimately show ?thesis
      using True by (simp add: bit_at_def)
  qed auto
  also have "\<dots> \<longleftrightarrow> bit (bits_val (bit_seg bs p k)) i"
    using assms i by (auto simp: bit_bits_val)
  finally show "bit (ucast (?d AND ?m) :: u64) i \<longleftrightarrow> bit (bits_val (bit_seg bs p k)) i" .
qed

text \<open>One round of the reading loop, when its byte is there.\<close>

lemma read_loop_step:
  assumes "remaining \<noteq> 0" and "remaining \<le> 64" and "bb_read_pos b div 8 < length (bb_buffer b)"
  defines "k \<equiv> read_chunk remaining b"
  shows "read_loop remaining v b = read_loop (remaining - k)
    (v OR push_bit (remaining - k) (bits_val (bit_seg (bb_buffer b) (bb_read_pos b) k))) (advance k b)"
proof -
  have k: "0 < k" "k \<le> 8 - bb_read_pos b mod 8" "remaining - k < 64"
    using assms by (auto simp: k_def read_chunk_def)
  with assms(1,3) show ?thesis
    using read_chunk_bits[OF k(2,1), of "bb_buffer b"]
    by (simp add: read_loop.simps[of remaining v b] Let_def k_def[symmetric] advance_def)
qed

lemma read_loop_seg:
  assumes "remaining \<le> 64" and "bb_read_pos b + remaining \<le> 8 * length (bb_buffer b)"
  shows "read_loop remaining v b =
    (Inr (v OR bits_val (bit_seg (bb_buffer b) (bb_read_pos b) remaining)), advance remaining b)"
  using assms
proof (induction remaining arbitrary: v b rule: less_induct)
  case (less remaining)
  show ?case
  proof (cases "remaining = 0")
    case True
    then show ?thesis by (simp add: read_loop.simps bit_seg_def)
  next
    case False
    define k where "k = read_chunk remaining b"
    have k: "k \<le> remaining" "remaining - k < remaining"
      using False read_chunk_less[of remaining b] by (auto simp: k_def read_chunk_def)
    have "bb_read_pos b div 8 < length (bb_buffer b)"
      using less.prems(2) False less_mult_imp_div_less[of "bb_read_pos b" "length (bb_buffer b)" 8]
      by simp
    from read_loop_step[OF False less.prems(1) this, of v]
    have "read_loop remaining v b = read_loop (remaining - k)
      (v OR push_bit (remaining - k) (bits_val (bit_seg (bb_buffer b) (bb_read_pos b) k))) (advance k b)"
      by (simp add: k_def)
    also have "\<dots> = (Inr ((v OR push_bit (remaining - k) (bits_val (bit_seg (bb_buffer b) (bb_read_pos b) k)))
        OR bits_val (bit_seg (bb_buffer b) (bb_read_pos b + k) (remaining - k))), advance remaining b)"
      using k less.prems by (subst less.IH) auto
    also have "\<dots> = (Inr (v OR bits_val (bit_seg (bb_buffer b) (bb_read_pos b) remaining)), advance remaining b)"
      using bits_val_seg_split[OF k(1) less.prems(1), of "bb_buffer b" "bb_read_pos b"]
      by (simp add: ac_simps)
    finally show ?thesis .
  qed
qed

lemma read_loop_eof:
  assumes "remaining \<le> 64" and "bb_read_pos b \<le> 8 * length (bb_buffer b)"
    and "8 * length (bb_buffer b) < bb_read_pos b + remaining"
  shows "\<exists>b'. read_loop remaining v b = (Inl UnexpectedEof, b')"
  using assms
proof (induction remaining arbitrary: v b rule: less_induct)
  case (less remaining)
  have r: "remaining \<noteq> 0" using less.prems by auto
  show ?case
  proof (cases "bb_read_pos b div 8 < length (bb_buffer b)")
    case False
    then show ?thesis using r by (simp add: read_loop.simps[of remaining v b] Let_def)
  next
    case True
    define k where "k = read_chunk remaining b"
    have "bb_read_pos b + k \<le> 8 * length (bb_buffer b)"
    proof -
      have "bb_read_pos b = 8 * (bb_read_pos b div 8) + bb_read_pos b mod 8" "bb_read_pos b mod 8 < 8"
        by simp_all
      then show ?thesis using True unfolding k_def read_chunk_def by linarith
    qed
    with less.prems less.IH[of "remaining - k" "advance k b"] read_chunk_less[OF r, of b] show ?thesis
      unfolding read_loop_step[OF r less.prems(1) True] k_def[symmetric] by auto
  qed
qed

lemma bit_foldl_or:
  "bit (foldl (\<lambda>v i. v OR f i) (a :: u64) xs) j \<longleftrightarrow> bit a j \<or> (\<exists>i\<in>set xs. bit (f i) j)"
  by (induction xs arbitrary: a) (auto simp: bit_or_iff)

lemma bit_at_offset: "e < 8 \<Longrightarrow> bit_at bs (8 * x + e) = bit (bs ! x) (7 - e)"
  by (simp add: bit_at_def)

lemma bit_at_byte: "d < 8 \<Longrightarrow> bit_at bs (8 * x + (7 - d)) = bit (bs ! x) d"
  using bit_at_offset[of "7 - d" bs x] by (simp del: diff_diff_cancel add: diff_diff_cancel)

lemma read_bytes_fast_seg:
  assumes "bb_read_pos b mod 8 = 0" and "n \<le> 8" and "bb_read_pos b + n * 8 \<le> 8 * length (bb_buffer b)"
  shows "read_bytes_fast n b =
    (Inr (bits_val (bit_seg (bb_buffer b) (bb_read_pos b) (n * 8))), advance (n * 8) b)"
proof -
  let ?s = "bb_read_pos b div 8" and ?buf = "bb_buffer b"
  have p: "bb_read_pos b = 8 * ?s" using assms(1) by auto
  have "foldl (\<lambda>value i. value OR push_bit (8 * (n - 1 - i)) (ucast (?buf ! (?s + i)))) 0 [0..<n]
      = bits_val (bit_seg ?buf (bb_read_pos b) (n * 8))" (is "?l = ?r")
  proof (rule bit_word_eqI)
    fix j assume "j < LENGTH(64)"
    then have j: "j < 64" by simp
    obtain c d where cd: "j = 8 * c + d" "d < 8" "j div 8 = c" "j mod 8 = d"
      by (metis mod_less_divisor mult_div_mod_eq zero_less_numeral)
    have byte: "bit (push_bit (8 * m) (ucast x :: u64)) j \<longleftrightarrow> m = c \<and> bit (x :: u8) d" for m x
    proof (cases "m = c")
      case True
      then show ?thesis using cd j by (simp add: bit_push_bit_iff bit_ucast_iff)
    next
      case False
      then have "\<not> (8 * m \<le> j \<and> j - 8 * m < 8)" using cd by auto
      then show ?thesis
        using False by (auto simp: bit_push_bit_iff bit_ucast_iff dest: bit_imp_le_length)
    qed
    have "bit ?l j \<longleftrightarrow> (\<exists>i<n. n - 1 - i = c \<and> bit (?buf ! (?s + i)) d)"
      by (auto simp: bit_foldl_or byte simp del: One_nat_def)
    also have "\<dots> \<longleftrightarrow> c < n \<and> bit (?buf ! (?s + (n - 1 - c))) d"
    proof
      assume "c < n \<and> bit (?buf ! (?s + (n - 1 - c))) d"
      then show "\<exists>i<n. n - 1 - i = c \<and> bit (?buf ! (?s + i)) d"
        by (intro exI[of _ "n - 1 - c"]) auto
    qed auto
    also have "\<dots> \<longleftrightarrow> j < n * 8 \<and> bit_at ?buf (bb_read_pos b + (n * 8 - 1 - j))"
    proof (cases "c < n")
      case True
      then have "bb_read_pos b + (n * 8 - 1 - j) = 8 * (?s + (n - 1 - c)) + (7 - d)"
        using p cd by (simp add: algebra_simps)
      with True cd bit_at_byte[OF cd(2)] show ?thesis by simp
    next
      case False
      with cd show ?thesis by auto
    qed
    finally show "bit ?l j \<longleftrightarrow> bit ?r j"
      using j by (simp add: bit_bits_val_seg)
  qed
  then show ?thesis
    using assms(3) p by (simp add: read_bytes_fast_def Let_def advance_def)
qed

lemma read_bytes_fast_eof:
  "8 * length (bb_buffer b) < bb_read_pos b + n * 8 \<Longrightarrow> bb_read_pos b mod 8 = 0 \<Longrightarrow>
   read_bytes_fast n b = (Inl UnexpectedEof, b)"
  by (auto simp: read_bytes_fast_def Let_def elim!: dvdE)

theorem read_bits_rep:
  assumes "reader_rep b rest" and "n \<le> length rest" and "n \<le> 64"
  shows "read_bits n b = (Inr (bits_val (take n rest)), advance n b)"
    and "reader_rep (advance n b) (drop n rest)"
proof -
  have le: "bb_read_pos b + n \<le> 8 * length (bb_buffer b)"
    using assms by (auto simp: reader_rep_def)
  have seg: "bit_seg (bb_buffer b) (bb_read_pos b) n = take n rest"
    using assms(1,2) by (rule bit_seg_take)
  consider "n = 0" | "n \<noteq> 0" "bb_read_pos b mod 8 = 0 \<and> n mod 8 = 0"
    | "n \<noteq> 0" "\<not> (bb_read_pos b mod 8 = 0 \<and> n mod 8 = 0)"
    by blast
  then show "read_bits n b = (Inr (bits_val (take n rest)), advance n b)"
  proof cases
    case 1
    then show ?thesis by (simp add: read_bits_def)
  next
    case 2
    then have "n div 8 * 8 = n" "n div 8 \<le> 8" using assms(3) by auto
    with 2 le seg assms(3) show ?thesis
      using read_bytes_fast_seg[of b "n div 8"] by (simp add: read_bits_def)
  next
    case 3
    with le seg assms(3) show ?thesis
      using read_loop_seg[of n b 0] by (auto simp: read_bits_def read_bits_optimized_def)
  qed
  show "reader_rep (advance n b) (drop n rest)"
    using assms(1,2) by (rule reader_rep_advance)
qed

theorem read_bits_eof:
  assumes "reader_rep b rest" and "length rest < n" and "n \<le> 64"
  shows "\<exists>b'. read_bits n b = (Inl UnexpectedEof, b')"
proof -
  have lt: "8 * length (bb_buffer b) < bb_read_pos b + n" and le: "bb_read_pos b \<le> 8 * length (bb_buffer b)"
    using assms by (auto simp: reader_rep_def)
  show ?thesis
  proof (cases "bb_read_pos b mod 8 = 0 \<and> n mod 8 = 0")
    case True
    then have "n div 8 * 8 = n" by auto
    with True lt assms read_bytes_fast_eof[of b "n div 8"] show ?thesis
      by (auto simp: read_bits_def)
  next
    case False
    with read_loop_eof[OF assms(3) le lt, of 0] assms show ?thesis
      by (auto simp: read_bits_def read_bits_optimized_def)
  qed
qed

lemma read_bit_rep:
  assumes "reader_rep b (v # rest)"
  shows "read_bit b = (Inr v, advance 1 b)" and "reader_rep (advance 1 b) rest"
proof -
  have le: "bb_read_pos b < 8 * length (bb_buffer b)"
    using assms by (auto simp: reader_rep_def intro: ccontr)
  have v: "v = bit_at (bb_buffer b) (bb_read_pos b)"
    using assms le by (auto simp: reader_rep_def Cons_nth_drop_Suc[symmetric])
  have "bb_read_pos b div 8 < length (bb_buffer b)"
    using le less_mult_imp_div_less[of "bb_read_pos b" "length (bb_buffer b)" 8] by simp
  moreover have "(x AND push_bit i 1 \<noteq> 0) = bit x i" if "i < 8" for x :: u8 and i
    using that bit_iff_and_push_bit_not_eq_0 [of x i] by simp
  ultimately show "read_bit b = (Inr v, advance 1 b)"
    using v by (simp add: read_bit_def Let_def bit_at_def advance_def)
  show "reader_rep (advance 1 b) rest"
    using reader_rep_advance[OF assms, of 1] by simp
qed

lemma read_bit_eof: "reader_rep b [] \<Longrightarrow> read_bit b = (Inl UnexpectedEof, b)"
  by (auto simp: reader_rep_def read_bit_def Let_def)

section \<open>The measuring mode\<close>

text \<open>
  In measuring mode nothing is stored; the counters advance exactly as far as the writing mode
  would, so \<open>serialized_size_bits\<close> predicts the number of bits.
\<close>

definition measure_rep :: "bit_buffer \<Rightarrow> nat \<Rightarrow> bool" where
  "measure_rep b n \<longleftrightarrow> bb_measure_only b \<and> bb_bit_pos b = n \<and> bb_unpadded_length b = n"

lemma measure_rep_new: "measure_rep BitBuffer_measure 0"
  by (simp add: measure_rep_def BitBuffer_measure_def)

lemma write_bit_measure:
  "measure_rep b n \<Longrightarrow> \<exists>b'. write_bit v b = (Inr (), b') \<and> measure_rep b' (n + 1)"
  by (simp add: write_bit_def measure_rep_def skip_bits_def)

lemma write_bits_measure:
  assumes "measure_rep b n" and "k \<le> 64"
  shows "\<exists>b'. write_bits v k b = (Inr (), b') \<and> measure_rep b' (n + k)"
proof -
  have "k mod 8 = 0 \<Longrightarrow> k div 8 * 8 = k" by auto
  then show ?thesis
    using assms
    by (auto simp: write_bits_def write_bytes_fast_def write_bits_optimized_def measure_rep_def
        skip_bits_def Let_def)
qed

lemma serialized_size_written: "writer_rep b bits \<Longrightarrow> serialized_size_bits b = length bits"
  by (simp add: writer_rep_def serialized_size_bits_def)

lemma serialized_size_measured: "measure_rep b n \<Longrightarrow> serialized_size_bits b = n"
  by (simp add: measure_rep_def serialized_size_bits_def)

end
