(* ===== verification/Codec.thy ===== *)
theory Codec
  imports Bit_IO
begin

text \<open>
  The traits \<open>BitSerialize\<close> and \<open>BitDeserialize\<close> and their implementations for primitives
  (\<open>serialize/primitives.rs\<close>) and collections (\<open>serialize/collections.rs\<close>), and the two code
  snippets that \<open>#[derive(NetworkSerialize)]\<close> (\<open>gbnet_macros/src/lib.rs\<close>) emits for a field
  with a bit width.

  An implementation of the traits is a pair of a writer \<open>'a \<Rightarrow> unit bio\<close> and a reader
  \<open>'a bio\<close>. The contract between the two (locale \<open>bit_codec\<close>): on valid values the writer
  appends an encoding and the reader takes exactly that encoding off the front.
\<close>

section \<open>The contract of a codec\<close>

locale bit_codec =
  fixes ser :: "'a \<Rightarrow> unit bio"
    and des :: "'a bio"
    and enc :: "'a \<Rightarrow> bool list"
    and valid :: "'a \<Rightarrow> bool"
  assumes ser_rep: "valid x \<Longrightarrow> writer_rep b bits \<Longrightarrow>
      \<exists>b'. ser x b = (Inr (), b') \<and> writer_rep b' (bits @ enc x)"
    and des_rep: "valid x \<Longrightarrow> reader_rep b (enc x @ rest) \<Longrightarrow>
      \<exists>b'. des b = (Inr x, b') \<and> reader_rep b' rest"
begin

lemma ser_new:
  assumes "valid x"
  obtains b where "ser x BitBuffer_new = (Inr (), b)" and "writer_rep b (enc x)"
  using ser_rep[OF assms writer_rep_new] by auto

lemma des_from_bytes:
  assumes "valid x" and "bytes_bits bs = enc x @ rest"
  shows "fst (des (BitBuffer_from_bytes bs)) = Inr x"
proof -
  have "reader_rep (BitBuffer_from_bytes bs) (enc x @ rest)"
    using reader_rep_from_bytes[of bs] assms by simp
  from des_rep[OF assms(1) this] show ?thesis by auto
qed

text \<open>Writing into a fresh buffer, taking its bytes and reading them back gives the value.\<close>

lemma bytes_roundtrip:
  assumes "valid x"
  obtains b bs where "ser x BitBuffer_new = (Inr (), b)" and "into_bytes True b = Inr bs"
    and "length bs = (length (enc x) + 7) div 8"
    and "fst (des (BitBuffer_from_bytes bs)) = Inr x"
proof -
  obtain b where b: "ser x BitBuffer_new = (Inr (), b)" "writer_rep b (enc x)"
    using ser_new[OF assms] .
  obtain bs where bs: "into_bytes True b = Inr bs"
      "bytes_bits bs = enc x @ replicate (pad_bits (length (enc x))) False"
    using into_bytes_rep[OF b(2)] .
  have "8 * length bs = length (enc x) + pad_bits (length (enc x))"
    using arg_cong[OF bs(2), of length] by simp
  then have "length bs = (length (enc x) + 7) div 8"
    using div8_ceil[of "length (enc x)"] by (simp add: pad_bits_def split: if_splits)
  with b bs des_from_bytes[OF assms bs(2)] show ?thesis by (intro that)
qed

end

section \<open>Sequencing lemmas\<close>

lemma bio_bind_Inr [simp]: "m b = (Inr a, b') \<Longrightarrow> bio_bind m f b = f a b'"
  by (simp add: bio_bind_def)

lemma bio_bind_Inl [simp]: "m b = (Inl e, b') \<Longrightarrow> bio_bind m f b = (Inl e, b')"
  by (simp add: bio_bind_def)

lemma bio_then_Inr [simp]: "m b = (Inr a, b') \<Longrightarrow> bio_then m k b = k b'"
  by (simp add: bio_then_def)

lemma bio_then_Inl [simp]: "m b = (Inl e, b') \<Longrightarrow> bio_then m k b = (Inl e, b')"
  by (simp add: bio_then_def)

section \<open>Primitives\<close>

text \<open>
  \<open>impl_primitive_single_byte!\<close> and \<open>impl_primitive_multi_byte!\<close>: \<open>writer.write_bits(*self as
  u64, BITS)\<close> and \<open>reader.read_bits(BITS)? as T\<close>. Signed integers are words whose cast to
  \<open>u64\<close> sign-extends.
\<close>

definition ser_uint :: "nat \<Rightarrow> 'a::len word \<Rightarrow> unit bio" where
  "ser_uint bits x = write_bits (ucast x) bits"

definition des_uint :: "nat \<Rightarrow> 'a::len word bio" where
  "des_uint bits = bio_bind (read_bits bits) (\<lambda>v. bio_return (ucast v))"

definition ser_sint :: "nat \<Rightarrow> 'a::len word \<Rightarrow> unit bio" where
  "ser_sint bits x = write_bits (scast x) bits"

definition ser_bool :: "bool \<Rightarrow> unit bio" where
  "ser_bool x = write_bit x"

definition des_bool :: "bool bio" where
  "des_bool = read_bit"

definition enc_uint :: "nat \<Rightarrow> 'a::len word \<Rightarrow> bool list" where
  "enc_uint bits x = msb_bits bits (ucast x)"

lemma read_bits_msb:
  assumes "reader_rep b (msb_bits n v @ rest)" and "n \<le> 64"
  shows "read_bits n b = (Inr (take_bit n v), advance n b)" and "reader_rep (advance n b) rest"
  using read_bits_rep[OF assms(1), of n] assms(2) by (simp_all add: bits_val_msb_bits)

lemma uint_codec:
  assumes "LENGTH('a::len) = bits" and "bits \<le> 64"
  shows "bit_codec (ser_uint bits) (des_uint bits) (enc_uint bits) (\<lambda>_ :: 'a word. True)"
proof
  fix x :: "'a word" and b bs
  assume "writer_rep b bs"
  then show "\<exists>b'. ser_uint bits x b = (Inr (), b') \<and> writer_rep b' (bs @ enc_uint bits x)"
    using write_bits_rep assms(2) by (simp add: ser_uint_def enc_uint_def)
next
  fix x :: "'a word" and b rest
  assume "reader_rep b (enc_uint bits x @ rest)"
  note r = read_bits_msb[OF this[unfolded enc_uint_def] assms(2)]
  have "ucast (take_bit bits (ucast x :: u64)) = x"
    using assms by (intro bit_word_eqI) (auto simp: bit_ucast_iff bit_take_bit_iff)
  with r show "\<exists>b'. des_uint bits b = (Inr x, b') \<and> reader_rep b' rest"
    by (simp add: des_uint_def bio_return_def)
qed

lemma msb_bits_scast:
  "LENGTH('a::len) = n \<Longrightarrow> n \<le> 64 \<Longrightarrow> msb_bits n (scast (x :: 'a word)) = msb_bits n (ucast x)"
  by (rule msb_bits_cong)
    (auto simp: bit_signed_iff bit_ucast_iff min_def not_less_eq_eq
      intro: back_subst[of "bit x"] dest: le_less_Suc_eq)

lemma sint_codec:
  assumes "LENGTH('a::len) = bits" and "bits \<le> 64"
  shows "bit_codec (ser_sint bits) (des_uint bits) (enc_uint bits) (\<lambda>_ :: 'a word. True)"
proof
  fix x :: "'a word" and b bs
  assume "writer_rep b bs"
  then show "\<exists>b'. ser_sint bits x b = (Inr (), b') \<and> writer_rep b' (bs @ enc_uint bits x)"
    using write_bits_rep assms msb_bits_scast[OF assms, of x]
    by (simp add: ser_sint_def enc_uint_def) metis
next
  fix x :: "'a word" and b rest
  assume "reader_rep b (enc_uint bits x @ rest)"
  then show "\<exists>b'. des_uint bits b = (Inr x, b') \<and> reader_rep b' rest"
    by (rule bit_codec.des_rep[OF uint_codec[OF assms] TrueI])
qed

interpretation u8: bit_codec "ser_uint 8" "des_uint 8" "enc_uint 8" "\<lambda>_ :: u8. True"
  by (rule uint_codec) simp_all

interpretation u16: bit_codec "ser_uint 16" "des_uint 16" "enc_uint 16" "\<lambda>_ :: u16. True"
  by (rule uint_codec) simp_all

interpretation u32: bit_codec "ser_uint 32" "des_uint 32" "enc_uint 32" "\<lambda>_ :: u32. True"
  by (rule uint_codec) simp_all

interpretation u64: bit_codec "ser_uint 64" "des_uint 64" "enc_uint 64" "\<lambda>_ :: u64. True"
  by (rule uint_codec) simp_all

interpretation bool: bit_codec ser_bool des_bool "\<lambda>x. [x]" "\<lambda>_. True"
proof
  show "\<exists>b'. ser_bool x b = (Inr (), b') \<and> writer_rep b' (bits @ [x])"
    if "writer_rep b bits" for x b bits
    using write_bit_rep[OF that] by (simp add: ser_bool_def)
  show "\<exists>b'. des_bool b = (Inr x, b') \<and> reader_rep b' rest"
    if "reader_rep b ([x] @ rest)" for x b rest
    using read_bit_rep[of b x rest] that by (simp add: des_bool_def)
qed

section \<open>Collections\<close>

text \<open>\<open>(u64::BITS - n.leading_zeros())\<close>: the number of significant bits of \<open>n\<close>.\<close>

fun significant_bits :: "nat \<Rightarrow> nat" where
  "significant_bits n = (if n = 0 then 0 else Suc (significant_bits (n div 2)))"

declare significant_bits.simps [simp del]

definition DEFAULT_MAX_LEN :: nat where
  "DEFAULT_MAX_LEN = 65535"

lemma len_bits_default: "significant_bits DEFAULT_MAX_LEN = 16"
  by (simp add: DEFAULT_MAX_LEN_def significant_bits.simps)

text \<open>The loops \<open>for item in self.iter()\<close> and \<open>for _ in 0..len\<close>.\<close>

fun ser_items :: "('a \<Rightarrow> unit bio) \<Rightarrow> 'a list \<Rightarrow> unit bio" where
  "ser_items ser [] = bio_return ()"
| "ser_items ser (x # xs) = bio_then (ser x) (ser_items ser xs)"

fun des_items :: "'a bio \<Rightarrow> nat \<Rightarrow> 'a list bio" where
  "des_items des 0 = bio_return []"
| "des_items des (Suc n) = bio_bind des (\<lambda>x. bio_bind (des_items des n) (\<lambda>xs. bio_return (x # xs)))"

definition ser_vec :: "('a \<Rightarrow> unit bio) \<Rightarrow> 'a list \<Rightarrow> unit bio" where
  "ser_vec ser xs =
     (if length xs > DEFAULT_MAX_LEN then bio_fail InvalidData
      else bio_then (write_bits (of_nat (length xs)) (significant_bits DEFAULT_MAX_LEN))
                    (ser_items ser xs))"

definition des_vec :: "'a bio \<Rightarrow> 'a list bio" where
  "des_vec des =
     bio_bind (read_bits (significant_bits DEFAULT_MAX_LEN)) (\<lambda>v.
       if unat v > DEFAULT_MAX_LEN then bio_fail InvalidData else des_items des (unat v))"

text \<open>Well-formed UTF-8, the check of \<open>String::from_utf8\<close>.\<close>

definition cont :: "u8 \<Rightarrow> bool" where
  "cont b \<longleftrightarrow> 0x80 \<le> b \<and> b \<le> 0xBF"

fun utf8_valid :: "bytes \<Rightarrow> bool" where
  "utf8_valid [] = True"
| "utf8_valid (b # bs) =
     (if b \<le> 0x7F then utf8_valid bs
      else if 0xC2 \<le> b \<and> b \<le> 0xDF then
        (case bs of c # r \<Rightarrow> cont c \<and> utf8_valid r | _ \<Rightarrow> False)
      else if 0xE0 \<le> b \<and> b \<le> 0xEF then
        (case bs of c # d # r \<Rightarrow>
             cont c \<and> cont d \<and> (b = 0xE0 \<longrightarrow> 0xA0 \<le> c) \<and> (b = 0xED \<longrightarrow> c \<le> 0x9F) \<and> utf8_valid r
         | _ \<Rightarrow> False)
      else if 0xF0 \<le> b \<and> b \<le> 0xF4 then
        (case bs of c # d # e # r \<Rightarrow>
             cont c \<and> cont d \<and> cont e \<and> (b = 0xF0 \<longrightarrow> 0x90 \<le> c) \<and> (b = 0xF4 \<longrightarrow> c \<le> 0x8F) \<and> utf8_valid r
         | _ \<Rightarrow> False)
      else False)"

text \<open>A \<open>String\<close> is its UTF-8 bytes.\<close>

definition ser_string :: "bytes \<Rightarrow> unit bio" where
  "ser_string s =
     (if length s > DEFAULT_MAX_LEN then bio_fail InvalidData
      else bio_then (write_bits (of_nat (length s)) (significant_bits DEFAULT_MAX_LEN))
                    (ser_items (\<lambda>byte. write_bits (ucast byte) 8) s))"

definition des_string :: "bytes bio" where
  "des_string =
     bio_bind (read_bits (significant_bits DEFAULT_MAX_LEN)) (\<lambda>v.
       if unat v > DEFAULT_MAX_LEN then bio_fail InvalidData
       else bio_bind (des_items (bio_bind (read_bits 8) (\<lambda>w. bio_return (ucast w))) (unat v)) (\<lambda>bs.
         if utf8_valid bs then bio_return bs else bio_fail InvalidData))"

definition ser_option :: "('a \<Rightarrow> unit bio) \<Rightarrow> 'a option \<Rightarrow> unit bio" where
  "ser_option ser x =
     (case x of Some v \<Rightarrow> bio_then (write_bit True) (ser v) | None \<Rightarrow> write_bit False)"

definition des_option :: "'a bio \<Rightarrow> 'a option bio" where
  "des_option des =
     bio_bind read_bit (\<lambda>has_value.
       if has_value then bio_bind des (\<lambda>v. bio_return (Some v)) else bio_return None)"

definition ser_pair :: "('a \<Rightarrow> unit bio) \<Rightarrow> ('b \<Rightarrow> unit bio) \<Rightarrow> 'a \<times> 'b \<Rightarrow> unit bio" where
  "ser_pair s t p = bio_then (s (fst p)) (t (snd p))"

definition des_pair :: "'a bio \<Rightarrow> 'b bio \<Rightarrow> ('a \<times> 'b) bio" where
  "des_pair d e = bio_bind d (\<lambda>x. bio_bind e (\<lambda>y. bio_return (x, y)))"

text \<open>Arrays \<open>[T; n]\<close> are lists of length \<open>n\<close>, written without a length.\<close>

definition ser_array :: "('a \<Rightarrow> unit bio) \<Rightarrow> 'a list \<Rightarrow> unit bio" where
  "ser_array ser xs = ser_items ser xs"

definition des_array :: "'a bio \<Rightarrow> nat \<Rightarrow> 'a list bio" where
  "des_array des n = des_items des n"

section \<open>Codecs of collections\<close>

context bit_codec
begin

lemma ser_items_rep:
  "(\<And>x. x \<in> set xs \<Longrightarrow> valid x) \<Longrightarrow> writer_rep b bits \<Longrightarrow>
   \<exists>b'. ser_items ser xs b = (Inr (), b') \<and> writer_rep b' (bits @ concat (map enc xs))"
proof (induction xs arbitrary: b bits)
  case Nil
  then show ?case by (simp add: bio_return_def)
next
  case (Cons x xs)
  then obtain b1 where b1: "ser x b = (Inr (), b1)" "writer_rep b1 (bits @ enc x)"
    using ser_rep[of x b bits] by auto
  from Cons.IH[OF Cons.prems(1) b1(2)] b1(1) show ?case by simp
qed

lemma des_items_rep:
  "(\<And>x. x \<in> set xs \<Longrightarrow> valid x) \<Longrightarrow> reader_rep b (concat (map enc xs) @ rest) \<Longrightarrow>
   \<exists>b'. des_items des (length xs) b = (Inr xs, b') \<and> reader_rep b' rest"
proof (induction xs arbitrary: b)
  case Nil
  then show ?case by (simp add: bio_return_def)
next
  case (Cons x xs)
  then obtain b1 where b1: "des b = (Inr x, b1)" "reader_rep b1 (concat (map enc xs) @ rest)"
    using des_rep[of x b "concat (map enc xs) @ rest"] by auto
  from Cons.IH[OF Cons.prems(1) b1(2)] obtain b2
    where "des_items des (length xs) b1 = (Inr xs, b2)" "reader_rep b2 rest" by auto
  with b1(1) show ?case by (simp add: bio_return_def)
qed

end

definition enc_vec :: "('a \<Rightarrow> bool list) \<Rightarrow> 'a list \<Rightarrow> bool list" where
  "enc_vec enc xs = msb_bits 16 (of_nat (length xs)) @ concat (map enc xs)"

lemma unat_len16: "n \<le> DEFAULT_MAX_LEN \<Longrightarrow> unat (take_bit 16 (of_nat n :: u64)) = n"
  by (simp only: unsigned_take_bit_eq unat_of_nat)
    (simp add: DEFAULT_MAX_LEN_def take_bit_eq_mod)

lemma vec_codec:
  assumes "bit_codec ser des enc valid"
  shows "bit_codec (ser_vec ser) (des_vec des) (enc_vec enc)
           (\<lambda>xs. length xs \<le> DEFAULT_MAX_LEN \<and> (\<forall>x\<in>set xs. valid x))"
proof
  fix xs b bits
  assume v: "length xs \<le> DEFAULT_MAX_LEN \<and> (\<forall>x\<in>set xs. valid x)" and "writer_rep b bits"
  then obtain b1 where b1: "write_bits (of_nat (length xs)) 16 b = (Inr (), b1)"
      "writer_rep b1 (bits @ msb_bits 16 (of_nat (length xs)))"
    using write_bits_rep[of b bits 16] by auto
  from bit_codec.ser_items_rep[OF assms _ b1(2), of xs] v b1(1)
  show "\<exists>b'. ser_vec ser xs b = (Inr (), b') \<and> writer_rep b' (bits @ enc_vec enc xs)"
    by (simp add: ser_vec_def len_bits_default enc_vec_def)
next
  fix xs b rest
  assume v: "length xs \<le> DEFAULT_MAX_LEN \<and> (\<forall>x\<in>set xs. valid x)"
    and r: "reader_rep b (enc_vec enc xs @ rest)"
  from r have "reader_rep b (msb_bits 16 (of_nat (length xs)) @ concat (map enc xs) @ rest)"
    by (simp add: enc_vec_def)
  from read_bits_msb[OF this]
  have "read_bits 16 b = (Inr (take_bit 16 (of_nat (length xs))), advance 16 b)"
    and "reader_rep (advance 16 b) (concat (map enc xs) @ rest)" by simp_all
  moreover have "unat (take_bit 16 (of_nat (length xs) :: u64)) = length xs"
    using v by (intro unat_len16) simp
  ultimately show "\<exists>b'. des_vec des b = (Inr xs, b') \<and> reader_rep b' rest"
    using bit_codec.des_items_rep[OF assms, of xs "advance 16 b" rest] v
    by (simp add: des_vec_def len_bits_default)
qed

lemma ser_vec_too_long:
  "length xs > DEFAULT_MAX_LEN \<Longrightarrow> ser_vec ser xs b = (Inl InvalidData, b)"
  by (simp add: ser_vec_def bio_fail_def)

lemma option_codec:
  assumes "bit_codec ser des enc valid"
  shows "bit_codec (ser_option ser) (des_option des)
           (\<lambda>x. case x of None \<Rightarrow> [False] | Some v \<Rightarrow> True # enc v)
           (\<lambda>x. case x of None \<Rightarrow> True | Some v \<Rightarrow> valid v)"
proof
  fix x b bits
  assume v: "case x of None \<Rightarrow> True | Some v \<Rightarrow> valid v" and w: "writer_rep b bits"
  obtain b1 where "write_bit (x \<noteq> None) b = (Inr (), b1)" "writer_rep b1 (bits @ [x \<noteq> None])"
    using write_bit_rep[OF w] by blast
  then show "\<exists>b'. ser_option ser x b = (Inr (), b') \<and>
      writer_rep b' (bits @ (case x of None \<Rightarrow> [False] | Some v \<Rightarrow> True # enc v))"
    using v bit_codec.ser_rep[OF assms, of _ b1 "bits @ [True]"]
    by (cases x) (auto simp: ser_option_def)
next
  fix x b rest
  assume v: "case x of None \<Rightarrow> True | Some v \<Rightarrow> valid v"
    and r: "reader_rep b ((case x of None \<Rightarrow> [False] | Some v \<Rightarrow> True # enc v) @ rest)"
  show "\<exists>b'. des_option des b = (Inr x, b') \<and> reader_rep b' rest"
  proof (cases x)
    case None
    with r read_bit_rep[of b False rest] show ?thesis
      by (simp add: des_option_def bio_return_def bio_bind_def)
  next
    case (Some y)
    with r read_bit_rep[of b True "enc y @ rest"] v bit_codec.des_rep[OF assms, of y "advance 1 b" rest]
    show ?thesis by (auto simp: des_option_def bio_return_def)
  qed
qed

lemma pair_codec:
  assumes "bit_codec s d f v" and "bit_codec t e g w"
  shows "bit_codec (ser_pair s t) (des_pair d e) (\<lambda>p. f (fst p) @ g (snd p))
           (\<lambda>p. v (fst p) \<and> w (snd p))"
proof
  fix p b bits
  assume v: "v (fst p) \<and> w (snd p)" and "writer_rep b bits"
  then obtain b1 where "s (fst p) b = (Inr (), b1)" "writer_rep b1 (bits @ f (fst p))"
    using bit_codec.ser_rep[OF assms(1)] by blast
  then show "\<exists>b'. ser_pair s t p b = (Inr (), b') \<and> writer_rep b' (bits @ f (fst p) @ g (snd p))"
    using bit_codec.ser_rep[OF assms(2), of "snd p" b1 "bits @ f (fst p)"] v
    by (auto simp: ser_pair_def)
next
  fix p b rest
  assume v: "v (fst p) \<and> w (snd p)" and "reader_rep b ((f (fst p) @ g (snd p)) @ rest)"
  then obtain b1 where "d b = (Inr (fst p), b1)" "reader_rep b1 (g (snd p) @ rest)"
    using bit_codec.des_rep[OF assms(1), of "fst p" b "g (snd p) @ rest"] by auto
  then show "\<exists>b'. des_pair d e b = (Inr p, b') \<and> reader_rep b' rest"
    using bit_codec.des_rep[OF assms(2), of "snd p" b1 rest] v
    by (auto simp: des_pair_def bio_return_def)
qed

lemma array_codec:
  assumes "bit_codec ser des enc valid"
  shows "bit_codec (ser_array ser) (des_array des n) (\<lambda>xs. concat (map enc xs))
           (\<lambda>xs. length xs = n \<and> (\<forall>x\<in>set xs. valid x))"
  using bit_codec.ser_items_rep[OF assms] bit_codec.des_items_rep[OF assms]
  by unfold_locales (auto simp: ser_array_def des_array_def)

interpretation string: bit_codec ser_string des_string "enc_vec (enc_uint 8)"
  "\<lambda>s :: bytes. length s \<le> DEFAULT_MAX_LEN \<and> utf8_valid s"
proof
  have u8: "bit_codec (\<lambda>byte. write_bits (ucast byte) 8) (bio_bind (read_bits 8) (\<lambda>w. bio_return (ucast w)))
      (enc_uint 8) (\<lambda>_ :: u8. True)"
    using u8.bit_codec_axioms by (simp add: ser_uint_def[abs_def] des_uint_def)
  note vec = vec_codec[OF this]
  fix s :: bytes
  assume v: "length s \<le> DEFAULT_MAX_LEN \<and> utf8_valid s"
  show "\<exists>b'. ser_string s b = (Inr (), b') \<and> writer_rep b' (bits @ enc_vec (enc_uint 8) s)"
    if "writer_rep b bits" for b bits
    using bit_codec.ser_rep[OF vec _ that, of s] v
    by (simp add: ser_vec_def ser_string_def)
  show "\<exists>b'. des_string b = (Inr s, b') \<and> reader_rep b' rest"
    if "reader_rep b (enc_vec (enc_uint 8) s @ rest)" for b rest
  proof -
    from bit_codec.des_rep[OF vec _ that] v obtain b' where
      b': "des_vec (bio_bind (read_bits 8) (\<lambda>w. bio_return (ucast w))) b = (Inr s, b')" "reader_rep b' rest"
      by auto
    then show ?thesis using v
      by (auto simp: des_vec_def des_string_def bio_bind_def bio_return_def bio_fail_def
          split: prod.splits sum.splits if_splits)
  qed
qed

end
