(* ===== verification/Derive.thy ===== *)
theory Derive
  imports Codec
begin

text \<open>
  What the code emitted by \<open>#[derive(NetworkSerialize)]\<close> does in bit mode
  (\<open>gbnet_macros/src/lib.rs\<close>). The macro is a generator; each of its field templates is modelled
  as the combinator the template expands to, with the attribute values (\<open>#[bits = n]\<close>,
  \<open>#[max_len = n]\<close>, \<open>#[skip_if]\<close>) as arguments: \<open>gen_ser_bits\<close> / \<open>gen_des_bits\<close> for a
  primitive of known width, \<open>gen_ser_vec\<close> / \<open>gen_des_vec\<close> for a vector with its length prefix,
  \<open>gen_ser_skip\<close> / \<open>gen_des_skip\<close> for the presence bit, and the variant index of an enum with
  the computation of its width. Struct fields are written one after the other, which is the
  sequencing of \<open>Codec\<close>.
\<close>

section \<open>Composing writers and readers\<close>

text \<open>
  \<open>writes m e\<close>: \<open>m\<close> succeeds and appends the bits \<open>e\<close>; \<open>reads m e x\<close>: \<open>m\<close> takes the bits \<open>e\<close>
  off the front and yields \<open>x\<close>; \<open>truncates m e\<close>: on every strict prefix of \<open>e\<close> it fails with
  \<open>UnexpectedEof\<close>. The three compose along \<open>bio_then\<close> and \<open>bio_bind\<close>.
\<close>

definition writes :: "unit bio \<Rightarrow> bool list \<Rightarrow> bool" where
  "writes m e \<longleftrightarrow> (\<forall>b bits. writer_rep b bits \<longrightarrow>
     (\<exists>b'. m b = (Inr (), b') \<and> writer_rep b' (bits @ e)))"

definition reads :: "'a bio \<Rightarrow> bool list \<Rightarrow> 'a \<Rightarrow> bool" where
  "reads m e x \<longleftrightarrow> (\<forall>b rest. reader_rep b (e @ rest) \<longrightarrow>
     (\<exists>b'. m b = (Inr x, b') \<and> reader_rep b' rest))"

definition truncates :: "'a bio \<Rightarrow> bool list \<Rightarrow> bool" where
  "truncates m e \<longleftrightarrow> (\<forall>b k. k < length e \<longrightarrow> reader_rep b (take k e) \<longrightarrow>
     (\<exists>b'. m b = (Inl UnexpectedEof, b')))"

definition rejects :: "'a bio \<Rightarrow> io_error \<Rightarrow> bool list \<Rightarrow> bool" where
  "rejects m err e \<longleftrightarrow> (\<forall>b rest. reader_rep b (e @ rest) \<longrightarrow> (\<exists>b'. m b = (Inl err, b')))"

lemma writesD:
  assumes "writes m e" and "writer_rep b bits"
  obtains b' where "m b = (Inr (), b')" and "writer_rep b' (bits @ e)"
  using assms unfolding writes_def by blast

lemma readsD:
  assumes "reads m e x" and "reader_rep b (e @ rest)"
  obtains b' where "m b = (Inr x, b')" and "reader_rep b' rest"
  using assms unfolding reads_def by blast

lemma bit_codec_iff:
  "bit_codec ser des enc valid \<longleftrightarrow>
     (\<forall>x. valid x \<longrightarrow> writes (ser x) (enc x) \<and> reads des (enc x) x)"
  unfolding bit_codec_def writes_def reads_def by blast

lemma bit_codec_writes: "bit_codec ser des enc valid \<Longrightarrow> valid x \<Longrightarrow> writes (ser x) (enc x)"
  by (simp add: bit_codec_iff)

lemma bit_codec_reads: "bit_codec ser des enc valid \<Longrightarrow> valid x \<Longrightarrow> reads des (enc x) x"
  by (simp add: bit_codec_iff)

lemma writes_return: "writes (bio_return ()) []"
  by (simp add: writes_def bio_return_def)

lemma writes_then:
  assumes "writes m e" and "writes k f"
  shows "writes (bio_then m k) (e @ f)"
  unfolding writes_def
proof (intro allI impI)
  fix b bits
  assume "writer_rep b bits"
  from writesD[OF assms(1) this] obtain b1 where "m b = (Inr (), b1)" "writer_rep b1 (bits @ e)" .
  moreover from writesD[OF assms(2) this(2)] obtain b2
    where "k b1 = (Inr (), b2)" "writer_rep b2 ((bits @ e) @ f)" .
  ultimately show "\<exists>b'. bio_then m k b = (Inr (), b') \<and> writer_rep b' (bits @ e @ f)" by simp
qed

lemma writes_bits: "n \<le> 64 \<Longrightarrow> writes (write_bits v n) (msb_bits n v)"
  using write_bits_rep by (auto simp: writes_def)

lemma reads_return: "reads (bio_return x) [] x"
  by (simp add: reads_def bio_return_def)

lemma reads_bind:
  assumes "reads m e x" and "reads (f x) g y"
  shows "reads (bio_bind m f) (e @ g) y"
  unfolding reads_def
proof (intro allI impI)
  fix b rest
  assume "reader_rep b ((e @ g) @ rest)"
  then have "reader_rep b (e @ g @ rest)" by simp
  from readsD[OF assms(1) this] obtain b1 where "m b = (Inr x, b1)" "reader_rep b1 (g @ rest)" .
  moreover from readsD[OF assms(2) this(2)] obtain b2
    where "f x b1 = (Inr y, b2)" "reader_rep b2 rest" .
  ultimately show "\<exists>b'. bio_bind m f b = (Inr y, b') \<and> reader_rep b' rest" by simp
qed

lemma reads_map:
  assumes "reads m e x"
  shows "reads (bio_bind m (\<lambda>a. bio_return (f a))) e (f x)"
  using reads_bind[OF assms reads_return] by simp

lemma reads_bits: "n \<le> 64 \<Longrightarrow> reads (read_bits n) (msb_bits n v) (take_bit n v)"
  using read_bits_msb by (fastforce simp: reads_def)

lemma reads_bit: "reads read_bit [v] v"
  using read_bit_rep by (fastforce simp: reads_def)

lemma truncates_return: "truncates (bio_return x) []"
  by (simp add: truncates_def)

lemma truncates_bits: "n \<le> 64 \<Longrightarrow> truncates (read_bits n) (msb_bits n v)"
  using read_bits_eof by (auto simp: truncates_def)

lemma truncates_bit: "truncates read_bit [v]"
  using read_bit_eof by (auto simp: truncates_def)

lemma truncates_bind:
  assumes "reads m e x" and "truncates m e" and "truncates (f x) g"
  shows "truncates (bio_bind m f) (e @ g)"
  unfolding truncates_def
proof (intro allI impI)
  fix b k
  assume k: "k < length (e @ g)" and r: "reader_rep b (take k (e @ g))"
  show "\<exists>b'. bio_bind m f b = (Inl UnexpectedEof, b')"
  proof (cases "k < length e")
    case True
    with r assms(2) obtain b' where "m b = (Inl UnexpectedEof, b')"
      unfolding truncates_def by fastforce
    then show ?thesis by simp
  next
    case False
    with r have "reader_rep b (e @ take (k - length e) g)" by simp
    from readsD[OF assms(1) this] obtain b1
      where b1: "m b = (Inr x, b1)" "reader_rep b1 (take (k - length e) g)" .
    moreover have "k - length e < length g" using k False by auto
    ultimately obtain b' where "f x b1 = (Inl UnexpectedEof, b')"
      using assms(3) unfolding truncates_def by blast
    with b1 show ?thesis by simp
  qed
qed

lemma truncates_map: "reads m e x \<Longrightarrow> truncates m e \<Longrightarrow> truncates (bio_bind m (\<lambda>a. bio_return (f a))) e"
  using truncates_bind[OF _ _ truncates_return, of m e x "\<lambda>a. bio_return (f a)"]
  by (metis append_Nil2 truncates_bind truncates_return)

lemma rejects_bind:
  assumes "reads m e x" and "rejects (f x) err g"
  shows "rejects (bio_bind m f) err (e @ g)"
  unfolding rejects_def
proof (intro allI impI)
  fix b rest
  assume "reader_rep b ((e @ g) @ rest)"
  then have "reader_rep b (e @ g @ rest)" by simp
  from readsD[OF assms(1) this] obtain b1 where "m b = (Inr x, b1)" "reader_rep b1 (g @ rest)" .
  moreover obtain b' where "f x b1 = (Inl err, b')"
    using assms(2) calculation(2) unfolding rejects_def by blast
  ultimately show "\<exists>b'. bio_bind m f b = (Inl err, b')" by simp
qed

lemma rejects_fail: "rejects (bio_fail err) err []"
  by (simp add: rejects_def bio_fail_def)

text \<open>
  The converse direction: whatever \<open>m\<close> accepts is a prefix \<open>e\<close> of the bits that were left,
  related to the result by \<open>P\<close>.
\<close>

definition parses :: "'a bio \<Rightarrow> (bool list \<Rightarrow> 'a \<Rightarrow> bool) \<Rightarrow> bool" where
  "parses m P \<longleftrightarrow> (\<forall>b rest x b'. reader_rep b rest \<longrightarrow> m b = (Inr x, b') \<longrightarrow>
     (\<exists>e rest'. rest = e @ rest' \<and> P e x \<and> reader_rep b' rest'))"

lemma parsesD:
  assumes "parses m P" and "reader_rep b rest" and "m b = (Inr x, b')"
  obtains e rest' where "rest = e @ rest'" and "P e x" and "reader_rep b' rest'"
  using assms unfolding parses_def by blast

lemma parses_bind:
  assumes "parses m P" and "\<And>e x. P e x \<Longrightarrow> parses (f x) (\<lambda>g y. R (e @ g) y)"
  shows "parses (bio_bind m f) R"
  unfolding parses_def
proof (intro allI impI)
  fix b rest y b'
  assume r: "reader_rep b rest" and "bio_bind m f b = (Inr y, b')"
  then obtain x b1 where m: "m b = (Inr x, b1)" and f: "f x b1 = (Inr y, b')"
    by (auto simp: bio_bind_def split: prod.splits sum.splits)
  from parsesD[OF assms(1) r m] obtain e rest1
    where e: "rest = e @ rest1" "P e x" "reader_rep b1 rest1" .
  from parsesD[OF assms(2)[OF e(2)] e(3) f] obtain g rest2
    where "rest1 = g @ rest2" "R (e @ g) y" "reader_rep b' rest2" .
  with e show "\<exists>e rest'. rest = e @ rest' \<and> R e y \<and> reader_rep b' rest'"
    by (intro exI[of _ "e @ g"] exI[of _ rest2]) simp
qed

lemma parses_return: "R [] x \<Longrightarrow> parses (bio_return x) R"
  by (auto simp: parses_def bio_return_def)

lemma parses_fail: "parses (bio_fail err) R"
  by (auto simp: parses_def bio_fail_def)

lemma parses_if: "(c \<Longrightarrow> parses m R) \<Longrightarrow> (\<not> c \<Longrightarrow> parses k R) \<Longrightarrow> parses (if c then m else k) R"
  by simp

lemma parses_weaken: "parses m P \<Longrightarrow> (\<And>e x. P e x \<Longrightarrow> R e x) \<Longrightarrow> parses m R"
  unfolding parses_def by blast

lemma msb_bits_bits_val: "length bs \<le> 64 \<Longrightarrow> msb_bits (length bs) (bits_val bs) = bs"
  by (rule nth_equalityI) (auto simp: bit_bits_val)

lemma take_bit_bits_val: "take_bit (length bs) (bits_val bs) = bits_val bs"
  by (rule bit_word_eqI) (auto simp: bit_take_bit_iff bit_bits_val)

lemma parses_bits:
  assumes "n \<le> 64"
  shows "parses (read_bits n) (\<lambda>e v. e = msb_bits n v \<and> take_bit n v = v)"
  unfolding parses_def
proof (intro allI impI)
  fix b rest v b'
  assume r: "reader_rep b rest" and m: "read_bits n b = (Inr v, b')"
  have n: "n \<le> length rest"
  proof (rule ccontr)
    assume "\<not> n \<le> length rest"
    with read_bits_eof[OF r _ assms] m show False by auto
  qed
  from read_bits_rep[OF r n assms] m have v: "v = bits_val (take n rest)" "reader_rep b' (drop n rest)"
    by auto
  then show "\<exists>e rest'. rest = e @ rest' \<and> (e = msb_bits n v \<and> take_bit n v = v) \<and> reader_rep b' rest'"
    using n assms msb_bits_bits_val[of "take n rest"] take_bit_bits_val[of "take n rest"]
    by (intro exI[of _ "take n rest"] exI[of _ "drop n rest"]) (simp add: min_absorb2)
qed

text \<open>Readers leave the bytes alone.\<close>

definition keeps_buffer :: "'a bio \<Rightarrow> bool" where
  "keeps_buffer m \<longleftrightarrow> (\<forall>b. bb_buffer (snd (m b)) = bb_buffer b)"

lemma keeps_bufferD: "keeps_buffer m \<Longrightarrow> m b = (x, b') \<Longrightarrow> bb_buffer b' = bb_buffer b"
  unfolding keeps_buffer_def by (metis snd_conv)

lemma keeps_bind:
  assumes "keeps_buffer m" and "\<And>x. keeps_buffer (f x)"
  shows "keeps_buffer (bio_bind m f)"
  using assms unfolding keeps_buffer_def by (auto simp: bio_bind_def split: prod.splits sum.splits) (metis snd_conv)+

lemma keeps_return: "keeps_buffer (bio_return x)" "keeps_buffer (bio_fail e)"
  by (simp_all add: keeps_buffer_def bio_return_def bio_fail_def)

lemma keeps_if: "keeps_buffer m \<Longrightarrow> keeps_buffer k \<Longrightarrow> keeps_buffer (if c then m else k)"
  by simp

lemma keeps_read_loop: "bb_buffer (snd (read_loop n v b)) = bb_buffer b"
proof (induction n v b rule: read_loop.induct)
  case (1 remaining v b)
  then show ?case by (subst read_loop.simps) (simp add: Let_def)
qed

lemma keeps_read_bits: "keeps_buffer (read_bits n)"
  by (simp add: keeps_buffer_def read_bits_def read_bytes_fast_def read_bits_optimized_def
      keeps_read_loop Let_def)

lemmas keeps_intros = keeps_bind keeps_return keeps_if keeps_read_bits

section \<open>Primitive fields with a width\<close>

definition MAX_BIT_WIDTH :: nat where
  "MAX_BIT_WIDTH = 64"

text \<open>\<open>as u64\<close> of the field value is the first argument's cast.\<close>

definition gen_ser_bits :: "nat \<Rightarrow> 'a::len word \<Rightarrow> unit bio" where
  "gen_ser_bits bits x =
     (if bits < MAX_BIT_WIDTH \<and> (ucast x :: u64) > push_bit bits 1 - 1
      then bio_fail InvalidData
      else write_bits (ucast x) bits)"

definition gen_des_bits :: "nat \<Rightarrow> 'a::len word bio" where
  "gen_des_bits bits = bio_bind (read_bits bits) (\<lambda>v. bio_return (ucast v))"

text \<open>A \<open>bool\<close> field with \<open>#[bits = 1]\<close>: written as an integer, read by comparison with 0.\<close>

definition gen_ser_bool :: "nat \<Rightarrow> bool \<Rightarrow> unit bio" where
  "gen_ser_bool bits x =
     (if bits < MAX_BIT_WIDTH \<and> (of_bool x :: u64) > push_bit bits 1 - 1
      then bio_fail InvalidData
      else write_bits (of_bool x) bits)"

definition gen_des_bool :: "nat \<Rightarrow> bool bio" where
  "gen_des_bool bits = bio_bind (read_bits bits) (\<lambda>v. bio_return (v \<noteq> 0))"

lemma gen_ser_bits_check:
  assumes "LENGTH('a::len) \<le> 64" and "bits < 64"
  shows "(ucast (x :: 'a word) :: u64) > push_bit bits 1 - 1 \<longleftrightarrow> 2 ^ bits \<le> unat x"
proof -
  have "(2 :: nat) ^ bits < 2 ^ 64" using assms by (intro power_strict_increasing) auto
  moreover have "(push_bit bits 1 - 1 :: u64) = of_nat (2 ^ bits - 1)"
    by (simp add: of_nat_diff)
  ultimately have m: "unat (push_bit bits 1 - 1 :: u64) = 2 ^ bits - 1"
    by (simp only: unat_of_nat) (simp add: take_bit_nat_eq_self)
  have "unat x < 2 ^ LENGTH('a)" by (rule unsigned_less)
  also have "\<dots> \<le> 2 ^ 64" using assms(1) by (intro power_increasing) auto
  finally have "unat x < 2 ^ 64" .
  then have u: "unat (ucast x :: u64) = unat x"
    by (simp add: unsigned_ucast_eq take_bit_nat_eq_self)
  show ?thesis
    by (simp only: word_less_nat_alt u m) (auto simp: less_le_trans[OF diff_Suc_less])
qed

lemma gen_ser_bits_overflow:
  assumes "LENGTH('a::len) \<le> 64" and "bits < 64" and "2 ^ bits \<le> unat (x :: 'a word)"
  shows "gen_ser_bits bits x b = (Inl InvalidData, b)"
  using gen_ser_bits_check[OF assms(1,2), of x] assms
  by (simp add: gen_ser_bits_def MAX_BIT_WIDTH_def bio_fail_def)

definition enc_bits :: "nat \<Rightarrow> 'a::len word \<Rightarrow> bool list" where
  "enc_bits bits x = msb_bits bits (ucast x)"

lemma length_enc_bits [simp]: "length (enc_bits bits x) = bits"
  by (simp add: enc_bits_def)

lemma take_bit_less: "unat (x :: 'a::len word) < 2 ^ n \<Longrightarrow> take_bit n x = x"
  by (simp add: word_unat_eq_iff unsigned_take_bit_eq take_bit_nat_eq_self)

lemma gen_bits_codec:
  assumes "LENGTH('a::len) \<le> 64" and "bits \<le> 64"
  shows "bit_codec (gen_ser_bits bits) (gen_des_bits bits) (enc_bits bits)
           (\<lambda>x :: 'a word. unat x < 2 ^ bits)"
proof
  fix x :: "'a word" and b bs
  assume v: "unat x < 2 ^ bits" and w: "writer_rep b bs"
  have "gen_ser_bits bits x b = write_bits (ucast x) bits b"
    using v gen_ser_bits_check[OF assms(1), of bits x]
    by (auto simp: gen_ser_bits_def MAX_BIT_WIDTH_def)
  then show "\<exists>b'. gen_ser_bits bits x b = (Inr (), b') \<and> writer_rep b' (bs @ enc_bits bits x)"
    using write_bits_rep[OF w assms(2)] by (simp add: enc_bits_def)
next
  fix x :: "'a word" and b rest
  assume v: "unat x < 2 ^ bits" and "reader_rep b (enc_bits bits x @ rest)"
  then have r: "read_bits bits b = (Inr (take_bit bits (ucast x)), advance bits b)"
    "reader_rep (advance bits b) rest"
    using read_bits_msb[of b bits "ucast x" rest] assms(2) by (simp_all add: enc_bits_def)
  have "ucast (take_bit bits (ucast x :: u64)) = take_bit bits x"
    using assms(1) by (intro bit_word_eqI) (auto simp: bit_ucast_iff bit_take_bit_iff)
  with r take_bit_less[OF v]
  show "\<exists>b'. gen_des_bits bits b = (Inr x, b') \<and> reader_rep b' rest"
    by (simp add: gen_des_bits_def bio_return_def)
qed

lemma gen_bool_codec: "bit_codec (gen_ser_bool 1) (gen_des_bool 1) (\<lambda>x. [x]) (\<lambda>_. True)"
proof
  fix x b bs
  have e: "msb_bits 1 (of_bool x) = [x]"
    by (simp add: msb_bits_def)
  show "\<exists>b'. gen_ser_bool 1 x b = (Inr (), b') \<and> writer_rep b' (bs @ [x])" if "writer_rep b bs"
    using write_bits_rep[OF that, of 1 "of_bool x"] e by (simp add: gen_ser_bool_def)
  show "\<exists>b'. gen_des_bool 1 b = (Inr x, b') \<and> reader_rep b' rest" if "reader_rep b ([x] @ rest)" for rest
    using read_bits_rep[OF that, of 1]
    by (cases x) (auto simp: gen_des_bool_def bio_return_def bits_val_def)
qed

lemma gen_des_bits_parses:
  assumes "n \<le> LENGTH('a::len)" and "n \<le> 64"
  shows "parses (gen_des_bits n) (\<lambda>e (x :: 'a word). e = enc_bits n x \<and> unat x < 2 ^ n)"
  unfolding gen_des_bits_def
proof (rule parses_bind[OF parses_bits[OF assms(2)]], rule parses_return)
  fix e v
  assume *: "e = msb_bits n v \<and> take_bit n v = v"
  then have "bit v i \<Longrightarrow> i < n" for i
    by (metis bit_take_bit_iff)
  with assms have "bit v i \<Longrightarrow> i < n \<and> i < 64 \<and> i < LENGTH('a)" for i
    by (meson less_le_trans)
  then have "take_bit n (ucast v :: 'a word) = ucast v" and "msb_bits n (ucast (ucast v :: 'a word)) = msb_bits n v"
    using assms(1,2) by (auto intro!: bit_word_eqI msb_bits_cong simp: bit_take_bit_iff bit_ucast_iff)
  moreover have "unat (take_bit n (ucast v :: 'a word)) < 2 ^ n"
    by (simp add: unsigned_take_bit_eq take_bit_nat_less_exp)
  ultimately show "e @ [] = enc_bits n (ucast v :: 'a word) \<and> unat (ucast v :: 'a word) < 2 ^ n"
    using * by (simp add: enc_bits_def)
qed

lemma gen_des_bool_parses: "parses (gen_des_bool 1) (\<lambda>e x. e = [x])"
  unfolding gen_des_bool_def
proof (rule parses_bind[OF parses_bits], simp, rule parses_return)
  fix e v
  assume *: "e = msb_bits 1 v \<and> take_bit 1 v = v"
  have "v \<noteq> 0 \<longleftrightarrow> bit v 0"
    using * by (metis bit_0 bit_take_bit_iff even_take_bit_eq less_one odd_iff_mod_2_eq_one
        take_bit_Suc_0 One_nat_def mod_2_eq_odd of_bool_eq_0_iff)
  with * show "e @ [] = [v \<noteq> 0]" by (simp add: msb_bits_def)
qed

lemma gen_des_bits_truncates: "bits \<le> 64 \<Longrightarrow> truncates (gen_des_bits bits) (enc_bits bits x)"
  unfolding gen_des_bits_def enc_bits_def by (rule truncates_map[OF reads_bits truncates_bits])

lemma gen_des_bool_truncates: "truncates (gen_des_bool 1) [x]"
proof -
  have "msb_bits 1 (of_bool x) = [x]" by (simp add: msb_bits_def)
  then show ?thesis
    using truncates_map[OF reads_bits[of 1 "of_bool x"] truncates_bits, of "\<lambda>v. v \<noteq> 0"]
    by (simp add: gen_des_bool_def)
qed

lemma keeps_fields: "keeps_buffer (gen_des_bits n)" "keeps_buffer (gen_des_bool n)"
  unfolding gen_des_bits_def gen_des_bool_def by (intro keeps_intros)+

section \<open>Vectors with a length prefix\<close>

definition len_prefix :: "nat option \<Rightarrow> nat \<times> nat" where
  "len_prefix max_len =
     (case max_len of
        Some m \<Rightarrow> (if m = 0 then 0 else significant_bits m, m)
      | None \<Rightarrow> (16, 65535))"

definition gen_ser_vec :: "nat option \<Rightarrow> ('a \<Rightarrow> unit bio) \<Rightarrow> 'a list \<Rightarrow> unit bio" where
  "gen_ser_vec max_len ser xs =
     (let (len_bits, max_len) = len_prefix max_len
      in if length xs > max_len then bio_fail InvalidData
         else bio_then (write_bits (of_nat (length xs)) len_bits) (ser_items ser xs))"

definition gen_des_vec :: "nat option \<Rightarrow> 'a bio \<Rightarrow> 'a list bio" where
  "gen_des_vec max_len des =
     (let (len_bits, max_len) = len_prefix max_len
      in bio_bind (read_bits len_bits) (\<lambda>v.
           if unat v > max_len then bio_fail InvalidData else des_items des (unat v)))"

lemma significant_bits_less: "n < 2 ^ significant_bits n"
proof (induction n rule: significant_bits.induct)
  case (1 n)
  then show ?case by (subst significant_bits.simps) auto
qed

lemma significant_bits_le: "n < 2 ^ k \<Longrightarrow> significant_bits n \<le> k"
proof (induction n arbitrary: k rule: significant_bits.induct)
  case (1 n)
  show ?case
  proof (cases "n = 0")
    case True
    then show ?thesis by (simp add: significant_bits.simps)
  next
    case False
    with 1(2) obtain j where j: "k = Suc j" by (cases k) auto
    with 1(2) have "n div 2 < 2 ^ j" by simp
    from 1(1)[OF False this] j show ?thesis
      using False by (simp add: significant_bits.simps[of n])
  qed
qed

lemma gen_vec_codec:
  assumes c: "bit_codec ser des enc valid" and m: "snd (len_prefix max_len) < 2 ^ 64"
  shows "bit_codec (gen_ser_vec max_len ser) (gen_des_vec max_len des)
           (\<lambda>xs. msb_bits (fst (len_prefix max_len)) (of_nat (length xs)) @ concat (map enc xs))
           (\<lambda>xs. length xs \<le> snd (len_prefix max_len) \<and> (\<forall>x\<in>set xs. valid x))"
proof -
  obtain n k where nk: "len_prefix max_len = (n, k)" by fastforce
  have n: "n \<le> 64" and k: "k < 2 ^ n"
    using nk m significant_bits_le[of k 64] significant_bits_less[of k]
    by (auto simp: len_prefix_def split: option.splits if_splits)
  show ?thesis
    unfolding nk fst_conv snd_conv
  proof
    fix xs b bits
    assume v: "length xs \<le> k \<and> (\<forall>x\<in>set xs. valid x)" and w: "writer_rep b bits"
    obtain b1 where b1: "write_bits (of_nat (length xs)) n b = (Inr (), b1)"
        "writer_rep b1 (bits @ msb_bits n (of_nat (length xs)))"
      using write_bits_rep[OF w n] by blast
    with bit_codec.ser_items_rep[OF c _ b1(2), of xs] v
    show "\<exists>b'. gen_ser_vec max_len ser xs b = (Inr (), b') \<and>
        writer_rep b' (bits @ msb_bits n (of_nat (length xs)) @ concat (map enc xs))"
      by (simp add: gen_ser_vec_def nk)
  next
    fix xs b rest
    assume v: "length xs \<le> k \<and> (\<forall>x\<in>set xs. valid x)"
      and "reader_rep b ((msb_bits n (of_nat (length xs)) @ concat (map enc xs)) @ rest)"
    then have "reader_rep b (msb_bits n (of_nat (length xs)) @ concat (map enc xs) @ rest)" by simp
    note r = read_bits_msb[OF this n]
    have "length xs < 2 ^ n" using v k by (meson le_less_trans)
    moreover have "length xs < 2 ^ 64" using v m nk by simp
    ultimately have "unat (take_bit n (of_nat (length xs) :: u64)) = length xs"
      by (simp only: unsigned_take_bit_eq unat_of_nat) (simp add: take_bit_nat_eq_self)
    with r v bit_codec.des_items_rep[OF c, of xs "advance n b" rest]
    show "\<exists>b'. gen_des_vec max_len des b = (Inr xs, b') \<and> reader_rep b' rest"
      by (simp add: gen_des_vec_def nk)
  qed
qed

section \<open>Optional presence: \<open>skip_if\<close>\<close>

definition gen_ser_skip :: "('a \<Rightarrow> bool) \<Rightarrow> ('a \<Rightarrow> unit bio) \<Rightarrow> 'a \<Rightarrow> unit bio" where
  "gen_ser_skip skip ser x =
     (if \<not> skip x then bio_then (write_bit True) (ser x) else write_bit False)"

definition gen_des_skip :: "'a \<Rightarrow> 'a bio \<Rightarrow> 'a bio" where
  "gen_des_skip default_value des =
     bio_bind read_bit (\<lambda>present. if present then des else bio_return default_value)"

lemma gen_skip_codec:
  assumes "bit_codec ser des enc valid"
  shows "bit_codec (gen_ser_skip skip ser) (gen_des_skip d des)
           (\<lambda>x. if skip x then [False] else True # enc x)
           (\<lambda>x. if skip x then x = d else valid x)"
proof
  fix x b bits
  assume v: "if skip x then x = d else valid x" and w: "writer_rep b bits"
  obtain b1 where "write_bit (\<not> skip x) b = (Inr (), b1)" "writer_rep b1 (bits @ [\<not> skip x])"
    using write_bit_rep[OF w] by blast
  then show "\<exists>b'. gen_ser_skip skip ser x b = (Inr (), b') \<and>
      writer_rep b' (bits @ (if skip x then [False] else True # enc x))"
    using v bit_codec.ser_rep[OF assms, of x b1 "bits @ [True]"]
    by (cases "skip x") (auto simp: gen_ser_skip_def)
next
  fix x b rest
  assume v: "if skip x then x = d else valid x"
    and r: "reader_rep b ((if skip x then [False] else True # enc x) @ rest)"
  show "\<exists>b'. gen_des_skip d des b = (Inr x, b') \<and> reader_rep b' rest"
  proof (cases "skip x")
    case True
    with r v read_bit_rep[of b False rest] show ?thesis
      by (simp add: gen_des_skip_def bio_return_def bio_bind_def)
  next
    case False
    with r v read_bit_rep[of b True "enc x @ rest"] bit_codec.des_rep[OF assms, of x "advance 1 b" rest]
    show ?thesis by (auto simp: gen_des_skip_def)
  qed
qed

section \<open>The width of an enum's variant index\<close>

text \<open>
  \<open>enum_variant_bits\<close>: \<open>None\<close> where the macro panics at compile time.
\<close>

definition enum_variant_bits :: "nat \<Rightarrow> nat option \<Rightarrow> nat option" where
  "enum_variant_bits variants bits_attr =
     (let min_bits = (if variants \<le> 1 then (if variants = 0 then 0 else 1) else significant_bits (variants - 1));
          bits = (case bits_attr of Some n \<Rightarrow> n | None \<Rightarrow> min_bits)
      in if bits < min_bits then None
         else if bits > MAX_BIT_WIDTH then None
         else Some bits)"

lemma enum_variant_bits_fit:
  assumes "enum_variant_bits variants attr = Some n" and "i < variants"
  shows "i < 2 ^ n" and "n \<le> 64"
proof -
  from assms show "n \<le> 64"
    by (auto simp: enum_variant_bits_def Let_def MAX_BIT_WIDTH_def split: if_splits)
  have "variants \<le> 2 ^ (if variants \<le> 1 then 1 else significant_bits (variants - 1))"
    using significant_bits_less[of "variants - 1"] by auto
  also have "\<dots> \<le> 2 ^ n"
    using assms by (intro power_increasing)
      (auto simp: enum_variant_bits_def Let_def split: if_splits)
  finally show "i < 2 ^ n" using assms(2) by simp
qed

section \<open>Primitive types\<close>

text \<open>
  A value of a primitive type as the bit pattern of its type. \<open>as u64\<close> extends the sign of a signed
  type, \<open>as T\<close> truncates, a \<open>bool\<close> is read as \<open>!= 0\<close>, and \<open>to_bits\<close>, \<open>from_bits\<close> keep the pattern
  of a float.
\<close>

datatype prim_type = PBool | PUnsigned nat | PSigned nat | PF32 | PF64

fun prim_as_u64 :: "prim_type \<Rightarrow> u64 \<Rightarrow> u64" where
  "prim_as_u64 (PSigned w) v = signed_take_bit (w - 1) v"
| "prim_as_u64 _ v = v"

fun prim_from_u64 :: "prim_type \<Rightarrow> u64 \<Rightarrow> u64" where
  "prim_from_u64 PBool v = (if v \<noteq> 0 then 1 else 0)"
| "prim_from_u64 (PUnsigned w) v = take_bit w v"
| "prim_from_u64 (PSigned w) v = take_bit w v"
| "prim_from_u64 PF32 v = take_bit 32 v"
| "prim_from_u64 PF64 v = v"

end
