(* ===== verification/Packet.thy ===== *)
theory Packet
  imports Derive
begin

text \<open>
  The wire format of \<open>gbnet/src/packet.rs\<close>: the packet header, the packet types with their
  4-bit index, and a whole packet with its payload. The bit-mode codecs are what
  \<open>#[derive(NetworkSerialize)]\<close> expands to on these types: every field through the template of
  \<open>Derive\<close> with the width of its \<open>#[bits]\<close> attribute, the index of the variant first.
\<close>

section \<open>Header\<close>

record packet_header =
  ph_protocol_id :: u32
  ph_sequence :: u16
  ph_ack :: u16
  ph_ack_bits :: u64

definition ser_PacketHeader :: "packet_header \<Rightarrow> unit bio" where
  "ser_PacketHeader h =
     bio_then (gen_ser_bits 32 (ph_protocol_id h))
    (bio_then (gen_ser_bits 16 (ph_sequence h))
    (bio_then (gen_ser_bits 16 (ph_ack h))
              (gen_ser_bits 64 (ph_ack_bits h))))"

definition des_PacketHeader :: "packet_header bio" where
  "des_PacketHeader =
     bio_bind (gen_des_bits 32) (\<lambda>pid.
     bio_bind (gen_des_bits 16) (\<lambda>seq.
     bio_bind (gen_des_bits 16) (\<lambda>a.
     bio_bind (gen_des_bits 64) (\<lambda>bits.
     bio_return \<lparr>ph_protocol_id = pid, ph_sequence = seq, ph_ack = a, ph_ack_bits = bits\<rparr>))))"

section \<open>Packet types\<close>

datatype packet_type =
    ConnectionRequest
  | ConnectionChallenge u64
  | ConnectionResponse u64
  | ConnectionAccept
  | ConnectionDeny u8
  | Disconnect u8
  | KeepAlive
  | Payload u8 bool
  | BatchedPayload u8
  | MtuProbe u16
  | MtuProbeAck u16
  | AckOnly
  | ConnectionCookie u64 u64
  | ConnectionRequestWithCookie u64 u64

fun ser_PacketType :: "packet_type \<Rightarrow> unit bio" where
  "ser_PacketType ConnectionRequest = write_bits 0 4"
| "ser_PacketType (ConnectionChallenge server_salt) =
     bio_then (write_bits 1 4) (gen_ser_bits 64 server_salt)"
| "ser_PacketType (ConnectionResponse client_salt) =
     bio_then (write_bits 2 4) (gen_ser_bits 64 client_salt)"
| "ser_PacketType ConnectionAccept = write_bits 3 4"
| "ser_PacketType (ConnectionDeny reason) = bio_then (write_bits 4 4) (gen_ser_bits 8 reason)"
| "ser_PacketType (Disconnect reason) = bio_then (write_bits 5 4) (gen_ser_bits 8 reason)"
| "ser_PacketType KeepAlive = write_bits 6 4"
| "ser_PacketType (Payload channel is_fragment) =
     bio_then (write_bits 7 4) (bio_then (gen_ser_bits 3 channel) (gen_ser_bool 1 is_fragment))"
| "ser_PacketType (BatchedPayload channel) = bio_then (write_bits 8 4) (gen_ser_bits 3 channel)"
| "ser_PacketType (MtuProbe probe_size) = bio_then (write_bits 9 4) (gen_ser_bits 16 probe_size)"
| "ser_PacketType (MtuProbeAck probe_size) =
     bio_then (write_bits 10 4) (gen_ser_bits 16 probe_size)"
| "ser_PacketType AckOnly = write_bits 11 4"
| "ser_PacketType (ConnectionCookie cookie_high cookie_low) =
     bio_then (write_bits 12 4) (bio_then (gen_ser_bits 64 cookie_high) (gen_ser_bits 64 cookie_low))"
| "ser_PacketType (ConnectionRequestWithCookie cookie_high cookie_low) =
     bio_then (write_bits 13 4) (bio_then (gen_ser_bits 64 cookie_high) (gen_ser_bits 64 cookie_low))"

text \<open>The \<open>match variant_index\<close> of the derived reader.\<close>

definition des_variant :: "u64 \<Rightarrow> packet_type bio" where
  "des_variant variant_index =
     (if variant_index = 0 then bio_return ConnectionRequest
      else if variant_index = 1 then bio_bind (gen_des_bits 64) (\<lambda>s. bio_return (ConnectionChallenge s))
      else if variant_index = 2 then bio_bind (gen_des_bits 64) (\<lambda>s. bio_return (ConnectionResponse s))
      else if variant_index = 3 then bio_return ConnectionAccept
      else if variant_index = 4 then bio_bind (gen_des_bits 8) (\<lambda>r. bio_return (ConnectionDeny r))
      else if variant_index = 5 then bio_bind (gen_des_bits 8) (\<lambda>r. bio_return (Disconnect r))
      else if variant_index = 6 then bio_return KeepAlive
      else if variant_index = 7 then
        bio_bind (gen_des_bits 3) (\<lambda>c. bio_bind (gen_des_bool 1) (\<lambda>f. bio_return (Payload c f)))
      else if variant_index = 8 then bio_bind (gen_des_bits 3) (\<lambda>c. bio_return (BatchedPayload c))
      else if variant_index = 9 then bio_bind (gen_des_bits 16) (\<lambda>n. bio_return (MtuProbe n))
      else if variant_index = 10 then bio_bind (gen_des_bits 16) (\<lambda>n. bio_return (MtuProbeAck n))
      else if variant_index = 11 then bio_return AckOnly
      else if variant_index = 12 then
        bio_bind (gen_des_bits 64) (\<lambda>h. bio_bind (gen_des_bits 64) (\<lambda>l. bio_return (ConnectionCookie h l)))
      else if variant_index = 13 then
        bio_bind (gen_des_bits 64) (\<lambda>h. bio_bind (gen_des_bits 64) (\<lambda>l.
          bio_return (ConnectionRequestWithCookie h l)))
      else bio_fail InvalidData)"

definition des_PacketType :: "packet_type bio" where
  "des_PacketType = bio_bind (read_bits 4) des_variant"

section \<open>Packets\<close>

record packet =
  pkt_header :: packet_header
  pkt_type :: packet_type
  pkt_payload :: bytes

definition Packet_new :: "packet_header \<Rightarrow> packet_type \<Rightarrow> packet" where
  "Packet_new h t = \<lparr>pkt_header = h, pkt_type = t, pkt_payload = []\<rparr>"

definition with_payload :: "bytes \<Rightarrow> packet \<Rightarrow> packet" where
  "with_payload p pkt = pkt\<lparr>pkt_payload := p\<rparr>"

definition Packet_serialize :: "packet \<Rightarrow> io_error + bytes" where
  "Packet_serialize pkt =
     (case bio_then (ser_PacketHeader (pkt_header pkt))
             (bio_then (ser_PacketType (pkt_type pkt))
               (\<lambda>buffer.
                  let padding = (8 - bb_bit_pos buffer mod 8) mod 8
                  in if padding > 0 then write_bits 0 padding buffer else (Inr (), buffer)))
             BitBuffer_new of
        (Inl e, _) \<Rightarrow> Inl e
      | (Inr _, buffer) \<Rightarrow>
          (case into_bytes True buffer of
             Inl e \<Rightarrow> Inl e
           | Inr header_bytes \<Rightarrow> Inr (header_bytes @ pkt_payload pkt)))"

text \<open>
  The loop \<open>while bit_pos % 8 != 0 { read_bit()? }\<close>. The read position moves to the next byte
  boundary, so it makes at most seven steps.
\<close>

lemma read_bit_pos: "read_bit b = (Inr v, b') \<Longrightarrow> bb_read_pos b' = bb_read_pos b + 1"
  by (auto simp: read_bit_def Let_def split: if_splits)

lemma align_measure: "(n :: nat) mod 8 \<noteq> 0 \<Longrightarrow> (8 - (n + 1) mod 8) mod 8 < (8 - n mod 8) mod 8"
proof -
  assume "n mod 8 \<noteq> 0"
  moreover have "n mod 8 < 8" and "(n + 1) mod 8 = (if n mod 8 = 7 then 0 else n mod 8 + 1)"
    by (simp, presburger)
  ultimately show ?thesis by auto
qed

function align_read :: "unit bio" where
  "align_read b =
     (if bb_read_pos b mod 8 = 0 then (Inr (), b)
      else case read_bit b of
             (Inl e, b') \<Rightarrow> (Inl e, b')
           | (Inr _, b') \<Rightarrow> align_read b')"
  by pat_completeness auto
termination
proof (relation "measure (\<lambda>b. (8 - bb_read_pos b mod 8) mod 8)", rule wf_measure)
  fix b :: bit_buffer and x y u
  assume "bb_read_pos b mod 8 \<noteq> 0" and "(x, y) = read_bit b" and "x = Inr u"
  then show "(y, b) \<in> measure (\<lambda>b. (8 - bb_read_pos b mod 8) mod 8)"
    using read_bit_pos[of b u y] align_measure[of "bb_read_pos b"] by (simp only: in_measure) simp
qed

declare align_read.simps [simp del]

definition Packet_deserialize :: "bytes \<Rightarrow> io_error + packet" where
  "Packet_deserialize data =
     (if data = [] then Inl InvalidData
      else case bio_bind des_PacketHeader (\<lambda>h. bio_bind des_PacketType (\<lambda>t.
                  bio_then align_read (bio_return (h, t)))) (BitBuffer_from_bytes data) of
             (Inl e, _) \<Rightarrow> Inl e
           | (Inr (h, t), buffer) \<Rightarrow>
               let header_size = bb_read_pos buffer div 8;
                   p = (if header_size < length data then drop header_size data else [])
               in Inr \<lparr>pkt_header = h, pkt_type = t, pkt_payload = p\<rparr>)"

section \<open>Encodings\<close>

definition enc_PacketHeader :: "packet_header \<Rightarrow> bool list" where
  "enc_PacketHeader h = enc_bits 32 (ph_protocol_id h) @ enc_bits 16 (ph_sequence h) @
     enc_bits 16 (ph_ack h) @ enc_bits 64 (ph_ack_bits h)"

fun enc_PacketType :: "packet_type \<Rightarrow> bool list" where
  "enc_PacketType ConnectionRequest = msb_bits 4 0"
| "enc_PacketType (ConnectionChallenge s) = msb_bits 4 1 @ enc_bits 64 s"
| "enc_PacketType (ConnectionResponse s) = msb_bits 4 2 @ enc_bits 64 s"
| "enc_PacketType ConnectionAccept = msb_bits 4 3"
| "enc_PacketType (ConnectionDeny r) = msb_bits 4 4 @ enc_bits 8 r"
| "enc_PacketType (Disconnect r) = msb_bits 4 5 @ enc_bits 8 r"
| "enc_PacketType KeepAlive = msb_bits 4 6"
| "enc_PacketType (Payload c f) = msb_bits 4 7 @ enc_bits 3 c @ [f]"
| "enc_PacketType (BatchedPayload c) = msb_bits 4 8 @ enc_bits 3 c"
| "enc_PacketType (MtuProbe n) = msb_bits 4 9 @ enc_bits 16 n"
| "enc_PacketType (MtuProbeAck n) = msb_bits 4 10 @ enc_bits 16 n"
| "enc_PacketType AckOnly = msb_bits 4 11"
| "enc_PacketType (ConnectionCookie h l) = msb_bits 4 12 @ enc_bits 64 h @ enc_bits 64 l"
| "enc_PacketType (ConnectionRequestWithCookie h l) = msb_bits 4 13 @ enc_bits 64 h @ enc_bits 64 l"

definition channel_fits :: "packet_type \<Rightarrow> bool" where
  "channel_fits t = (case t of Payload c _ \<Rightarrow> c < 8 | BatchedPayload c \<Rightarrow> c < 8 | _ \<Rightarrow> True)"

lemma full_width [simp]:
  "unat (a :: u8) < 256" "unat (b :: u16) < 65536" "unat (c :: u32) < 4294967296"
  "unat (d :: u64) < 18446744073709551616"
  using unsigned_less[where ?'a = nat, of a] unsigned_less[where ?'a = nat, of b]
    unsigned_less[where ?'a = nat, of c] unsigned_less[where ?'a = nat, of d] by simp_all

lemmas field_codecs =
  gen_bits_codec[where 'a = 8, of 8] gen_bits_codec[where 'a = 8, of 3]
  gen_bits_codec[where 'a = 16, of 16]
  gen_bits_codec[where 'a = 32, of 32] gen_bits_codec[where 'a = 64, of 64]

lemma writes_fields:
  "writes (gen_ser_bits 8 (a :: u8)) (enc_bits 8 a)"
  "writes (gen_ser_bits 16 (b :: u16)) (enc_bits 16 b)"
  "writes (gen_ser_bits 32 (c :: u32)) (enc_bits 32 c)"
  "writes (gen_ser_bits 64 (d :: u64)) (enc_bits 64 d)"
  "a < 8 \<Longrightarrow> writes (gen_ser_bits 3 a) (enc_bits 3 a)"
  "writes (gen_ser_bool 1 x) [x]"
  using field_codecs bit_codec_writes[OF gen_bool_codec]
  by (simp_all add: bit_codec_iff word_less_nat_alt)

lemma reads_fields:
  "reads (gen_des_bits 8) (enc_bits 8 a) (a :: u8)"
  "reads (gen_des_bits 16) (enc_bits 16 b) (b :: u16)"
  "reads (gen_des_bits 32) (enc_bits 32 c) (c :: u32)"
  "reads (gen_des_bits 64) (enc_bits 64 d) (d :: u64)"
  "a < 8 \<Longrightarrow> reads (gen_des_bits 3) (enc_bits 3 a) a"
  "reads (gen_des_bool 1) [x] x"
  using field_codecs bit_codec_reads[OF gen_bool_codec]
  by (simp_all add: bit_codec_iff word_less_nat_alt)

lemma truncates_fields:
  "truncates (gen_des_bits 8 :: u8 bio) (enc_bits 8 (a :: u8))"
  "truncates (gen_des_bits 16 :: u16 bio) (enc_bits 16 (b :: u16))"
  "truncates (gen_des_bits 32 :: u32 bio) (enc_bits 32 (c :: u32))"
  "truncates (gen_des_bits 64 :: u64 bio) (enc_bits 64 (d :: u64))"
  "truncates (gen_des_bits 3 :: u8 bio) (enc_bits 3 (a :: u8))"
  "truncates (gen_des_bool 1) [x]"
  by (simp_all add: gen_des_bits_truncates gen_des_bool_truncates del: One_nat_def)

lemma header_writes: "writes (ser_PacketHeader h) (enc_PacketHeader h)"
  unfolding ser_PacketHeader_def enc_PacketHeader_def by (intro writes_then writes_fields)

lemma header_reads: "reads des_PacketHeader (enc_PacketHeader h) h"
proof -
  have "reads des_PacketHeader (enc_bits 32 (ph_protocol_id h) @ enc_bits 16 (ph_sequence h) @
      enc_bits 16 (ph_ack h) @ enc_bits 64 (ph_ack_bits h) @ [])
      \<lparr>ph_protocol_id = ph_protocol_id h, ph_sequence = ph_sequence h, ph_ack = ph_ack h, ph_ack_bits = ph_ack_bits h\<rparr>"
    unfolding des_PacketHeader_def by (intro reads_bind[OF reads_fields(3)]
      reads_bind[OF reads_fields(2)] reads_bind[OF reads_fields(4)] reads_return)
  then show ?thesis by (cases h) (simp add: enc_PacketHeader_def)
qed

lemma header_truncates: "truncates des_PacketHeader (enc_PacketHeader h)"
proof -
  have "truncates des_PacketHeader (enc_bits 32 (ph_protocol_id h) @ enc_bits 16 (ph_sequence h) @
      enc_bits 16 (ph_ack h) @ enc_bits 64 (ph_ack_bits h) @ [])"
    unfolding des_PacketHeader_def by (intro truncates_bind[OF reads_fields(3)]
      truncates_bind[OF reads_fields(2)] truncates_bind[OF reads_fields(4)]
      gen_des_bits_truncates truncates_return) simp_all
  then show ?thesis by (simp add: enc_PacketHeader_def)
qed

lemma type_writes: "channel_fits t \<Longrightarrow> writes (ser_PacketType t) (enc_PacketType t)"
  by (cases t) (auto simp: channel_fits_def simp del: One_nat_def intro!: writes_then writes_bits writes_fields)

lemma type_overflow:
  assumes "\<not> channel_fits t" and "writer_rep b bits"
  shows "fst (ser_PacketType t b) = Inl InvalidData"
proof -
  have fails: "fst (bio_then (write_bits i 4) (bio_then (gen_ser_bits 3 c) k) b) = Inl InvalidData"
    "fst (bio_then (write_bits i 4) (gen_ser_bits 3 c) b) = Inl InvalidData"
    if "\<not> c < 8" for i and c :: u8 and k
  proof -
    obtain b1 where "write_bits i 4 b = (Inr (), b1)"
      using writesD[OF writes_bits assms(2), of 4 i] by auto
    moreover have "gen_ser_bits 3 c b1 = (Inl InvalidData, b1)"
      using that by (intro gen_ser_bits_overflow) (simp_all add: word_less_nat_alt)
    ultimately show "fst (bio_then (write_bits i 4) (bio_then (gen_ser_bits 3 c) k) b) = Inl InvalidData"
      "fst (bio_then (write_bits i 4) (gen_ser_bits 3 c) b) = Inl InvalidData"
      by simp_all
  qed
  with assms(1) show ?thesis by (auto simp: channel_fits_def split: packet_type.splits)
qed

lemma reads_variant:
  assumes "reads (des_variant v) e t" and "take_bit 4 v = v"
  shows "reads des_PacketType (msb_bits 4 v @ e) t"
  using reads_bind[OF reads_bits[of 4 v], of des_variant e t] assms by (simp add: des_PacketType_def)

lemma truncates_variant:
  assumes "truncates (des_variant v) e" and "take_bit 4 v = v"
  shows "truncates des_PacketType (msb_bits 4 v @ e)"
  using truncates_bind[OF reads_bits[of 4 v] truncates_bits, of des_variant e] assms
  by (simp add: des_PacketType_def)

lemma des_variant_simps:
  "des_variant 0 = bio_return ConnectionRequest"
  "des_variant 1 = bio_bind (gen_des_bits 64) (\<lambda>s. bio_return (ConnectionChallenge s))"
  "des_variant 2 = bio_bind (gen_des_bits 64) (\<lambda>s. bio_return (ConnectionResponse s))"
  "des_variant 3 = bio_return ConnectionAccept"
  "des_variant 4 = bio_bind (gen_des_bits 8) (\<lambda>r. bio_return (ConnectionDeny r))"
  "des_variant 5 = bio_bind (gen_des_bits 8) (\<lambda>r. bio_return (Disconnect r))"
  "des_variant 6 = bio_return KeepAlive"
  "des_variant 7 =
     bio_bind (gen_des_bits 3) (\<lambda>c. bio_bind (gen_des_bool 1) (\<lambda>f. bio_return (Payload c f)))"
  "des_variant 8 = bio_bind (gen_des_bits 3) (\<lambda>c. bio_return (BatchedPayload c))"
  "des_variant 9 = bio_bind (gen_des_bits 16) (\<lambda>n. bio_return (MtuProbe n))"
  "des_variant 10 = bio_bind (gen_des_bits 16) (\<lambda>n. bio_return (MtuProbeAck n))"
  "des_variant 11 = bio_return AckOnly"
  "des_variant 12 =
     bio_bind (gen_des_bits 64) (\<lambda>h. bio_bind (gen_des_bits 64) (\<lambda>l. bio_return (ConnectionCookie h l)))"
  "des_variant 13 =
     bio_bind (gen_des_bits 64) (\<lambda>h. bio_bind (gen_des_bits 64) (\<lambda>l.
       bio_return (ConnectionRequestWithCookie h l)))"
  by (simp_all add: des_variant_def)

lemma take_4: "v \<le> 15 \<Longrightarrow> take_bit 4 v = (v :: u64)"
  by (rule take_bit_less) (auto simp: word_le_nat_alt)

lemma type_reads:
  assumes "channel_fits t"
  shows "reads des_PacketType (enc_PacketType t) t"
proof -
  have r0: "reads des_PacketType (msb_bits 4 v) t" if "des_variant v = bio_return t" "v \<le> 15" for v t
    using reads_variant[of v "[]" t] that take_4 by (simp add: reads_return)
  have r1: "reads des_PacketType (msb_bits 4 v @ e) (f x)"
    if "des_variant v = bio_bind m (\<lambda>a. bio_return (f a))" "reads m e x" "v \<le> 15"
    for v e f and m :: "'a bio" and x :: 'a
    using reads_variant[of v e "f x"] that take_4 by (simp add: reads_map)
  have r2: "reads des_PacketType (msb_bits 4 v @ e @ g) (f x y)"
    if "des_variant v = bio_bind m (\<lambda>a. bio_bind k (\<lambda>c. bio_return (f a c)))" "reads m e x"
      "reads k g y" "v \<le> 15"
    for v e g f and m :: "'a bio" and x :: 'a and k :: "'b bio" and y :: 'b
    using reads_variant[of v "e @ g" "f x y"] that take_4
    by (simp add: reads_bind[OF that(2) reads_map[OF that(3)]])
  show ?thesis
    using assms
    by (cases t) (auto simp: channel_fits_def simp del: One_nat_def
        intro: r0 r1[OF _ reads_fields(1)] r1[OF _ reads_fields(2)]
        r1[OF _ reads_fields(4)] r1[OF _ reads_fields(5)] r2[OF _ reads_fields(5,6)]
        r2[OF _ reads_fields(4,4)] des_variant_simps)
qed

lemma type_truncates:
  assumes "channel_fits t"
  shows "truncates des_PacketType (enc_PacketType t)"
proof -
  have r0: "truncates des_PacketType (msb_bits 4 v)" if "des_variant v = bio_return t" "v \<le> 15" for v t
    using truncates_variant[of v "[]"] that take_4 by (simp add: truncates_return)
  have r1: "truncates des_PacketType (msb_bits 4 v @ e)"
    if "des_variant v = bio_bind m (\<lambda>a. bio_return (f a))" "reads m e x" "truncates m e" "v \<le> 15"
    for v e f and m :: "'a bio" and x :: 'a
    using truncates_variant[of v e] that take_4 by (simp add: truncates_map)
  have r2: "truncates des_PacketType (msb_bits 4 v @ e @ g)"
    if "des_variant v = bio_bind m (\<lambda>a. bio_bind k (\<lambda>c. bio_return (f a c)))" "reads m e x"
      "truncates m e" "reads k g y" "truncates k g" "v \<le> 15"
    for v e g f and m :: "'a bio" and x :: 'a and k :: "'b bio" and y :: 'b
    using truncates_variant[of v "e @ g"] that take_4
    by (simp add: truncates_bind[OF that(2,3)] truncates_map[OF that(4,5)])
  show ?thesis
    using assms
    by (cases t) (auto simp: channel_fits_def simp del: One_nat_def
        intro: r0 r1[OF _ reads_fields(1)] r1[OF _ reads_fields(2)]
        r1[OF _ reads_fields(4)] r1[OF _ reads_fields(5)] r2[OF _ reads_fields(5) _ reads_fields(6)]
        r2[OF _ reads_fields(4) _ reads_fields(4)] des_variant_simps truncates_fields)
qed

section \<open>Packets on the wire\<close>

text \<open>
  The header and type of a packet as bits, and the number of bytes they take. The payload starts
  at the next byte boundary.
\<close>

definition enc_head :: "packet_header \<Rightarrow> packet_type \<Rightarrow> bool list" where
  "enc_head h t = enc_PacketHeader h @ enc_PacketType t"

definition head_size :: "packet_type \<Rightarrow> nat" where
  "head_size t = (128 + length (enc_PacketType t) + 7) div 8"

lemma length_enc_head: "length (enc_head h t) = 128 + length (enc_PacketType t)"
  by (simp add: enc_head_def enc_PacketHeader_def)

lemma pad_bits_le: "pad_bits n \<le> 64"
proof -
  have "pad_bits n < 8" by (simp add: pad_bits_def)
  then show ?thesis by simp
qed

lemma pad_bits_total: "(n + pad_bits n) mod 8 = 0" "n + pad_bits n = 8 * ((n + 7) div 8)"
proof -
  obtain q a where n: "n = 8 * q + a" "a < 8"
    by (metis mod_less_divisor mult_div_mod_eq zero_less_numeral)
  have eq: "n + pad_bits n = 8 * ((n + 7) div 8)"
  proof (cases "a = 0")
    case True
    with n show ?thesis by (simp add: pad_bits_def)
  next
    case False
    with n have "(a + 7) div 8 = 1" by auto
    with False n show ?thesis by (simp add: pad_bits_def add.assoc)
  qed
  then show "(n + pad_bits n) mod 8 = 0" by simp
  show "n + pad_bits n = 8 * ((n + 7) div 8)" by (fact eq)
qed

lemma serialize_ok:
  assumes "channel_fits (pkt_type pkt)"
  obtains hb where "Packet_serialize pkt = Inr (hb @ pkt_payload pkt)"
    and "bytes_bits hb = enc_head (pkt_header pkt) (pkt_type pkt) @
           replicate (pad_bits (length (enc_head (pkt_header pkt) (pkt_type pkt)))) False"
    and "length hb = head_size (pkt_type pkt)"
proof -
  let ?e = "enc_head (pkt_header pkt) (pkt_type pkt)"
  let ?n = "length ?e"
  obtain b1 where b1: "ser_PacketHeader (pkt_header pkt) BitBuffer_new = (Inr (), b1)"
      "writer_rep b1 ([] @ enc_PacketHeader (pkt_header pkt))"
    using writesD[OF header_writes writer_rep_new] .
  obtain b2 where b2: "ser_PacketType (pkt_type pkt) b1 = (Inr (), b2)" "writer_rep b2 ?e"
    using writesD[OF type_writes[OF assms] b1(2)] by (auto simp: enc_head_def)
  have pos: "bb_bit_pos b2 = ?n" using b2(2) by (simp add: writer_rep_def)
  obtain b3 where b3: "write_bits 0 (pad_bits ?n) b2 = (Inr (), b3)"
      "writer_rep b3 (?e @ msb_bits (pad_bits ?n) 0)"
    using writesD[OF writes_bits b2(2), of "pad_bits ?n" 0] pad_bits_le[of ?n] by blast
  have z: "msb_bits k 0 = replicate k False" for k
    by (rule nth_equalityI) simp_all
  have same: "(let padding = (8 - bb_bit_pos b2 mod 8) mod 8
      in if padding > 0 then write_bits 0 padding b2 else (Inr (), b2)) = (Inr (), b3)"
    using b3(1) pos by (auto simp: Let_def pad_bits_def write_bits_def)
  obtain hb where hb: "into_bytes True b3 = Inr hb"
      "bytes_bits hb = (?e @ replicate (pad_bits ?n) False) @
         replicate (pad_bits (length (?e @ replicate (pad_bits ?n) False))) False"
    using into_bytes_rep[OF b3(2)] unfolding z .
  have "pad_bits (length (?e @ replicate (pad_bits ?n) False)) = 0"
    using pad_bits_total(1)[of ?n] by (simp add: pad_bits_def)
  with hb have bits: "bytes_bits hb = ?e @ replicate (pad_bits ?n) False" by simp
  have "8 * length hb = 8 * ((?n + 7) div 8)"
    using arg_cong[OF bits, of length] pad_bits_total(2)[of ?n] by simp
  then have len: "length hb = head_size (pkt_type pkt)"
    by (simp add: head_size_def length_enc_head)
  have "Packet_serialize pkt = Inr (hb @ pkt_payload pkt)"
    using b1(1) b2(1) same hb(1) by (simp add: Packet_serialize_def)
  with bits len show ?thesis by (intro that)
qed

lemma parses_fields:
  "parses (gen_des_bits 8 :: u8 bio) (\<lambda>e x. e = enc_bits 8 x)"
  "parses (gen_des_bits 16 :: u16 bio) (\<lambda>e x. e = enc_bits 16 x)"
  "parses (gen_des_bits 32 :: u32 bio) (\<lambda>e x. e = enc_bits 32 x)"
  "parses (gen_des_bits 64 :: u64 bio) (\<lambda>e x. e = enc_bits 64 x)"
  "parses (gen_des_bits 3 :: u8 bio) (\<lambda>e x. e = enc_bits 3 x \<and> x < 8)"
  using gen_des_bits_parses[where 'a = 8, of 8] gen_des_bits_parses[where 'a = 8, of 3]
    gen_des_bits_parses[where 'a = 16, of 16] gen_des_bits_parses[where 'a = 32, of 32]
    gen_des_bits_parses[where 'a = 64, of 64]
  by (simp_all add: word_less_nat_alt)

lemma header_parses: "parses des_PacketHeader (\<lambda>e h. e = enc_PacketHeader h)"
  unfolding des_PacketHeader_def
  by (rule parses_bind[OF parses_fields(3)] parses_bind[OF parses_fields(2)]
      parses_bind[OF parses_fields(4)] parses_return | simp add: enc_PacketHeader_def)+

lemma type_parses: "parses des_PacketType (\<lambda>e t. e = enc_PacketType t \<and> channel_fits t)"
  unfolding des_PacketType_def
proof (rule parses_bind[OF parses_bits], simp, elim conjE)
  fix e v
  assume e: "e = msb_bits 4 v"
  show "parses (des_variant v) (\<lambda>g t. e @ g = enc_PacketType t \<and> channel_fits t)"
    unfolding des_variant_def e
    by (intro parses_if parses_return parses_fail parses_bind[OF parses_fields(1)]
        parses_bind[OF parses_fields(2)] parses_bind[OF parses_fields(4)]
        parses_bind[OF parses_fields(5)] parses_bind[OF gen_des_bool_parses])
      (simp_all add: channel_fits_def)
qed

text \<open>The alignment loop always succeeds: a position off the boundary lies inside a byte.\<close>

lemma align_read_ok:
  assumes "bb_read_pos b \<le> 8 * length (bb_buffer b)"
  shows "\<exists>b'. align_read b = (Inr (), b') \<and> bb_buffer b' = bb_buffer b \<and>
           bb_read_pos b' = bb_read_pos b + pad_bits (bb_read_pos b)"
  using assms
proof (induction b rule: align_read.induct)
  case (1 b)
  let ?p = "bb_read_pos b"
  show ?case
  proof (cases "?p mod 8 = 0")
    case True
    then show ?thesis by (simp add: align_read.simps pad_bits_def)
  next
    case False
    with 1(2) have lt: "?p < 8 * length (bb_buffer b)" by (cases "?p = 8 * length (bb_buffer b)") auto
    then have "?p div 8 < length (bb_buffer b)" using less_mult_imp_div_less[of ?p "length (bb_buffer b)" 8] by simp
    then obtain v where rb: "read_bit b = (Inr v, b\<lparr>bb_read_pos := ?p + 1\<rparr>)"
      by (simp add: read_bit_def Let_def)
    have eq: "?p + 1 + pad_bits (?p + 1) = ?p + pad_bits ?p"
    proof -
      obtain q a where p: "?p = 8 * q + a" "a < 8" "?p mod 8 = a"
        by (metis mod_less_divisor mult_div_mod_eq zero_less_numeral)
      with False have "0 < a" by simp
      with p show ?thesis
        by (cases "a = 7") (simp_all add: pad_bits_total(2)[of "Suc (8 * q + a)", simplified]
            pad_bits_total(2)[of "8 * q + a"] pad_bits_def mod_Suc)
    qed
    from 1(1)[OF False rb[symmetric] refl] lt obtain b' where
      "align_read (b\<lparr>bb_read_pos := ?p + 1\<rparr>) = (Inr (), b')" "bb_buffer b' = bb_buffer b"
      "bb_read_pos b' = ?p + 1 + pad_bits (?p + 1)" by auto
    with rb False eq show ?thesis
      by (simp only: align_read.simps[of b]) simp
  qed
qed

text \<open>What the reader of a packet's head returns, and where it leaves the buffer.\<close>

definition read_head :: "(packet_header \<times> packet_type) bio" where
  "read_head = bio_bind des_PacketHeader (\<lambda>h. bio_bind des_PacketType (\<lambda>t.
     bio_then align_read (bio_return (h, t))))"

lemma deserialize_read_head:
  "Packet_deserialize data =
     (if data = [] then Inl InvalidData
      else case read_head (BitBuffer_from_bytes data) of
             (Inl e, _) \<Rightarrow> Inl e
           | (Inr (h, t), buffer) \<Rightarrow>
               Inr \<lparr>pkt_header = h, pkt_type = t, pkt_payload = drop (bb_read_pos buffer div 8) data\<rparr>)"
  by (simp add: Packet_deserialize_def read_head_def Let_def cong: if_cong split: prod.splits sum.splits)

lemma advance_by_reader:
  assumes "reader_rep b (e @ rest)" and "reader_rep b' rest" and "bb_buffer b' = bb_buffer b"
  shows "bb_read_pos b' = bb_read_pos b + length e"
proof -
  have "length (e @ rest) + bb_read_pos b = 8 * length (bb_buffer b)"
    and "length rest + bb_read_pos b' = 8 * length (bb_buffer b)"
    using assms by (auto simp: reader_rep_def)
  then show ?thesis by simp
qed

lemma keeps_head: "keeps_buffer des_PacketHeader" "keeps_buffer des_PacketType"
  unfolding des_PacketHeader_def des_PacketType_def des_variant_def
  by (intro keeps_intros keeps_fields)+

lemma read_head_reads:
  assumes "bytes_bits data = enc_head h t @ rest" and "channel_fits t"
  shows "\<exists>b'. read_head (BitBuffer_from_bytes data) = (Inr (h, t), b') \<and> bb_read_pos b' = 8 * head_size t"
proof -
  let ?b = "BitBuffer_from_bytes data" and ?e = "enc_head h t"
  have r: "reader_rep ?b (enc_PacketHeader h @ enc_PacketType t @ rest)"
    using reader_rep_from_bytes[of data] assms(1) by (simp add: enc_head_def)
  obtain b1 where b1: "des_PacketHeader ?b = (Inr h, b1)" "reader_rep b1 (enc_PacketType t @ rest)"
    using readsD[OF header_reads r] .
  obtain b2 where b2: "des_PacketType b1 = (Inr t, b2)" "reader_rep b2 rest"
    using readsD[OF type_reads[OF assms(2)] b1(2)] .
  have buf: "bb_buffer b2 = bb_buffer ?b"
    using keeps_bufferD[OF keeps_head(1) b1(1)] keeps_bufferD[OF keeps_head(2) b2(1)] by simp
  have pos: "bb_read_pos b2 = length ?e"
    using advance_by_reader[of ?b ?e rest b2] r b2(2) buf
    by (simp add: enc_head_def BitBuffer_from_bytes_def)
  have le: "bb_read_pos b2 \<le> 8 * length (bb_buffer b2)"
    using b2(2) by (simp add: reader_rep_def)
  from align_read_ok[OF le] obtain b3 where
    b3: "align_read b2 = (Inr (), b3)" "bb_read_pos b3 = length ?e + pad_bits (length ?e)"
    using pos by auto
  have "read_head ?b = (Inr (h, t), b3)"
    using b1(1) b2(1) b3(1) by (simp add: read_head_def bio_return_def)
  with b3(2) show ?thesis
    by (simp add: pad_bits_total(2)) (simp add: head_size_def length_enc_head)
qed

lemma deserialize_head:
  assumes "bytes_bits data = enc_head h t @ rest" and "channel_fits t"
  shows "Packet_deserialize data =
    Inr \<lparr>pkt_header = h, pkt_type = t, pkt_payload = drop (head_size t) data\<rparr>"
proof -
  have "data \<noteq> []" using arg_cong[OF assms(1), of length] by (auto simp: length_enc_head)
  with read_head_reads[OF assms] show ?thesis by (auto simp: deserialize_read_head)
qed

lemma bytes_bits_append: "bytes_bits (xs @ ys) = bytes_bits xs @ bytes_bits ys"
proof (rule nth_equalityI)
  fix i assume "i < length (bytes_bits (xs @ ys))"
  moreover have "bit_at (xs @ ys) i = bit_at ys (i - 8 * length xs)" if le: "8 * length xs \<le> i"
  proof -
    obtain k where "i = 8 * length xs + k" using le_Suc_ex[OF le] by blast
    moreover have "(8 * l + k) div 8 = l + k div 8" "(8 * l + k) mod 8 = k mod 8" for l by simp_all
    ultimately show ?thesis by (simp only: bit_at_def nth_append_length_plus diff_add_inverse)
  qed
  moreover have "bit_at (xs @ ys) i = bit_at xs i" if "i < 8 * length xs"
    using that less_mult_imp_div_less[of i "length xs" 8] by (simp add: bit_at_def nth_append)
  ultimately show "bytes_bits (xs @ ys) ! i = (bytes_bits xs @ bytes_bits ys) ! i"
    by (cases "i < 8 * length xs") (simp_all add: nth_append)
qed (simp add: algebra_simps)

lemma roundtrip:
  assumes "channel_fits (pkt_type pkt)"
  obtains data where "Packet_serialize pkt = Inr data" and "Packet_deserialize data = Inr pkt"
    and "length data = head_size (pkt_type pkt) + length (pkt_payload pkt)"
proof -
  from serialize_ok[OF assms] obtain hb where hb: "Packet_serialize pkt = Inr (hb @ pkt_payload pkt)"
    "bytes_bits hb = enc_head (pkt_header pkt) (pkt_type pkt) @
       replicate (pad_bits (length (enc_head (pkt_header pkt) (pkt_type pkt)))) False"
    "length hb = head_size (pkt_type pkt)" .
  then have "Packet_deserialize (hb @ pkt_payload pkt) = Inr pkt"
    using deserialize_head[of "hb @ pkt_payload pkt" "pkt_header pkt" "pkt_type pkt"] assms
    by (cases pkt) (simp add: bytes_bits_append)
  with hb show ?thesis by (intro that[of "hb @ pkt_payload pkt"]) simp_all
qed

lemma bytes_bits_take: "bytes_bits (take k bs) = take (8 * k) (bytes_bits bs)"
proof (cases "k \<le> length bs")
  case True
  then show ?thesis using bytes_bits_append[of "take k bs" "drop k bs"] by simp
qed simp

lemma bytes_bits_drop: "bytes_bits (drop k bs) = drop (8 * k) (bytes_bits bs)"
proof (cases "k \<le> length bs")
  case True
  then show ?thesis using bytes_bits_append[of "take k bs" "drop k bs"] by simp
qed (simp add: bytes_bits_def)

lemma read_head_truncates:
  "channel_fits t \<Longrightarrow> truncates read_head (enc_head h t)"
  unfolding read_head_def enc_head_def
  using truncates_bind[OF header_reads header_truncates, of
      "\<lambda>h. bio_bind des_PacketType (\<lambda>t. bio_then align_read (bio_return (h, t)))" h "enc_PacketType t"]
    truncates_bind[OF type_reads type_truncates, of t
      "\<lambda>t. bio_then align_read (bio_return (h, t))" "[]"]
  by (simp add: truncates_def)

lemma read_head_parses:
  assumes "read_head (BitBuffer_from_bytes data) = (Inr (h, t), b')"
  shows "channel_fits t" and "\<exists>rest. bytes_bits data = enc_head h t @ rest"
proof -
  have p: "parses (bio_then align_read (bio_return (h, t))) (\<lambda>g y. y = (h, t))" for h t
    unfolding parses_def
  proof (intro allI impI)
    fix b rest x b'
    assume r: "reader_rep b rest" and m: "bio_then align_read (bio_return (h, t)) b = (Inr x, b')"
    from r have le: "bb_read_pos b \<le> 8 * length (bb_buffer b)" by (simp add: reader_rep_def)
    from align_read_ok[OF this] obtain b1 where b1: "align_read b = (Inr (), b1)"
      "bb_buffer b1 = bb_buffer b" "bb_read_pos b1 = bb_read_pos b + pad_bits (bb_read_pos b)"
      by blast
    have "bb_read_pos b + pad_bits (bb_read_pos b) \<le> 8 * length (bb_buffer b)"
      using le by (simp add: pad_bits_total(2))
    with b1 r have "reader_rep b1 (drop (pad_bits (bb_read_pos b)) rest)"
      by (auto simp: reader_rep_def add.commute)
    with b1 m show "\<exists>e rest'. rest = e @ rest' \<and> x = (h, t) \<and> reader_rep b' rest'"
      by (intro exI[of _ "take (pad_bits (bb_read_pos b)) rest"]
          exI[of _ "drop (pad_bits (bb_read_pos b)) rest"]) (simp add: bio_return_def)
  qed
  have "parses read_head (\<lambda>e y. channel_fits (snd y) \<and> (\<exists>g. e = enc_head (fst y) (snd y) @ g))"
    unfolding read_head_def
    by (rule parses_bind[OF header_parses], rule parses_bind[OF type_parses],
        rule parses_weaken[OF p]) (auto simp: enc_head_def)
  from parsesD[OF this reader_rep_from_bytes assms] obtain e rest
    where "bytes_bits data = e @ rest" "channel_fits t" "\<exists>g. e = enc_head h t @ g"
    unfolding fst_conv snd_conv by metis
  then show "channel_fits t" and "\<exists>rest. bytes_bits data = enc_head h t @ rest"
    by (metis, metis append_assoc)
qed

section \<open>Properties\<close>

definition example_packet :: packet where
  "example_packet = \<lparr>pkt_header = \<lparr>ph_protocol_id = 1, ph_sequence = 2, ph_ack = 3, ph_ack_bits = 5\<rparr>,
     pkt_type = Payload 3 True, pkt_payload = [9, 8]\<rparr>"

definition example_data :: bytes where
  "example_data = [0, 0, 0, 1, 0, 2, 0, 3, 0, 0, 0, 0, 0, 0, 0, 5, 0x77, 9, 8]"

lemma example_packet_wire:
  "Packet_serialize example_packet = Inr example_data"
  "Packet_deserialize example_data = Inr example_packet"
  by code_simp+

text \<open>C3: a packet whose channel fits the wire's 3 bits is read back as it was sent, header, type
  and payload, from exactly the header size of its type plus the length of its payload.\<close>

theorem packet_roundtrip:
  assumes "channel_fits (pkt_type pkt)"
  shows "\<exists>data. Packet_serialize pkt = Inr data \<and> Packet_deserialize data = Inr pkt \<and>
           length data = head_size (pkt_type pkt) + length (pkt_payload pkt)"
  using roundtrip[OF assms] by metis

theorem packet_roundtrip_witness:
  "channel_fits (pkt_type example_packet) \<and>
   (\<exists>data. Packet_serialize example_packet = Inr data \<and> Packet_deserialize data = Inr example_packet \<and>
     length data = head_size (pkt_type example_packet) + length (pkt_payload example_packet))"
proof
  show ok: "channel_fits (pkt_type example_packet)" by code_simp
  from packet_roundtrip[OF this]
  show "\<exists>data. Packet_serialize example_packet = Inr data \<and> Packet_deserialize data = Inr example_packet \<and>
     length data = head_size (pkt_type example_packet) + length (pkt_payload example_packet)" .
qed

lemma serialize_overflow:
  assumes "\<not> channel_fits (pkt_type pkt)"
  shows "Packet_serialize pkt = Inl InvalidData"
proof -
  obtain b1 where b1: "ser_PacketHeader (pkt_header pkt) BitBuffer_new = (Inr (), b1)"
      "writer_rep b1 ([] @ enc_PacketHeader (pkt_header pkt))"
    using writesD[OF header_writes writer_rep_new] .
  obtain b2 where "ser_PacketType (pkt_type pkt) b1 = (Inl InvalidData, b2)"
    using type_overflow[OF assms b1(2)] by (metis prod.collapse)
  with b1(1) show ?thesis by (simp add: Packet_serialize_def)
qed

text \<open>Serialization fails with \<open>InvalidData\<close> for the channels above 7, the only failure
  it has; \<open>ChannelConfig\<close> allows 256 channels.\<close>

theorem packet_serialize_fails_iff:
  "Packet_serialize pkt = Inl e \<longleftrightarrow> \<not> channel_fits (pkt_type pkt) \<and> e = InvalidData"
  using serialize_overflow[of pkt] roundtrip[of pkt] by (metis Inl_Inr_False sum.inject(1))

text \<open>C24: every packet the reader accepts is one the writer can send: writing it again gives the
  same number of bytes, the same payload and, but for the padding before the payload, the same
  bits.\<close>

theorem packet_deserialize_canonical:
  assumes "Packet_deserialize data = Inr pkt"
  shows "\<exists>out. Packet_serialize pkt = Inr out \<and> length out = length data \<and>
           drop (head_size (pkt_type pkt)) out = drop (head_size (pkt_type pkt)) data \<and>
           take (128 + length (enc_PacketType (pkt_type pkt))) (bytes_bits out) =
           take (128 + length (enc_PacketType (pkt_type pkt))) (bytes_bits data)"
proof -
  obtain h t b' where rh: "read_head (BitBuffer_from_bytes data) = (Inr (h, t), b')"
      and pkt: "pkt = \<lparr>pkt_header = h, pkt_type = t, pkt_payload = drop (bb_read_pos b' div 8) data\<rparr>"
    using assms by (auto simp: deserialize_read_head split: if_splits prod.splits sum.splits)
  note ok = read_head_parses[OF rh]
  then obtain rest where bits: "bytes_bits data = enc_head h t @ rest" by blast
  from deserialize_head[OF bits ok(1)] assms have p: "pkt_header pkt = h" "pkt_type pkt = t"
    "pkt_payload pkt = drop (head_size t) data" by auto
  have "8 * length data \<ge> 128 + length (enc_PacketType t)"
    using arg_cong[OF bits, of length] by (simp add: length_enc_head)
  then have hs: "head_size t \<le> length data" by (simp add: head_size_def)
  from serialize_ok[of pkt] ok(1) p obtain hb where hb: "Packet_serialize pkt = Inr (hb @ drop (head_size t) data)"
    "bytes_bits hb = enc_head h t @ replicate (pad_bits (length (enc_head h t))) False"
    "length hb = head_size t" by auto
  with hs bits p show ?thesis
    by (intro exI[of _ "hb @ drop (head_size t) data"])
      (simp add: bytes_bits_append length_enc_head)
qed

theorem packet_deserialize_canonical_witness:
  "\<exists>out. Packet_serialize example_packet = Inr out \<and> length out = 19 \<and> drop 17 out = [9, 8]"
  using packet_deserialize_canonical[OF example_packet_wire(2)]
  by (auto simp: example_packet_def example_data_def head_size_def)

text \<open>Cutting a serialized packet anywhere inside its head makes the reader fail, never return
  another packet.\<close>

theorem packet_truncated_fails:
  assumes "Packet_serialize pkt = Inr data" and "k < head_size (pkt_type pkt)"
  shows "Packet_deserialize (take k data) = Inl (if k = 0 then InvalidData else UnexpectedEof)"
proof (cases "k = 0")
  case True
  then show ?thesis by (simp add: Packet_deserialize_def)
next
  case False
  let ?e = "enc_head (pkt_header pkt) (pkt_type pkt)"
  have ok: "channel_fits (pkt_type pkt)"
    using assms(1) serialize_overflow[of pkt] by auto
  from serialize_ok[OF this] assms(1) obtain hb where hb: "data = hb @ pkt_payload pkt"
    "bytes_bits hb = ?e @ replicate (pad_bits (length ?e)) False"
    "length hb = head_size (pkt_type pkt)" by auto
  have "8 * length hb < length ?e + 8"
    using arg_cong[OF hb(2), of length] by (simp add: pad_bits_def)
  then have lt: "8 * k < length ?e" using assms(2) hb(3) by linarith
  have "bytes_bits (take k data) = take (8 * k) ?e"
    using hb assms(2) lt by (simp add: bytes_bits_take)
  then have "reader_rep (BitBuffer_from_bytes (take k data)) (take (8 * k) ?e)"
    using reader_rep_from_bytes[of "take k data"] by simp
  then obtain b' where "read_head (BitBuffer_from_bytes (take k data)) = (Inl UnexpectedEof, b')"
    using read_head_truncates[OF ok, of "pkt_header pkt"] lt unfolding truncates_def by blast
  moreover have "take k data \<noteq> []" using False assms(2) hb by auto
  ultimately show ?thesis using False by (simp add: deserialize_read_head)
qed

theorem packet_truncated_fails_witness:
  "Packet_deserialize [0, 0, 0, 1, 0, 2, 0, 3, 0, 0, 0, 0, 0, 0, 0, 5] = Inl UnexpectedEof"
  using packet_truncated_fails[OF example_packet_wire(1), of 16]
  by (simp add: example_packet_def example_data_def head_size_def)

end
