(* ===== verification/Sequence.thy ===== *)
theory Sequence
  imports Prelude
begin

text \<open>
  Circular \<open>u16\<close> sequence numbers (\<open>gbnet/src/util.rs\<close>): the comparison
  \<open>sequence_greater_than\<close> and the signed distance \<open>sequence_diff\<close>. The lemmas relate both to
  the wrapped distance \<open>unat (s1 - s2)\<close>, show that they agree with each other on every pair,
  also at distance 32768, and give the locale of circular orders the receivers are verified
  against.
\<close>

definition SEQUENCE_HALF_RANGE :: u16 where
  "SEQUENCE_HALF_RANGE = 32768"

definition sequence_greater_than :: "u16 \<Rightarrow> u16 \<Rightarrow> bool" where
  "sequence_greater_than s1 s2 \<longleftrightarrow>
     (s1 > s2 \<and> s1 - s2 \<le> SEQUENCE_HALF_RANGE) \<or> (s1 < s2 \<and> s2 - s1 > SEQUENCE_HALF_RANGE)"

definition sequence_diff :: "u16 \<Rightarrow> u16 \<Rightarrow> int" where
  "sequence_diff s1 s2 =
     (let half = uint SEQUENCE_HALF_RANGE;
          full = uint SEQUENCE_HALF_RANGE * 2;
          diff = uint s1 - uint s2
      in if diff > half then diff - full
         else if diff < - half then diff + full
         else diff)"

section \<open>Both functions in terms of the unsigned values\<close>

lemma u16_uint_cases:
  fixes s :: u16
  obtains a where "uint s = a" "0 \<le> a" "a < 65536"
  using uint_bounded[of s] by simp

lemma sequence_diff_unfold:
  "sequence_diff s1 s2 =
     (if uint s1 - uint s2 > 32768 then uint s1 - uint s2 - 65536
      else if uint s1 - uint s2 < - 32768 then uint s1 - uint s2 + 65536
      else uint s1 - uint s2)"
  by (simp add: sequence_diff_def SEQUENCE_HALF_RANGE_def)

lemma uint_sub_u16:
  "uint (s1 - s2 :: u16) = (if uint s2 \<le> uint s1 then uint s1 - uint s2 else uint s1 - uint s2 + 65536)"
  using uint_sub_if'[of s1 s2] by simp

lemma sequence_greater_than_unfold:
  "sequence_greater_than s1 s2 \<longleftrightarrow>
     (uint s2 < uint s1 \<and> uint s1 - uint s2 \<le> 32768) \<or>
     (uint s1 < uint s2 \<and> 32768 < uint s2 - uint s1)"
  by (auto simp: sequence_greater_than_def SEQUENCE_HALF_RANGE_def word_less_def
        word_le_def uint_sub_u16)

lemma sequence_greater_than_iff_diff:
  "sequence_greater_than s1 s2 \<longleftrightarrow> 0 < sequence_diff s1 s2"
  by (cases s1 rule: u16_uint_cases; cases s2 rule: u16_uint_cases)
    (auto simp: sequence_greater_than_unfold sequence_diff_unfold)

lemma sequence_diff_bounds: "- 32768 \<le> sequence_diff s1 s2" "sequence_diff s1 s2 \<le> 32768"
  by (cases s1 rule: u16_uint_cases; cases s2 rule: u16_uint_cases;
      simp add: sequence_diff_unfold)+

lemma sequence_diff_antisym: "sequence_diff s2 s1 = - sequence_diff s1 s2"
  by (simp add: sequence_diff_unfold)

lemma sequence_diff_0_iff [simp]: "sequence_diff s1 s2 = 0 \<longleftrightarrow> s1 = s2"
proof -
  have "uint s1 = uint s2 \<longleftrightarrow> s1 = s2" by (simp add: word_uint_eq_iff)
  then show ?thesis
    by (cases s1 rule: u16_uint_cases; cases s2 rule: u16_uint_cases)
      (auto simp: sequence_diff_unfold)
qed

lemma sequence_diff_self [simp]: "sequence_diff s s = 0"
  by simp

lemma sequence_diff_cong: "word_of_int (sequence_diff s1 s2) = s1 - s2"
proof -
  have *: "word_of_int (uint s1 - uint s2) = s1 - s2"
    by (rule word_sub_wi [symmetric])
  have full: "(word_of_int 65536 :: u16) = 0"
    by simp
  have "word_of_int (x - 65536) = word_of_int x - (word_of_int 65536 :: u16)"
       "word_of_int (x + 65536) = word_of_int x + (word_of_int 65536 :: u16)" for x
    by (simp_all only: wi_hom_sub wi_hom_add)
  note ** = this [unfolded full diff_zero add_0_right]
  show ?thesis
    by (simp add: sequence_diff_unfold * **)
qed

lemma sequence_diff_by_sub:
  "sequence_diff s1 s2 =
     (if uint (s1 - s2) < 32768 then uint (s1 - s2)
      else if uint (s1 - s2) = 32768 then (if uint s2 < uint s1 then 32768 else - 32768)
      else uint (s1 - s2) - 65536)"
  by (cases s1 rule: u16_uint_cases; cases s2 rule: u16_uint_cases)
    (auto simp: uint_sub_u16 sequence_diff_unfold)

lemma sequence_diff_add:
  assumes "k \<le> 32767"
  shows "sequence_diff (s + of_nat k) s = int k"
proof -
  have "uint (of_nat k :: u16) = int k"
    using assms by (simp add: uint_word_of_int_eq take_bit_eq_mod unsigned_of_nat)
  then show ?thesis
    using assms by (simp add: sequence_diff_by_sub)
qed

lemma sequence_diff_succ [simp]: "sequence_diff (s + 1) s = 1"
  using sequence_diff_add[of 1 s] by simp

lemma sequence_greater_than_succ [simp]: "sequence_greater_than (s + 1) s"
  by (simp add: sequence_greater_than_iff_diff)

lemma sequence_add_diff:
  assumes "0 \<le> sequence_diff s1 s2"
  shows "s2 + of_nat (nat (sequence_diff s1 s2)) = s1"
proof -
  have "(of_nat (nat (sequence_diff s1 s2)) :: u16) = word_of_int (int (nat (sequence_diff s1 s2)))"
    by simp
  then have "(of_nat (nat (sequence_diff s1 s2)) :: u16) = s1 - s2"
    using assms by (simp add: sequence_diff_cong)
  then show ?thesis by simp
qed

lemma sequence_greater_than_irrefl [simp]: "\<not> sequence_greater_than s s"
  by (simp add: sequence_greater_than_iff_diff)

section \<open>Circular orders\<close>

text \<open>
  What a receiver needs of the comparison: a distance whose sign is the comparison, which
  vanishes exactly on equal numbers and changes sign when the arguments are swapped. The
  comparison is then total and antisymmetric on all pairs, though not transitive on the whole
  circle; inside a window of half the circle it is transitive.
\<close>

locale circular_order =
  fixes gt :: "'a \<Rightarrow> 'a \<Rightarrow> bool"
    and dist :: "'a \<Rightarrow> 'a \<Rightarrow> int"
    and half :: int
  assumes gt_dist: "gt a b \<longleftrightarrow> 0 < dist a b"
    and dist_swap: "dist b a = - dist a b"
    and dist_0: "dist a b = 0 \<longleftrightarrow> a = b"
    and dist_add: "0 \<le> dist a b \<Longrightarrow> 0 \<le> dist b c \<Longrightarrow> dist a b + dist b c < half \<Longrightarrow>
      dist a c = dist a b + dist b c"
    and dist_window: "0 \<le> dist a r \<Longrightarrow> dist a r < half \<Longrightarrow> 0 \<le> dist b r \<Longrightarrow> dist b r < half \<Longrightarrow>
      dist a b = dist a r - dist b r"
begin

lemma gt_irrefl: "\<not> gt a a"
  using dist_0[of a a] by (simp add: gt_dist)

lemma gt_asym: "gt a b \<Longrightarrow> \<not> gt b a"
  using dist_swap[of a b] by (simp add: gt_dist)

lemma gt_total: "a \<noteq> b \<Longrightarrow> gt a b \<or> gt b a"
  using dist_swap[of a b] dist_0[of a b] by (auto simp: gt_dist)

lemma gt_trans_window:
  "gt a b \<Longrightarrow> gt b c \<Longrightarrow> dist a b + dist b c < half \<Longrightarrow> gt a c"
  using dist_add[of a b c] by (simp add: gt_dist)

lemma not_gt_iff: "\<not> gt a b \<longleftrightarrow> a = b \<or> gt b a"
  using gt_total gt_asym gt_irrefl by blast

lemma gt_from_base:
  assumes "0 \<le> dist a r" "dist a r < half" "0 \<le> dist b r" "dist b r < half"
  shows "gt a b \<longleftrightarrow> dist b r < dist a r"
  using dist_window[OF assms] by (simp add: gt_dist)

end

interpretation seq: circular_order sequence_greater_than sequence_diff 32768
proof
  show "sequence_greater_than a b \<longleftrightarrow> 0 < sequence_diff a b" for a b
    by (rule sequence_greater_than_iff_diff)
  show "sequence_diff b a = - sequence_diff a b" for a b
    by (rule sequence_diff_antisym)
  show "sequence_diff a b = 0 \<longleftrightarrow> a = b" for a b
    by simp
  show "sequence_diff a c = sequence_diff a b + sequence_diff b c"
    if "0 \<le> sequence_diff a b" "0 \<le> sequence_diff b c"
       "sequence_diff a b + sequence_diff b c < 32768" for a b c
    using that
    by (cases a rule: u16_uint_cases; cases b rule: u16_uint_cases; cases c rule: u16_uint_cases)
      (auto simp: sequence_diff_unfold split: if_splits)
  show "sequence_diff a b = sequence_diff a r - sequence_diff b r"
    if "0 \<le> sequence_diff a r" "sequence_diff a r < 32768"
       "0 \<le> sequence_diff b r" "sequence_diff b r < 32768" for a b r
    using that
    by (cases a rule: u16_uint_cases; cases b rule: u16_uint_cases; cases r rule: u16_uint_cases)
      (auto simp: sequence_diff_unfold split: if_splits)
qed

end
