(* ===== verification/Rust_Std.thy ===== *)
theory Rust_Std
  imports Prelude
begin

text \<open>
  The parts of Rust's standard library the code relies on: clocks (\<open>Instant\<close>,
  \<open>Duration\<close>), \<open>VecDeque\<close>, \<open>Iterator::min_by_key\<close> and \<open>HashMap\<close>.

  A \<open>HashMap\<close> is an association list with distinct keys. Its iteration order is unspecified
  in Rust, so every operation that iterates takes the order as an argument, a function that
  permutes the key list (\<open>is_iter_order\<close>); the theorems hold for every such function.
\<close>

section \<open>Clocks\<close>

text \<open>
  An \<open>Instant\<close> is a point on the monotonic clock in nanoseconds, a \<open>Duration\<close> a number of
  nanoseconds. \<open>Instant::elapsed\<close> and \<open>duration_since\<close> saturate at zero.
\<close>

type_synonym instant = int
type_synonym duration = nat

definition duration_since :: "instant \<Rightarrow> instant \<Rightarrow> duration" where
  "duration_since now t = nat (now - t)"

definition from_secs :: "nat \<Rightarrow> duration" where
  "from_secs s = s * 1000000000"

definition from_millis :: "nat \<Rightarrow> duration" where
  "from_millis ms = ms * 1000000"

lemma duration_since_self [simp]: "duration_since t t = 0"
  by (simp add: duration_since_def)

lemma duration_since_mono: "t \<le> t' \<Longrightarrow> duration_since now t' \<le> duration_since now t"
  by (simp add: duration_since_def)

lemma duration_since_mono_now: "now \<le> now' \<Longrightarrow> duration_since now t \<le> duration_since now' t"
  by (simp add: duration_since_def)

section \<open>Iterators\<close>

text \<open>\<open>Iterator::min_by_key\<close>: the first of the elements with the least key.\<close>

fun min_by_key :: "('a \<Rightarrow> 'b::linorder) \<Rightarrow> 'a list \<Rightarrow> 'a option" where
  "min_by_key f [] = None"
| "min_by_key f (x # xs) = Some (foldl (\<lambda>m y. if f y < f m then y else m) x xs)"

lemma foldl_min_by_key:
  "(let r = foldl (\<lambda>m y. if f y < f m then y else m) (x :: 'a) xs
    in r \<in> insert x (set xs) \<and> (\<forall>y\<in>insert x (set xs). (f r :: 'b::linorder) \<le> f y))"
proof (induction xs arbitrary: x)
  case Nil
  then show ?case by simp
next
  case (Cons a xs)
  show ?case
    using Cons[of a] Cons[of x] by (auto simp: Let_def)
qed

lemma min_by_key_None [simp]: "min_by_key f xs = None \<longleftrightarrow> xs = []"
  by (cases xs) auto

lemma min_by_key_Some:
  assumes "min_by_key f xs = Some x"
  shows "x \<in> set xs" and "y \<in> set xs \<Longrightarrow> f x \<le> f y"
  using assms foldl_min_by_key[of f] by (cases xs; fastforce simp: Let_def)+

section \<open>HashMap\<close>

type_synonym ('k, 'v) hash_map = "('k \<times> 'v) list"
type_synonym 'k iter_order = "'k list \<Rightarrow> 'k list"

definition is_iter_order :: "'k iter_order \<Rightarrow> bool" where
  "is_iter_order it \<longleftrightarrow> (\<forall>ks. mset (it ks) = mset ks)"

definition hm_ok :: "('k, 'v) hash_map \<Rightarrow> bool" where
  "hm_ok m \<longleftrightarrow> distinct (map fst m)"

definition hm_get :: "('k, 'v) hash_map \<Rightarrow> 'k \<Rightarrow> 'v option" where
  "hm_get m k = map_of m k"

definition hm_contains_key :: "('k, 'v) hash_map \<Rightarrow> 'k \<Rightarrow> bool" where
  "hm_contains_key m k \<longleftrightarrow> map_of m k \<noteq> None"

definition hm_insert :: "'k \<Rightarrow> 'v \<Rightarrow> ('k, 'v) hash_map \<Rightarrow> ('k, 'v) hash_map" where
  "hm_insert k v m = AList.update k v m"

definition hm_remove :: "'k \<Rightarrow> ('k, 'v) hash_map \<Rightarrow> ('k, 'v) hash_map" where
  "hm_remove k m = AList.delete k m"

definition hm_retain :: "('k \<Rightarrow> 'v \<Rightarrow> bool) \<Rightarrow> ('k, 'v) hash_map \<Rightarrow> ('k, 'v) hash_map" where
  "hm_retain P m = filter (\<lambda>(k, v). P k v) m"

definition hm_keys :: "'k iter_order \<Rightarrow> ('k, 'v) hash_map \<Rightarrow> 'k list" where
  "hm_keys it m = it (map fst m)"

definition hm_iter :: "'k iter_order \<Rightarrow> ('k, 'v) hash_map \<Rightarrow> ('k \<times> 'v) list" where
  "hm_iter it m = map (\<lambda>k. (k, the (map_of m k))) (hm_keys it m)"

abbreviation hm_len :: "('k, 'v) hash_map \<Rightarrow> nat" where
  "hm_len m \<equiv> length m"

abbreviation hm_dom :: "('k, 'v) hash_map \<Rightarrow> 'k set" where
  "hm_dom m \<equiv> fst ` set m"

lemma iter_order_id: "is_iter_order (\<lambda>ks. ks)"
  by (simp add: is_iter_order_def)

lemma set_hm_keys: "is_iter_order it \<Longrightarrow> set (hm_keys it m) = hm_dom m"
  unfolding is_iter_order_def hm_keys_def by (metis set_map set_mset_mset)

lemma distinct_hm_keys: "is_iter_order it \<Longrightarrow> hm_ok m \<Longrightarrow> distinct (hm_keys it m)"
  unfolding is_iter_order_def hm_keys_def hm_ok_def by (metis mset_eq_imp_distinct_iff)

lemma length_hm_keys: "is_iter_order it \<Longrightarrow> length (hm_keys it m) = length m"
  unfolding is_iter_order_def hm_keys_def by (metis length_map size_mset)

lemma hm_get_iff: "hm_ok m \<Longrightarrow> hm_get m k = Some v \<longleftrightarrow> (k, v) \<in> set m"
  by (simp add: hm_get_def hm_ok_def)

lemma hm_get_None_iff: "hm_get m k = None \<longleftrightarrow> k \<notin> hm_dom m"
  by (simp add: hm_get_def map_of_eq_None_iff)

lemma hm_contains_iff: "hm_contains_key m k \<longleftrightarrow> k \<in> hm_dom m"
  by (simp add: hm_contains_key_def map_of_eq_None_iff)

lemma hm_contains_get: "hm_contains_key m k \<longleftrightarrow> (\<exists>v. hm_get m k = Some v)"
  by (auto simp: hm_contains_key_def hm_get_def)

lemma set_hm_iter:
  assumes "is_iter_order it" and "hm_ok m"
  shows "set (hm_iter it m) = set m"
proof -
  have "(\<lambda>k. (k, the (map_of m k))) ` hm_dom m = set m"
    using assms(2) by (force simp: hm_ok_def image_iff)
  then show ?thesis
    by (simp add: hm_iter_def set_hm_keys[OF assms(1)])
qed

lemma hm_get_insert [map_simps]:
  "hm_get (hm_insert k v m) j = (if j = k then Some v else hm_get m j)"
  by (simp add: hm_get_def hm_insert_def update_conv)

lemma hm_get_remove [map_simps]:
  "hm_get (hm_remove k m) j = (if j = k then None else hm_get m j)"
  by (simp add: hm_get_def hm_remove_def delete_conv)

lemma hm_ok_Nil [simp]: "hm_ok []"
  by (simp add: hm_ok_def)

lemma hm_get_Nil [simp]: "hm_get [] k = None"
  by (simp add: hm_get_def)

lemma hm_ok_insert [intro, map_simps]: "hm_ok m \<Longrightarrow> hm_ok (hm_insert k v m)"
  by (simp add: hm_ok_def hm_insert_def distinct_update)

lemma hm_ok_remove [intro, map_simps]: "hm_ok m \<Longrightarrow> hm_ok (hm_remove k m)"
  by (simp add: hm_ok_def hm_remove_def distinct_delete)

lemma hm_ok_retain [intro, map_simps]: "hm_ok m \<Longrightarrow> hm_ok (hm_retain P m)"
  by (simp add: hm_ok_def hm_retain_def distinct_map_filter)

lemma hm_dom_insert [map_simps]: "hm_dom (hm_insert k v m) = insert k (hm_dom m)"
  by (simp add: hm_insert_def dom_update)

lemma hm_dom_remove [map_simps]: "hm_dom (hm_remove k m) = hm_dom m - {k}"
  by (force simp: hm_remove_def AList.delete_eq)

lemma hm_len_card: "hm_ok m \<Longrightarrow> hm_len m = card (hm_dom m)"
  by (metis distinct_card hm_ok_def length_map set_map)

lemma hm_len_insert [map_simps]:
  "hm_ok m \<Longrightarrow> hm_len (hm_insert k v m) = (if k \<in> hm_dom m then hm_len m else Suc (hm_len m))"
  by (simp add: hm_len_card hm_ok_insert hm_dom_insert insert_absorb)

lemma hm_len_remove [map_simps]:
  "hm_ok m \<Longrightarrow> hm_len (hm_remove k m) = (if k \<in> hm_dom m then hm_len m - 1 else hm_len m)"
  by (simp add: hm_len_card hm_ok_remove hm_dom_remove card_Diff_singleton_if)

lemma hm_len_retain_le: "hm_len (hm_retain P m) \<le> hm_len m"
  by (simp add: hm_retain_def)

lemma set_hm_remove: "set (hm_remove k m) = {e \<in> set m. fst e \<noteq> k}"
  by (auto simp: hm_remove_def AList.delete_eq)

lemma set_hm_retain: "set (hm_retain P m) = {e \<in> set m. P (fst e) (snd e)}"
  by (auto simp: hm_retain_def)

lemma hm_get_retain:
  assumes "hm_ok m"
  shows "hm_get (hm_retain P m) k =
    (case hm_get m k of None \<Rightarrow> None | Some v \<Rightarrow> if P k v then Some v else None)"
proof (cases "hm_get (hm_retain P m) k")
  case None
  then have "\<And>v. (k, v) \<in> set m \<Longrightarrow> \<not> P k v"
    by (auto simp: hm_get_None_iff set_hm_retain image_iff)
  then show ?thesis using None assms by (auto simp: hm_get_iff split: option.split)
next
  case (Some v)
  then have "(k, v) \<in> set (hm_retain P m)" using hm_get_iff[OF hm_ok_retain[OF assms]] by metis
  then have "hm_get m k = Some v \<and> P k v" using assms by (simp add: set_hm_retain hm_get_iff)
  with Some show ?thesis by simp
qed

lemma set_hm_insert:
  "hm_ok m \<Longrightarrow> set (hm_insert k v m) = insert (k, v) {e \<in> set m. fst e \<noteq> k}"
proof -
  assume ok: "hm_ok m"
  have "(j, w) \<in> set (hm_insert k v m) \<longleftrightarrow> (j, w) \<in> insert (k, v) {e \<in> set m. fst e \<noteq> k}" for j w
    using hm_get_iff[OF hm_ok_insert[OF ok], of k v j w] hm_get_iff[OF ok, of j w]
    by (auto simp: hm_get_insert split: if_splits)
  then show ?thesis by (auto simp del: insert_iff)
qed

lemma hm_get_removes: "hm_get (fold hm_remove ks m) s = (if s \<in> set ks then None else hm_get m s)"
  by (induction ks arbitrary: m) (auto simp: hm_get_remove)

lemma hm_ok_removes: "hm_ok m \<Longrightarrow> hm_ok (fold hm_remove ks m)"
  by (induction ks arbitrary: m) (auto simp: hm_ok_remove)

section \<open>Eviction of the oldest entry\<close>

text \<open>
  \<open>m.iter().min_by_key(|(_, v)| time(v)).map(|(k, _)| k)\<close>: the key with the least time stamp,
  the first such key in iteration order.
\<close>

definition hm_oldest :: "'k iter_order \<Rightarrow> ('v \<Rightarrow> instant) \<Rightarrow> ('k, 'v) hash_map \<Rightarrow> 'k option" where
  "hm_oldest it time m = map_option fst (min_by_key (\<lambda>(_, v). time v) (hm_iter it m))"

lemma hm_iter_Nil_iff: "is_iter_order it \<Longrightarrow> hm_iter it m = [] \<longleftrightarrow> m = []"
  using length_hm_keys[of it m] by (auto simp: hm_iter_def)

lemma hm_oldest_None: "is_iter_order it \<Longrightarrow> hm_oldest it time m = None \<longleftrightarrow> m = []"
  by (simp add: hm_oldest_def hm_iter_Nil_iff)

lemma hm_oldest_Some:
  assumes "is_iter_order it" and "hm_ok m" and "hm_oldest it time m = Some k"
  obtains v where "hm_get m k = Some v" and "\<And>e. e \<in> set m \<Longrightarrow> time v \<le> time (snd e)"
proof -
  from assms(3) obtain e where e: "min_by_key (\<lambda>(_, v). time v) (hm_iter it m) = Some e"
    and k: "k = fst e"
    by (auto simp: hm_oldest_def)
  have "e \<in> set m" and "\<And>y. y \<in> set m \<Longrightarrow> time (snd e) \<le> time (snd y)"
    using min_by_key_Some[OF e] set_hm_iter[OF assms(1,2)] by (auto simp: case_prod_unfold)
  then show ?thesis
    using that[of "snd e"] assms(2) k by (simp add: hm_get_iff)
qed

text \<open>
  The contract of a table that makes room by dropping its oldest entry: the in-flight table, the
  reassembly buffers, the used tokens and the ordered receive buffer all promise it.
\<close>

locale evicting_table =
  fixes table :: "'s \<Rightarrow> ('k, 'v) hash_map"
    and stamp :: "'v \<Rightarrow> instant"
    and evict :: "'k iter_order \<Rightarrow> 's \<Rightarrow> 's"
  assumes evict_table:
    "is_iter_order it \<Longrightarrow> hm_ok (table s) \<Longrightarrow> table (evict it s) =
       (case hm_oldest it stamp (table s) of
          None \<Rightarrow> table s
        | Some k \<Rightarrow> hm_remove k (table s))"
begin

lemma evict_ok: "is_iter_order it \<Longrightarrow> hm_ok (table s) \<Longrightarrow> hm_ok (table (evict it s))"
  by (auto simp: evict_table hm_ok_remove split: option.splits)

lemma evict_len:
  assumes "is_iter_order it" and "hm_ok (table s)"
  shows "hm_len (table (evict it s)) = hm_len (table s) - 1"
proof (cases "hm_oldest it stamp (table s)")
  case None
  then have "table (evict it s) = table s"
    using assms by (simp add: evict_table)
  moreover have "table s = []"
    using None assms by (simp add: hm_oldest_None)
  ultimately show ?thesis by simp
next
  case (Some k)
  obtain v where "hm_get (table s) k = Some v"
    using hm_oldest_Some[OF assms Some] by blast
  then have "k \<in> hm_dom (table s)"
    by (metis hm_get_None_iff option.distinct(1))
  then show ?thesis using assms Some by (simp add: evict_table hm_len_remove)
qed

lemma evict_subset:
  "is_iter_order it \<Longrightarrow> hm_ok (table s) \<Longrightarrow> set (table (evict it s)) \<subseteq> set (table s)"
  by (auto simp: evict_table set_hm_remove split: option.splits)

lemma evicted_is_oldest:
  assumes "is_iter_order it" and "hm_ok (table s)"
    and "e \<in> set (table s)" and "e \<notin> set (table (evict it s))"
    and "e' \<in> set (table (evict it s))"
  shows "stamp (snd e) \<le> stamp (snd e')"
proof (cases "hm_oldest it stamp (table s)")
  case None
  then show ?thesis using assms by (simp add: evict_table)
next
  case (Some k)
  obtain v where v: "hm_get (table s) k = Some v"
      "\<And>e. e \<in> set (table s) \<Longrightarrow> stamp v \<le> stamp (snd e)"
    using hm_oldest_Some[OF assms(1,2) Some] by blast
  have "fst e = k"
    using assms Some by (auto simp: evict_table set_hm_remove)
  with v(1) assms(2,3) have "snd e = v"
    by (metis hm_get_iff option.inject prod.collapse)
  moreover have "e' \<in> set (table s)"
    using assms evict_subset by blast
  ultimately show ?thesis using v(2) by simp
qed

end

end
