(* ===== verification/Crc.thy ===== *)
theory Crc
  imports Prelude
begin

text \<open>
  The integrity check of \<open>gbnet/src/security.rs\<close>: CRC-32C over the packet, appended in
  little-endian order, checked and stripped on receipt. The step of the checksum is linear over
  exclusive or and injective; four bytes enter it exactly as one word does, so a frame is
  accepted iff its checksum state is a fixed residue, and every change confined to four
  consecutive bytes of a frame is detected.
\<close>

section \<open>The checksum\<close>

definition CRC32C_POLYNOMIAL :: u32 where
  "CRC32C_POLYNOMIAL = 0x82F63B78"

definition crc_bit :: "u32 \<Rightarrow> u32" where
  "crc_bit crc =
     (if crc AND 1 \<noteq> 0 then drop_bit 1 crc XOR CRC32C_POLYNOMIAL else drop_bit 1 crc)"

text \<open>One iteration of the loop over the bytes, with its inner loop of eight steps.\<close>

definition crc_byte :: "u32 \<Rightarrow> u8 \<Rightarrow> u32" where
  "crc_byte crc byte = (crc_bit ^^ 8) (crc XOR ucast byte)"

definition crc32c :: "bytes \<Rightarrow> u32" where
  "crc32c data = NOT (foldl crc_byte 0xFFFFFFFF data)"

section \<open>Framing\<close>

definition append_crc32 :: "bytes \<Rightarrow> bytes" where
  "append_crc32 data = data @ le_bytes 4 (crc32c data)"

definition validate_and_strip_crc32 :: "bytes \<Rightarrow> bytes option" where
  "validate_and_strip_crc32 data =
     (if length data < 4 then None
      else
        let payload = take (length data - 4) data;
            expected = from_le_bytes
              [data ! (length data - 4), data ! (length data - 3),
               data ! (length data - 2), data ! (length data - 1)];
            actual = crc32c payload
        in if actual = expected then Some payload else None)"

section \<open>Linearity and injectivity of the step\<close>

lemma xor_cancel: "(a :: 'a::len word) XOR (a XOR b) = b" "(b XOR a) XOR a = (b :: 'a word)"
  by (simp_all add: xor.assoc[symmetric]) (simp add: xor.assoc)

lemma xor_zero_iff: "(a :: 'a::len word) XOR b = 0 \<longleftrightarrow> a = b"
  by (metis xor_cancel(1) xor.right_neutral xor_self_eq)

lemma crc_bit_alt: "crc_bit c = drop_bit 1 c XOR (if bit c 0 then CRC32C_POLYNOMIAL else 0)"
proof -
  have "c AND 1 \<noteq> 0 \<longleftrightarrow> bit c 0" by (simp add: and_one_eq bit_0 mod_2_eq_odd)
  then show ?thesis by (simp add: crc_bit_def)
qed

lemma crc_bit_linear: "crc_bit (a XOR b) = crc_bit a XOR crc_bit b"
  unfolding crc_bit_alt by (auto simp: bit_xor_iff bit_drop_bit_eq intro!: bit_word_eqI)

lemma crc_bits_linear: "(crc_bit ^^ n) (a XOR b) = (crc_bit ^^ n) a XOR (crc_bit ^^ n) b"
  by (induction n) (simp_all add: crc_bit_linear)

text \<open>The polynomial has its top bit set, so the bit shifted out can be read off the result.\<close>

lemma crc_bit_zero: "crc_bit c = 0 \<Longrightarrow> c = 0"
proof -
  assume *: "crc_bit c = 0"
  have "\<not> bit c 0"
  proof
    assume "bit c 0"
    with * have "drop_bit 1 c XOR CRC32C_POLYNOMIAL = 0" by (simp add: crc_bit_alt)
    then have "drop_bit 1 c = CRC32C_POLYNOMIAL" by (simp add: xor_zero_iff)
    then have "bit (drop_bit 1 c) 31" by (simp add: CRC32C_POLYNOMIAL_def)
    then show False using bit_imp_le_length[of c 32] by (auto simp: bit_drop_bit_eq)
  qed
  moreover from this * have "drop_bit 1 c = 0" by (simp add: crc_bit_alt)
  ultimately have "\<not> bit c i" for i
    by (cases i) (use bit_drop_bit_eq[of 1 c] in \<open>auto simp: fun_eq_iff\<close>)
  then show "c = 0" by (intro bit_word_eqI) simp
qed

lemma crc_bit_inj: "crc_bit a = crc_bit b \<longleftrightarrow> a = b"
proof
  assume "crc_bit a = crc_bit b"
  then have "crc_bit (a XOR b) = 0" by (simp add: crc_bit_linear)
  from crc_bit_zero[OF this] show "a = b" by (simp add: xor_zero_iff)
qed simp

lemma crc_bits_inj: "(crc_bit ^^ n) a = (crc_bit ^^ n) b \<longleftrightarrow> a = b"
  by (induction n) (simp_all add: crc_bit_inj)

text \<open>Shifting out zero bits only shifts; so a word consumed byte by byte enters as a whole.\<close>

lemma drop_push_id:
  assumes "\<And>i. bit y i \<Longrightarrow> i + n < LENGTH('a)"
  shows "drop_bit n (push_bit n y) = (y :: 'a::len word)"
  using assms by (intro bit_word_eqI) (auto simp: bit_drop_bit_eq bit_push_bit_iff add.commute)

lemma crc_bit_shift:
  assumes "\<And>i. bit (y :: u32) i \<Longrightarrow> i + 1 < 32"
  shows "crc_bit (push_bit 1 y) = y"
proof -
  have "drop_bit 1 (push_bit 1 y) = y" using assms by (intro drop_push_id) simp
  moreover have "\<not> bit (push_bit 1 y) 0" by (simp only: bit_push_bit_iff) simp
  ultimately show ?thesis by (simp only: crc_bit_alt if_False xor.right_neutral)
qed

lemma crc_bits_shift:
  "(\<And>i. bit (y :: u32) i \<Longrightarrow> i + n < 32) \<Longrightarrow> (crc_bit ^^ n) (push_bit n y) = y"
proof (induction n arbitrary: y)
  case (Suc n)
  have "(crc_bit ^^ Suc n) (push_bit (Suc n) y) = (crc_bit ^^ n) (crc_bit (push_bit 1 (push_bit n y)))"
    by (simp only: funpow_Suc_right comp_apply push_bit_push_bit) (simp only: plus_1_eq_Suc)
  also have "crc_bit (push_bit 1 (push_bit n y)) = push_bit n y"
    using Suc.prems by (intro crc_bit_shift) (fastforce simp: bit_push_bit_iff)
  also have "(crc_bit ^^ n) (push_bit n y) = y"
    using Suc.prems by (intro Suc.IH) fastforce
  finally show ?case .
qed simp

lemma or_xor_disjoint: "a AND b = 0 \<Longrightarrow> a OR b = a XOR (b :: 'a::len word)"
  by (rule bit_word_eqI) (metis bit_0_eq bit_and_iff bit_or_iff bit_xor_iff bot_apply bot_bool_def)

lemma crc_fold_word:
  "length w \<le> 4 \<Longrightarrow> foldl crc_byte c w = (crc_bit ^^ (8 * length w)) (c XOR from_le_bytes w)"
proof (induction w arbitrary: c)
  case (Cons b w)
  let ?y = "from_le_bytes w :: u32"
  have y: "bit ?y i \<Longrightarrow> i + 8 < 32" for i
    using Cons.prems by (auto simp: bit_from_le_bytes)
  have d: "ucast b AND push_bit 8 ?y = (0 :: u32)"
    by (rule bit_word_eqI) (auto simp: bit_and_iff bit_push_bit_iff bit_ucast_iff dest: bit_imp_le_length)
  have "foldl crc_byte c (b # w) = (crc_bit ^^ (8 * length w)) ((crc_bit ^^ 8) (c XOR ucast b) XOR ?y)"
    using Cons.IH[of "crc_byte c b"] Cons.prems by (simp add: crc_byte_def[of c b])
  also have "?y = (crc_bit ^^ 8) (push_bit 8 ?y)"
    using crc_bits_shift[OF y] by simp
  also have "(crc_bit ^^ 8) (c XOR ucast b) XOR (crc_bit ^^ 8) (push_bit 8 ?y) =
      (crc_bit ^^ 8) (c XOR from_le_bytes (b # w))"
    by (simp only: crc_bits_linear[symmetric] from_le_bytes.simps or_xor_disjoint[OF d] xor.assoc)
  also have "(crc_bit ^^ (8 * length w)) ((crc_bit ^^ 8) (c XOR from_le_bytes (b # w))) =
      (crc_bit ^^ (8 * length (b # w))) (c XOR from_le_bytes (b # w))"
    by (simp add: funpow_add comp_def del: funpow.simps from_le_bytes.simps) (simp add: funpow_add[symmetric, THEN fun_cong, unfolded comp_def] add.commute)
  finally show ?case .
qed simp

lemma crc_fold_inj:
  assumes "length w = length w'" and "length w \<le> 4"
  shows "foldl crc_byte c w = foldl crc_byte c w' \<longleftrightarrow> w = w'"
proof
  assume "foldl crc_byte c w = foldl crc_byte c w'"
  then have "c XOR from_le_bytes w = c XOR from_le_bytes w'"
    using assms by (simp add: crc_fold_word crc_bits_inj)
  then have "from_le_bytes w = (from_le_bytes w' :: u32)" by (metis xor_cancel(1))
  then have "le_bytes (length w) (from_le_bytes w :: u32) = le_bytes (length w) (from_le_bytes w' :: u32)"
    by simp
  then show "w = w'" using assms by (simp add: le_from_le_bytes)
qed simp

lemma crc_fold_state_inj: "foldl crc_byte c w = foldl crc_byte d w \<longleftrightarrow> c = d"
proof (induction w arbitrary: c d)
  case (Cons b w)
  have "crc_byte c b = crc_byte d b \<longleftrightarrow> c = d"
    unfolding crc_byte_def crc_bits_inj by (metis xor_cancel(2) xor.commute)
  with Cons show ?case by simp
qed simp

text \<open>The checksum is affine: the exclusive or of two messages has the exclusive or of the states.\<close>

lemma crc_fold_linear:
  "length xs = length ys \<Longrightarrow>
   foldl crc_byte (c XOR d) (map2 (XOR) xs ys) = foldl crc_byte c xs XOR foldl crc_byte d ys"
proof (induction xs ys arbitrary: c d rule: list_induct2)
  case (Cons x xs y ys)
  have "(ucast (x XOR y) :: u32) = ucast x XOR ucast y"
    by (rule bit_word_eqI) (auto simp: bit_ucast_iff bit_xor_iff)
  then have "crc_byte (c XOR d) (x XOR y) = crc_byte c x XOR crc_byte d y"
    unfolding crc_byte_def crc_bits_linear[symmetric] by (simp add: xor.assoc xor.left_commute)
  with Cons.IH[of "crc_byte c x" "crc_byte d y"] show ?case by simp
qed simp

section \<open>Frames\<close>

text \<open>
  The state of the checksum after the whole frame, trailer included, is the same constant for
  every accepted frame.
\<close>

definition crc_residue :: u32 where
  "crc_residue = (crc_bit ^^ 32) 0xFFFFFFFF"

lemma last_four:
  assumes "length data = n + 4"
  shows "[data ! (length data - 4), data ! (length data - 3), data ! (length data - 2),
          data ! (length data - 1)] = drop n data"
proof (rule nth_equalityI)
  fix i
  assume "i < length [data ! (length data - 4), data ! (length data - 3), data ! (length data - 2),
          data ! (length data - 1)]"
  then have "i = 0 \<or> i = 1 \<or> i = 2 \<or> i = 3" by auto
  then show "[data ! (length data - 4), data ! (length data - 3), data ! (length data - 2),
          data ! (length data - 1)] ! i = drop n data ! i"
    using assms by (elim disjE) (simp_all add: add.commute)
qed (simp add: assms)

lemma validate_split:
  assumes "length data = n + 4"
  shows "validate_and_strip_crc32 data =
    (if crc32c (take n data) = from_le_bytes (drop n data) then Some (take n data) else None)"
  using assms last_four[OF assms] by (simp add: validate_and_strip_crc32_def Let_def)

lemma validate_residue:
  "validate_and_strip_crc32 data =
    (if length data \<ge> 4 \<and> foldl crc_byte 0xFFFFFFFF data = crc_residue
     then Some (take (length data - 4) data) else None)"
proof (cases "length data \<ge> 4")
  case True
  define n where "n = length data - 4"
  then have len: "length data = n + 4" using True by simp
  define c where "c = foldl crc_byte 0xFFFFFFFF (take n data)"
  let ?t = "from_le_bytes (drop n data) :: u32"
  have "foldl crc_byte 0xFFFFFFFF (take n data @ drop n data) = (crc_bit ^^ 32) (c XOR ?t)"
    unfolding foldl_append c_def[symmetric] using crc_fold_word[of "drop n data" c] len by simp
  then have f: "foldl crc_byte 0xFFFFFFFF data = (crc_bit ^^ 32) (c XOR ?t)" by simp
  have "foldl crc_byte 0xFFFFFFFF data = crc_residue \<longleftrightarrow> c XOR ?t = 0xFFFFFFFF"
    unfolding f crc_residue_def crc_bits_inj ..
  also have "\<dots> \<longleftrightarrow> NOT c = ?t"
  proof -
    have "(0xFFFFFFFF :: u32) = - 1" by simp
    then have "NOT c = c XOR 0xFFFFFFFF"
      by (simp only:) (rule bit_word_eqI, simp add: bit_xor_iff bit_not_iff)
    then show ?thesis by (metis xor_cancel(1))
  qed
  finally show ?thesis
    using validate_split[OF len] len by (simp add: crc32c_def c_def)
qed (simp add: validate_and_strip_crc32_def)

lemma validate_append: "validate_and_strip_crc32 (append_crc32 data) = Some data"
  using validate_split[of "append_crc32 data" "length data"] by (simp add: append_crc32_def)

lemma validate_sound:
  assumes "validate_and_strip_crc32 frame = Some data"
  shows "frame = append_crc32 data"
proof -
  have "length frame \<ge> 4" using assms by (simp add: validate_and_strip_crc32_def split: if_splits)
  then obtain n where n: "length frame = n + 4" by (metis le_add_diff_inverse2)
  from assms validate_split[OF n] have d: "data = take n frame" "crc32c data = from_le_bytes (drop n frame)"
    by (simp_all split: if_splits)
  have "le_bytes 4 (crc32c data) = drop n frame"
    unfolding d(2) using n by (intro le_from_le_bytes) simp_all
  then show ?thesis unfolding append_crc32_def using d(1) by (metis append_take_drop_id)
qed

section \<open>The contract of a frame\<close>

text \<open>
  What the transport relies on: an opened frame is the sealed data, and nothing else opens.
\<close>

locale framing =
  fixes seal :: "bytes \<Rightarrow> bytes"
    and unseal :: "bytes \<Rightarrow> bytes option"
  assumes unseal_seal: "unseal (seal data) = Some data"
    and unseal_sound: "unseal frame = Some data \<Longrightarrow> frame = seal data"
begin

lemma unseal_iff: "unseal frame = Some data \<longleftrightarrow> frame = seal data"
  using unseal_seal unseal_sound by blast

lemma seal_inj: "seal d = seal e \<longleftrightarrow> d = e"
  by (metis option.inject unseal_seal)

text \<open>A serializer composed with the framing: decoding what was sealed gives the value.\<close>

lemma framed_roundtrip:
  assumes "enc x = Inr data" and "dec data = Inr x"
  shows "case unseal (seal data) of None \<Rightarrow> False | Some d \<Rightarrow> dec d = Inr x"
  using assms by (simp add: unseal_seal)

end

interpretation crc: framing append_crc32 validate_and_strip_crc32
  using validate_append validate_sound by unfold_locales

lemma burst_rejected:
  assumes "validate_and_strip_crc32 (p @ w @ q) = Some data"
    and "length w' = length w" and "length w \<le> 4" and "w' \<noteq> w"
  shows "validate_and_strip_crc32 (p @ w' @ q) = None"
proof -
  let ?s = "foldl crc_byte 0xFFFFFFFF p"
  have "foldl crc_byte (foldl crc_byte ?s w) q = crc_residue"
    using assms(1) by (simp add: validate_residue split: if_splits)
  moreover have "foldl crc_byte ?s w' \<noteq> foldl crc_byte ?s w"
    using assms(2-4) crc_fold_inj[of w' w] by simp
  ultimately have "foldl crc_byte (foldl crc_byte ?s w') q \<noteq> crc_residue"
    using crc_fold_state_inj by metis
  then show ?thesis by (simp add: validate_residue)
qed

section \<open>Properties\<close>

text \<open>A frame is accepted exactly when it is a payload with its own checksum appended; the
  payload handed on is that payload.\<close>

theorem crc_frame_iff: "validate_and_strip_crc32 frame = Some data \<longleftrightarrow> frame = append_crc32 data"
  by (rule crc.unseal_iff)

text \<open>C23: every corruption confined to at most four consecutive bytes of an accepted frame, be it
  in the payload, in the checksum or across the two, is detected.\<close>

theorem crc_burst_detected:
  assumes "validate_and_strip_crc32 (p @ w @ q) = Some data"
    and "length w' = length w" and "length w \<le> 4" and "w' \<noteq> w"
  shows "validate_and_strip_crc32 (p @ w' @ q) = None"
  using assms by (rule burst_rejected)

theorem crc_burst_detected_witness:
  "validate_and_strip_crc32 ([1] @ [7, 3] @ le_bytes 4 (crc32c [1, 2, 3])) = None"
proof (rule crc_burst_detected)
  show "validate_and_strip_crc32 ([1] @ [2, 3] @ le_bytes 4 (crc32c [1, 2, 3])) = Some [1, 2, 3]"
    using validate_append[of "[1, 2, 3]"] by (simp add: append_crc32_def)
qed simp_all

end
