(* ===== verification/Security.thy ===== *)
theory Security
  imports Crc Rust_Std
begin

text \<open>
  The rest of \<open>gbnet/src/security.rs\<close>: connect tokens and their validator, the rate limiter for
  connection requests, the stateless connection cookies, and the nonce of the optional encryption.
  AES-256-GCM itself comes from the \<open>ring\<close> crate and is a parameter (\<open>seal\<close>, \<open>open\<close>).
\<close>

section \<open>Addresses\<close>

datatype ip_addr = V4 "32 word" | V6 "128 word"

record socket_addr =
  sa_ip :: ip_addr
  sa_port :: u16

fun octets :: "ip_addr \<Rightarrow> bytes" where
  "octets (V4 a) = be_bytes 4 a"
| "octets (V6 a) = be_bytes 16 a"

section \<open>Connect tokens\<close>

record connect_token =
  ct_client_id :: u64
  ct_server_addresses :: "socket_addr list"
  ct_create_time :: instant
  ct_expire_duration :: duration
  ct_user_data :: bytes
  ct_token_data :: bytes

definition ConnectToken_new :: "instant \<Rightarrow> u64 \<Rightarrow> socket_addr list \<Rightarrow> u64 \<Rightarrow> bytes \<Rightarrow> connect_token" where
  "ConnectToken_new now client_id server_addresses expire_secs user_data =
     \<lparr>ct_client_id = client_id, ct_server_addresses = server_addresses, ct_create_time = now,
      ct_expire_duration = from_secs (unat expire_secs), ct_user_data = user_data,
      ct_token_data = le_bytes 8 client_id @ le_bytes 8 expire_secs @
        le_bytes 4 (of_nat (length user_data) :: u32) @ user_data\<rparr>"

definition is_expired :: "instant \<Rightarrow> connect_token \<Rightarrow> bool" where
  "is_expired now t \<longleftrightarrow> duration_since now (ct_create_time t) > ct_expire_duration t"

datatype token_error = Expired | Replayed | Invalid

record token_validator =
  used_tokens :: "(u64, instant) hash_map"
  token_lifetime :: duration
  max_tracked_tokens :: nat
  tokens_evicted :: nat

definition DEFAULT_MAX_TRACKED_TOKENS :: nat where
  "DEFAULT_MAX_TRACKED_TOKENS = 4096"

definition TokenValidator_new :: "duration \<Rightarrow> token_validator" where
  "TokenValidator_new lifetime =
     \<lparr>used_tokens = [], token_lifetime = lifetime,
      max_tracked_tokens = DEFAULT_MAX_TRACKED_TOKENS, tokens_evicted = 0\<rparr>"

definition with_max_tracked_tokens :: "nat \<Rightarrow> token_validator \<Rightarrow> token_validator" where
  "with_max_tracked_tokens m v = v\<lparr>max_tracked_tokens := m\<rparr>"

definition TokenValidator_cleanup :: "instant \<Rightarrow> token_validator \<Rightarrow> token_validator" where
  "TokenValidator_cleanup now v =
     v\<lparr>used_tokens := hm_retain (\<lambda>_ created. duration_since now created < token_lifetime v) (used_tokens v)\<rparr>"

definition evict_token :: "u64 iter_order \<Rightarrow> token_validator \<Rightarrow> token_validator" where
  "evict_token it v =
     (case hm_oldest it (\<lambda>created. created) (used_tokens v) of
        Some key \<Rightarrow> v\<lparr>used_tokens := hm_remove key (used_tokens v), tokens_evicted := tokens_evicted v + 1\<rparr>
      | None \<Rightarrow> v)"

text \<open>
  The loop \<open>while used_tokens.len() > max\<close>. Every iteration removes one entry, so as many
  iterations as there are entries are enough (\<open>evict_tokens_exit\<close>).
\<close>

fun evict_tokens :: "nat \<Rightarrow> u64 iter_order \<Rightarrow> token_validator \<Rightarrow> token_validator" where
  "evict_tokens 0 it v = v"
| "evict_tokens (Suc n) it v =
     (if hm_len (used_tokens v) > max_tracked_tokens v then evict_tokens n it (evict_token it v) else v)"

definition validate :: "u64 iter_order \<Rightarrow> instant \<Rightarrow> connect_token \<Rightarrow> token_validator \<Rightarrow>
    (token_error + u64) \<times> token_validator" where
  "validate it now token v =
     (if is_expired now token then (Inl Expired, v)
      else if hm_contains_key (used_tokens v) (ct_client_id token) then (Inl Replayed, v)
      else
        let v1 = v\<lparr>used_tokens := hm_insert (ct_client_id token) now (used_tokens v)\<rparr>;
            v2 = (if hm_len (used_tokens v1) > max_tracked_tokens v1
                  then let vc = TokenValidator_cleanup now v1
                       in evict_tokens (hm_len (used_tokens vc)) it vc
                  else v1)
        in (Inr (ct_client_id token), v2))"

text \<open>The validator is a table that evicts its oldest entry.\<close>

interpretation tokens: evicting_table used_tokens "\<lambda>created. created" evict_token
  by unfold_locales (simp add: evict_token_def split: option.split)

definition tv_inv :: "token_validator \<Rightarrow> bool" where
  "tv_inv v \<longleftrightarrow> hm_ok (used_tokens v) \<and> hm_len (used_tokens v) \<le> max_tracked_tokens v"

lemma evict_token_frame [simp]:
  "max_tracked_tokens (evict_token it v) = max_tracked_tokens v"
  by (simp add: evict_token_def split: option.split)

lemma evict_tokens_exit:
  assumes "is_iter_order it" and "hm_ok (used_tokens v)" and "hm_len (used_tokens v) \<le> n"
  shows "tv_inv (evict_tokens n it v) \<and> max_tracked_tokens (evict_tokens n it v) = max_tracked_tokens v \<and>
     set (used_tokens (evict_tokens n it v)) \<subseteq> set (used_tokens v)"
  using assms
proof (induction n arbitrary: v)
  case 0
  then show ?case by (simp add: tv_inv_def)
next
  case (Suc n)
  show ?case
  proof (cases "hm_len (used_tokens v) > max_tracked_tokens v")
    case True
    have "tv_inv (evict_tokens n it (evict_token it v)) \<and>
        max_tracked_tokens (evict_tokens n it (evict_token it v)) = max_tracked_tokens (evict_token it v) \<and>
        set (used_tokens (evict_tokens n it (evict_token it v))) \<subseteq> set (used_tokens (evict_token it v))"
      using Suc tokens.evict_ok[of it v] tokens.evict_len[of it v] by (intro Suc.IH) simp_all
    then show ?thesis
      using True tokens.evict_subset[of it v] Suc.prems by auto
  next
    case False
    with Suc.prems show ?thesis by (simp add: tv_inv_def)
  qed
qed

lemma hm_len_cleanup: "hm_len (used_tokens (TokenValidator_cleanup now v)) \<le> hm_len (used_tokens v)"
  by (simp add: TokenValidator_cleanup_def hm_len_retain_le)

lemma tv_cleanup_frame [simp]:
  "max_tracked_tokens (TokenValidator_cleanup now v) = max_tracked_tokens v"
  "hm_ok (used_tokens v) \<Longrightarrow> hm_ok (used_tokens (TokenValidator_cleanup now v))"
  "set (used_tokens (TokenValidator_cleanup now v)) \<subseteq> set (used_tokens v)"
  by (auto simp: TokenValidator_cleanup_def hm_ok_retain set_hm_retain)

lemma validate_inv:
  assumes "is_iter_order it" and "tv_inv v"
  shows "tv_inv (snd (validate it now token v))"
    and "max_tracked_tokens (snd (validate it now token v)) = max_tracked_tokens v"
proof -
  let ?v1 = "v\<lparr>used_tokens := hm_insert (ct_client_id token) now (used_tokens v)\<rparr>"
  let ?vc = "TokenValidator_cleanup now ?v1"
  have ok: "hm_ok (used_tokens ?v1)" using assms(2) by (simp add: tv_inv_def hm_ok_insert)
  note e = evict_tokens_exit[OF assms(1) tv_cleanup_frame(2)[OF ok, of now] order.refl]
  show "tv_inv (snd (validate it now token v))"
    using assms(2) ok e by (auto simp: validate_def Let_def tv_inv_def[of ?v1] tv_inv_def[of v] not_less)
  show "max_tracked_tokens (snd (validate it now token v)) = max_tracked_tokens v"
    using e by (simp add: validate_def Let_def)
qed

text \<open>A validator over its life: one operation per token presented.\<close>

datatype token_op = TokenOp "u64 iter_order" instant connect_token

fun token_step :: "token_op \<Rightarrow> token_validator \<Rightarrow> token_validator" where
  "token_step (TokenOp it now token) v = snd (validate it now token v)"

fun token_op_ok :: "token_op \<Rightarrow> bool" where
  "token_op_ok (TokenOp it now token) = is_iter_order it"

interpretation token_machine: invariant_machine token_op_ok token_step
  "\<lambda>v. tv_inv v \<and> max_tracked_tokens v = m" for m
proof
  fix a v
  assume "token_op_ok a" and "tv_inv v \<and> max_tracked_tokens v = m"
  then show "tv_inv (token_step a v) \<and> max_tracked_tokens (token_step a v) = m"
    by (cases a) (simp add: validate_inv)
qed

text \<open>As long as the table has room, nothing is forgotten.\<close>

fun token_results :: "token_op list \<Rightarrow> token_validator \<Rightarrow> (token_error + u64) list" where
  "token_results [] v = []"
| "token_results (TokenOp it now token # ops) v =
     (case validate it now token v of (r, v') \<Rightarrow> r # token_results ops v')"

definition accepted :: "(token_error + u64) list \<Rightarrow> u64 list" where
  "accepted rs = map projr (filter (\<lambda>r. \<not> isl r) rs)"

lemma accepted_simps [simp]:
  "accepted [] = []" "accepted (Inl e # rs) = accepted rs" "accepted (Inr c # rs) = c # accepted rs"
  by (simp_all add: accepted_def)

lemma accepted_once:
  assumes "hm_ok (used_tokens v)" and "hm_len (used_tokens v) + length ops \<le> max_tracked_tokens v"
  shows "distinct (accepted (token_results ops v)) \<and>
         set (accepted (token_results ops v)) \<inter> hm_dom (used_tokens v) = {}"
  using assms
proof (induction ops v rule: token_results.induct)
  case (2 it now token ops v)
  let ?c = "ct_client_id token"
  let ?v1 = "v\<lparr>used_tokens := hm_insert ?c now (used_tokens v)\<rparr>"
  consider "is_expired now token" | "\<not> is_expired now token" "?c \<in> hm_dom (used_tokens v)"
    | "\<not> is_expired now token" "?c \<notin> hm_dom (used_tokens v)" by blast
  then show ?case
  proof cases
    case 3
    then have len: "hm_len (used_tokens ?v1) = Suc (hm_len (used_tokens v))"
      using "2.prems" by (simp add: hm_len_insert)
    then have v: "validate it now token v = (Inr ?c, ?v1)"
      using 3 "2.prems" by (simp add: validate_def hm_contains_iff Let_def)
    have "distinct (accepted (token_results ops ?v1)) \<and>
         set (accepted (token_results ops ?v1)) \<inter> hm_dom (used_tokens ?v1) = {}"
      using "2.prems" len by (intro "2.IH"[OF v[symmetric]]) (simp_all add: hm_ok_insert)
    with 3 v show ?thesis by (auto simp: hm_dom_insert)
  qed (use 2 in \<open>simp_all add: validate_def hm_contains_iff\<close>)
qed simp

section \<open>Rate limiting\<close>

record rate_limiter =
  requests :: "(ip_addr, instant list) hash_map"
  max_requests_per_second :: nat
  window :: duration

definition ConnectionRateLimiter_new :: "nat \<Rightarrow> rate_limiter" where
  "ConnectionRateLimiter_new max_requests =
     \<lparr>requests = [], max_requests_per_second = max_requests, window = from_secs 1\<rparr>"

definition recent :: "instant \<Rightarrow> rate_limiter \<Rightarrow> instant list \<Rightarrow> instant list" where
  "recent now r ts = filter (\<lambda>t. duration_since now t < window r) ts"

definition stamps_of :: "rate_limiter \<Rightarrow> ip_addr \<Rightarrow> instant list" where
  "stamps_of r ip = (case hm_get (requests r) ip of Some ts \<Rightarrow> ts | None \<Rightarrow> [])"

definition allow :: "instant \<Rightarrow> socket_addr \<Rightarrow> rate_limiter \<Rightarrow> bool \<times> rate_limiter" where
  "allow now addr r =
     (let timestamps = recent now r (stamps_of r (sa_ip addr))
      in if length timestamps \<ge> max_requests_per_second r
         then (False, r\<lparr>requests := hm_insert (sa_ip addr) timestamps (requests r)\<rparr>)
         else (True, r\<lparr>requests := hm_insert (sa_ip addr) (timestamps @ [now]) (requests r)\<rparr>))"

definition limiter_cleanup :: "instant \<Rightarrow> rate_limiter \<Rightarrow> rate_limiter" where
  "limiter_cleanup now r =
     r\<lparr>requests := hm_retain (\<lambda>_ ts. ts \<noteq> []) (map (\<lambda>(k, ts). (k, recent now r ts)) (requests r))\<rparr>"

text \<open>The limiter over its life, with the log of the requests it allowed.\<close>

datatype limiter_op = Allow instant socket_addr | Cleanup instant

fun op_time :: "limiter_op \<Rightarrow> instant" where
  "op_time (Allow now addr) = now"
| "op_time (Cleanup now) = now"

fun allowed_log :: "limiter_op list \<Rightarrow> rate_limiter \<Rightarrow> (instant \<times> ip_addr) list" where
  "allowed_log [] r = []"
| "allowed_log (Allow now addr # ops) r =
     (case allow now addr r of (ok, r') \<Rightarrow>
        (if ok then [(now, sa_ip addr)] else []) @ allowed_log ops r')"
| "allowed_log (Cleanup now # ops) r = allowed_log ops (limiter_cleanup now r)"


definition times_of :: "ip_addr \<Rightarrow> (instant \<times> ip_addr) list \<Rightarrow> instant list" where
  "times_of ip log = map fst (filter (\<lambda>e. snd e = ip) log)"

lemma times_of_simps [simp]:
  "times_of ip [] = []" "times_of ip (xs @ ys) = times_of ip xs @ times_of ip ys"
  "times_of ip ((t, a) # log) = (if a = ip then t # times_of ip log else times_of ip log)"
  by (simp_all add: times_of_def)

definition in_window :: "instant \<Rightarrow> rate_limiter \<Rightarrow> instant list \<Rightarrow> instant list" where
  "in_window T r ts = filter (\<lambda>t. T \<le> t \<and> t < T + int (window r)) ts"

text \<open>
  The invariant for one address: the stamps kept agree with the log on everything still recent,
  and no window of the log holds more than the limit.
\<close>

definition limiter_inv :: "ip_addr \<Rightarrow> instant \<Rightarrow> instant list \<Rightarrow> rate_limiter \<Rightarrow> bool" where
  "limiter_inv ip now0 L r \<longleftrightarrow>
     hm_ok (requests r) \<and> (\<forall>t\<in>set L. t \<le> now0) \<and>
     (\<forall>now\<ge>now0. recent now r L = recent now r (stamps_of r ip)) \<and>
     (\<forall>T. length (in_window T r L) \<le> max_requests_per_second r)"

lemma recent_recent: "now \<le> now' \<Longrightarrow> recent now' r (recent now r ts) = recent now' r ts"
  unfolding recent_def filter_filter
  by (rule filter_cong) (auto dest: order.strict_trans1[OF duration_since_mono_now])

lemma recent_Nil [simp]: "recent now r [] = []"
  by (simp add: recent_def)

lemma recent_append: "recent now r (xs @ ys) = recent now r xs @ recent now r ys"
  by (simp add: recent_def)

lemma length_filter_mono: "(\<And>x. x \<in> set xs \<Longrightarrow> P x \<Longrightarrow> Q x) \<Longrightarrow> length (filter P xs) \<le> length (filter Q xs)"
  by (induction xs) auto

lemma in_window_recent:
  assumes "\<forall>t\<in>set L. t \<le> now" and "T \<le> now" and "now < T + int (window r)"
  shows "length (in_window T r L) \<le> length (recent now r L)"
  unfolding in_window_def recent_def
proof (rule length_filter_mono)
  fix t assume "t \<in> set L" and "T \<le> t \<and> t < T + int (window r)"
  with assms show "duration_since now t < window r"
    by (auto simp: duration_since_def nat_less_iff)
qed

lemma recent_update [simp]: "recent now (r\<lparr>requests := m\<rparr>) ts = recent now r ts"
  "in_window T (r\<lparr>requests := m\<rparr>) ts = in_window T r ts"
  by (simp_all add: recent_def in_window_def)

lemma allow_inv:
  assumes "limiter_inv ip now0 L r" and "now0 \<le> now" and "allow now addr r = (ok, r')"
  shows "limiter_inv ip now (L @ (if ok \<and> sa_ip addr = ip then [now] else [])) r'"
    and "window r' = window r" and "max_requests_per_second r' = max_requests_per_second r"
proof -
  let ?ts = "recent now r (stamps_of r (sa_ip addr))"
  have ok: "ok \<longleftrightarrow> length ?ts < max_requests_per_second r"
    and r': "r' = r\<lparr>requests := hm_insert (sa_ip addr) (if ok then ?ts @ [now] else ?ts) (requests r)\<rparr>"
    using assms(3) by (auto simp: allow_def Let_def split: if_splits)
  from r' show "window r' = window r" "max_requests_per_second r' = max_requests_per_second r"
    by simp_all
  let ?L = "L @ (if ok \<and> sa_ip addr = ip then [now] else [])"
  have inv: "hm_ok (requests r)" "\<forall>t\<in>set L. t \<le> now0"
    and rec: "\<And>now. now0 \<le> now \<Longrightarrow> recent now r L = recent now r (stamps_of r ip)"
    and cap: "\<And>T. length (in_window T r L) \<le> max_requests_per_second r"
    using assms(1) by (auto simp: limiter_inv_def)
  have le: "\<forall>t\<in>set ?L. t \<le> now" using inv(2) assms(2) by auto
  have stamps: "stamps_of r' ip =
      (if sa_ip addr = ip then if ok then ?ts @ [now] else ?ts else stamps_of r ip)"
    by (simp add: r' stamps_of_def hm_get_insert)
  have rec': "recent now' r' ?L = recent now' r' (stamps_of r' ip)" if "now \<le> now'" for now'
  proof -
    have "recent now' r' = recent now' r" by (simp add: r' fun_eq_iff)
    then show ?thesis
      using rec[of now'] that assms(2) by (simp add: stamps recent_append recent_recent)
  qed
  have cap': "length (in_window T r' ?L) \<le> max_requests_per_second r'" for T
  proof (cases "ok \<and> sa_ip addr = ip \<and> T \<le> now \<and> now < T + int (window r)")
    case True
    then have "length (in_window T r L) \<le> length (recent now r L)"
      using le by (intro in_window_recent) auto
    also have "\<dots> = length ?ts" using rec[OF assms(2)] True by simp
    finally have "length (in_window T r L) < max_requests_per_second r" using ok True by simp
    with True show ?thesis by (simp add: r') (simp add: in_window_def)
  next
    case False
    then have "in_window T r ?L = in_window T r L" by (auto simp: in_window_def)
    with cap show ?thesis by (simp add: r')
  qed
  show "limiter_inv ip now ?L r'"
    unfolding limiter_inv_def using le rec' cap' inv(1) by (simp add: r' hm_ok_insert)
qed

lemma cleanup_inv:
  assumes "limiter_inv ip now0 L r" and "now0 \<le> now"
  shows "limiter_inv ip now L (limiter_cleanup now r)"
proof -
  have keys: "map fst (map (\<lambda>(k, ts). (k, recent now r ts)) (requests r)) = map fst (requests r)"
    by (simp add: case_prod_unfold comp_def)
  have "hm_ok (map (\<lambda>(k, ts). (k, recent now r ts)) (requests r))"
    using assms(1) unfolding limiter_inv_def hm_ok_def keys by simp
  note ok = this hm_ok_retain[OF this] hm_get_retain[OF this]
  have "hm_get (map (\<lambda>(k, ts). (k, recent now r ts)) (requests r)) ip =
      map_option (recent now r) (hm_get (requests r) ip)"
    by (simp add: hm_get_def map_of_map)
  then have stamps: "stamps_of (limiter_cleanup now r) ip = recent now r (stamps_of r ip)"
    by (auto simp: stamps_of_def limiter_cleanup_def ok(3) split: option.splits)
  with assms ok(2) show ?thesis
    unfolding limiter_inv_def stamps by (auto simp: limiter_cleanup_def recent_recent)
qed

lemma run_window:
  assumes "limiter_inv ip now0 L r" and "sorted (now0 # map op_time ops)"
  shows "length (in_window T r (L @ times_of ip (allowed_log ops r))) \<le> max_requests_per_second r"
  using assms
proof (induction ops r arbitrary: now0 L rule: allowed_log.induct)
  case (1 r)
  then show ?case by (simp add: limiter_inv_def)
next
  case (2 now addr ops r)
  obtain ok r' where a: "allow now addr r = (ok, r')" by fastforce
  have le: "now0 \<le> now" and s: "sorted (now # map op_time ops)" using "2.prems"(2) by auto
  note inv = allow_inv[OF "2.prems"(1) le a]
  have w: "in_window T r' = in_window T r" using inv(2) by (simp add: in_window_def fun_eq_iff)
  from "2.IH"[OF a[symmetric] inv(1) s] show ?case
    using inv(3) a by (auto simp: w split: if_splits)
next
  case (3 now ops r)
  have le: "now0 \<le> now" and s: "sorted (now # map op_time ops)" using "3.prems"(2) by auto
  from "3.IH"[OF cleanup_inv[OF "3.prems"(1) le] s] show ?case
    by (simp add: limiter_cleanup_def in_window_def)
qed


section \<open>Stateless cookies\<close>

definition COOKIE_SIZE :: nat where
  "COOKIE_SIZE = 16"

definition generate_cookie :: "socket_addr \<Rightarrow> u64 \<Rightarrow> bytes \<Rightarrow> bytes" where
  "generate_cookie addr timestamp_secs secret =
     (let data = octets (sa_ip addr) @ le_bytes 2 (sa_port addr) @ le_bytes 8 timestamp_secs @
                 take 16 secret;
          c0 = crc32c data;
          data1 = data @ le_bytes 4 c0 @ take 16 (drop 16 secret);
          c1 = crc32c data1;
          data2 = data1 @ le_bytes 4 c1;
          c2 = crc32c data2;
          data3 = data2 @ le_bytes 4 c2;
          c3 = crc32c data3
      in le_bytes 4 c0 @ le_bytes 4 c1 @ le_bytes 4 c2 @ le_bytes 4 c3)"

text \<open>\<open>None\<close> is the panic of a division by a zero window.\<close>

definition validate_cookie :: "bytes \<Rightarrow> socket_addr \<Rightarrow> u64 \<Rightarrow> bytes \<Rightarrow> u64 \<Rightarrow> bool option" where
  "validate_cookie cookie addr current_timestamp_secs secret window_secs =
     (if window_secs = 0 then None
      else
        let current_window = current_timestamp_secs div window_secs
        in if cookie = generate_cookie addr current_window secret then Some True
           else if current_window > 0 \<and> cookie = generate_cookie addr (current_window - 1) secret
           then Some True
           else Some False)"

definition cookie_to_u64_pair :: "bytes \<Rightarrow> u64 \<times> u64" where
  "cookie_to_u64_pair cookie =
     (from_le_bytes (take 8 cookie), from_le_bytes (take 8 (drop 8 cookie)))"

definition cookie_from_u64_pair :: "u64 \<Rightarrow> u64 \<Rightarrow> bytes" where
  "cookie_from_u64_pair high low = le_bytes 8 high @ le_bytes 8 low"

lemma cookie_pair_roundtrip:
  "length cookie = COOKIE_SIZE \<Longrightarrow>
   (case cookie_to_u64_pair cookie of (h, l) \<Rightarrow> cookie_from_u64_pair h l) = cookie"
  "cookie_to_u64_pair (cookie_from_u64_pair high low) = (high, low)"
  by (simp_all add: cookie_to_u64_pair_def cookie_from_u64_pair_def COOKIE_SIZE_def le_from_le_bytes)

text \<open>
  Two pairs of byte strings with the same bytewise difference. The checksum keeps the relation,
  so it never brings the secret into the difference of two cookies.
\<close>

definition same_diff :: "bytes \<Rightarrow> bytes \<Rightarrow> bytes \<Rightarrow> bytes \<Rightarrow> bool" where
  "same_diff x y x' y' \<longleftrightarrow> length x = length y \<and> length x' = length y' \<and>
     map2 (XOR) x y = map2 (XOR) x' y'"

lemma same_diff_length: "same_diff x y x' y' \<Longrightarrow> length x = length x'"
  unfolding same_diff_def by (metis length_map length_zip min.idem)

lemma same_diff_refl: "length s = length s' \<Longrightarrow> same_diff s s s' s'"
  unfolding same_diff_def by (auto intro!: nth_equalityI)

lemma same_diff_same: "length x = length y \<Longrightarrow> same_diff x y x y"
  by (simp add: same_diff_def)

lemma same_diff_append:
  "same_diff x y x' y' \<Longrightarrow> same_diff z w z' w' \<Longrightarrow> same_diff (x @ z) (y @ w) (x' @ z') (y' @ w')"
  by (simp add: same_diff_def)

lemma not_xor_not: "NOT a XOR NOT b = a XOR (b :: 'a::len word)"
  by (rule bit_word_eqI) (auto simp: bit_xor_iff bit_not_iff)

lemma same_diff_crc: "same_diff x y x' y' \<Longrightarrow> crc32c x XOR crc32c y = crc32c x' XOR crc32c y'"
proof -
  assume d: "same_diff x y x' y'"
  have "crc32c u XOR crc32c v = foldl crc_byte 0 (map2 (XOR) u v)" if "length u = length v" for u v
    using crc_fold_linear[OF that, of "0xFFFFFFFF" "0xFFFFFFFF"]
    unfolding crc32c_def not_xor_not by simp
  then show ?thesis using d by (simp add: same_diff_def)
qed

lemma le_bytes_xor: "map2 (XOR) (le_bytes n a) (le_bytes n b) = le_bytes n (a XOR b)"
  by (rule nth_equalityI)
    (auto simp: nth_le_bytes bit_xor_iff bit_ucast_iff bit_drop_bit_eq intro!: bit_word_eqI)

lemma same_diff_le:
  "a XOR b = c XOR d \<Longrightarrow> same_diff (le_bytes n a) (le_bytes n b) (le_bytes n c) (le_bytes n d)"
  by (simp add: same_diff_def le_bytes_xor)

lemmas same_diff_intros = same_diff_append same_diff_le same_diff_crc same_diff_refl same_diff_same

definition same_family :: "socket_addr \<Rightarrow> socket_addr \<Rightarrow> bool" where
  "same_family a b \<longleftrightarrow> length (octets (sa_ip a)) = length (octets (sa_ip b))"

lemma cookie_same_diff:
  assumes "same_family a b" and "length s = 32" and "length s' = 32"
  shows "same_diff (generate_cookie a t s) (generate_cookie b u s)
                   (generate_cookie a t s') (generate_cookie b u s')"
  unfolding generate_cookie_def Let_def
  using assms by (intro same_diff_intros) (simp_all add: same_family_def)

text \<open>
  What an observer of a cookie for one address can compute for another: the difference of the
  two under a secret of its own choosing.
\<close>

definition forge_cookie :: "bytes \<Rightarrow> socket_addr \<Rightarrow> u64 \<Rightarrow> socket_addr \<Rightarrow> u64 \<Rightarrow> bytes" where
  "forge_cookie cookie a t b u =
     map2 (XOR) cookie (map2 (XOR) (generate_cookie a t (replicate 32 0)) (generate_cookie b u (replicate 32 0)))"

lemma length_generate_cookie [simp]: "length (generate_cookie a t s) = 16"
  by (simp add: generate_cookie_def Let_def)

lemma forge_cookie_correct:
  assumes "same_family a b" and "length s = 32"
  shows "forge_cookie (generate_cookie a t s) a t b u = generate_cookie b u s"
proof -
  have "map2 (XOR) (generate_cookie a t (replicate 32 0)) (generate_cookie b u (replicate 32 0)) =
      map2 (XOR) (generate_cookie a t s) (generate_cookie b u s)"
    using cookie_same_diff[OF assms(1), of "replicate 32 0" s t u] assms(2) by (simp add: same_diff_def)
  moreover have "map2 (XOR) x (map2 (XOR) x y) = y" if "length x = length y" for x y :: bytes
    using that by (auto intro!: nth_equalityI simp: xor_cancel)
  ultimately show ?thesis by (simp add: forge_cookie_def)
qed

section \<open>Encryption\<close>

text \<open>
  The AES-256-GCM operations of \<open>ring\<close> are the parameters: \<open>seal nonce plaintext\<close> and
  \<open>open nonce ciphertext\<close>, \<open>None\<close> on failure.
\<close>

record encryption_state =
  connection_salt :: u64

definition AES_GCM_TAG_LEN :: nat where
  "AES_GCM_TAG_LEN = 16"

definition AES_GCM_NONCE_LEN :: nat where
  "AES_GCM_NONCE_LEN = 12"

datatype encryption_error = InvalidKey | NonceError | EncryptFailed | DecryptFailed | FeatureNotEnabled

definition set_connection_salt :: "u64 \<Rightarrow> encryption_state \<Rightarrow> encryption_state" where
  "set_connection_salt salt st = st\<lparr>connection_salt := salt\<rparr>"

definition make_nonce :: "encryption_state \<Rightarrow> u64 \<Rightarrow> bytes" where
  "make_nonce st sequence =
     le_bytes 8 (sequence XOR connection_salt st) @ replicate (AES_GCM_NONCE_LEN - 8) 0"

definition encrypt :: "(bytes \<Rightarrow> bytes \<Rightarrow> bytes option) \<Rightarrow> encryption_state \<Rightarrow> bytes \<Rightarrow> u64 \<Rightarrow>
    encryption_error + bytes" where
  "encrypt aead_seal st payload sequence =
     (case aead_seal (make_nonce st sequence) payload of
        None \<Rightarrow> Inl EncryptFailed
      | Some c \<Rightarrow> Inr c)"

definition decrypt :: "(bytes \<Rightarrow> bytes \<Rightarrow> bytes option) \<Rightarrow> encryption_state \<Rightarrow> bytes \<Rightarrow> u64 \<Rightarrow>
    encryption_error + bytes" where
  "decrypt aead_open st ciphertext sequence =
     (if length ciphertext < AES_GCM_TAG_LEN then Inl DecryptFailed
      else case aead_open (make_nonce st sequence) ciphertext of
             None \<Rightarrow> Inl DecryptFailed
           | Some p \<Rightarrow> Inr p)"

definition encrypt_payload :: "bytes \<Rightarrow> bytes \<Rightarrow> u64 \<Rightarrow> encryption_error + bytes" where
  "encrypt_payload payload key sequence = Inl FeatureNotEnabled"

definition decrypt_payload :: "bytes \<Rightarrow> bytes \<Rightarrow> u64 \<Rightarrow> encryption_error + bytes" where
  "decrypt_payload ciphertext key sequence = Inl FeatureNotEnabled"

lemma make_nonce_inj: "make_nonce st s = make_nonce st s' \<longleftrightarrow> s = s'"
proof
  assume "make_nonce st s = make_nonce st s'"
  then have "le_bytes 8 (s XOR connection_salt st) = le_bytes 8 (s' XOR connection_salt st)"
    by (simp add: make_nonce_def)
  then have "s XOR connection_salt st = s' XOR connection_salt st"
    by (intro le_bytes_inject[of 8]) simp_all
  then show "s = s'" by (metis xor_cancel(2))
qed simp

section \<open>Properties\<close>

text \<open>Whatever requests arrive, in whatever interleaving with clean-ups, no second of the log
  holds more allowed requests of one IP address than the limit.\<close>

theorem rate_limit_window:
  assumes "sorted (map op_time ops)"
  shows "length (in_window T (ConnectionRateLimiter_new n)
           (times_of ip (allowed_log ops (ConnectionRateLimiter_new n)))) \<le> n"
proof (cases ops)
  case (Cons a rest)
  have "limiter_inv ip (op_time a) [] (ConnectionRateLimiter_new n)"
    by (simp add: limiter_inv_def ConnectionRateLimiter_new_def stamps_of_def in_window_def)
  from run_window[OF this, of ops] assms Cons show ?thesis
    by (simp add: ConnectionRateLimiter_new_def)
qed (simp add: in_window_def)

theorem rate_limit_window_witness:
  "length (in_window 0 (ConnectionRateLimiter_new 2)
     (times_of (V4 7) (allowed_log
       [Allow 0 \<lparr>sa_ip = V4 7, sa_port = 1\<rparr>, Allow 5 \<lparr>sa_ip = V4 7, sa_port = 2\<rparr>, Cleanup 6,
        Allow 9 \<lparr>sa_ip = V4 7, sa_port = 3\<rparr>] (ConnectionRateLimiter_new 2)))) \<le> 2"
  by (rule rate_limit_window) simp

text \<open>The validator never tracks more tokens than its bound, whatever tokens arrive.\<close>

theorem token_table_bounded:
  assumes "\<forall>a\<in>set ops. token_op_ok a"
  shows "hm_len (used_tokens (fold token_step ops (with_max_tracked_tokens m (TokenValidator_new lifetime)))) \<le> m"
proof -
  let ?v = "with_max_tracked_tokens m (TokenValidator_new lifetime)"
  have "tv_inv ?v \<and> max_tracked_tokens ?v = m"
    by (simp add: tv_inv_def with_max_tracked_tokens_def TokenValidator_new_def)
  from token_machine.run_inv[of ops ?v m, OF _ this] assms show ?thesis by (auto simp: tv_inv_def)
qed

definition example_token :: "u64 \<Rightarrow> connect_token" where
  "example_token c = ConnectToken_new 0 c [] 60 []"

theorem token_table_bounded_witness:
  "hm_len (used_tokens (fold token_step
     [TokenOp id 1 (example_token 1), TokenOp id 2 (example_token 2), TokenOp id 3 (example_token 3)]
     (with_max_tracked_tokens 2 (TokenValidator_new 100)))) \<le> 2"
  by (rule token_table_bounded) (simp add: is_iter_order_def)

text \<open>C27: while the table has room for every token presented, no client id is accepted twice.\<close>

theorem token_not_replayed:
  assumes "length ops \<le> m"
  shows "distinct (accepted (token_results ops (with_max_tracked_tokens m (TokenValidator_new lifetime))))"
  using accepted_once[of "with_max_tracked_tokens m (TokenValidator_new lifetime)" ops] assms
  by (simp add: with_max_tracked_tokens_def TokenValidator_new_def)

theorem token_not_replayed_witness:
  "distinct (accepted (token_results
     [TokenOp id 1 (example_token 1), TokenOp id 2 (example_token 1), TokenOp id 3 (example_token 3)]
     (with_max_tracked_tokens 3 (TokenValidator_new 100))))"
  by (rule token_not_replayed) simp

text \<open>A cookie is accepted throughout the window it was issued in and the next one.\<close>

theorem cookie_window:
  assumes "window_secs \<noteq> 0" and "w = t div window_secs"
    and "t' div window_secs = w \<or> t' div window_secs = w + 1 \<and> w + 1 \<noteq> 0"
  shows "validate_cookie (generate_cookie addr w secret) addr t' secret window_secs = Some True"
  using assms by (auto simp: validate_cookie_def Let_def word_gt_0)

theorem cookie_window_witness:
  "validate_cookie (generate_cookie \<lparr>sa_ip = V4 1, sa_port = 2\<rparr> 3 [5]) \<lparr>sa_ip = V4 1, sa_port = 2\<rparr> 41 [5] 10 = Some True"
  by (rule cookie_window[of 10 3 30]) simp_all

text \<open>C29: a cookie does not authenticate its address. From the cookie for one address, and
  without the secret, anyone computes the cookie of any other address of the same family for any
  window, and the validator accepts it.\<close>

theorem cookie_forgeable:
  assumes "same_family a b" and "length secret = 32" and "window_secs \<noteq> 0"
  shows "validate_cookie (forge_cookie (generate_cookie a w secret) a w b (t div window_secs)) b t secret window_secs
    = Some True"
  using assms by (simp add: forge_cookie_correct validate_cookie_def)

theorem cookie_forgeable_witness:
  "validate_cookie (forge_cookie (generate_cookie \<lparr>sa_ip = V4 1, sa_port = 2\<rparr> 7 (replicate 32 9))
     \<lparr>sa_ip = V4 1, sa_port = 2\<rparr> 7 \<lparr>sa_ip = V4 66, sa_port = 80\<rparr> (100 div 10))
     \<lparr>sa_ip = V4 66, sa_port = 80\<rparr> 100 (replicate 32 9) 10 = Some True"
  by (rule cookie_forgeable) (simp_all add: same_family_def)

text \<open>C28: under one connection salt two packet sequence numbers never share a nonce, and what was
  encrypted under a sequence number is decrypted under it.\<close>

theorem encryption_roundtrip:
  assumes "\<And>n p. aead_seal n p = Some (c n p)" and "\<And>n p. aead_open n (c n p) = Some p"
    and "\<And>n p. length (c n p) = length p + AES_GCM_TAG_LEN"
  shows "(\<exists>ct. encrypt aead_seal st payload s = Inr ct \<and> decrypt aead_open st ct s = Inr payload) \<and>
         (make_nonce st s = make_nonce st s' \<longleftrightarrow> s = s')"
  using assms by (simp add: encrypt_def decrypt_def make_nonce_inj)

theorem encryption_roundtrip_witness:
  "(\<exists>ct. encrypt (\<lambda>n p. Some (p @ replicate 16 0)) \<lparr>connection_salt = 5\<rparr> [1, 2] 9 = Inr ct \<and>
     decrypt (\<lambda>n ct. Some (take (length ct - 16) ct)) \<lparr>connection_salt = 5\<rparr> ct 9 = Inr [1, 2]) \<and>
   (make_nonce \<lparr>connection_salt = 5\<rparr> 9 = make_nonce \<lparr>connection_salt = 5\<rparr> 10 \<longleftrightarrow> (9 :: u64) = 10)"
  by (rule encryption_roundtrip[where c = "\<lambda>n p. p @ replicate 16 0"]) (simp_all add: AES_GCM_TAG_LEN_def)

end
