(* ===== verification/Batch.thy ===== *)
theory Batch
  imports Prelude
begin

text \<open>
  Message batching (\<open>batch_messages\<close> and \<open>unbatch_messages\<close> of \<open>gbnet/src/congestion.rs\<close>): small
  messages are packed into datagrams as a count byte and length-prefixed messages. The
  specification splits the messages into consecutive groups; the code's batches are the encodings
  of such groups.
\<close>

section \<open>Batching\<close>

definition BATCH_HEADER_SIZE :: nat where
  "BATCH_HEADER_SIZE = 1"

definition BATCH_LENGTH_SIZE :: nat where
  "BATCH_LENGTH_SIZE = 2"

definition MAX_BATCH_MESSAGES :: u8 where
  "MAX_BATCH_MESSAGES = 255"

record batcher =
  bt_batches :: "bytes list"
  bt_current_batch :: bytes
  bt_current_size :: nat
  bt_msg_count :: u8

definition batch_init :: batcher where
  "batch_init = \<lparr>bt_batches = [], bt_current_batch = [], bt_current_size = BATCH_HEADER_SIZE,
     bt_msg_count = 0\<rparr>"

definition close_batch :: "batcher \<Rightarrow> batcher" where
  "close_batch b = \<lparr>bt_batches = bt_batches b @ [bt_msg_count b # bt_current_batch b],
     bt_current_batch = [], bt_current_size = BATCH_HEADER_SIZE, bt_msg_count = 0\<rparr>"

text \<open>The length is cast to \<open>u16\<close>, which keeps its low 16 bits.\<close>

definition push_message :: "bytes \<Rightarrow> batcher \<Rightarrow> batcher" where
  "push_message msg b = b\<lparr>
     bt_current_batch := bt_current_batch b @ be_bytes 2 (of_nat (length msg) :: u16) @ msg,
     bt_current_size := bt_current_size b + (BATCH_LENGTH_SIZE + length msg),
     bt_msg_count := bt_msg_count b + 1\<rparr>"

definition batch_step :: "nat \<Rightarrow> batcher \<Rightarrow> bytes \<Rightarrow> batcher" where
  "batch_step max_size b msg =
     (let msg_wire_size = BATCH_LENGTH_SIZE + length msg;
          b1 = (if bt_current_size b + msg_wire_size > max_size \<and> bt_msg_count b > 0
                then close_batch b else b);
          b2 = push_message msg b1
      in if bt_msg_count b2 = MAX_BATCH_MESSAGES then close_batch b2 else b2)"

definition batch_messages :: "bytes list \<Rightarrow> nat \<Rightarrow> bytes list" where
  "batch_messages messages max_size =
     (let b = foldl (batch_step max_size) batch_init messages
      in bt_batches (if bt_msg_count b > 0 then close_batch b else b))"

section \<open>Unbatching\<close>

fun unbatch_loop :: "nat \<Rightarrow> nat \<Rightarrow> bytes \<Rightarrow> bytes list \<Rightarrow> bytes list option" where
  "unbatch_loop 0 offset data messages = Some messages"
| "unbatch_loop (Suc n) offset data messages =
     (if offset + 2 > length data then None
      else
        let len = unat (from_be_bytes [data ! offset, data ! (offset + 1)] :: u16);
            offset = offset + 2
        in if offset + len > length data then None
           else unbatch_loop n (offset + len) data (messages @ [take len (drop offset data)]))"

definition unbatch_messages :: "bytes \<Rightarrow> bytes list option" where
  "unbatch_messages data =
     (case data of [] \<Rightarrow> None | c # _ \<Rightarrow> unbatch_loop (unat c) 1 data [])"

section \<open>Groups of messages\<close>

definition enc_msg :: "bytes \<Rightarrow> bytes" where
  "enc_msg m = be_bytes 2 (of_nat (length m) :: u16) @ m"

definition enc_group :: "bytes list \<Rightarrow> bytes" where
  "enc_group ms = of_nat (length ms) # concat (map enc_msg ms)"

definition group_ok :: "nat \<Rightarrow> bytes list \<Rightarrow> bool" where
  "group_ok max_size ms \<longleftrightarrow> ms \<noteq> [] \<and> length ms \<le> 255 \<and>
     (length ms = 1 \<or> length (enc_group ms) \<le> max_size)"

lemma length_enc_msg [simp]: "length (enc_msg m) = 2 + length m"
  by (simp add: enc_msg_def)

text \<open>The state after some messages: closed groups, and an open one.\<close>

definition batch_rep :: "nat \<Rightarrow> batcher \<Rightarrow> bytes list list \<Rightarrow> bytes list \<Rightarrow> bool" where
  "batch_rep max_size b groups cur \<longleftrightarrow>
     bt_batches b = map enc_group groups \<and> (\<forall>g\<in>set groups. group_ok max_size g) \<and>
     bt_current_batch b = concat (map enc_msg cur) \<and>
     bt_current_size b = 1 + length (concat (map enc_msg cur)) \<and>
     bt_msg_count b = of_nat (length cur) \<and> length cur < 255 \<and>
     (cur \<noteq> [] \<longrightarrow> group_ok max_size cur)"

lemma batch_rep_init: "batch_rep max_size batch_init [] []"
  by (simp add: batch_rep_def batch_init_def BATCH_HEADER_SIZE_def)

lemma batch_rep_close:
  assumes "bt_batches b = map enc_group groups" and "\<forall>g\<in>set groups. group_ok max_size g"
    and "bt_current_batch b = concat (map enc_msg cur)" and "bt_msg_count b = of_nat (length cur)"
    and "group_ok max_size cur"
  shows "batch_rep max_size (close_batch b) (groups @ [cur]) []"
  using assms by (simp add: batch_rep_def close_batch_def enc_group_def BATCH_HEADER_SIZE_def)

lemma count_pos: "length cur < 256 \<Longrightarrow> (of_nat (length cur) :: u8) > 0 \<longleftrightarrow> cur \<noteq> []"
  by (auto simp: word_gt_0 word_of_nat_eq_0_iff dest: nat_dvd_not_less)

lemma batch_push:
  assumes "batch_rep max_size b groups cur"
    and "cur = [] \<or> bt_current_size b + (2 + length m) \<le> max_size"
  shows "let b2 = push_message m b in
    \<exists>groups' cur'. batch_rep max_size (if bt_msg_count b2 = MAX_BATCH_MESSAGES then close_batch b2 else b2) groups' cur' \<and>
      concat groups' @ cur' = concat groups @ cur @ [m]"
proof -
  let ?b2 = "push_message m b"
  have len: "length cur < 255" using assms(1) by (simp add: batch_rep_def)
  have b2: "bt_batches ?b2 = map enc_group groups" "\<forall>g\<in>set groups. group_ok max_size g"
    "bt_current_batch ?b2 = concat (map enc_msg (cur @ [m]))" "bt_msg_count ?b2 = of_nat (length (cur @ [m]))"
    "bt_current_size ?b2 = 1 + length (concat (map enc_msg (cur @ [m])))"
    using assms(1) by (simp_all add: batch_rep_def push_message_def enc_msg_def BATCH_LENGTH_SIZE_def add.commute)
  have ok: "group_ok max_size (cur @ [m])"
    using assms len by (auto simp: group_ok_def enc_group_def batch_rep_def)
  show ?thesis
  proof (cases "bt_msg_count ?b2 = MAX_BATCH_MESSAGES")
    case True
    then show ?thesis
      using batch_rep_close[OF b2(1-4) ok] by (intro exI[of _ "groups @ [cur @ [m]]"] exI[of _ "[]"] | simp add: Let_def)+
  next
    case False
    have "length (cur @ [m]) \<noteq> 255"
    proof
      assume "length (cur @ [m]) = 255"
      then have "bt_msg_count ?b2 = MAX_BATCH_MESSAGES" unfolding b2(4) MAX_BATCH_MESSAGES_def by simp
      with False show False ..
    qed
    with len have "length (cur @ [m]) < 255" by simp
    then have "batch_rep max_size ?b2 groups (cur @ [m])"
      unfolding batch_rep_def using b2 ok by blast
    with False show ?thesis by (auto simp: Let_def)
  qed
qed

lemma batch_step_rep:
  assumes "batch_rep max_size b groups cur"
  shows "\<exists>groups' cur'. batch_rep max_size (batch_step max_size b m) groups' cur' \<and>
    concat groups' @ cur' = concat groups @ cur @ [m]"
proof (cases "bt_current_size b + (BATCH_LENGTH_SIZE + length m) > max_size \<and> bt_msg_count b > 0")
  case True
  then have "cur \<noteq> []" using assms count_pos[of cur] by (auto simp: batch_rep_def)
  then have "batch_rep max_size (close_batch b) (groups @ [cur]) []"
    using assms by (intro batch_rep_close) (auto simp: batch_rep_def)
  from batch_push[OF this, of m] True show ?thesis
    by (simp add: batch_step_def Let_def cong: if_cong split del: if_split)
next
  case False
  have "cur = [] \<or> bt_current_size b + (2 + length m) \<le> max_size"
    using False assms count_pos[of cur] by (auto simp: batch_rep_def BATCH_LENGTH_SIZE_def)
  from batch_push[OF assms this] False show ?thesis by (simp only: batch_step_def Let_def if_False)
qed

lemma batch_fold_rep:
  "batch_rep max_size b groups cur \<Longrightarrow>
   \<exists>groups' cur'. batch_rep max_size (foldl (batch_step max_size) b ms) groups' cur' \<and>
     concat groups' @ cur' = concat groups @ cur @ ms"
proof (induction ms arbitrary: b groups cur)
  case (Cons m ms)
  from batch_step_rep[OF Cons.prems, of m] obtain groups' cur' where
    g: "batch_rep max_size (batch_step max_size b m) groups' cur'"
      "concat groups' @ cur' = concat groups @ cur @ [m]" by blast
  from Cons.IH[OF g(1)] obtain groups2 cur2 where
    "batch_rep max_size (foldl (batch_step max_size) (batch_step max_size b m) ms) groups2 cur2"
    "concat groups2 @ cur2 = (concat groups' @ cur') @ ms" by auto
  with g(2) show ?case by (intro exI[of _ groups2] exI[of _ cur2]) simp
qed auto

lemma batches_are_groups:
  obtains groups where "batch_messages ms max_size = map enc_group groups"
    and "concat groups = ms" and "\<forall>g\<in>set groups. group_ok max_size g"
proof -
  from batch_fold_rep[OF batch_rep_init, of max_size ms] obtain groups cur where
    r: "batch_rep max_size (foldl (batch_step max_size) batch_init ms) groups cur"
      "concat groups @ cur = ms" by auto
  show ?thesis
  proof (cases "cur = []")
    case True
    with r that[of groups] show ?thesis by (auto simp: batch_messages_def Let_def batch_rep_def)
  next
    case False
    then have pos: "bt_msg_count (foldl (batch_step max_size) batch_init ms) > 0"
      using r(1) count_pos[of cur] by (simp add: batch_rep_def)
    have "batch_rep max_size (close_batch (foldl (batch_step max_size) batch_init ms)) (groups @ [cur]) []"
      using r(1) False by (intro batch_rep_close) (auto simp: batch_rep_def)
    with pos r(2) that[of "groups @ [cur]"] show ?thesis
      by (simp add: batch_messages_def Let_def batch_rep_def)
  qed
qed

text \<open>Unbatching reads the messages of a group back when their lengths fit 16 bits.\<close>

lemma enc_msg_length_prefix:
  assumes "length m \<le> 65535" and "drop offset data = enc_msg m @ rest"
  shows "unat (from_be_bytes [data ! offset, data ! (offset + 1)] :: u16) = length m"
proof -
  have "[drop offset data ! 0, drop offset data ! 1] = be_bytes 2 (of_nat (length m) :: u16)"
    unfolding assms(2) enc_msg_def
    by (intro nth_equalityI) (auto simp: nth_append nth_Cons less_Suc_eq numeral_2_eq_2)
  moreover have "offset + 1 < length data"
    using arg_cong[OF assms(2), of length] by simp
  ultimately have "from_be_bytes [data ! offset, data ! (offset + 1)] = (of_nat (length m) :: u16)"
    by simp
  then show ?thesis using assms(1) by (simp add: unat_of_nat take_bit_nat_eq_self)
qed

lemma unbatch_loop_group:
  assumes "\<forall>m\<in>set ms. length m \<le> 65535" and "drop offset data = concat (map enc_msg ms) @ rest"
    and "offset \<le> length data"
  shows "unbatch_loop (length ms) offset data acc = Some (acc @ ms)"
  using assms
proof (induction ms arbitrary: offset acc)
  case (Cons m ms)
  have d: "drop offset data = enc_msg m @ (concat (map enc_msg ms) @ rest)" using Cons.prems(2) by simp
  note len = enc_msg_length_prefix[OF _ d]
  have l: "length data - offset = 2 + length m + length (concat (map enc_msg ms) @ rest)"
    using arg_cong[OF d, of length] by simp
  have "drop (offset + 2) data = drop 2 (drop offset data)" by (simp add: add.commute)
  then have d2: "drop (offset + 2) data = m @ concat (map enc_msg ms) @ rest" unfolding d enc_msg_def by simp
  have "drop (offset + 2 + length m) data = drop (length m) (drop (offset + 2) data)" by (simp add: add.commute)
  then have d3: "drop (offset + 2 + length m) data = concat (map enc_msg ms) @ rest" unfolding d2 by simp
  have "unbatch_loop (length ms) (offset + 2 + length m) data (acc @ [m]) = Some ((acc @ [m]) @ ms)"
    using Cons.prems(1,3) d3 l by (intro Cons.IH) auto
  then show ?case
    using Cons.prems(1,3) len l d2 by (simp add: Let_def)
qed simp

lemma unbatch_group:
  assumes "\<forall>m\<in>set ms. length m \<le> 65535" and "length ms \<le> 255"
  shows "unbatch_messages (enc_group ms) = Some ms"
proof -
  have "unat (of_nat (length ms) :: u8) = length ms"
    using assms(2) by (simp add: unat_of_nat take_bit_nat_eq_self)
  then show ?thesis
    using unbatch_loop_group[OF assms(1), of 1 "enc_group ms" "[]" "[]"]
    by (simp add: unbatch_messages_def enc_group_def)
qed

section \<open>Properties\<close>

text \<open>Batching loses nothing, keeps the order, and stays within the size: unbatching the
  batches one after the other gives the messages, and a batch is longer than the maximum only
  when it holds a single message that is.\<close>

theorem batch_roundtrip:
  assumes "\<forall>m\<in>set ms. length m \<le> 65535"
  shows "map_option concat (those (map unbatch_messages (batch_messages ms max_size))) = Some ms \<and>
    list_all (\<lambda>b. length b \<le> max_size \<or> (\<exists>m. m \<in> set ms \<and> length b = 3 + length m)) (batch_messages ms max_size)"
proof -
  obtain groups where g: "batch_messages ms max_size = map enc_group groups" "concat groups = ms"
    "\<forall>g\<in>set groups. group_ok max_size g" by (rule batches_are_groups)
  have "those (map unbatch_messages (map enc_group gs)) = Some gs"
    if "\<forall>g\<in>set gs. group_ok max_size g \<and> (\<forall>m\<in>set g. length m \<le> 65535)" for gs
    using that by (induction gs) (simp_all add: unbatch_group group_ok_def)
  then have "those (map unbatch_messages (batch_messages ms max_size)) = Some groups"
    using g assms by auto
  moreover have "length b \<le> max_size \<or> (\<exists>m. m \<in> set ms \<and> length b = 3 + length m)"
    if "b \<in> set (batch_messages ms max_size)" for b
  proof -
    from that g obtain gr where gr: "gr \<in> set groups" "b = enc_group gr" "group_ok max_size gr" by auto
    then show ?thesis
    proof (cases "length gr = 1")
      case True
      then obtain m where "gr = [m]" by (auto simp: length_Suc_conv)
      with gr g(2) show ?thesis
        by (intro disjI2 exI[of _ m]) (auto simp: enc_group_def intro!: bexI[of _ "[m]"])
    qed (use gr in \<open>auto simp: group_ok_def\<close>)
  qed
  ultimately show ?thesis using g(2) by (auto simp: list_all_iff)
qed

theorem batch_roundtrip_witness:
  "map_option concat (those (map unbatch_messages (batch_messages [[1, 2], [], [3]] 8))) = Some [[1, 2], [], [3]]"
  by (rule batch_roundtrip[THEN conjunct1]) simp

text \<open>A message of 65536 bytes or more is batched under a truncated length; what the receiver
  reads back is not the message.\<close>

theorem batch_truncates_length:
  assumes "length m = 65536 + k" and "k < 65536"
  shows "batch_messages [m] max_size = [1 # be_bytes 2 (of_nat k :: u16) @ m] \<and>
         unbatch_messages (hd (batch_messages [m] max_size)) = Some [take k m]"
proof -
  have c: "(of_nat (length m) :: u16) = of_nat k"
    unfolding assms(1) by (simp only: word_unat_eq_iff unat_of_nat) (simp add: take_bit_eq_mod)
  have one: "(1 :: u8) \<noteq> MAX_BATCH_MESSAGES" by (simp add: MAX_BATCH_MESSAGES_def)
  have b: "batch_messages [m] max_size = [1 # be_bytes 2 (of_nat k :: u16) @ m]"
    using one c by (simp add: batch_messages_def batch_step_def push_message_def close_batch_def
        batch_init_def Let_def)
  have "unat (from_be_bytes (be_bytes 2 (of_nat k :: u16)) :: u16) = k"
    using assms(2) by (simp add: unat_of_nat take_bit_nat_eq_self)
  moreover obtain x y where xy: "be_bytes 2 (of_nat k :: u16) = [x, y]"
    using be_bytes_2 by blast
  ultimately have u: "unat (from_be_bytes [x, y] :: u16) = k" by simp
  have "unbatch_messages (1 # x # y # m) = Some [take k m]"
    using assms(1) u by (simp add: unbatch_messages_def Let_def)
  then have "unbatch_messages (1 # be_bytes 2 (of_nat k :: u16) @ m) = Some [take k m]"
    unfolding xy by simp
  with b show ?thesis by simp
qed

theorem batch_truncates_length_witness:
  "unbatch_messages (hd (batch_messages [replicate 65539 7] 1200)) = Some [[7, 7, 7]]"
proof -
  have "unbatch_messages (hd (batch_messages [replicate 65539 7] 1200)) = Some [take 3 (replicate 65539 7)]"
    by (rule batch_truncates_length[THEN conjunct2]) simp_all
  also have "take 3 (replicate 65539 7) = replicate 3 (7 :: u8)" by (simp only: take_replicate) simp
  also have "replicate 3 (7 :: u8) = [7, 7, 7]" by (simp add: numeral_3_eq_3)
  finally show ?thesis .
qed

end
