(* ===== verification/Fragment.thy ===== *)
theory Fragment
  imports Rust_Std
begin

text \<open>
  Fragmentation and reassembly (\<open>gbnet/src/fragment.rs\<close>): the fragment header, splitting a
  message, the buffer that collects the fragments of one message and the assembler that keeps a
  bounded number of bytes of them.

  The specification is the list of chunks of a message. The main invariant says that every slot
  of a buffer is empty or holds the chunk of its index, whatever was lost, duplicated, reordered,
  expired or evicted.
\<close>

section \<open>Headers\<close>

definition FRAGMENT_HEADER_SIZE :: nat where
  "FRAGMENT_HEADER_SIZE = 6"

definition MAX_FRAGMENT_COUNT :: nat where
  "MAX_FRAGMENT_COUNT = 255"

datatype fragment_error = TooManyFragments

record fragment_header =
  fh_message_id :: u32
  fh_fragment_index :: u8
  fh_fragment_count :: u8

definition FragmentHeader_serialize :: "fragment_header \<Rightarrow> bytes" where
  "FragmentHeader_serialize h =
     be_bytes 4 (fh_message_id h) @ [fh_fragment_index h, fh_fragment_count h]"

definition FragmentHeader_deserialize :: "bytes \<Rightarrow> fragment_header option" where
  "FragmentHeader_deserialize data =
     (if length data < FRAGMENT_HEADER_SIZE then None
      else Some \<lparr>fh_message_id = from_be_bytes [data ! 0, data ! 1, data ! 2, data ! 3],
                 fh_fragment_index = data ! 4, fh_fragment_count = data ! 5\<rparr>)"

section \<open>Splitting\<close>

definition div_ceil :: "nat \<Rightarrow> nat \<Rightarrow> nat" where
  "div_ceil n k = n div k + (if n mod k = 0 then 0 else 1)"

definition make_fragment :: "u32 \<Rightarrow> bytes \<Rightarrow> nat \<Rightarrow> u8 \<Rightarrow> nat \<Rightarrow> bytes" where
  "make_fragment message_id data max_fragment_payload fragment_count i =
     (let start = i * max_fragment_payload;
          finish = min ((i + 1) * max_fragment_payload) (length data)
      in FragmentHeader_serialize \<lparr>fh_message_id = message_id, fh_fragment_index = of_nat i,
           fh_fragment_count = fragment_count\<rparr> @ take (finish - start) (drop start data))"

definition fragment_message :: "u32 \<Rightarrow> bytes \<Rightarrow> nat \<Rightarrow> fragment_error + bytes list" where
  "fragment_message message_id data max_fragment_payload =
     (if data = [] \<or> max_fragment_payload = 0 then Inr []
      else
        let fragment_count = div_ceil (length data) max_fragment_payload
        in if fragment_count > MAX_FRAGMENT_COUNT then Inl TooManyFragments
           else Inr (map (make_fragment message_id data max_fragment_payload (of_nat fragment_count))
                      [0..<fragment_count]))"

section \<open>The buffer of one message\<close>

record fragment_buffer =
  fb_fragments :: "bytes option list"
  fb_fragment_count :: u8
  fb_received_count :: u8
  fb_created_at :: instant
  fb_total_size :: nat

definition FragmentBuffer_new :: "instant \<Rightarrow> u8 \<Rightarrow> fragment_buffer" where
  "FragmentBuffer_new now fragment_count =
     \<lparr>fb_fragments = replicate (unat fragment_count) None, fb_fragment_count = fragment_count,
      fb_received_count = 0, fb_created_at = now, fb_total_size = 0\<rparr>"

definition is_complete :: "fragment_buffer \<Rightarrow> bool" where
  "is_complete buf \<longleftrightarrow> fb_received_count buf = fb_fragment_count buf"

definition FragmentBuffer_insert :: "u8 \<Rightarrow> bytes \<Rightarrow> fragment_buffer \<Rightarrow> bool \<times> fragment_buffer" where
  "FragmentBuffer_insert index data buf =
     (if index \<ge> fb_fragment_count buf then (False, buf)
      else
        let idx = unat index;
            buf' = (if fb_fragments buf ! idx = None
                    then buf\<lparr>fb_total_size := fb_total_size buf + length data,
                             fb_received_count := fb_received_count buf + 1,
                             fb_fragments := (fb_fragments buf)[idx := Some data]\<rparr>
                    else buf)
        in (is_complete buf', buf'))"

text \<open>The loop of \<open>assemble\<close> over the slots, \<open>None\<close> at the first empty one.\<close>

fun collect :: "bytes option list \<Rightarrow> bytes \<Rightarrow> bytes option" where
  "collect [] result = Some result"
| "collect (Some data # frags) result = collect frags (result @ data)"
| "collect (None # frags) result = None"

definition assemble :: "fragment_buffer \<Rightarrow> bytes option" where
  "assemble buf = (if \<not> is_complete buf then None else collect (fb_fragments buf) [])"

section \<open>The assembler\<close>

record fragment_assembler =
  fa_buffers :: "(u32, fragment_buffer) hash_map"
  fa_timeout :: duration
  fa_max_buffer_size :: nat
  fa_current_buffer_size :: nat

definition FragmentAssembler_new :: "duration \<Rightarrow> nat \<Rightarrow> fragment_assembler" where
  "FragmentAssembler_new timeout max_buffer_size =
     \<lparr>fa_buffers = [], fa_timeout = timeout, fa_max_buffer_size = max_buffer_size,
      fa_current_buffer_size = 0\<rparr>"

definition fresh :: "instant \<Rightarrow> duration \<Rightarrow> fragment_buffer \<Rightarrow> bool" where
  "fresh now timeout buf \<longleftrightarrow> duration_since now (fb_created_at buf) < timeout"

definition fragment_cleanup :: "instant \<Rightarrow> fragment_assembler \<Rightarrow> fragment_assembler" where
  "fragment_cleanup now a =
     (let removed_size = sum_list (map (\<lambda>(_, buf). fb_total_size buf)
            (filter (\<lambda>(_, buf). \<not> fresh now (fa_timeout a) buf) (fa_buffers a)))
      in a\<lparr>fa_buffers := hm_retain (\<lambda>_ buf. fresh now (fa_timeout a) buf) (fa_buffers a),
           fa_current_buffer_size := fa_current_buffer_size a - removed_size\<rparr>)"

definition expire_oldest :: "u32 iter_order \<Rightarrow> fragment_assembler \<Rightarrow> fragment_assembler" where
  "expire_oldest it a =
     (case hm_oldest it fb_created_at (fa_buffers a) of
        None \<Rightarrow> a
      | Some oldest_id \<Rightarrow>
          (case hm_get (fa_buffers a) oldest_id of
             None \<Rightarrow> a
           | Some buf \<Rightarrow> a\<lparr>fa_buffers := hm_remove oldest_id (fa_buffers a),
                           fa_current_buffer_size := fa_current_buffer_size a - fb_total_size buf\<rparr>))"

text \<open>The part of \<open>process_fragment\<close> after the header has been read and room has been made.\<close>

definition store_fragment :: "instant \<Rightarrow> fragment_header \<Rightarrow> bytes \<Rightarrow> fragment_assembler \<Rightarrow>
    bytes option \<times> fragment_assembler" where
  "store_fragment now header fragment_data a =
     (let id = fh_message_id header;
          buffer = (case hm_get (fa_buffers a) id of
                      Some buf \<Rightarrow> buf
                    | None \<Rightarrow> FragmentBuffer_new now (fh_fragment_count header));
          size = fa_current_buffer_size a + length fragment_data;
          (complete, buffer') = FragmentBuffer_insert (fh_fragment_index header) fragment_data buffer
      in if complete
         then (assemble buffer',
               a\<lparr>fa_buffers := hm_remove id (fa_buffers a),
                 fa_current_buffer_size := size - fb_total_size buffer'\<rparr>)
         else (None,
               a\<lparr>fa_buffers := hm_insert id buffer' (fa_buffers a), fa_current_buffer_size := size\<rparr>))"

definition process_fragment :: "u32 iter_order \<Rightarrow> instant \<Rightarrow> bytes \<Rightarrow> fragment_assembler \<Rightarrow>
    bytes option \<times> fragment_assembler" where
  "process_fragment it now data a0 =
     (let a = fragment_cleanup now a0
      in case FragmentHeader_deserialize data of
           None \<Rightarrow> (None, a)
         | Some header \<Rightarrow>
             let fragment_data = drop FRAGMENT_HEADER_SIZE data;
                 mismatch = (case hm_get (fa_buffers a) (fh_message_id header) of
                               Some existing \<Rightarrow> fb_fragment_count existing \<noteq> fh_fragment_count header
                             | None \<Rightarrow> False)
             in if mismatch then (None, a)
                else
                  let a1 = (if fa_current_buffer_size a + length fragment_data > fa_max_buffer_size a
                            then expire_oldest it a else a)
                  in store_fragment now header fragment_data a1)"

interpretation reassembly: evicting_table fa_buffers fb_created_at expire_oldest
proof
  fix it :: "u32 iter_order" and a :: fragment_assembler
  assume "is_iter_order it" and "hm_ok (fa_buffers a)"
  then show "fa_buffers (expire_oldest it a) =
       (case hm_oldest it fb_created_at (fa_buffers a) of
          None \<Rightarrow> fa_buffers a | Some k \<Rightarrow> hm_remove k (fa_buffers a))"
    by (auto simp: expire_oldest_def elim: hm_oldest_Some split: option.splits)
qed

section \<open>Chunks\<close>

definition chunk :: "nat \<Rightarrow> bytes \<Rightarrow> nat \<Rightarrow> bytes" where
  "chunk mx data i = take mx (drop (i * mx) data)"

definition chunk_count :: "nat \<Rightarrow> bytes \<Rightarrow> nat" where
  "chunk_count mx data = div_ceil (length data) mx"

lemma concat_chunks: "mx > 0 \<Longrightarrow> concat (map (chunk mx data) [0..<k]) = take (k * mx) data"
proof (induction k)
  case (Suc k)
  have "Suc k * mx = k * mx + mx" by simp
  then have "take (Suc k * mx) data = take (k * mx) data @ take mx (drop (k * mx) data)"
    by (simp only: take_add)
  with Suc show ?case by (simp add: chunk_def)
qed simp

lemma chunk_count_enough:
  assumes "mx > 0"
  shows "length data \<le> chunk_count mx data * mx" and "data \<noteq> [] \<Longrightarrow> 0 < chunk_count mx data"
    and "i < chunk_count mx data \<Longrightarrow> i * mx < length data"
proof -
  obtain q r where qr: "length data = q * mx + r" "r < mx" "length data div mx = q" "length data mod mx = r"
    using assms by (metis div_mult_mod_eq mod_less_divisor)
  then have n: "chunk_count mx data = q + (if r = 0 then 0 else 1)"
    by (simp add: chunk_count_def div_ceil_def)
  show "length data \<le> chunk_count mx data * mx" using qr(1,2) n by (simp add: add_mult_distrib)
  show "0 < chunk_count mx data" if "data \<noteq> []" using that qr(1,2) n by (cases q) auto
  show "i * mx < length data" if "i < chunk_count mx data"
  proof (cases "r = 0")
    case True
    with that n assms qr(1) show ?thesis by simp
  next
    case False
    with that n have "i \<le> q" by simp
    then have "i * mx \<le> q * mx" by simp
    with False qr(1) show ?thesis by linarith
  qed
qed

lemma concat_all_chunks: "mx > 0 \<Longrightarrow> concat (map (chunk mx data) [0..<chunk_count mx data]) = data"
  using concat_chunks[of mx data "chunk_count mx data"] chunk_count_enough(1)[of mx data] by simp

lemma header_roundtrip:
  "FragmentHeader_deserialize (FragmentHeader_serialize h @ rest) = Some h"
proof -
  obtain w x y z where be: "be_bytes 4 (fh_message_id h) = [w, x, y, z]"
    by (simp add: be_bytes_def le_bytes_def numeral_eq_Suc)
  have "from_be_bytes [w, x, y, z] = fh_message_id h"
    using from_be_be_bytes[of 4 "fh_message_id h"] be by simp
  with be show ?thesis
    by (simp add: FragmentHeader_deserialize_def FragmentHeader_serialize_def FRAGMENT_HEADER_SIZE_def)
qed

lemma make_fragment_alt:
  assumes "mx > 0" and "i < chunk_count mx data"
  shows "make_fragment mid data mx n i = FragmentHeader_serialize \<lparr>fh_message_id = mid, fh_fragment_index = of_nat i,
     fh_fragment_count = n\<rparr> @ chunk mx data i"
proof -
  have "i * mx < length data" using chunk_count_enough(3)[OF assms] .
  then show ?thesis by (simp add: make_fragment_def Let_def chunk_def min_def)
qed

lemma length_header [simp]: "length (FragmentHeader_serialize h) = 6"
  by (simp add: FragmentHeader_serialize_def)

section \<open>What a buffer holds\<close>

text \<open>The buffer holds exactly the chunks of \<open>data\<close> with an index in \<open>S\<close>.\<close>

definition buffer_holds :: "nat \<Rightarrow> bytes \<Rightarrow> nat set \<Rightarrow> fragment_buffer \<Rightarrow> bool" where
  "buffer_holds mx data S buf \<longleftrightarrow>
     (let n = chunk_count mx data
      in n \<le> 255 \<and> S \<subseteq> {..<n} \<and> fb_fragment_count buf = of_nat n \<and>
         fb_fragments buf = map (\<lambda>i. if i \<in> S then Some (chunk mx data i) else None) [0..<n] \<and>
         fb_received_count buf = of_nat (card S) \<and>
         fb_total_size buf = (\<Sum>i\<in>S. length (chunk mx data i)))"

lemma holds_new:
  "chunk_count mx data \<le> 255 \<Longrightarrow> buffer_holds mx data {} (FragmentBuffer_new now (of_nat (chunk_count mx data)))"
  by (simp add: buffer_holds_def FragmentBuffer_new_def Let_def unat_of_nat take_bit_nat_eq_self
      map_replicate_const)

lemma card_sub: "S \<subseteq> {..<n :: nat} \<Longrightarrow> card S \<le> n" "S \<subseteq> {..<n} \<Longrightarrow> card S = n \<longleftrightarrow> S = {..<n}"
  using card_mono[of "{..<n}" S] card_subset_eq[of "{..<n}" S] by auto

lemma u8_of_nat_eq: "a \<le> 255 \<Longrightarrow> b \<le> 255 \<Longrightarrow> (of_nat a :: u8) = of_nat b \<longleftrightarrow> a = b"
  by (simp add: word_unat_eq_iff unat_of_nat take_bit_nat_eq_self)

lemma u8_of_nat_less: "a \<le> 255 \<Longrightarrow> b \<le> 255 \<Longrightarrow> (of_nat a :: u8) < of_nat b \<longleftrightarrow> a < b"
  by (simp add: word_less_nat_alt unat_of_nat take_bit_nat_eq_self)

lemma holds_complete:
  assumes "buffer_holds mx data S buf"
  shows "is_complete buf \<longleftrightarrow> S = {..<chunk_count mx data}"
proof -
  have S: "S \<subseteq> {..<chunk_count mx data}" "chunk_count mx data \<le> 255"
    using assms by (auto simp: buffer_holds_def Let_def)
  have "is_complete buf \<longleftrightarrow> (of_nat (card S) :: u8) = of_nat (chunk_count mx data)"
    using assms by (simp add: buffer_holds_def Let_def is_complete_def)
  also have "\<dots> \<longleftrightarrow> card S = chunk_count mx data"
    using S card_sub(1)[OF S(1)] by (intro u8_of_nat_eq) auto
  finally show ?thesis using card_sub(2)[OF S(1)] by simp
qed

lemma collect_Some: "collect (map (\<lambda>i. Some (f i)) xs) acc = Some (acc @ concat (map f xs))"
  by (induction xs arbitrary: acc) simp_all

lemma holds_assemble:
  assumes "buffer_holds mx data {..<chunk_count mx data} buf" and "mx > 0"
  shows "assemble buf = Some data"
proof -
  have "fb_fragments buf = map (\<lambda>i. if i < chunk_count mx data then Some (chunk mx data i) else None)
      [0..<chunk_count mx data]"
    using assms(1) by (simp add: buffer_holds_def Let_def)
  also have "\<dots> = map (\<lambda>i. Some (chunk mx data i)) [0..<chunk_count mx data]"
    by (rule map_cong) auto
  finally show ?thesis
    using holds_complete[OF assms(1)] assms(2)
    by (simp add: assemble_def collect_Some concat_all_chunks)
qed

lemma holds_insert:
  assumes h: "buffer_holds mx data S buf" and i: "i < chunk_count mx data"
    and eq: "FragmentBuffer_insert (of_nat i) (chunk mx data i) buf = (complete, buf')"
  shows "buffer_holds mx data (insert i S) buf'" and "complete \<longleftrightarrow> insert i S = {..<chunk_count mx data}"
    and "fb_created_at buf' = fb_created_at buf"
    and "fb_total_size buf' = fb_total_size buf + (if i \<in> S then 0 else length (chunk mx data i))"
proof -
  let ?n = "chunk_count mx data" and ?c = "chunk mx data i"
  have n: "?n \<le> 255" and S: "S \<subseteq> {..<?n}" and fin: "finite S"
    and cnt: "fb_fragment_count buf = of_nat ?n"
    and fr: "fb_fragments buf = map (\<lambda>i. if i \<in> S then Some (chunk mx data i) else None) [0..<?n]"
    and rc: "fb_received_count buf = of_nat (card S)"
    and ts: "fb_total_size buf = (\<Sum>i\<in>S. length (chunk mx data i))"
    using h finite_subset[of S "{..<?n}"] by (auto simp: buffer_holds_def Let_def)
  have idx: "unat (of_nat i :: u8) = i" "\<not> (of_nat i :: u8) \<ge> of_nat ?n"
    using i n by (simp_all add: unat_of_nat take_bit_nat_eq_self u8_of_nat_less not_le)
  have slot: "fb_fragments buf ! i = (if i \<in> S then Some ?c else None)"
    using i by (simp add: fr)
  define b where "b = (if i \<in> S then buf
    else buf\<lparr>fb_total_size := fb_total_size buf + length ?c, fb_received_count := fb_received_count buf + 1,
             fb_fragments := (fb_fragments buf)[i := Some ?c]\<rparr>)"
  have ins: "FragmentBuffer_insert (of_nat i) ?c buf = (is_complete b, b)"
    using idx slot cnt by (simp add: FragmentBuffer_insert_def Let_def b_def)
  have upd: "(map (\<lambda>j. if j \<in> S then Some (chunk mx data j) else None) [0..<?n])[i := Some ?c] =
      map (\<lambda>j. if j \<in> insert i S then Some (chunk mx data j) else None) [0..<?n]"
    using i by (intro nth_equalityI) (auto simp: nth_list_update)
  have hb: "buffer_holds mx data (insert i S) b"
  proof (cases "i \<in> S")
    case True
    then show ?thesis using h by (simp add: b_def insert_absorb)
  next
    case False
    then show ?thesis
      using n S fin i cnt fr rc ts upd by (simp add: b_def buffer_holds_def Let_def)
  qed
  from ins eq have b: "buf' = b" "complete = is_complete b" by auto
  with hb show "buffer_holds mx data (insert i S) buf'" by simp
  from holds_complete[OF hb] b show "complete \<longleftrightarrow> insert i S = {..<?n}" by simp
  show "fb_created_at buf' = fb_created_at buf"
    "fb_total_size buf' = fb_total_size buf + (if i \<in> S then 0 else length ?c)"
    using b by (simp_all add: b_def)
qed

section \<open>The assembler's invariant\<close>

definition held :: "fragment_assembler \<Rightarrow> nat" where
  "held a = sum_list (map (\<lambda>(_, buf). fb_total_size buf) (fa_buffers a))"

text \<open>
  Every buffer belongs to the message of its id, and the byte counter covers what is held.
\<close>

definition assembler_ok :: "nat \<Rightarrow> (u32 \<Rightarrow> bytes) \<Rightarrow> fragment_assembler \<Rightarrow> bool" where
  "assembler_ok mx msg a \<longleftrightarrow> hm_ok (fa_buffers a) \<and> held a \<le> fa_current_buffer_size a \<and>
     (\<forall>(mid, buf)\<in>set (fa_buffers a). \<exists>S. buffer_holds mx (msg mid) S buf)"

lemma held_retain:
  "held (a\<lparr>fa_buffers := hm_retain (\<lambda>_ buf. P buf) (fa_buffers a), fa_current_buffer_size := c\<rparr>) +
   sum_list (map (\<lambda>(_, buf). fb_total_size buf) (filter (\<lambda>(_, buf). \<not> P buf) (fa_buffers a))) = held a"
proof -
  have "sum_list (map f (filter (\<lambda>(_, buf). P buf) m)) + sum_list (map f (filter (\<lambda>(_, buf). \<not> P buf) m)) = sum_list (map f m)"
    for f :: "u32 \<times> fragment_buffer \<Rightarrow> nat" and m
    by (induction m) auto
  then show ?thesis by (simp add: held_def hm_retain_def)
qed

lemma sum_remove:
  assumes "hm_ok m" and "hm_get m k = Some v"
  shows "sum_list (map (\<lambda>(_, b). f b) (hm_remove k m)) + f v = sum_list (map (\<lambda>(_, b). (f b :: nat)) m)"
  using assms
proof (induction m)
  case (Cons e m)
  obtain j w where e: "e = (j, w)" by fastforce
  show ?case
  proof (cases "j = k")
    case True
    then have "hm_remove k (e # m) = m"
      using Cons.prems(1) e by (auto simp: hm_ok_def hm_remove_def delete_notin_dom)
    then show ?thesis using Cons.prems e True by (simp add: hm_get_def)
  next
    case False
    then show ?thesis using Cons e by (auto simp: hm_ok_def hm_get_def hm_remove_def)
  qed
qed (simp add: hm_get_def)

lemma sum_insert:
  assumes "hm_ok m"
  shows "sum_list (map (\<lambda>(_, b). f b) (hm_insert k v m)) + (case hm_get m k of None \<Rightarrow> 0 | Some w \<Rightarrow> f w) =
    sum_list (map (\<lambda>(_, b). (f b :: nat)) m) + f v"
  using assms
proof (induction m)
  case (Cons e m)
  obtain j w where e: "e = (j, w)" by fastforce
  with Cons show ?case by (auto simp: hm_ok_def hm_get_def hm_insert_def)
qed (simp add: hm_get_def hm_insert_def)

lemma cleanup_ok:
  assumes "assembler_ok mx msg a"
  shows "assembler_ok mx msg (fragment_cleanup now a)"
proof -
  let ?P = "fresh now (fa_timeout a)"
  have "held (fragment_cleanup now a) + sum_list (map (\<lambda>(_, buf). fb_total_size buf)
      (filter (\<lambda>(_, buf). \<not> ?P buf) (fa_buffers a))) = held a"
    unfolding fragment_cleanup_def Let_def by (rule held_retain)
  with assms show ?thesis
    by (auto simp: assembler_ok_def fragment_cleanup_def Let_def set_hm_retain hm_ok_retain)
qed

lemma expire_ok:
  assumes "assembler_ok mx msg a" and "is_iter_order it"
  shows "assembler_ok mx msg (expire_oldest it a)"
proof (cases "hm_oldest it fb_created_at (fa_buffers a)")
  case None
  with assms show ?thesis by (simp add: expire_oldest_def)
next
  case (Some k)
  have ok: "hm_ok (fa_buffers a)" using assms by (simp add: assembler_ok_def)
  obtain buf where buf: "hm_get (fa_buffers a) k = Some buf"
    using hm_oldest_Some[OF assms(2) ok Some] by blast
  from sum_remove[OF ok buf, of fb_total_size] Some buf assms show ?thesis
    by (auto simp: assembler_ok_def expire_oldest_def held_def hm_ok_remove set_hm_remove)
qed

text \<open>Fragment \<open>i\<close> of the message \<open>msg mid\<close>, as the sender makes it.\<close>

definition frag :: "nat \<Rightarrow> (u32 \<Rightarrow> bytes) \<Rightarrow> u32 \<Rightarrow> nat \<Rightarrow> bytes" where
  "frag mx msg mid i = make_fragment mid (msg mid) mx (of_nat (chunk_count mx (msg mid))) i"

definition is_frag :: "nat \<Rightarrow> (u32 \<Rightarrow> bytes) \<Rightarrow> u32 \<Rightarrow> nat \<Rightarrow> bool" where
  "is_frag mx msg mid i \<longleftrightarrow> mx > 0 \<and> chunk_count mx (msg mid) \<le> 255 \<and> i < chunk_count mx (msg mid)"

lemma fragment_message_frags:
  assumes "fragment_message mid (msg mid) mx = Inr fs" and "fs \<noteq> []"
  shows "fs = map (frag mx msg mid) [0..<chunk_count mx (msg mid)]" and "mx > 0"
    and "chunk_count mx (msg mid) \<le> 255" and "msg mid \<noteq> []"
  using assms by (auto simp: fragment_message_def Let_def chunk_count_def frag_def[abs_def]
      MAX_FRAGMENT_COUNT_def split: if_splits)

lemma frag_parse:
  assumes "is_frag mx msg mid i"
  shows "FragmentHeader_deserialize (frag mx msg mid i) = Some \<lparr>fh_message_id = mid,
      fh_fragment_index = of_nat i, fh_fragment_count = of_nat (chunk_count mx (msg mid))\<rparr>"
    and "drop FRAGMENT_HEADER_SIZE (frag mx msg mid i) = chunk mx (msg mid) i"
  using assms make_fragment_alt[of mx i "msg mid" mid]
  by (simp_all add: frag_def is_frag_def header_roundtrip FRAGMENT_HEADER_SIZE_def)

lemma store_ok:
  assumes a: "assembler_ok mx msg a" and i: "is_frag mx msg mid i"
    and st: "store_fragment now \<lparr>fh_message_id = mid, fh_fragment_index = of_nat i,
       fh_fragment_count = of_nat (chunk_count mx (msg mid))\<rparr> (chunk mx (msg mid) i) a = (r, a')"
  shows "assembler_ok mx msg a'" and "r = None \<or> r = Some (msg mid)"
proof -
  let ?n = "chunk_count mx (msg mid)" and ?c = "chunk mx (msg mid) i"
  define buf where "buf = (case hm_get (fa_buffers a) mid of Some b \<Rightarrow> b | None \<Rightarrow> FragmentBuffer_new now (of_nat ?n))"
  have ok: "hm_ok (fa_buffers a)" and le: "held a \<le> fa_current_buffer_size a"
    using a by (auto simp: assembler_ok_def)
  have "\<exists>S. buffer_holds mx (msg mid) S buf"
  proof (cases "hm_get (fa_buffers a) mid")
    case None
    then show ?thesis using holds_new[of mx "msg mid" now] i by (auto simp: buf_def is_frag_def)
  next
    case (Some b)
    then have "(mid, b) \<in> set (fa_buffers a)" using ok by (simp add: hm_get_iff)
    then show ?thesis using a Some by (auto simp: buf_def assembler_ok_def)
  qed
  then obtain S where S: "buffer_holds mx (msg mid) S buf" by blast
  obtain complete buf' where ins: "FragmentBuffer_insert (of_nat i) ?c buf = (complete, buf')" by fastforce
  note hi = holds_insert[OF S _ ins]
  have i': "i < ?n" "mx > 0" using i by (auto simp: is_frag_def)
  have old: "(case hm_get (fa_buffers a) mid of None \<Rightarrow> 0 | Some w \<Rightarrow> fb_total_size w) = fb_total_size buf"
    by (simp add: buf_def FragmentBuffer_new_def split: option.split)
  have grow: "fb_total_size buf' \<le> fb_total_size buf + length ?c" using hi(4)[OF i'(1)] by simp
  have ra: "(r, a') = (if complete
         then (assemble buf',
               a\<lparr>fa_buffers := hm_remove mid (fa_buffers a),
                 fa_current_buffer_size := fa_current_buffer_size a + length ?c - fb_total_size buf'\<rparr>)
         else (None,
               a\<lparr>fa_buffers := hm_insert mid buf' (fa_buffers a),
                 fa_current_buffer_size := fa_current_buffer_size a + length ?c\<rparr>))"
    using st ins by (simp add: store_fragment_def Let_def buf_def cong: option.case_cong)
  show "assembler_ok mx msg a'"
  proof (cases complete)
    case True
    have "held a' + fb_total_size buf = held a"
    proof (cases "hm_get (fa_buffers a) mid")
      case None
      then have "hm_remove mid (fa_buffers a) = fa_buffers a"
        by (auto simp: hm_get_None_iff hm_remove_def delete_notin_dom)
      then show ?thesis using ra True None old by (simp add: held_def)
    next
      case (Some b)
      then show ?thesis using sum_remove[OF ok Some, of fb_total_size] ra True old by (simp add: held_def)
    qed
    then have "held a' \<le> fa_current_buffer_size a + length ?c - fb_total_size buf'"
      using le grow by linarith
    then show ?thesis
      using a ra True by (auto simp: assembler_ok_def hm_ok_remove set_hm_remove)
  next
    case False
    have "held a' + fb_total_size buf = held a + fb_total_size buf'"
      using sum_insert[OF ok, of fb_total_size mid buf'] old ra False by (simp add: held_def)
    then have "held a' \<le> fa_current_buffer_size a + length ?c" using le grow by linarith
    then show ?thesis
      using a ra False hi(1)[OF i'(1)] ok by (auto simp: assembler_ok_def hm_ok_insert set_hm_insert)
  qed
  show "r = None \<or> r = Some (msg mid)"
  proof (cases complete)
    case True
    then have "buffer_holds mx (msg mid) {..<?n} buf'" using hi(1,2)[OF i'(1)] by simp
    from holds_assemble[OF this i'(2)] ra True show ?thesis by simp
  qed (use ra in simp)
qed

lemma process_ok:
  assumes a: "assembler_ok mx msg a" and i: "is_frag mx msg mid i" and it: "is_iter_order it"
    and p: "process_fragment it now (frag mx msg mid i) a = (r, a')"
  shows "assembler_ok mx msg a'" and "r = None \<or> r = Some (msg mid)"
proof -
  let ?a = "fragment_cleanup now a"
  have c: "assembler_ok mx msg ?a" using cleanup_ok[OF a] .
  let ?a1 = "if fa_current_buffer_size ?a + length (chunk mx (msg mid) i) > fa_max_buffer_size ?a
             then expire_oldest it ?a else ?a"
  have a1: "assembler_ok mx msg ?a1" using c expire_ok[OF c it] by simp
  have "(r, a') = (None, ?a) \<or> store_fragment now \<lparr>fh_message_id = mid, fh_fragment_index = of_nat i,
       fh_fragment_count = of_nat (chunk_count mx (msg mid))\<rparr> (chunk mx (msg mid) i) ?a1 = (r, a')"
    using p by (simp add: process_fragment_def Let_def frag_parse[OF i] split: if_splits)
  then show "assembler_ok mx msg a'" and "r = None \<or> r = Some (msg mid)"
    using c store_ok[OF a1 i, of now r a'] by (elim disjE; simp)+
qed

section \<open>Runs\<close>

text \<open>A fragment arriving: the iteration order, the time, the message id and the index.\<close>

datatype arrival = Arrival "u32 iter_order" instant u32 nat

fun arrive :: "nat \<Rightarrow> (u32 \<Rightarrow> bytes) \<Rightarrow> arrival \<Rightarrow> fragment_assembler \<Rightarrow> bytes option \<times> fragment_assembler" where
  "arrive mx msg (Arrival it now mid i) a = process_fragment it now (frag mx msg mid i) a"

fun arrival_ok :: "nat \<Rightarrow> (u32 \<Rightarrow> bytes) \<Rightarrow> arrival \<Rightarrow> bool" where
  "arrival_ok mx msg (Arrival it now mid i) \<longleftrightarrow> is_iter_order it \<and> is_frag mx msg mid i"

fun arrival_id :: "arrival \<Rightarrow> u32" where
  "arrival_id (Arrival it now mid i) = mid"

fun arrival_index :: "arrival \<Rightarrow> nat" where
  "arrival_index (Arrival it now mid i) = i"

fun arrival_time :: "arrival \<Rightarrow> instant" where
  "arrival_time (Arrival it now mid i) = now"

fun deliveries :: "nat \<Rightarrow> (u32 \<Rightarrow> bytes) \<Rightarrow> arrival list \<Rightarrow> fragment_assembler \<Rightarrow> (u32 \<times> bytes) list" where
  "deliveries mx msg [] a = []"
| "deliveries mx msg (x # xs) a =
     (case arrive mx msg x a of
        (None, a') \<Rightarrow> deliveries mx msg xs a'
      | (Some d, a') \<Rightarrow> (arrival_id x, d) # deliveries mx msg xs a')"

interpretation assembler: invariant_machine "arrival_ok mx msg" "\<lambda>x a. snd (arrive mx msg x a)"
  "assembler_ok mx msg" for mx msg
proof
  fix x a
  assume "arrival_ok mx msg x" and "assembler_ok mx msg a"
  then show "assembler_ok mx msg (snd (arrive mx msg x a))"
    using process_ok(1) by (cases x) (auto intro: process_ok(1) simp: prod_eq_iff)
qed

lemma deliveries_sound:
  "(\<And>x. x \<in> set xs \<Longrightarrow> arrival_ok mx msg x) \<Longrightarrow> assembler_ok mx msg a \<Longrightarrow>
   (mid, d) \<in> set (deliveries mx msg xs a) \<Longrightarrow> d = msg mid"
proof (induction xs arbitrary: a)
  case (Cons x xs)
  obtain r a' where ar: "arrive mx msg x a = (r, a')" by fastforce
  obtain it now m i where x: "x = Arrival it now m i" by (cases x)
  have "is_iter_order it" "is_frag mx msg m i" using Cons.prems(1)[of x] x by auto
  note p = process_ok[OF Cons.prems(2) this(2,1), of now r a']
  from p ar x Cons show ?case by (cases r) (auto split: option.splits)
qed simp

lemma assembler_ok_new: "assembler_ok mx msg (FragmentAssembler_new timeout max_buffer_size)"
  by (simp add: assembler_ok_def FragmentAssembler_new_def held_def)

section \<open>Completeness\<close>

text \<open>
  The state between the first and the last fragment of a message that arrives alone: the chunks
  in \<open>S\<close> are held, in a buffer made at \<open>t0\<close>, and the byte counter has grown by their size.
\<close>

definition progress :: "nat \<Rightarrow> (u32 \<Rightarrow> bytes) \<Rightarrow> u32 \<Rightarrow> instant \<Rightarrow> nat \<Rightarrow> nat set \<Rightarrow> fragment_assembler \<Rightarrow> bool" where
  "progress mx msg mid t0 c S a \<longleftrightarrow> hm_ok (fa_buffers a) \<and> S \<subseteq> {..<chunk_count mx (msg mid)} \<and>
     fa_current_buffer_size a \<le> c + (\<Sum>i\<in>S. length (chunk mx (msg mid) i)) \<and>
     c + length (msg mid) \<le> fa_max_buffer_size a \<and>
     (if S = {} then hm_get (fa_buffers a) mid = None
      else \<exists>buf. hm_get (fa_buffers a) mid = Some buf \<and> buffer_holds mx (msg mid) S buf \<and>
             fb_created_at buf = t0)"

lemma chunk_sizes: "mx > 0 \<Longrightarrow> (\<Sum>i<chunk_count mx data. length (chunk mx data i)) = length data"
  using arg_cong[OF concat_all_chunks[of mx data], of length]
  by (simp add: length_concat comp_def interv_sum_list_conv_sum_set_nat atLeast0LessThan)

lemma chunk_sizes_le:
  assumes "mx > 0" and "S \<subseteq> {..<chunk_count mx data}"
  shows "(\<Sum>i\<in>S. length (chunk mx data i)) \<le> length data"
proof -
  have "(\<Sum>i\<in>S. length (chunk mx data i)) \<le> (\<Sum>i<chunk_count mx data. length (chunk mx data i))"
    using assms(2) by (intro sum_mono2) auto
  then show ?thesis by (simp only: chunk_sizes[OF assms(1)])
qed

lemma cleanup_frame [simp]:
  "fa_timeout (fragment_cleanup now a) = fa_timeout a"
  "fa_max_buffer_size (fragment_cleanup now a) = fa_max_buffer_size a"
  "fa_current_buffer_size (fragment_cleanup now a) \<le> fa_current_buffer_size a"
  "fa_buffers (fragment_cleanup now a) = hm_retain (\<lambda>_ buf. fresh now (fa_timeout a) buf) (fa_buffers a)"
  by (simp_all add: fragment_cleanup_def Let_def)

lemma progress_cleanup:
  assumes "progress mx msg mid t0 c S a" and "S = {} \<or> duration_since now t0 < fa_timeout a"
  shows "progress mx msg mid t0 c S (fragment_cleanup now a)"
proof -
  have ok: "hm_ok (fa_buffers a)" using assms(1) by (simp add: progress_def)
  have "fa_current_buffer_size (fragment_cleanup now a) \<le> c + (\<Sum>i\<in>S. length (chunk mx (msg mid) i))"
    using assms(1) by (intro order.trans[OF cleanup_frame(3)]) (simp add: progress_def)
  with assms ok show ?thesis
    by (auto simp: progress_def hm_ok_retain hm_get_retain fresh_def split: if_splits)
qed

lemma progress_step:
  assumes p: "progress mx msg mid t0 c S a" and i: "is_frag mx msg mid i" and new: "i \<notin> S"
    and t: "if S = {} then now = t0 else duration_since now t0 < fa_timeout a"
    and pr: "process_fragment it now (frag mx msg mid i) a = (r, a')"
  shows "if insert i S = {..<chunk_count mx (msg mid)} then r = Some (msg mid)
         else r = None \<and> progress mx msg mid t0 c (insert i S) a' \<and> fa_timeout a' = fa_timeout a"
proof -
  let ?n = "chunk_count mx (msg mid)" and ?c = "chunk mx (msg mid) i" and ?a = "fragment_cleanup now a"
  have i': "i < ?n" "mx > 0" "?n \<le> 255" using i by (auto simp: is_frag_def)
  have pc: "progress mx msg mid t0 c S ?a"
    using progress_cleanup[OF p] t by (auto split: if_splits)
  have S: "S \<subseteq> {..<?n}" "finite S" using pc finite_subset[of S "{..<?n}"] by (auto simp: progress_def)
  have sum: "(\<Sum>j\<in>insert i S. length (chunk mx (msg mid) j)) = (\<Sum>j\<in>S. length (chunk mx (msg mid) j)) + length ?c"
    using S(2) new by simp
  then have "(\<Sum>j\<in>S. length (chunk mx (msg mid) j)) + length ?c \<le> length (msg mid)"
    using chunk_sizes_le[of mx "insert i S" "msg mid"] i' S by simp
  then have room: "\<not> fa_current_buffer_size ?a + length ?c > fa_max_buffer_size ?a"
    using pc unfolding progress_def by linarith
  define buf where "buf = (case hm_get (fa_buffers ?a) mid of Some b \<Rightarrow> b | None \<Rightarrow> FragmentBuffer_new now (of_nat ?n))"
  have bh: "buffer_holds mx (msg mid) S buf" "fb_created_at buf = t0"
    using pc holds_new[OF i'(3), of now] t
    by (auto simp: progress_def buf_def FragmentBuffer_new_def split: if_splits)
  obtain complete buf' where ins: "FragmentBuffer_insert (of_nat i) ?c buf = (complete, buf')" by fastforce
  note hi = holds_insert[OF bh(1) i'(1) ins]
  have "(case hm_get (fa_buffers ?a) mid of Some b \<Rightarrow> fb_fragment_count b \<noteq> of_nat ?n | None \<Rightarrow> False) = False"
    using pc by (auto simp: progress_def buffer_holds_def Let_def split: if_splits)
  then have "(r, a') = store_fragment now \<lparr>fh_message_id = mid, fh_fragment_index = of_nat i,
       fh_fragment_count = of_nat ?n\<rparr> ?c ?a"
    using pr room by (simp add: process_fragment_def Let_def frag_parse[OF i] cong: option.case_cong del: cleanup_frame)
  then have ra: "(r, a') = (if complete
         then (assemble buf',
               ?a\<lparr>fa_buffers := hm_remove mid (fa_buffers ?a),
                 fa_current_buffer_size := fa_current_buffer_size ?a + length ?c - fb_total_size buf'\<rparr>)
         else (None,
               ?a\<lparr>fa_buffers := hm_insert mid buf' (fa_buffers ?a),
                 fa_current_buffer_size := fa_current_buffer_size ?a + length ?c\<rparr>))"
    using ins by (simp add: store_fragment_def Let_def buf_def cong: option.case_cong del: cleanup_frame)
  show ?thesis
  proof (cases complete)
    case True
    then have full: "insert i S = {..<?n}" using hi(2) by simp
    then show ?thesis using hi(1) holds_assemble[of mx "msg mid" buf'] i'(2) ra True by simp
  next
    case False
    then have "insert i S \<noteq> {..<?n}" using hi(2) by simp
    moreover have "progress mx msg mid t0 c (insert i S) a'"
      using pc ra False hi(1,3) bh(2) i'(1) sum
      by (auto simp: progress_def hm_ok_insert hm_get_insert simp del: cleanup_frame(4))
    ultimately show ?thesis using ra False by simp
  qed
qed

lemma deliveries_complete:
  assumes "progress mx msg mid t0 c S a" and "map arrival_id xs = replicate (length xs) mid"
    and "\<forall>x\<in>set xs. arrival_ok mx msg x"
    and "distinct (map arrival_index xs)"
    and "set (map arrival_index xs) = {..<chunk_count mx (msg mid)} - S"
    and "S \<noteq> {..<chunk_count mx (msg mid)}"
    and "\<forall>x\<in>set xs. duration_since (arrival_time x) t0 < fa_timeout a"
    and "S = {} \<longrightarrow> arrival_time (hd xs) = t0"
  shows "deliveries mx msg xs a = [(mid, msg mid)]"
  using assms
proof (induction xs arbitrary: a S)
  case Nil
  then show ?case by (auto simp: progress_def)
next
  case (Cons x xs)
  obtain it now m i where x: "x = Arrival it now m i" by (cases x)
  have m: "m = mid" using Cons.prems(2) x by simp
  have i: "is_frag mx msg mid i" and new: "i \<notin> S" using Cons.prems(3,5) x m by auto
  obtain r a' where pr: "process_fragment it now (frag mx msg mid i) a = (r, a')" by fastforce
  have t: "if S = {} then now = t0 else duration_since now t0 < fa_timeout a"
    using Cons.prems(7,8) x by auto
  note st = progress_step[OF Cons.prems(1) i new t pr]
  have rest: "set (map arrival_index xs) = {..<chunk_count mx (msg mid)} - insert i S"
    using Cons.prems(4,5) x by auto
  show ?case
  proof (cases "insert i S = {..<chunk_count mx (msg mid)}")
    case True
    with rest have "xs = []" by simp
    with st True x m pr show ?thesis by simp
  next
    case False
    have st': "progress mx msg mid t0 c (insert i S) a'" "fa_timeout a' = fa_timeout a" "r = None"
      using st False by simp_all
    have "deliveries mx msg xs a' = [(mid, msg mid)]"
    proof (rule Cons.IH[OF st'(1) _ _ _ rest False])
      show "map arrival_id xs = replicate (length xs) mid" using Cons.prems(2) by simp
      show "\<forall>x\<in>set xs. arrival_ok mx msg x" using Cons.prems(3) by simp
      show "distinct (map arrival_index xs)" using Cons.prems(4) by simp
      show "\<forall>x\<in>set xs. duration_since (arrival_time x) t0 < fa_timeout a'"
        using Cons.prems(7) st'(2) by simp
    qed simp
    with st False x m pr show ?thesis by simp
  qed
qed

section \<open>Properties\<close>

text \<open>C6: whatever fragments arrive, lost, duplicated, reordered, interleaved with those of other
  messages, expired or evicted, a reassembled message is the message that was fragmented under
  its id.\<close>

theorem reassembly_sound:
  assumes "\<forall>x\<in>set xs. arrival_ok mx msg x"
    and "(mid, d) \<in> set (deliveries mx msg xs (FragmentAssembler_new timeout max_buffer_size))"
  shows "d = msg mid"
  using deliveries_sound[OF _ assembler_ok_new assms(2)] assms(1) by blast

definition example_msg :: "u32 \<Rightarrow> bytes" where
  "example_msg mid = (if mid = 1 then [10, 11, 12] else [20, 21, 22, 23])"

definition example_arrivals :: "arrival list" where
  "example_arrivals = [Arrival id 0 1 1, Arrival id 5 2 0, Arrival id 7 1 1, Arrival id 9 1 0]"

lemma example_deliveries:
  "deliveries 2 example_msg example_arrivals (FragmentAssembler_new 100 50) = [(1, [10, 11, 12])]"
  by code_simp

theorem reassembly_sound_witness:
  "(1, [10, 11, 12]) \<in> set (deliveries 2 example_msg example_arrivals (FragmentAssembler_new 100 50)) \<and>
   [10, 11, 12] = example_msg 1"
proof
  show m: "(1, [10, 11, 12]) \<in> set (deliveries 2 example_msg example_arrivals (FragmentAssembler_new 100 50))"
    by (simp add: example_deliveries)
  show "[10, 11, 12] = example_msg 1"
    by (rule reassembly_sound[OF _ m])
      (simp add: example_arrivals_def is_iter_order_def is_frag_def chunk_count_def div_ceil_def example_msg_def)
qed

text \<open>C22: the fragments of a nonempty message that fits the room left, and no others, arrive each once,
  in any order, within the timeout of the first: the last one, and no other, delivers the message.\<close>

theorem reassembly_complete:
  assumes "hm_ok (fa_buffers a)" and "hm_get (fa_buffers a) mid = None"
    and "fa_current_buffer_size a + length (msg mid) \<le> fa_max_buffer_size a"
    and "msg mid \<noteq> []" and "\<forall>x\<in>set xs. arrival_ok mx msg x \<and> arrival_id x = mid"
    and "distinct (map arrival_index xs)"
    and "set (map arrival_index xs) = {..<chunk_count mx (msg mid)}"
    and "\<forall>x\<in>set xs. duration_since (arrival_time x) (arrival_time (hd xs)) < fa_timeout a"
  shows "deliveries mx msg xs a = [(mid, msg mid)]"
proof -
  have "chunk_count mx (msg mid) \<noteq> 0"
  proof
    assume *: "chunk_count mx (msg mid) = 0"
    then have "length (msg mid) div mx = 0" "length (msg mid) mod mx = 0"
      by (auto simp: chunk_count_def div_ceil_def split: if_splits)
    then have "length (msg mid) = 0" by (metis div_mult_mod_eq mult_zero_left add_0)
    with assms(4) show False by simp
  qed
  moreover have "map arrival_id xs = replicate (length xs) mid"
    using assms(5) by (intro nth_equalityI) auto
  moreover have "progress mx msg mid (arrival_time (hd xs)) (fa_current_buffer_size a) {} a"
    using assms(1-3) by (simp add: progress_def)
  ultimately show ?thesis
    using assms(5-8) by (intro deliveries_complete[where S = "{}"]) auto
qed

theorem reassembly_complete_witness:
  "deliveries 2 example_msg [Arrival id 3 2 1, Arrival id 8 2 0] (FragmentAssembler_new 100 50) = [(2, [20, 21, 22, 23])]"
proof -
  have "deliveries 2 example_msg [Arrival id 3 2 1, Arrival id 8 2 0] (FragmentAssembler_new 100 50) = [(2, example_msg 2)]"
    by (rule reassembly_complete)
      (auto simp: FragmentAssembler_new_def example_msg_def is_iter_order_def is_frag_def chunk_count_def
        div_ceil_def duration_since_def)
  then show ?thesis by (simp add: example_msg_def)
qed

text \<open>Fragmenting fails exactly when more than 255 fragments would be needed; otherwise the
  fragments carry consecutive pieces of the message, none longer than the payload limit.\<close>

theorem fragment_message_spec:
  assumes "data \<noteq> []" and "mx > 0"
  shows "case fragment_message mid data mx of
      Inl e \<Rightarrow> length data > 255 * mx
    | Inr fs \<Rightarrow> length data \<le> 255 * mx \<and> concat (map (drop FRAGMENT_HEADER_SIZE) fs) = data \<and>
        list_all (\<lambda>f. length f \<le> FRAGMENT_HEADER_SIZE + mx) fs"
proof (cases "chunk_count mx data > 255")
  case True
  then have "255 * mx < length data" using chunk_count_enough(3)[OF assms(2), of 255 data] by simp
  then show ?thesis
    using assms True by (simp add: fragment_message_def Let_def MAX_FRAGMENT_COUNT_def chunk_count_def)
next
  case False
  then have "chunk_count mx data * mx \<le> 255 * mx" by (intro mult_le_mono1) simp
  with chunk_count_enough(1)[OF assms(2), of data] have le: "length data \<le> 255 * mx" by (rule order.trans)
  let ?fs = "map (make_fragment mid data mx (of_nat (chunk_count mx data))) [0..<chunk_count mx data]"
  have "map (drop FRAGMENT_HEADER_SIZE) ?fs = map (chunk mx data) [0..<chunk_count mx data]"
    using make_fragment_alt[OF assms(2)] by (simp add: FRAGMENT_HEADER_SIZE_def)
  then have "concat (map (drop FRAGMENT_HEADER_SIZE) ?fs) = data" by (simp only: concat_all_chunks[OF assms(2)])
  moreover have "list_all (\<lambda>f. length f \<le> FRAGMENT_HEADER_SIZE + mx) ?fs"
    using make_fragment_alt[OF assms(2)] by (simp add: list_all_iff FRAGMENT_HEADER_SIZE_def chunk_def)
  ultimately show ?thesis
    using assms False le
    by (simp add: fragment_message_def Let_def MAX_FRAGMENT_COUNT_def chunk_count_def)
qed

theorem fragment_message_spec_witness:
  "case fragment_message 7 [1, 2, 3] 2 of Inl e \<Rightarrow> False
   | Inr fs \<Rightarrow> concat (map (drop FRAGMENT_HEADER_SIZE) fs) = [1, 2, 3]"
  using fragment_message_spec[of "[1, 2, 3]" 2 7] by (simp split: sum.splits)

text \<open>A fragment received twice is counted twice and released once. After the two fragments
  of a message, one of them duplicated, the assembler holds nothing and still accounts for the
  duplicate, so the room it has for later messages has shrunk for good.\<close>

theorem fragment_counter_leaks:
  "case snd (arrive 2 example_msg (Arrival id 2 1 1) (snd (arrive 2 example_msg (Arrival id 1 1 0)
     (snd (arrive 2 example_msg (Arrival id 0 1 0) (FragmentAssembler_new 100 50)))))) of
     a \<Rightarrow> fa_buffers a = [] \<and> held a = 0 \<and> fa_current_buffer_size a = 2"
  by code_simp

text \<open>Making room evicts one message only, however much room is needed. Six fragments, each
  within the bound of three bytes, take the assembler to nine.\<close>

theorem fragment_bound_exceeded:
  "case foldl (\<lambda>a (mx, m). snd (arrive mx (\<lambda>_. [1, 2, 3, 4, 5, 6]) (Arrival id (int m) (of_nat m) 0) a))
     (FragmentAssembler_new 100 3) [(1, 1), (1, 2), (1, 3), (3, 4), (3, 5), (3, 6)] of
     a \<Rightarrow> held a = 9 \<and> fa_max_buffer_size a = 3"
  by code_simp

end
