(* ===== verification/Mtu.thy ===== *)
theory Mtu
  imports Rust_Std
begin

text \<open>
  Path MTU discovery (\<open>MtuDiscovery\<close> of \<open>gbnet/src/fragment.rs\<close>): a binary search between a
  minimum and a maximum, driven by probes, their acknowledgements and their timeouts. Unsigned
  subtraction wraps as in a release build.
\<close>

section \<open>State and operations\<close>

datatype mtu_state = Probing | Complete

record mtu_discovery =
  md_min_mtu :: nat
  md_max_mtu :: nat
  md_current_probe :: nat
  md_discovered_mtu :: nat
  md_state :: mtu_state
  md_probe_timeout :: duration
  md_last_probe_time :: "instant option"
  md_attempts :: nat
  md_max_attempts :: nat

definition DEFAULT_PROBE_TIMEOUT_MILLIS :: nat where "DEFAULT_PROBE_TIMEOUT_MILLIS = 500"
definition DEFAULT_MAX_PROBE_ATTEMPTS :: nat where "DEFAULT_MAX_PROBE_ATTEMPTS = 10"
definition MIN_MTU :: nat where "MIN_MTU = 576"
definition MAX_MTU :: nat where "MAX_MTU = 1500"
definition MTU_CONVERGENCE_THRESHOLD :: nat where "MTU_CONVERGENCE_THRESHOLD = 1"

definition MtuDiscovery_new :: "nat \<Rightarrow> nat \<Rightarrow> mtu_discovery" where
  "MtuDiscovery_new min_mtu max_mtu =
     \<lparr>md_min_mtu = min_mtu, md_max_mtu = max_mtu, md_current_probe = (min_mtu + max_mtu) div 2,
      md_discovered_mtu = min_mtu, md_state = Probing,
      md_probe_timeout = from_millis DEFAULT_PROBE_TIMEOUT_MILLIS, md_last_probe_time = None,
      md_attempts = 0, md_max_attempts = DEFAULT_MAX_PROBE_ATTEMPTS\<rparr>"

definition default_discovery :: mtu_discovery where
  "default_discovery = MtuDiscovery_new MIN_MTU MAX_MTU"

definition usize_sub :: "nat \<Rightarrow> nat \<Rightarrow> nat" where
  "usize_sub a b = (if b \<le> a then a - b else 2 ^ 64 - (b - a))"

definition next_probe :: "instant \<Rightarrow> mtu_discovery \<Rightarrow> nat option \<times> mtu_discovery" where
  "next_probe now d =
     (if md_state d = Complete \<or> md_attempts d \<ge> md_max_attempts d
      then (None, d\<lparr>md_state := Complete\<rparr>)
      else if usize_sub (md_max_mtu d) (md_min_mtu d) \<le> MTU_CONVERGENCE_THRESHOLD
      then (None, d\<lparr>md_state := Complete\<rparr>)
      else if (case md_last_probe_time d of
                 Some prev \<Rightarrow> duration_since now prev < md_probe_timeout d | None \<Rightarrow> False)
      then (None, d)
      else
        let probe = (md_min_mtu d + md_max_mtu d) div 2
        in (Some probe, d\<lparr>md_current_probe := probe, md_last_probe_time := Some now,
                          md_attempts := md_attempts d + 1\<rparr>))"

definition on_probe_success :: "nat \<Rightarrow> mtu_discovery \<Rightarrow> mtu_discovery" where
  "on_probe_success sz d =
     (if sz \<ge> md_min_mtu d then d\<lparr>md_discovered_mtu := sz, md_min_mtu := sz\<rparr> else d)"

definition on_probe_timeout :: "mtu_discovery \<Rightarrow> mtu_discovery" where
  "on_probe_timeout d = d\<lparr>md_max_mtu := md_current_probe d\<rparr>"

definition check_probe_timeout :: "instant \<Rightarrow> mtu_discovery \<Rightarrow> mtu_discovery" where
  "check_probe_timeout now d =
     (if md_state d = Complete then d
      else case md_last_probe_time d of
             None \<Rightarrow> d
           | Some prev \<Rightarrow> if duration_since now prev \<ge> md_probe_timeout d then on_probe_timeout d else d)"

section \<open>The search, one answer per probe\<close>

text \<open>
  A path lets through exactly the sizes up to \<open>p\<close>. In a round a probe is sent, and it is
  acknowledged or times out.
\<close>

definition probe_round :: "nat \<Rightarrow> mtu_discovery \<Rightarrow> instant \<Rightarrow> mtu_discovery" where
  "probe_round p d now =
     (case next_probe now d of
        (None, d') \<Rightarrow> d'
      | (Some sz, d') \<Rightarrow> if sz \<le> p then on_probe_success sz d' else on_probe_timeout d')"

definition search_inv :: "nat \<Rightarrow> mtu_discovery \<Rightarrow> bool" where
  "search_inv p d \<longleftrightarrow> md_min_mtu d \<le> p \<and> p < md_max_mtu d \<and> md_discovered_mtu d = md_min_mtu d \<and>
     (md_state d = Complete \<longrightarrow> md_max_mtu d = md_min_mtu d + 1)"

lemma probe_round_found:
  assumes "search_inv p d" and "md_max_mtu d = md_min_mtu d + 1"
  shows "search_inv p (probe_round p d now) \<and> md_max_mtu (probe_round p d now) = md_min_mtu (probe_round p d now) + 1"
  using assms
  by (auto simp: probe_round_def next_probe_def usize_sub_def MTU_CONVERGENCE_THRESHOLD_def search_inv_def)

lemma rounds_found:
  "search_inv p d \<Longrightarrow> md_max_mtu d = md_min_mtu d + 1 \<Longrightarrow>
   search_inv p (foldl (probe_round p) d ts) \<and>
   md_max_mtu (foldl (probe_round p) d ts) = md_min_mtu (foldl (probe_round p) d ts) + 1"
proof (induction ts arbitrary: d)
  case (Cons t ts)
  then show ?case using probe_round_found[OF Cons.prems, of t] by simp
qed simp

text \<open>Times at which the previous probe is due.\<close>

fun spaced :: "duration \<Rightarrow> instant option \<Rightarrow> instant list \<Rightarrow> bool" where
  "spaced gap prev [] = True"
| "spaced gap prev (t # ts) \<longleftrightarrow>
     (case prev of None \<Rightarrow> True | Some l \<Rightarrow> gap \<le> duration_since t l) \<and> spaced gap (Some t) ts"

lemma search_rounds:
  assumes "search_inv p d" and "md_state d = Probing" and "md_max_mtu d - md_min_mtu d \<le> 2 ^ length ts"
    and "md_attempts d + length ts \<le> md_max_attempts d"
    and "spaced (md_probe_timeout d) (md_last_probe_time d) ts"
  shows "search_inv p (foldl (probe_round p) d ts) \<and>
    md_max_mtu (foldl (probe_round p) d ts) = md_min_mtu (foldl (probe_round p) d ts) + 1"
  using assms
proof (induction ts arbitrary: d)
  case Nil
  then show ?case by (auto simp: search_inv_def)
next
  case (Cons t ts)
  let ?mid = "(md_min_mtu d + md_max_mtu d) div 2"
  let ?d = "d\<lparr>md_current_probe := ?mid, md_last_probe_time := Some t, md_attempts := md_attempts d + 1\<rparr>"
  have lt: "md_min_mtu d < md_max_mtu d" using Cons.prems(1) by (simp add: search_inv_def)
  show ?case
  proof (cases "md_max_mtu d = md_min_mtu d + 1")
    case True
    then show ?thesis using rounds_found[OF Cons.prems(1)] by blast
  next
    case False
    with lt Cons.prems have np: "next_probe t d = (Some ?mid, ?d)"
      by (auto simp: next_probe_def usize_sub_def MTU_CONVERGENCE_THRESHOLD_def Let_def split: option.splits)
    define d' where "d' = (if ?mid \<le> p then on_probe_success ?mid ?d else on_probe_timeout ?d)"
    have round: "probe_round p d t = d'" by (simp add: probe_round_def np d'_def)
    have mid: "md_min_mtu d < ?mid" "?mid < md_max_mtu d" using lt False by auto
    have half: "md_max_mtu d - ?mid \<le> 2 ^ length ts" "?mid - md_min_mtu d \<le> 2 ^ length ts"
      using Cons.prems(3) by auto
    have "search_inv p (foldl (probe_round p) d' ts) \<and>
      md_max_mtu (foldl (probe_round p) d' ts) = md_min_mtu (foldl (probe_round p) d' ts) + 1"
    proof (rule Cons.IH)
      show "search_inv p d'" using Cons.prems(1,2) mid
        by (auto simp: d'_def search_inv_def on_probe_success_def on_probe_timeout_def)
      show "md_max_mtu d' - md_min_mtu d' \<le> 2 ^ length ts" using half mid
        by (auto simp: d'_def on_probe_success_def on_probe_timeout_def)
    qed (use Cons.prems in \<open>auto simp: d'_def on_probe_success_def on_probe_timeout_def\<close>)
    then show ?thesis by (simp add: round)
  qed
qed

section \<open>The search as the tick drives it\<close>

text \<open>
  \<open>Connection::update_tick\<close> calls \<open>next_probe\<close> and, at its end, \<open>check_probe_timeout\<close>; the
  acknowledgements arrive between ticks.
\<close>

datatype mtu_event = Tick instant | ProbeAck nat

text \<open>Both clock readings of a tick are taken as the same instant.\<close>

fun mtu_step :: "mtu_event \<Rightarrow> mtu_discovery \<Rightarrow> mtu_discovery" where
  "mtu_step (Tick now) d = check_probe_timeout now (snd (next_probe now d))"
| "mtu_step (ProbeAck sz) d = on_probe_success sz d"

definition mtu_inv :: "nat \<Rightarrow> mtu_discovery \<Rightarrow> bool" where
  "mtu_inv m d \<longleftrightarrow> md_max_mtu d = m \<and> md_discovered_mtu d = md_min_mtu d \<and>
     md_attempts d \<le> md_max_attempts d \<and> md_probe_timeout d > 0"

lemma mtu_step_inv: "mtu_inv m d \<Longrightarrow> mtu_inv m (mtu_step e d)"
  by (cases e) (auto simp: mtu_inv_def next_probe_def check_probe_timeout_def on_probe_success_def Let_def
      split: option.splits)

interpretation mtu_machine: invariant_machine "\<lambda>_. True" mtu_step "mtu_inv m" for m
  by unfold_locales (rule mtu_step_inv)

section \<open>Properties\<close>

text \<open>With an answer for every probe, the default ten attempts find the MTU of the path exactly,
  whatever it is between the bounds.\<close>

theorem mtu_search_finds:
  assumes "MIN_MTU \<le> p" and "p < MAX_MTU" and "length ts = DEFAULT_MAX_PROBE_ATTEMPTS"
    and "spaced (from_millis DEFAULT_PROBE_TIMEOUT_MILLIS) None ts"
  shows "md_discovered_mtu (foldl (probe_round p) default_discovery ts) = p"
proof -
  have "search_inv p (foldl (probe_round p) default_discovery ts) \<and>
    md_max_mtu (foldl (probe_round p) default_discovery ts) =
    md_min_mtu (foldl (probe_round p) default_discovery ts) + 1"
    using assms by (intro search_rounds)
      (simp_all add: default_discovery_def MtuDiscovery_new_def search_inv_def MIN_MTU_def MAX_MTU_def
        DEFAULT_MAX_PROBE_ATTEMPTS_def)
  then show ?thesis by (auto simp: search_inv_def)
qed

theorem mtu_search_finds_witness:
  "md_discovered_mtu (foldl (probe_round 1200) default_discovery
     (map (\<lambda>k. int k * 600000000) [0..<10])) = 1200"
  by (rule mtu_search_finds)
    (simp_all add: MIN_MTU_def MAX_MTU_def DEFAULT_MAX_PROBE_ATTEMPTS_def DEFAULT_PROBE_TIMEOUT_MILLIS_def
      upt_rec from_millis_def duration_since_def)

text \<open>As the connection drives it, no probe ever counts as timed out: a tick first sends the next
  probe, which restarts the timer that it then checks. The upper bound stays where it was, so a
  path below the first probe is never searched.\<close>

theorem mtu_tick_never_shrinks:
  "md_max_mtu (fold mtu_step es (MtuDiscovery_new lo hi)) = hi"
proof -
  have "mtu_inv hi (MtuDiscovery_new lo hi)"
    by (simp add: mtu_inv_def MtuDiscovery_new_def from_millis_def DEFAULT_PROBE_TIMEOUT_MILLIS_def)
  from mtu_machine.run_inv[of es, OF _ this] show ?thesis by (simp add: mtu_inv_def)
qed

end
