(* ===== verification/Floats.thy ===== *)
theory Floats
  imports Complex_Main Prelude Rust_Std
begin

text \<open>
  \<open>f32\<close> and \<open>f64\<close>, executable: a finite value is the rational number it denotes, every operation
  is the exact operation followed by rounding to nearest, ties to even, with gradual underflow
  and overflow to infinity. A format is the precision, the exponent of the least subnormal and
  the exponent of the greatest normal number. The two zeros are one value: the code never tells
  them apart.
\<close>

section \<open>Formats and values\<close>

datatype fl = NaN | Inf bool | Fin rat

text \<open>\<open>Inf True\<close> is positive infinity.\<close>

record float_format =
  ff_prec :: nat
  ff_emin :: int
  ff_emax :: int

definition f64 :: float_format where
  "f64 = \<lparr>ff_prec = 53, ff_emin = - 1074, ff_emax = 1023\<rparr>"

definition f32 :: float_format where
  "f32 = \<lparr>ff_prec = 24, ff_emin = - 149, ff_emax = 127\<rparr>"

definition pow2 :: "int \<Rightarrow> rat" where
  "pow2 k = (if k \<ge> 0 then of_int (2 ^ nat k) else 1 / of_int (2 ^ nat (- k)))"

text \<open>The number of binary digits of an integer, less one.\<close>

function int_log2 :: "int \<Rightarrow> int" where
  "int_log2 n = (if n \<le> 1 then 0 else 1 + int_log2 (n div 2))"
  by auto
termination by (relation "measure nat") auto

declare int_log2.simps [simp del]

text \<open>The binary exponent of a positive number.\<close>

definition ilog2 :: "rat \<Rightarrow> int" where
  "ilog2 q =
     (let (a, b) = quotient_of q;
          k = int_log2 a - int_log2 b
      in if q < pow2 k then k - 1 else k)"

definition round_half_even :: "rat \<Rightarrow> int" where
  "round_half_even x =
     (let f = \<lfloor>x\<rfloor>; d = x - of_int f
      in if d < 1 / 2 then f else if d > 1 / 2 then f + 1 else if even f then f else f + 1)"

definition round_value :: "float_format \<Rightarrow> rat \<Rightarrow> rat" where
  "round_value ff q =
     (if q = 0 then 0
      else
        let e = max (ilog2 \<bar>q\<bar> - int (ff_prec ff) + 1) (ff_emin ff)
        in of_int (round_half_even (q / pow2 e)) * pow2 e)"

definition fl_round :: "float_format \<Rightarrow> rat \<Rightarrow> fl" where
  "fl_round ff q =
     (let r = round_value ff q
      in if r \<ge> pow2 (ff_emax ff + 1) then Inf True
         else if r \<le> - pow2 (ff_emax ff + 1) then Inf False
         else Fin r)"

section \<open>Arithmetic\<close>

fun fl_neg :: "fl \<Rightarrow> fl" where
  "fl_neg NaN = NaN"
| "fl_neg (Inf s) = Inf (\<not> s)"
| "fl_neg (Fin q) = Fin (- q)"

fun fl_abs :: "fl \<Rightarrow> fl" where
  "fl_abs NaN = NaN"
| "fl_abs (Inf s) = Inf True"
| "fl_abs (Fin q) = Fin \<bar>q\<bar>"

fun fl_add :: "float_format \<Rightarrow> fl \<Rightarrow> fl \<Rightarrow> fl" where
  "fl_add ff (Fin a) (Fin b) = fl_round ff (a + b)"
| "fl_add ff (Inf s) (Inf t) = (if s = t then Inf s else NaN)"
| "fl_add ff (Inf s) (Fin b) = Inf s"
| "fl_add ff (Fin a) (Inf t) = Inf t"
| "fl_add ff NaN y = NaN"
| "fl_add ff x NaN = NaN"

definition fl_sub :: "float_format \<Rightarrow> fl \<Rightarrow> fl \<Rightarrow> fl" where
  "fl_sub ff x y = fl_add ff x (fl_neg y)"

fun fl_mul :: "float_format \<Rightarrow> fl \<Rightarrow> fl \<Rightarrow> fl" where
  "fl_mul ff (Fin a) (Fin b) = fl_round ff (a * b)"
| "fl_mul ff (Inf s) (Inf t) = Inf (s = t)"
| "fl_mul ff (Inf s) (Fin b) = (if b = 0 then NaN else Inf (s = (b > 0)))"
| "fl_mul ff (Fin a) (Inf t) = (if a = 0 then NaN else Inf (t = (a > 0)))"
| "fl_mul ff NaN y = NaN"
| "fl_mul ff x NaN = NaN"

text \<open>A zero divisor counts as positive zero.\<close>

fun fl_div :: "float_format \<Rightarrow> fl \<Rightarrow> fl \<Rightarrow> fl" where
  "fl_div ff (Fin a) (Fin b) = (if b = 0 then if a = 0 then NaN else Inf (a > 0) else fl_round ff (a / b))"
| "fl_div ff (Inf s) (Inf t) = NaN"
| "fl_div ff (Inf s) (Fin b) = Inf (s = (b \<ge> 0))"
| "fl_div ff (Fin a) (Inf t) = Fin 0"
| "fl_div ff NaN y = NaN"
| "fl_div ff x NaN = NaN"

section \<open>Comparison\<close>

fun fl_lt :: "fl \<Rightarrow> fl \<Rightarrow> bool" where
  "fl_lt (Fin a) (Fin b) = (a < b)"
| "fl_lt (Inf s) (Inf t) = (\<not> s \<and> t)"
| "fl_lt (Inf s) (Fin b) = (\<not> s)"
| "fl_lt (Fin a) (Inf t) = t"
| "fl_lt NaN y = False"
| "fl_lt x NaN = False"

definition fl_eq :: "fl \<Rightarrow> fl \<Rightarrow> bool" where
  "fl_eq x y \<longleftrightarrow> x \<noteq> NaN \<and> x = y"

definition fl_le :: "fl \<Rightarrow> fl \<Rightarrow> bool" where
  "fl_le x y \<longleftrightarrow> fl_lt x y \<or> fl_eq x y"

definition fl_max :: "fl \<Rightarrow> fl \<Rightarrow> fl" where
  "fl_max x y = (if x = NaN then y else if y = NaN then x else if fl_lt x y then y else x)"

definition fl_min :: "fl \<Rightarrow> fl \<Rightarrow> fl" where
  "fl_min x y = (if x = NaN then y else if y = NaN then x else if fl_lt y x then y else x)"

definition fl_clamp :: "fl \<Rightarrow> fl \<Rightarrow> fl \<Rightarrow> fl" where
  "fl_clamp x lo hi = (if fl_lt x lo then lo else if fl_lt hi x then hi else x)"

definition fl_is_finite :: "fl \<Rightarrow> bool" where
  "fl_is_finite x \<longleftrightarrow> (case x of Fin _ \<Rightarrow> True | _ \<Rightarrow> False)"

section \<open>Conversion\<close>

definition fl_of_nat :: "float_format \<Rightarrow> nat \<Rightarrow> fl" where
  "fl_of_nat ff n = fl_round ff (of_nat n)"

text \<open>\<open>as u64\<close>, \<open>as usize\<close>, \<open>as u32\<close>: truncation towards zero, saturating, \<open>NaN\<close> to 0.\<close>

fun fl_to_nat :: "nat \<Rightarrow> fl \<Rightarrow> nat" where
  "fl_to_nat bits NaN = 0"
| "fl_to_nat bits (Inf s) = (if s then 2 ^ bits - 1 else 0)"
| "fl_to_nat bits (Fin q) = min (nat \<lfloor>q\<rfloor>) (2 ^ bits - 1)"

fun fl_floor :: "fl \<Rightarrow> fl" where
  "fl_floor (Fin q) = Fin (of_int \<lfloor>q\<rfloor>)"
| "fl_floor x = x"

fun fl_cast :: "float_format \<Rightarrow> fl \<Rightarrow> fl" where
  "fl_cast ff (Fin q) = fl_round ff q"
| "fl_cast ff x = x"

text \<open>\<open>Duration::as_secs_f64\<close> and \<open>Duration::from_secs_f64\<close> (\<open>None\<close> is its panic).\<close>

definition as_secs_f64 :: "duration \<Rightarrow> fl" where
  "as_secs_f64 d = fl_add f64 (fl_of_nat f64 (d div 1000000000))
     (fl_div f64 (fl_of_nat f64 (d mod 1000000000)) (Fin 1000000000))"

definition from_secs_f64 :: "fl \<Rightarrow> duration option" where
  "from_secs_f64 x =
     (case x of
        Fin q \<Rightarrow> if q < 0 then None
                 else let ns = nat (round_half_even (q * 1000000000))
                      in if ns div 1000000000 < 2 ^ 64 then Some ns else None
      | _ \<Rightarrow> None)"

section \<open>Facts\<close>

lemma pow2_pos [simp]: "pow2 k > 0"
  by (simp add: pow2_def)

lemma round_half_even_mono: "x \<le> y \<Longrightarrow> round_half_even x \<le> round_half_even y"
proof -
  assume le: "x \<le> y"
  then have fl: "\<lfloor>x\<rfloor> \<le> \<lfloor>y\<rfloor>" by (rule floor_mono)
  have b: "\<lfloor>z\<rfloor> \<le> round_half_even z \<and> round_half_even z \<le> \<lfloor>z\<rfloor> + 1" for z
    by (simp add: round_half_even_def Let_def)
  show ?thesis
  proof (cases "\<lfloor>x\<rfloor> = \<lfloor>y\<rfloor>")
    case True
    with le show ?thesis by (auto simp: round_half_even_def Let_def)
  next
    case False
    with fl b[of x] b[of y] show ?thesis by linarith
  qed
qed

lemma round_half_even_of_int [simp]: "round_half_even (of_int k) = k"
  by (simp add: round_half_even_def)

lemma round_half_even_0 [simp]: "round_half_even 0 = 0"
  using round_half_even_of_int[of 0] by simp

lemma round_value_nonneg: "q \<ge> 0 \<Longrightarrow> round_value ff q \<ge> 0"
proof -
  assume "q \<ge> 0"
  have "0 \<le> round_half_even (q / pow2 e)" for e
    using round_half_even_mono[of 0 "q / pow2 e"] \<open>q \<ge> 0\<close> by (simp add: less_imp_le)
  then show ?thesis by (simp add: round_value_def Let_def less_imp_le)
qed

text \<open>The values a computation on non-negative numbers can produce.\<close>

definition fl_nonneg :: "fl \<Rightarrow> bool" where
  "fl_nonneg x \<longleftrightarrow> (case x of NaN \<Rightarrow> False | Inf s \<Rightarrow> s | Fin q \<Rightarrow> q \<ge> 0)"

lemma fl_nonneg_simps [simp]:
  "\<not> fl_nonneg NaN" "fl_nonneg (Inf s) = s" "fl_nonneg (Fin q) \<longleftrightarrow> q \<ge> 0"
  by (simp_all add: fl_nonneg_def)

lemma fl_round_nonneg: "q \<ge> 0 \<Longrightarrow> fl_nonneg (fl_round ff q)"
proof -
  assume "q \<ge> 0"
  then have r: "round_value ff q \<ge> 0" by (rule round_value_nonneg)
  then have "\<not> round_value ff q \<le> - pow2 (ff_emax ff + 1)"
    using pow2_pos[of "ff_emax ff + 1"] by linarith
  with r show ?thesis by (simp add: fl_round_def Let_def)
qed

lemma fl_nonneg_cases:
  assumes "fl_nonneg x"
  obtains "x = Inf True" | q where "x = Fin q" and "q \<ge> 0"
  using assms by (cases x) auto

lemma fl_add_nonneg: "fl_nonneg x \<Longrightarrow> fl_nonneg y \<Longrightarrow> fl_nonneg (fl_add ff x y)"
  by (auto elim!: fl_nonneg_cases intro!: fl_round_nonneg)

lemma fl_of_nat_nonneg: "fl_nonneg (fl_of_nat ff n)"
  by (simp add: fl_of_nat_def fl_round_nonneg)

lemma fl_clamp_bounds:
  assumes "x \<noteq> NaN" and "lo \<le> hi"
  obtains q where "fl_clamp x (Fin lo) (Fin hi) = Fin q" and "lo \<le> q" and "q \<le> hi"
proof -
  have "\<exists>q. fl_clamp x (Fin lo) (Fin hi) = Fin q \<and> lo \<le> q \<and> q \<le> hi"
    using assms by (cases x) (auto simp: fl_clamp_def)
  then show thesis using that by blast
qed

lemma fl_to_nat_Fin_bounds:
  assumes "of_nat a \<le> q" and "q \<le> of_nat b" and "b < 2 ^ bits"
  shows "a \<le> fl_to_nat bits (Fin q)" and "fl_to_nat bits (Fin q) \<le> b"
proof -
  have "int a \<le> \<lfloor>q\<rfloor>" using assms(1) by (simp add: le_floor_iff)
  moreover have "\<lfloor>q\<rfloor> \<le> int b" using assms(2) floor_mono[of q "of_nat b"] by simp
  ultimately show "a \<le> fl_to_nat bits (Fin q)" and "fl_to_nat bits (Fin q) \<le> b"
    using assms(3) by auto
qed

section \<open>Magnitude of a rounded value\<close>

lemma pow2_power_int: "pow2 k = 2 powi k"
  by (simp add: pow2_def power_int_def power_inverse inverse_eq_divide power_one_over)

lemma pow2_add: "pow2 (a + b) = pow2 a * pow2 b"
  by (simp add: pow2_power_int power_int_add)

lemma pow2_mono: "a \<le> b \<Longrightarrow> pow2 a \<le> pow2 b"
  by (simp add: pow2_power_int power_int_increasing)

lemma pow2_le_1: "k \<le> 0 \<Longrightarrow> pow2 k \<le> 1"
  using pow2_mono[of k 0] by (simp add: pow2_def)

lemma pow2_nat: "pow2 (int n) = 2 ^ n"
  by (simp add: pow2_def)

lemma int_log2_bounds:
  assumes "n \<ge> 1"
  shows "0 \<le> int_log2 n" "2 ^ nat (int_log2 n) \<le> n" "n < 2 * 2 ^ nat (int_log2 n)"
proof -
  have "0 \<le> int_log2 n \<and> 2 ^ nat (int_log2 n) \<le> n \<and> n < 2 * 2 ^ nat (int_log2 n)"
    using assms
  proof (induction n rule: int_log2.induct)
    case (1 n)
    show ?case
    proof (cases "n \<le> 1")
      case True
      then show ?thesis using 1(2) by (simp add: int_log2.simps)
    next
      case False
      then have IH: "0 \<le> int_log2 (n div 2)" "2 ^ nat (int_log2 (n div 2)) \<le> n div 2"
        "n div 2 < 2 * 2 ^ nat (int_log2 (n div 2))" using 1(1) by auto
      have s: "int_log2 n = 1 + int_log2 (n div 2)" using False by (simp add: int_log2.simps[of n])
      have p: "(2 :: int) ^ nat (int_log2 n) = 2 * 2 ^ nat (int_log2 (n div 2))"
        using IH(1) by (simp add: s nat_add_distrib)
      show ?thesis unfolding p using IH s by linarith
    qed
  qed
  then show "0 \<le> int_log2 n" "2 ^ nat (int_log2 n) \<le> n" "n < 2 * 2 ^ nat (int_log2 n)" by simp_all
qed

lemma pow2_ilog2_le:
  assumes "q > 0"
  shows "pow2 (ilog2 q) \<le> q"
proof -
  obtain a b where ab: "quotient_of q = (a, b)" by fastforce
  have b: "b > 0" using ab by (rule quotient_of_denom_pos)
  have q: "q = of_int a / of_int b" using ab by (rule quotient_of_div)
  have a: "a > 0" using assms b by (simp add: q zero_less_divide_iff)
  define la lb where "la = int_log2 a" and "lb = int_log2 b"
  have la: "0 \<le> la" "2 ^ nat la \<le> a" and lb: "0 \<le> lb" "b < 2 * 2 ^ nat lb"
    using int_log2_bounds[of a] int_log2_bounds[of b] a b by (simp_all add: la_def lb_def)
  have il: "ilog2 q = (if q < pow2 (la - lb) then la - lb - 1 else la - lb)"
    by (simp add: ilog2_def ab la_def lb_def)
  have "pow2 (la - lb - 1) * of_int b \<le> pow2 (la - lb - 1) * pow2 (lb + 1)"
  proof (rule mult_left_mono)
    have "(of_int b :: rat) \<le> of_int (2 * 2 ^ nat lb)" using lb(2) by (simp only: of_int_le_iff)
    also have "\<dots> = pow2 (lb + 1)" using lb(1) by (simp add: pow2_def nat_add_distrib)
    finally show "(of_int b :: rat) \<le> pow2 (lb + 1)" .
  qed (simp add: less_imp_le)
  also have "\<dots> = pow2 la" by (simp add: pow2_add[symmetric])
  also have "\<dots> \<le> of_int a" using la by (simp only: pow2_def of_int_le_iff if_True)
  finally have "pow2 (la - lb - 1) \<le> q" using b by (simp add: q pos_le_divide_eq)
  then show ?thesis by (simp add: il)
qed

lemma round_half_even_le: "of_int (round_half_even x) \<le> x + 1 / 2"
proof -
  have "of_int \<lfloor>x\<rfloor> \<le> x" "x < of_int \<lfloor>x\<rfloor> + 1" by linarith+
  then show ?thesis by (simp add: round_half_even_def Let_def) linarith
qed

lemma round_value_close:
  assumes "q \<ge> 0" and "ff_prec ff \<ge> 2" and "ff_emin ff \<le> - 1"
  shows "round_value ff q \<le> q + (q + 1) / 4"
proof (cases "q = 0")
  case False
  then have q: "q > 0" using assms(1) by simp
  define e where "e = max (ilog2 q - int (ff_prec ff) + 1) (ff_emin ff)"
  have "pow2 e \<le> (q + 1) / 2"
  proof (cases "e + 1 \<le> ilog2 q")
    case True
    then have "pow2 (e + 1) \<le> q" using pow2_mono[OF True] pow2_ilog2_le[OF q] by linarith
    then show ?thesis by (simp add: pow2_add pow2_def[of 1])
  next
    case False
    then have "e \<le> - 1" using assms(2,3) by (simp add: e_def max_def split: if_splits)
    then show ?thesis using pow2_mono[of e "- 1"] q by (simp add: pow2_def[of "- 1"])
  qed
  moreover have "of_int (round_half_even (q / pow2 e)) * pow2 e \<le> (q / pow2 e + 1 / 2) * pow2 e"
    by (rule mult_right_mono[OF round_half_even_le]) (simp add: less_imp_le)
  moreover have "(q / pow2 e + 1 / 2) * pow2 e = q + pow2 e / 2"
    using pow2_pos[of e] by (simp add: ring_distribs less_imp_neq[symmetric])
  moreover have "round_value ff q = of_int (round_half_even (q / pow2 e)) * pow2 e"
    using q by (simp add: round_value_def Let_def e_def)
  ultimately show ?thesis using q by linarith
qed (simp add: round_value_def)

lemma round_value_pos:
  assumes "q \<ge> 1" and "ff_prec ff \<ge> 1" and "ff_emin ff \<le> 0"
  shows "round_value ff q > 0"
proof -
  have q: "q > 0" using assms(1) by simp
  define e where "e = max (ilog2 q - int (ff_prec ff) + 1) (ff_emin ff)"
  have "pow2 e \<le> q"
  proof (cases "e \<le> ilog2 q")
    case True
    then show ?thesis using pow2_mono[OF True] pow2_ilog2_le[OF q] by linarith
  next
    case False
    then have "e \<le> 0" using assms(2,3) by (simp add: e_def max_def split: if_splits)
    then show ?thesis using pow2_le_1[of e] assms(1) by linarith
  qed
  then have "1 \<le> q / pow2 e" by (simp add: pos_le_divide_eq)
  then have "1 \<le> round_half_even (q / pow2 e)"
    using round_half_even_mono[of 1 "q / pow2 e"] round_half_even_of_int[of 1] by simp
  then have "0 < of_int (round_half_even (q / pow2 e)) * pow2 e" by (intro mult_pos_pos) simp_all
  then show ?thesis using q by (simp add: round_value_def Let_def e_def)
qed

text \<open>Rounding keeps a value of at least one at least one.\<close>

definition fl_ge1 :: "fl \<Rightarrow> bool" where
  "fl_ge1 x \<longleftrightarrow> (case x of NaN \<Rightarrow> False | Inf s \<Rightarrow> s | Fin q \<Rightarrow> 1 \<le> q)"

lemma round_value_ge1:
  assumes "q \<ge> 1" and "ff_prec ff \<ge> 1" and "ff_emin ff \<le> 0"
  shows "round_value ff q \<ge> 1"
proof -
  have q: "q > 0" using assms(1) by simp
  define e where "e = max (ilog2 q - int (ff_prec ff) + 1) (ff_emin ff)"
  have r: "round_value ff q = of_int (round_half_even (q / pow2 e)) * pow2 e"
    using q by (simp add: round_value_def Let_def e_def)
  show ?thesis
  proof (cases "e \<le> 0")
    case True
    define n where "n = nat (- e)"
    have p: "pow2 e * of_int (2 ^ n) = 1" using True by (cases "e = 0") (simp_all add: pow2_def n_def)
    have "of_int (2 ^ n) = 1 / pow2 e" using p pow2_pos[of e] by (simp add: eq_divide_eq mult.commute less_imp_neq[symmetric])
    also have "\<dots> \<le> q / pow2 e" using assms(1) by (intro divide_right_mono) (simp_all add: less_imp_le)
    finally have "round_half_even (of_int (2 ^ n)) \<le> round_half_even (q / pow2 e)" by (rule round_half_even_mono)
    then have "(2 :: int) ^ n \<le> round_half_even (q / pow2 e)" by (simp only: round_half_even_of_int)
    then have "(of_int (2 ^ n) :: rat) \<le> of_int (round_half_even (q / pow2 e))" by (simp only: of_int_le_iff)
    then have "of_int (2 ^ n) * pow2 e \<le> of_int (round_half_even (q / pow2 e)) * pow2 e"
      by (intro mult_right_mono) (simp_all add: less_imp_le)
    with p r show ?thesis by (simp add: mult.commute)
  next
    case False
    have "0 < of_int (round_half_even (q / pow2 e)) * pow2 e" using round_value_pos[OF assms] r by simp
    then have "0 < (of_int (round_half_even (q / pow2 e)) :: rat)" using pow2_pos[of e] by (simp add: zero_less_mult_iff)
    then have "1 \<le> round_half_even (q / pow2 e)" by simp
    then have "1 * pow2 e \<le> of_int (round_half_even (q / pow2 e)) * pow2 e"
      by (intro mult_right_mono) (simp_all add: less_imp_le)
    moreover have "1 \<le> pow2 e" using pow2_mono[of 0 e] False by (simp add: pow2_def[of 0])
    ultimately show ?thesis using r by linarith
  qed
qed

lemma fl_round_ge1: "q \<ge> 1 \<Longrightarrow> fl_ge1 (fl_round f64 q)"
proof -
  assume "q \<ge> 1"
  then have r: "round_value f64 q \<ge> 1" by (intro round_value_ge1) (simp_all add: f64_def)
  then have "\<not> round_value f64 q \<le> - pow2 1024" using pow2_pos[of 1024] by linarith
  with r show ?thesis by (simp add: fl_round_def Let_def fl_ge1_def f64_def)
qed

lemma fl_add_ge1: "fl_ge1 x \<Longrightarrow> fl_nonneg y \<Longrightarrow> fl_ge1 (fl_add f64 x y)"
  by (cases x; cases y) (auto simp: fl_ge1_def[of "Fin _"] fl_ge1_def[of "Inf _"] fl_ge1_def[of NaN] intro!: fl_round_ge1)

lemma fl_round_0 [simp]: "fl_round ff 0 = Fin 0"
proof -
  have "\<not> pow2 (ff_emax ff + 1) \<le> 0" "\<not> 0 \<le> - pow2 (ff_emax ff + 1)"
    using pow2_pos[of "ff_emax ff + 1"] by linarith+
  then show ?thesis by (simp add: fl_round_def round_value_def)
qed

lemma fl_zero_ratio:
  assumes "n > 0" and "ff_prec ff \<ge> 1" and "ff_emin ff \<le> 0"
  shows "fl_div ff (fl_of_nat ff 0) (fl_of_nat ff n) = Fin 0"
proof -
  have "round_value ff (of_nat n) > 0" using assms by (intro round_value_pos) simp_all
  then have "fl_of_nat ff n \<noteq> Fin 0" "fl_of_nat ff n \<noteq> NaN" by (auto simp: fl_of_nat_def fl_round_def Let_def)
  then show ?thesis by (cases "fl_of_nat ff n") (auto simp: fl_of_nat_def[of ff 0])
qed

text \<open>A double of moderate size stays finite under rounding.\<close>

lemma f64_round_finite:
  assumes "0 \<le> q" and "q \<le> 2 ^ 200"
  obtains r where "fl_round f64 q = Fin r" and "0 \<le> r" and "r \<le> q + (q + 1) / 4"
proof -
  have r: "round_value f64 q \<le> q + (q + 1) / 4" "0 \<le> round_value f64 q"
    using round_value_close[of q f64] round_value_nonneg[of q f64] assms(1) by (simp_all add: f64_def)
  have "(2 :: rat) * 2 ^ 200 + 1 < 2 ^ 1024" by simp
  moreover have "round_value f64 q \<le> 2 * 2 ^ 200 + 1" using r(1) assms by (simp add: field_simps)
  ultimately have "round_value f64 q < pow2 1024" by (simp add: pow2_def)
  then have "fl_round f64 q = Fin (round_value f64 q)"
    using r(2) pow2_pos[of 1024] by (auto simp: fl_round_def f64_def)
  with that r show ?thesis by blast
qed

lemma f64_round_below:
  assumes "0 \<le> q" and "q \<le> b" and "b \<le> 2 ^ 200"
  obtains r where "fl_round f64 q = Fin r" and "0 \<le> r" and "r \<le> b + (b + 1) / 4"
proof -
  obtain r where "fl_round f64 q = Fin r" "0 \<le> r" "r \<le> q + (q + 1) / 4"
    using assms order.trans[OF assms(2,3)] by (elim f64_round_finite[of q, rotated 2]) simp_all
  with assms(2) show ?thesis by (intro that[of r]) (simp_all add: field_simps)
qed

lemma as_secs_f64_below:
  assumes "d < B * 1000000000" and "B \<le> 2 ^ 64"
  obtains r where "as_secs_f64 d = Fin r" and "0 \<le> r" and "r \<le> 2 * of_nat B + 6"
proof -
  have "d div 1000000000 < B" using assms(1) by (simp add: div_less_iff_less_mult)
  then have s: "rat_of_nat (d div 1000000000) \<le> of_nat B" by simp
  have B: "rat_of_nat B \<le> 2 ^ 64" using assms(2) by (metis of_nat_le_iff of_nat_numeral of_nat_power)
  have n: "rat_of_nat (d mod 1000000000) \<le> 1000000000"
    by (metis less_imp_le mod_less_divisor of_nat_le_iff of_nat_numeral zero_less_numeral)
  obtain a where a: "fl_of_nat f64 (d div 1000000000) = Fin a" "0 \<le> a" "a \<le> of_nat B + (of_nat B + 1) / 4"
    unfolding fl_of_nat_def by (rule f64_round_below[OF _ s]) (use B in simp_all)
  obtain b where b: "fl_of_nat f64 (d mod 1000000000) = Fin b" "0 \<le> b" "b \<le> 1000000000 + (1000000000 + 1) / 4"
    unfolding fl_of_nat_def by (rule f64_round_below[OF _ n]) simp_all
  obtain c where c: "fl_round f64 (b / 1000000000) = Fin c" "0 \<le> c" "c \<le> 2 + (2 + 1) / 4"
    by (rule f64_round_below[of "b / 1000000000" 2]) (use b in \<open>simp_all add: divide_le_eq\<close>)
  have ac: "a + c \<le> of_nat B * 5 / 4 + 3" using a(3) c(3) by (simp add: field_simps)
  obtain r where "fl_round f64 (a + c) = Fin r" "0 \<le> r" "r \<le> (of_nat B * 5 / 4 + 3) + ((of_nat B * 5 / 4 + 3) + 1) / 4"
    by (rule f64_round_below[OF _ ac]) (use a c B in simp_all)
  then show ?thesis using that[of r] a(1) b(1) c(1) by (simp add: as_secs_f64_def field_simps)
qed

lemma as_secs_f64_finite:
  assumes "d < 2 ^ 64 * 1000000000"
  obtains r where "as_secs_f64 d = Fin r" and "0 \<le> r" and "r \<le> 2 ^ 70"
proof -
  from assms obtain r where "as_secs_f64 d = Fin r" "0 \<le> r" "r \<le> 2 * of_nat (2 ^ 64) + 6"
    by (rule as_secs_f64_below) simp
  with that[of r] show ?thesis by simp
qed

end
