(* ===== verification/Config.thy ===== *)
theory Config
  imports Floats
begin

text \<open>
  Configuration (\<open>gbnet/src/config.rs\<close>): the delivery modes, the configuration of a channel and of
  the network with its defaults, the builder methods and the validation.
  Sizes, counts and retries are \<open>nat\<close>, durations nanoseconds, \<open>f32\<close> values are those of
  \<open>Floats\<close>.
\<close>

section \<open>Constants\<close>

definition DEFAULT_PROTOCOL_ID :: u32 where "DEFAULT_PROTOCOL_ID = 0x12345678"
definition DEFAULT_MAX_CLIENTS :: nat where "DEFAULT_MAX_CLIENTS = 64"
definition DEFAULT_CONNECTION_TIMEOUT_SECS :: nat where "DEFAULT_CONNECTION_TIMEOUT_SECS = 10"
definition DEFAULT_KEEPALIVE_INTERVAL_SECS :: nat where "DEFAULT_KEEPALIVE_INTERVAL_SECS = 1"
definition DEFAULT_CONNECTION_REQUEST_TIMEOUT_SECS :: nat where "DEFAULT_CONNECTION_REQUEST_TIMEOUT_SECS = 5"
definition DEFAULT_CONNECTION_REQUEST_MAX_RETRIES :: nat where "DEFAULT_CONNECTION_REQUEST_MAX_RETRIES = 5"
definition DEFAULT_MTU :: nat where "DEFAULT_MTU = 1200"
definition DEFAULT_FRAGMENT_THRESHOLD :: nat where "DEFAULT_FRAGMENT_THRESHOLD = 1024"
definition DEFAULT_FRAGMENT_TIMEOUT_SECS :: nat where "DEFAULT_FRAGMENT_TIMEOUT_SECS = 5"
definition DEFAULT_MAX_FRAGMENTS :: nat where "DEFAULT_MAX_FRAGMENTS = 256"
definition DEFAULT_MAX_REASSEMBLY_BUFFER_SIZE :: nat where "DEFAULT_MAX_REASSEMBLY_BUFFER_SIZE = 1024 * 1024"
definition DEFAULT_PACKET_BUFFER_SIZE :: nat where "DEFAULT_PACKET_BUFFER_SIZE = 256"
definition DEFAULT_ACK_BUFFER_SIZE :: nat where "DEFAULT_ACK_BUFFER_SIZE = 256"
definition DEFAULT_MAX_SEQUENCE_DISTANCE :: u16 where "DEFAULT_MAX_SEQUENCE_DISTANCE = 32768"
definition DEFAULT_RELIABLE_RETRY_TIME_MILLIS :: nat where "DEFAULT_RELIABLE_RETRY_TIME_MILLIS = 100"
definition DEFAULT_MAX_RELIABLE_RETRIES :: nat where "DEFAULT_MAX_RELIABLE_RETRIES = 10"
definition DEFAULT_MAX_CHANNELS :: nat where "DEFAULT_MAX_CHANNELS = 8"
definition DEFAULT_SEND_RATE_HZ :: fl where "DEFAULT_SEND_RATE_HZ = Fin 60"
definition DEFAULT_MAX_PACKET_RATE_HZ :: fl where "DEFAULT_MAX_PACKET_RATE_HZ = Fin 120"
definition DEFAULT_CONGESTION_THRESHOLD :: fl where "DEFAULT_CONGESTION_THRESHOLD = fl_round f32 (1 / 10)"
definition DEFAULT_CONGESTION_GOOD_RTT_THRESHOLD_MS :: fl where
  "DEFAULT_CONGESTION_GOOD_RTT_THRESHOLD_MS = Fin 250"
definition DEFAULT_CONGESTION_BAD_LOSS_THRESHOLD :: fl where
  "DEFAULT_CONGESTION_BAD_LOSS_THRESHOLD = fl_round f32 (1 / 10)"
definition DEFAULT_CONGESTION_RECOVERY_TIME_SECS :: nat where "DEFAULT_CONGESTION_RECOVERY_TIME_SECS = 10"
definition DEFAULT_DISCONNECT_RETRIES :: nat where "DEFAULT_DISCONNECT_RETRIES = 3"
definition DEFAULT_DISCONNECT_RETRY_TIMEOUT_MILLIS :: nat where "DEFAULT_DISCONNECT_RETRY_TIMEOUT_MILLIS = 500"
definition DEFAULT_MAX_BANDWIDTH_UNLIMITED :: nat where "DEFAULT_MAX_BANDWIDTH_UNLIMITED = 0"
definition DEFAULT_MAX_MESSAGE_SIZE :: nat where "DEFAULT_MAX_MESSAGE_SIZE = 1024 * 1024"
definition DEFAULT_MESSAGE_BUFFER_SIZE :: nat where "DEFAULT_MESSAGE_BUFFER_SIZE = 1024"
definition DEFAULT_MAX_PENDING :: nat where "DEFAULT_MAX_PENDING = 256"
definition DEFAULT_ORDERED_BUFFER_TIMEOUT_SECS :: nat where "DEFAULT_ORDERED_BUFFER_TIMEOUT_SECS = 5"
definition DEFAULT_MAX_ORDERED_BUFFER_SIZE :: nat where "DEFAULT_MAX_ORDERED_BUFFER_SIZE = 1024"
definition DEFAULT_RATE_LIMIT_PER_SECOND :: nat where "DEFAULT_RATE_LIMIT_PER_SECOND = 10"
definition DEFAULT_COOKIE_WINDOW_SECS :: u64 where "DEFAULT_COOKIE_WINDOW_SECS = 5"
definition DEFAULT_DELTA_BASELINE_TIMEOUT_SECS :: nat where "DEFAULT_DELTA_BASELINE_TIMEOUT_SECS = 2"
definition DEFAULT_MAX_BASELINE_SNAPSHOTS :: nat where "DEFAULT_MAX_BASELINE_SNAPSHOTS = 32"
definition DEFAULT_MAX_IN_FLIGHT :: nat where "DEFAULT_MAX_IN_FLIGHT = 256"
definition CONFIG_MAX_TRACKED_TOKENS :: nat where "CONFIG_MAX_TRACKED_TOKENS = 4096"
definition DEFAULT_CHANNEL_PRIORITY :: u8 where "DEFAULT_CHANNEL_PRIORITY = 128"
definition MAX_BACKOFF_EXPONENT :: nat where "MAX_BACKOFF_EXPONENT = 5"
definition CONFIG_MIN_MTU :: nat where "CONFIG_MIN_MTU = 576"
definition CONFIG_MAX_MTU :: nat where "CONFIG_MAX_MTU = 65535"
definition MAX_CHANNEL_COUNT :: nat where "MAX_CHANNEL_COUNT = 256"

section \<open>Delivery modes and channels\<close>

datatype delivery_mode =
  Unreliable | UnreliableSequenced | ReliableUnordered | ReliableOrdered | ReliableSequenced

definition is_reliable :: "delivery_mode \<Rightarrow> bool" where
  "is_reliable m \<longleftrightarrow> m = ReliableUnordered \<or> m = ReliableOrdered \<or> m = ReliableSequenced"

definition is_sequenced :: "delivery_mode \<Rightarrow> bool" where
  "is_sequenced m \<longleftrightarrow> m = UnreliableSequenced \<or> m = ReliableSequenced"

definition is_ordered :: "delivery_mode \<Rightarrow> bool" where
  "is_ordered m \<longleftrightarrow> m = ReliableOrdered"

record channel_config =
  cc_delivery_mode :: delivery_mode
  cc_max_message_size :: nat
  cc_message_buffer_size :: nat
  cc_block_on_full :: bool
  cc_ordered_buffer_timeout :: duration
  cc_max_ordered_buffer_size :: nat
  cc_max_reliable_retries :: nat
  cc_priority :: u8

definition ChannelConfig_default :: channel_config where
  "ChannelConfig_default =
     \<lparr>cc_delivery_mode = ReliableOrdered,
      cc_max_message_size = DEFAULT_MAX_MESSAGE_SIZE,
      cc_message_buffer_size = DEFAULT_MESSAGE_BUFFER_SIZE,
      cc_block_on_full = False,
      cc_ordered_buffer_timeout = from_secs DEFAULT_ORDERED_BUFFER_TIMEOUT_SECS,
      cc_max_ordered_buffer_size = DEFAULT_MAX_ORDERED_BUFFER_SIZE,
      cc_max_reliable_retries = DEFAULT_MAX_RELIABLE_RETRIES,
      cc_priority = DEFAULT_CHANNEL_PRIORITY\<rparr>"

definition unreliable :: channel_config where
  "unreliable = ChannelConfig_default\<lparr>cc_delivery_mode := Unreliable\<rparr>"

definition unreliable_sequenced :: channel_config where
  "unreliable_sequenced = ChannelConfig_default\<lparr>cc_delivery_mode := UnreliableSequenced\<rparr>"

definition reliable_unordered :: channel_config where
  "reliable_unordered = ChannelConfig_default\<lparr>cc_delivery_mode := ReliableUnordered\<rparr>"

definition reliable_ordered :: channel_config where
  "reliable_ordered = ChannelConfig_default\<lparr>cc_delivery_mode := ReliableOrdered\<rparr>"

definition reliable_sequenced :: channel_config where
  "reliable_sequenced = ChannelConfig_default\<lparr>cc_delivery_mode := ReliableSequenced\<rparr>"

definition with_priority :: "u8 \<Rightarrow> channel_config \<Rightarrow> channel_config" where
  "with_priority priority c = c\<lparr>cc_priority := priority\<rparr>"

section \<open>The network configuration\<close>

record simulation_config =
  sc_packet_loss :: fl
  sc_latency_ms :: nat
  sc_jitter_ms :: nat
  sc_duplicate_chance :: fl
  sc_out_of_order_chance :: fl
  sc_bandwidth_limit_bytes_per_sec :: nat

definition SimulationConfig_default :: simulation_config where
  "SimulationConfig_default =
     \<lparr>sc_packet_loss = Fin 0, sc_latency_ms = 0, sc_jitter_ms = 0, sc_duplicate_chance = Fin 0,
      sc_out_of_order_chance = Fin 0, sc_bandwidth_limit_bytes_per_sec = 0\<rparr>"

datatype config_error =
    FragmentThresholdExceedsMtu | InvalidChannelCount | InvalidPacketBufferSize | InvalidMtu
  | TimeoutNotGreaterThanKeepalive | InvalidMaxClients | ChannelConfigsExceedMaxChannels
  | InvalidSendRate | InvalidMaxPacketRate | InvalidMaxInFlight | InvalidFragmentThreshold
  | SendRateExceedsMaxPacketRate | InvalidCongestionThreshold

record network_config =
  nc_protocol_id :: u32
  nc_max_clients :: nat
  nc_connection_timeout :: duration
  nc_keepalive_interval :: duration
  nc_connection_request_timeout :: duration
  nc_connection_request_max_retries :: nat
  nc_mtu :: nat
  nc_fragment_threshold :: nat
  nc_fragment_timeout :: duration
  nc_max_fragments :: nat
  nc_max_reassembly_buffer_size :: nat
  nc_packet_buffer_size :: nat
  nc_ack_buffer_size :: nat
  nc_max_sequence_distance :: u16
  nc_reliable_retry_time :: duration
  nc_max_reliable_retries :: nat
  nc_max_in_flight :: nat
  nc_max_channels :: nat
  nc_default_channel_config :: channel_config
  nc_channel_configs :: "channel_config list"
  nc_send_rate :: fl
  nc_max_packet_rate :: fl
  nc_congestion_threshold :: fl
  nc_encryption :: bool
  nc_encryption_key :: "bytes option"
  nc_max_tracked_tokens :: nat
  nc_congestion_good_rtt_threshold :: fl
  nc_congestion_bad_loss_threshold :: fl
  nc_congestion_recovery_time :: duration
  nc_simulation :: "simulation_config option"
  nc_disconnect_retries :: nat
  nc_disconnect_retry_timeout :: duration
  nc_max_bandwidth_bytes_per_sec :: nat
  nc_max_pending :: nat
  nc_rate_limit_per_second :: nat
  nc_enable_stateless_cookie :: bool
  nc_use_cwnd_congestion :: bool
  nc_delta_baseline_timeout :: duration
  nc_max_baseline_snapshots :: nat
  nc_enable_connection_migration :: bool

definition is_valid_positive_f32 :: "fl \<Rightarrow> bool" where
  "is_valid_positive_f32 v \<longleftrightarrow> fl_lt (Fin 0) v \<and> v \<noteq> NaN"

definition is_finite_f32 :: "fl \<Rightarrow> bool" where
  "is_finite_f32 v = fl_is_finite v"

definition NetworkConfig_validate :: "network_config \<Rightarrow> config_error + unit" where
  "NetworkConfig_validate c =
     (if nc_fragment_threshold c > nc_mtu c then Inl FragmentThresholdExceedsMtu
      else if nc_max_channels c = 0 \<or> nc_max_channels c > MAX_CHANNEL_COUNT then Inl InvalidChannelCount
      else if nc_packet_buffer_size c = 0 then Inl InvalidPacketBufferSize
      else if nc_mtu c < CONFIG_MIN_MTU \<or> nc_mtu c > CONFIG_MAX_MTU then Inl InvalidMtu
      else if nc_connection_timeout c \<le> nc_keepalive_interval c then Inl TimeoutNotGreaterThanKeepalive
      else if nc_max_clients c = 0 then Inl InvalidMaxClients
      else if length (nc_channel_configs c) > nc_max_channels c then Inl ChannelConfigsExceedMaxChannels
      else if \<not> is_valid_positive_f32 (nc_send_rate c) then Inl InvalidSendRate
      else if \<not> is_valid_positive_f32 (nc_max_packet_rate c) then Inl InvalidMaxPacketRate
      else if nc_max_in_flight c = 0 then Inl InvalidMaxInFlight
      else if nc_fragment_threshold c = 0 then Inl InvalidFragmentThreshold
      else if fl_lt (nc_max_packet_rate c) (nc_send_rate c) then Inl SendRateExceedsMaxPacketRate
      else if \<not> is_finite_f32 (nc_congestion_good_rtt_threshold c)
            \<or> \<not> is_finite_f32 (nc_congestion_bad_loss_threshold c)
            \<or> \<not> is_finite_f32 (nc_congestion_threshold c) then Inl InvalidCongestionThreshold
      else Inr ())"

definition NetworkConfig_default :: network_config where
  "NetworkConfig_default =
     \<lparr>nc_protocol_id = DEFAULT_PROTOCOL_ID,
      nc_max_clients = DEFAULT_MAX_CLIENTS,
      nc_connection_timeout = from_secs DEFAULT_CONNECTION_TIMEOUT_SECS,
      nc_keepalive_interval = from_secs DEFAULT_KEEPALIVE_INTERVAL_SECS,
      nc_connection_request_timeout = from_secs DEFAULT_CONNECTION_REQUEST_TIMEOUT_SECS,
      nc_connection_request_max_retries = DEFAULT_CONNECTION_REQUEST_MAX_RETRIES,
      nc_mtu = DEFAULT_MTU,
      nc_fragment_threshold = DEFAULT_FRAGMENT_THRESHOLD,
      nc_fragment_timeout = from_secs DEFAULT_FRAGMENT_TIMEOUT_SECS,
      nc_max_fragments = DEFAULT_MAX_FRAGMENTS,
      nc_max_reassembly_buffer_size = DEFAULT_MAX_REASSEMBLY_BUFFER_SIZE,
      nc_packet_buffer_size = DEFAULT_PACKET_BUFFER_SIZE,
      nc_ack_buffer_size = DEFAULT_ACK_BUFFER_SIZE,
      nc_max_sequence_distance = DEFAULT_MAX_SEQUENCE_DISTANCE,
      nc_reliable_retry_time = from_millis DEFAULT_RELIABLE_RETRY_TIME_MILLIS,
      nc_max_reliable_retries = DEFAULT_MAX_RELIABLE_RETRIES,
      nc_max_in_flight = DEFAULT_MAX_IN_FLIGHT,
      nc_max_channels = DEFAULT_MAX_CHANNELS,
      nc_default_channel_config = ChannelConfig_default,
      nc_channel_configs = [],
      nc_send_rate = DEFAULT_SEND_RATE_HZ,
      nc_max_packet_rate = DEFAULT_MAX_PACKET_RATE_HZ,
      nc_congestion_threshold = DEFAULT_CONGESTION_THRESHOLD,
      nc_encryption = False,
      nc_encryption_key = None,
      nc_max_tracked_tokens = CONFIG_MAX_TRACKED_TOKENS,
      nc_congestion_good_rtt_threshold = DEFAULT_CONGESTION_GOOD_RTT_THRESHOLD_MS,
      nc_congestion_bad_loss_threshold = DEFAULT_CONGESTION_BAD_LOSS_THRESHOLD,
      nc_congestion_recovery_time = from_secs DEFAULT_CONGESTION_RECOVERY_TIME_SECS,
      nc_simulation = None,
      nc_disconnect_retries = DEFAULT_DISCONNECT_RETRIES,
      nc_disconnect_retry_timeout = from_millis DEFAULT_DISCONNECT_RETRY_TIMEOUT_MILLIS,
      nc_max_bandwidth_bytes_per_sec = DEFAULT_MAX_BANDWIDTH_UNLIMITED,
      nc_max_pending = DEFAULT_MAX_PENDING,
      nc_rate_limit_per_second = DEFAULT_RATE_LIMIT_PER_SECOND,
      nc_enable_stateless_cookie = True,
      nc_use_cwnd_congestion = False,
      nc_delta_baseline_timeout = from_secs DEFAULT_DELTA_BASELINE_TIMEOUT_SECS,
      nc_max_baseline_snapshots = DEFAULT_MAX_BASELINE_SNAPSHOTS,
      nc_enable_connection_migration = False\<rparr>"

section \<open>Builders\<close>

definition with_protocol_id :: "u32 \<Rightarrow> network_config \<Rightarrow> network_config" where
  "with_protocol_id ident c = c\<lparr>nc_protocol_id := ident\<rparr>"

definition with_max_clients :: "nat \<Rightarrow> network_config \<Rightarrow> network_config" where
  "with_max_clients n c = c\<lparr>nc_max_clients := n\<rparr>"

definition with_mtu :: "nat \<Rightarrow> network_config \<Rightarrow> network_config" where
  "with_mtu mtu c = c\<lparr>nc_mtu := mtu\<rparr>"

definition with_connection_timeout :: "duration \<Rightarrow> network_config \<Rightarrow> network_config" where
  "with_connection_timeout timeout c = c\<lparr>nc_connection_timeout := timeout\<rparr>"

definition with_keepalive_interval :: "duration \<Rightarrow> network_config \<Rightarrow> network_config" where
  "with_keepalive_interval interval c = c\<lparr>nc_keepalive_interval := interval\<rparr>"

definition with_max_channels :: "nat \<Rightarrow> network_config \<Rightarrow> network_config" where
  "with_max_channels channels c = c\<lparr>nc_max_channels := channels\<rparr>"

definition with_send_rate :: "fl \<Rightarrow> network_config \<Rightarrow> network_config" where
  "with_send_rate rate c = c\<lparr>nc_send_rate := rate\<rparr>"

definition with_encryption_key :: "bytes \<Rightarrow> network_config \<Rightarrow> network_config" where
  "with_encryption_key key c = c\<lparr>nc_encryption := True, nc_encryption_key := Some key\<rparr>"

definition with_channel_config :: "nat \<Rightarrow> channel_config \<Rightarrow> network_config \<Rightarrow> network_config" where
  "with_channel_config index config c =
     (let cs = nc_channel_configs c;
          cs' = (if index \<ge> length cs
                 then cs @ replicate (index + 1 - length cs) ChannelConfig_default else cs)
      in c\<lparr>nc_channel_configs := cs'[index := config]\<rparr>)"

definition with_rate_limit :: "nat \<Rightarrow> network_config \<Rightarrow> network_config" where
  "with_rate_limit per_second c = c\<lparr>nc_rate_limit_per_second := per_second\<rparr>"

definition with_max_in_flight :: "nat \<Rightarrow> network_config \<Rightarrow> network_config" where
  "with_max_in_flight n c = c\<lparr>nc_max_in_flight := n\<rparr>"

section \<open>Validation\<close>

lemmas config_defaults = NetworkConfig_default_def DEFAULT_MTU_def DEFAULT_FRAGMENT_THRESHOLD_def
  DEFAULT_MAX_CHANNELS_def DEFAULT_PACKET_BUFFER_SIZE_def DEFAULT_CONNECTION_TIMEOUT_SECS_def
  DEFAULT_KEEPALIVE_INTERVAL_SECS_def DEFAULT_MAX_CLIENTS_def DEFAULT_MAX_IN_FLIGHT_def
  DEFAULT_SEND_RATE_HZ_def DEFAULT_MAX_PACKET_RATE_HZ_def DEFAULT_CONGESTION_THRESHOLD_def
  DEFAULT_CONGESTION_GOOD_RTT_THRESHOLD_MS_def DEFAULT_CONGESTION_BAD_LOSS_THRESHOLD_def

lemmas config_limits = MAX_CHANNEL_COUNT_def CONFIG_MIN_MTU_def CONFIG_MAX_MTU_def

lemma tenth_f32: "fl_round f32 (1 / 10) = Fin (13421773 / 134217728)"
  by code_simp

lemma validate_OkD:
  assumes "NetworkConfig_validate c = Inr ()"
  shows "0 < nc_fragment_threshold c" "nc_fragment_threshold c \<le> nc_mtu c"
    "CONFIG_MIN_MTU \<le> nc_mtu c" "nc_mtu c \<le> CONFIG_MAX_MTU"
    "0 < nc_max_channels c" "nc_max_channels c \<le> MAX_CHANNEL_COUNT"
    "length (nc_channel_configs c) \<le> nc_max_channels c"
    "0 < nc_packet_buffer_size c" "0 < nc_max_in_flight c" "0 < nc_max_clients c"
    "nc_keepalive_interval c < nc_connection_timeout c"
  using assms by (simp_all add: NetworkConfig_validate_def split: if_splits)

lemma validate_rates:
  assumes "NetworkConfig_validate c = Inr ()"
  shows "fl_lt (Fin 0) (nc_send_rate c)" "fl_le (nc_send_rate c) (nc_max_packet_rate c)"
proof -
  have a: "is_valid_positive_f32 (nc_send_rate c)" "is_valid_positive_f32 (nc_max_packet_rate c)"
    "\<not> fl_lt (nc_max_packet_rate c) (nc_send_rate c)"
    using assms by (simp_all add: NetworkConfig_validate_def split: if_splits)
  then show "fl_lt (Fin 0) (nc_send_rate c)" by (simp add: is_valid_positive_f32_def)
  from a show "fl_le (nc_send_rate c) (nc_max_packet_rate c)"
    by (cases "nc_send_rate c"; cases "nc_max_packet_rate c")
      (auto simp: is_valid_positive_f32_def fl_le_def fl_eq_def)
qed

lemma default_valid: "NetworkConfig_validate NetworkConfig_default = Inr ()"
  by (simp add: NetworkConfig_validate_def config_defaults config_limits is_valid_positive_f32_def
      is_finite_f32_def fl_is_finite_def tenth_f32 from_secs_def)

text \<open>The configuration built from the defaults by setting channels 0, 1, 2 and so on is valid
  exactly as long as there are no more channel configurations than channels.\<close>

theorem builder_channels_valid:
  "NetworkConfig_validate (fold (\<lambda>(i, cfg). with_channel_config i cfg) (enumerate 0 cfgs) NetworkConfig_default) =
     (if length cfgs \<le> DEFAULT_MAX_CHANNELS then Inr () else Inl ChannelConfigsExceedMaxChannels)"
proof -
  have "fold (\<lambda>(i, cfg). with_channel_config i cfg) (enumerate k cfgs) c =
      c\<lparr>nc_channel_configs := nc_channel_configs c @ cfgs\<rparr>"
    if "length (nc_channel_configs c) = k" for k c
    using that
  proof (induction cfgs arbitrary: k c)
    case Nil
    then show ?case by simp
  next
    case (Cons x xs)
    have w: "with_channel_config k x c = c\<lparr>nc_channel_configs := nc_channel_configs c @ [x]\<rparr>"
      using Cons.prems[symmetric] by (simp add: with_channel_config_def)
    then show ?case using Cons.IH[of "with_channel_config k x c" "Suc k"] Cons.prems
      by simp
  qed
  from this[of NetworkConfig_default 0]
  have f: "fold (\<lambda>(i, cfg). with_channel_config i cfg) (enumerate 0 cfgs) NetworkConfig_default =
      NetworkConfig_default\<lparr>nc_channel_configs := cfgs\<rparr>"
    by (simp add: NetworkConfig_default_def)
  show ?thesis
    unfolding f using default_valid
    by (auto simp: NetworkConfig_validate_def config_defaults config_limits split: if_splits)
qed

end
