(* ===== verification/Channel.thy ===== *)
theory Channel
  imports Config Sequence
begin

text \<open>
  Message channels (\<open>gbnet/src/channel.rs\<close>): the send queue, the messages waiting for an
  acknowledgement and their retransmission, and the five delivery modes of the receiver.
  Counters and sizes are \<open>nat\<close>; sequence numbers are 16-bit words that wrap. \<open>now\<close> is the clock
  reading of a call, \<open>it\<close> the iteration order of the map it walks over.
\<close>

section \<open>Data\<close>

datatype channel_error = BufferFull | MessageTooLarge | InvalidSequence

definition SEQUENCE_BYTES :: nat where
  "SEQUENCE_BYTES = 2"

record channel_message =
  cm_sequence :: u16
  cm_data :: bytes
  cm_send_time :: "instant option"
  cm_acked :: bool
  cm_retry_count :: nat
  cm_reliable :: bool

record channel =
  ch_id :: u8
  ch_config :: channel_config
  ch_send_sequence :: u16
  ch_send_buffer :: "channel_message list"
  ch_pending_ack :: "(u16, channel_message) hash_map"
  ch_receive_sequence :: u16
  ch_last_received_sequence :: u16
  ch_ordered_receive_buffer :: "(u16, bytes \<times> instant) hash_map"
  ch_delivery_queue :: "bytes list"
  ch_messages_sent :: nat
  ch_messages_received :: nat
  ch_bytes_sent :: nat
  ch_bytes_received :: nat
  ch_gap_sequences_skipped :: nat
  ch_messages_dropped :: nat

definition Channel_new :: "u8 \<Rightarrow> channel_config \<Rightarrow> channel" where
  "Channel_new ident config =
     \<lparr>ch_id = ident, ch_config = config, ch_send_sequence = 0, ch_send_buffer = [],
      ch_pending_ack = [], ch_receive_sequence = 0, ch_last_received_sequence = 0,
      ch_ordered_receive_buffer = [], ch_delivery_queue = [], ch_messages_sent = 0,
      ch_messages_received = 0, ch_bytes_sent = 0, ch_bytes_received = 0,
      ch_gap_sequences_skipped = 0, ch_messages_dropped = 0\<rparr>"

section \<open>Sending\<close>

definition send :: "bytes \<Rightarrow> bool \<Rightarrow> channel \<Rightarrow> (channel_error + unit) \<times> channel" where
  "send data reliable c =
     (if length data > cc_max_message_size (ch_config c) then (Inl MessageTooLarge, c)
      else if length (ch_send_buffer c) \<ge> cc_message_buffer_size (ch_config c)
              \<and> cc_block_on_full (ch_config c) then (Inl BufferFull, c)
      else
        let c1 = (if length (ch_send_buffer c) \<ge> cc_message_buffer_size (ch_config c)
                  then c\<lparr>ch_send_buffer := tl (ch_send_buffer c)\<rparr> else c);
            message = \<lparr>cm_sequence = ch_send_sequence c1, cm_data = data, cm_send_time = None,
                       cm_acked = False, cm_retry_count = 0, cm_reliable = reliable\<rparr>
        in (Inr (), c1\<lparr>ch_send_sequence := ch_send_sequence c1 + 1,
                       ch_send_buffer := ch_send_buffer c1 @ [message],
                       ch_messages_sent := ch_messages_sent c1 + 1,
                       ch_bytes_sent := ch_bytes_sent c1 + length data\<rparr>))"

definition wire_data :: "u16 \<Rightarrow> bytes \<Rightarrow> bytes" where
  "wire_data sequence data = be_bytes SEQUENCE_BYTES sequence @ data"

definition get_outgoing_message :: "instant \<Rightarrow> channel \<Rightarrow> (u16 \<times> bytes) option \<times> channel" where
  "get_outgoing_message now c =
     (case ch_send_buffer c of
        [] \<Rightarrow> (None, c)
      | message # rest \<Rightarrow>
          let sequence = cm_sequence message;
              c1 = c\<lparr>ch_send_buffer := rest\<rparr>;
              c2 = (if cm_reliable message
                    then c1\<lparr>ch_pending_ack := hm_insert sequence (message\<lparr>cm_send_time := Some now\<rparr>)
                              (ch_pending_ack c1)\<rparr>
                    else c1)
          in (Some (sequence, wire_data sequence (cm_data message)), c2))"

text \<open>
  One turn of the loop over \<open>pending_ack\<close>: the map (with the retry count and the send time
  updated in place), the messages to send again and the sequence numbers given up.
\<close>

type_synonym retransmission = "(u16, channel_message) hash_map \<times> (u16 \<times> bytes) list \<times> u16 list"

definition backoff_rto :: "duration \<Rightarrow> channel_message \<Rightarrow> duration" where
  "backoff_rto rto msg = rto * 2 ^ min (cm_retry_count msg) MAX_BACKOFF_EXPONENT"

definition retransmit_step :: "nat \<Rightarrow> instant \<Rightarrow> duration \<Rightarrow> u16 \<Rightarrow> retransmission \<Rightarrow> retransmission" where
  "retransmit_step max_retries now rto sequence r =
     (case r of (pending, retransmits, expired) \<Rightarrow>
        case hm_get pending sequence of
          None \<Rightarrow> r
        | Some msg \<Rightarrow>
            (case cm_send_time msg of
               None \<Rightarrow> r
             | Some send_time \<Rightarrow>
                 if duration_since now send_time \<ge> backoff_rto rto msg
                 then if cm_retry_count msg \<ge> max_retries then (pending, retransmits, expired @ [sequence])
                      else (hm_insert sequence (msg\<lparr>cm_retry_count := cm_retry_count msg + 1,
                              cm_send_time := Some now\<rparr>) pending,
                            retransmits @ [(sequence, wire_data sequence (cm_data msg))], expired)
                 else r))"

definition get_retransmit_messages :: "u16 iter_order \<Rightarrow> instant \<Rightarrow> duration \<Rightarrow> channel \<Rightarrow>
    (u16 \<times> bytes) list \<times> channel" where
  "get_retransmit_messages it now rto c =
     (if \<not> is_reliable (cc_delivery_mode (ch_config c)) then ([], c)
      else
        case fold (retransmit_step (cc_max_reliable_retries (ch_config c)) now rto)
               (hm_keys it (ch_pending_ack c)) (ch_pending_ack c, [], []) of
          (pending, retransmits, expired) \<Rightarrow>
            (retransmits, c\<lparr>ch_pending_ack := fold hm_remove expired pending\<rparr>))"

definition acknowledge_message :: "u16 \<Rightarrow> channel \<Rightarrow> channel" where
  "acknowledge_message sequence c = c\<lparr>ch_pending_ack := hm_remove sequence (ch_pending_ack c)\<rparr>"

definition mark_for_fast_retransmit :: "instant \<Rightarrow> u16 \<Rightarrow> channel \<Rightarrow> channel" where
  "mark_for_fast_retransmit now sequence c =
     (case hm_get (ch_pending_ack c) sequence of
        None \<Rightarrow> c
      | Some msg \<Rightarrow> c\<lparr>ch_pending_ack :=
          hm_insert sequence (msg\<lparr>cm_send_time := Some (now - int (from_secs 60))\<rparr>) (ch_pending_ack c)\<rparr>)"

section \<open>Receiving\<close>

definition deliver :: "bytes \<Rightarrow> channel \<Rightarrow> channel" where
  "deliver data c = c\<lparr>ch_delivery_queue := ch_delivery_queue c @ [data],
     ch_messages_received := ch_messages_received c + 1\<rparr>"

lemma hm_len_remove_less: "hm_get m k \<noteq> None \<Longrightarrow> hm_len (hm_remove k m) < hm_len m"
proof -
  assume "hm_get m k \<noteq> None"
  then obtain v where "(k, v) \<in> set m" unfolding hm_get_def by (auto dest: map_of_SomeD)
  then show ?thesis unfolding hm_remove_def AList.delete_eq
    by (rule length_filter_less) simp
qed

text \<open>The loop \<open>while let Some(..) = ordered_receive_buffer.remove(&receive_sequence)\<close>.\<close>

function deliver_contiguous :: "channel \<Rightarrow> channel" where
  "deliver_contiguous c =
     (case hm_get (ch_ordered_receive_buffer c) (ch_receive_sequence c) of
        None \<Rightarrow> c
      | Some (buffered, _) \<Rightarrow>
          deliver_contiguous ((deliver buffered c)\<lparr>
            ch_ordered_receive_buffer := hm_remove (ch_receive_sequence c) (ch_ordered_receive_buffer c),
            ch_receive_sequence := ch_receive_sequence c + 1\<rparr>))"
  by pat_completeness auto

termination
  by (relation "measure (\<lambda>c. hm_len (ch_ordered_receive_buffer c))")
    (auto simp: deliver_def intro!: hm_len_remove_less)

declare deliver_contiguous.simps [simp del]

definition evict_oldest_buffered :: "u16 iter_order \<Rightarrow> channel \<Rightarrow> channel" where
  "evict_oldest_buffered it c =
     (case hm_oldest it snd (ch_ordered_receive_buffer c) of
        None \<Rightarrow> c
      | Some evicted \<Rightarrow>
          let c1 = c\<lparr>ch_ordered_receive_buffer := hm_remove evicted (ch_ordered_receive_buffer c),
                     ch_gap_sequences_skipped := ch_gap_sequences_skipped c + 1,
                     ch_messages_dropped := ch_messages_dropped c + 1\<rparr>
          in if evicted = ch_receive_sequence c1
             then deliver_contiguous (c1\<lparr>ch_receive_sequence := ch_receive_sequence c1 + 1\<rparr>)
             else c1)"

definition receive_sequenced :: "u16 \<Rightarrow> bytes \<Rightarrow> channel \<Rightarrow> channel" where
  "receive_sequenced sequence data c =
     (if sequence_greater_than sequence (ch_last_received_sequence c) \<or> ch_messages_received c = 0
      then deliver data (c\<lparr>ch_last_received_sequence := sequence\<rparr>) else c)"

definition receive_ordered :: "u16 iter_order \<Rightarrow> instant \<Rightarrow> u16 \<Rightarrow> bytes \<Rightarrow> channel \<Rightarrow> channel" where
  "receive_ordered it now sequence data c =
     (if sequence = ch_receive_sequence c
      then deliver_contiguous ((deliver data c)\<lparr>ch_receive_sequence := ch_receive_sequence c + 1\<rparr>)
      else if sequence_greater_than sequence (ch_receive_sequence c)
      then let c1 = (if hm_len (ch_ordered_receive_buffer c) \<ge> cc_max_ordered_buffer_size (ch_config c)
                     then evict_oldest_buffered it c else c)
           in c1\<lparr>ch_ordered_receive_buffer := hm_insert sequence (data, now) (ch_ordered_receive_buffer c1)\<rparr>
      else c)"

definition Channel_on_packet_received :: "u16 iter_order \<Rightarrow> instant \<Rightarrow> bytes \<Rightarrow> channel \<Rightarrow> channel" where
  "Channel_on_packet_received it now wire c0 =
     (if length wire < SEQUENCE_BYTES then deliver wire c0
      else
        let sequence = from_be_bytes [wire ! 0, wire ! 1];
            data = drop SEQUENCE_BYTES wire;
            c = c0\<lparr>ch_bytes_received := ch_bytes_received c0 + length data\<rparr>
        in case cc_delivery_mode (ch_config c) of
             Unreliable \<Rightarrow> deliver data c
           | UnreliableSequenced \<Rightarrow> receive_sequenced sequence data c
           | ReliableUnordered \<Rightarrow> deliver data c
           | ReliableOrdered \<Rightarrow> receive_ordered it now sequence data c
           | ReliableSequenced \<Rightarrow> receive_sequenced sequence data c)"

definition receive :: "channel \<Rightarrow> bytes option \<times> channel" where
  "receive c =
     (case ch_delivery_queue c of
        [] \<Rightarrow> (None, c)
      | data # rest \<Rightarrow> (Some data, c\<lparr>ch_delivery_queue := rest\<rparr>))"

section \<open>The timeout of a gap\<close>

definition find_earliest_buffered :: "u16 iter_order \<Rightarrow> channel \<Rightarrow> u16 option" where
  "find_earliest_buffered it c =
     (case hm_keys it (ch_ordered_receive_buffer c) of
        [] \<Rightarrow> None
      | k # ks \<Rightarrow> Some (foldl (\<lambda>a b. if sequence_greater_than a b then b else a) k ks))"

lemma unat_minus_one_less: "(w :: 'a::len word) \<noteq> 0 \<Longrightarrow> unat (w - 1) < unat w"
  by (simp add: unat_minus_one unat_gt_0)

text \<open>The loop that counts the skipped sequence numbers, which wraps around at most once.\<close>

function count_gap :: "u16 \<Rightarrow> u16 \<Rightarrow> nat \<Rightarrow> nat" where
  "count_gap sequence first_seq skipped =
     (if sequence \<noteq> first_seq then count_gap (sequence + 1) first_seq (skipped + 1) else skipped)"
  by auto

termination
proof (relation "measure (\<lambda>(sequence, first_seq, skipped). unat (first_seq - sequence))", goal_cases)
  case (2 sequence first_seq skipped)
  have "unat ((first_seq - sequence) - 1) < unat (first_seq - sequence)"
    using 2 by (intro unat_minus_one_less) simp
  then show ?case by (simp add: diff_diff_eq)
qed simp

declare count_gap.simps [simp del]

definition flush_ordered_buffer :: "u16 iter_order \<Rightarrow> channel \<Rightarrow> channel" where
  "flush_ordered_buffer it c =
     (case find_earliest_buffered it c of
        None \<Rightarrow> c
      | Some first_seq \<Rightarrow>
          deliver_contiguous (c\<lparr>
            ch_gap_sequences_skipped := count_gap (ch_receive_sequence c) first_seq (ch_gap_sequences_skipped c),
            ch_receive_sequence := first_seq\<rparr>))"

definition Channel_update :: "u16 iter_order \<Rightarrow> instant \<Rightarrow> channel \<Rightarrow> channel" where
  "Channel_update it now c =
     (if cc_delivery_mode (ch_config c) = ReliableOrdered \<and> ch_ordered_receive_buffer c \<noteq> []
      then let timeout = cc_ordered_buffer_timeout (ch_config c);
               has_timed_out = list_ex (\<lambda>(_, _, inserted_at). duration_since now inserted_at > timeout)
                 (ch_ordered_receive_buffer c)
           in if has_timed_out then flush_ordered_buffer it c else c
      else c)"

definition Channel_reset :: "channel \<Rightarrow> channel" where
  "Channel_reset c = c\<lparr>ch_send_sequence := 0, ch_receive_sequence := 0, ch_last_received_sequence := 0,
     ch_send_buffer := [], ch_pending_ack := [], ch_ordered_receive_buffer := [],
     ch_delivery_queue := [], ch_messages_sent := 0, ch_messages_received := 0, ch_bytes_sent := 0,
     ch_bytes_received := 0, ch_gap_sequences_skipped := 0, ch_messages_dropped := 0\<rparr>"


end
