(* ===== verification/Channel_Order.thy ===== *)
theory Channel_Order
  imports Channel
begin

text \<open>
  What the delivery modes promise. Messages are numbered by the natural numbers, \<open>msg k\<close> is the
  \<open>k\<close>-th one sent, and its sequence number on the wire is \<open>k\<close> modulo 65536.

  The ordered mode is an inductive step relation over the channel, the index the receiver stands
  at and the messages handed to the application; its invariant is proved by rule induction. The
  sequenced modes are compared with a reference function on the indices.
\<close>

section \<open>Sequence numbers of indices\<close>

lemma unat_index_diff:
  assumes "n \<le> k" and "k < n + 65536"
  shows "unat (of_nat k - of_nat n :: u16) = k - n"
proof -
  have e: "(of_nat k - of_nat n :: u16) = of_nat (k - n)" using assms(1) by (simp add: of_nat_diff)
  show ?thesis unfolding e unat_of_nat using assms by (simp add: take_bit_nat_eq_self)
qed

lemma of_nat_u16_eq:
  assumes "n \<le> k" and "k < n + 65536"
  shows "(of_nat k :: u16) = of_nat n \<longleftrightarrow> k = n"
  using unat_index_diff[OF assms] assms(1) by auto

lemma index_diff:
  assumes "n \<le> k" and "k < n + 32768"
  shows "sequence_diff (of_nat k) (of_nat n) = int (k - n)"
proof -
  have "(of_nat k :: u16) = of_nat n + of_nat (k - n)"
    using assms(1) by (metis le_add_diff_inverse of_nat_add)
  then show ?thesis using sequence_diff_add[of "k - n" "of_nat n"] assms by simp
qed

lemma index_greater:
  assumes "n < k + 32768" and "k < n + 32768"
  shows "sequence_greater_than (of_nat k) (of_nat n) \<longleftrightarrow> n < k"
proof (cases "n \<le> k")
  case True
  then show ?thesis using index_diff[of n k] assms by (auto simp: sequence_greater_than_iff_diff)
next
  case False
  then have "sequence_diff (of_nat n) (of_nat k) = int (n - k)" using index_diff[of k n] assms by simp
  then show ?thesis
    using False sequence_diff_antisym[of "of_nat n" "of_nat k"]
    by (auto simp: sequence_greater_than_iff_diff)
qed

lemma index_eq:
  assumes "n < k + 32768" and "k < n + 32768"
  shows "(of_nat k :: u16) = of_nat n \<longleftrightarrow> k = n"
  using of_nat_u16_eq[of n k] of_nat_u16_eq[of k n] assms by (cases "n \<le> k") auto

section \<open>The wire format\<close>

lemma wire_parts:
  "length (wire_data s d) = 2 + length d"
  "from_be_bytes [wire_data s d ! 0, wire_data s d ! 1] = s"
  "drop SEQUENCE_BYTES (wire_data s d) = d"
proof -
  obtain x y where xy: "be_bytes 2 s = [x, y]"
    using be_bytes_2 by blast
  have "from_be_bytes (be_bytes 2 s) = s" by simp
  then show "length (wire_data s d) = 2 + length d"
    "from_be_bytes [wire_data s d ! 0, wire_data s d ! 1] = s"
    "drop SEQUENCE_BYTES (wire_data s d) = d"
    unfolding wire_data_def SEQUENCE_BYTES_def xy by simp_all
qed

lemma receive_wire:
  "Channel_on_packet_received it now (wire_data s d) c0 =
     (let c = c0\<lparr>ch_bytes_received := ch_bytes_received c0 + length d\<rparr>
      in case cc_delivery_mode (ch_config c) of
           Unreliable \<Rightarrow> deliver d c
         | UnreliableSequenced \<Rightarrow> receive_sequenced s d c
         | ReliableUnordered \<Rightarrow> deliver d c
         | ReliableOrdered \<Rightarrow> receive_ordered it now s d c
         | ReliableSequenced \<Rightarrow> receive_sequenced s d c)"
  using wire_parts[of s d] by (simp add: Channel_on_packet_received_def SEQUENCE_BYTES_def Let_def)

section \<open>Ordered delivery\<close>

text \<open>
  The receiver stands at index \<open>n\<close>: it has delivered the messages \<open>ks\<close>, all below \<open>n\<close> and in order,
  and buffers messages from \<open>n\<close> on, below \<open>w\<close>.
\<close>

definition buffered_ok :: "(nat \<Rightarrow> bytes) \<Rightarrow> nat \<Rightarrow> nat \<Rightarrow> (u16, bytes \<times> instant) hash_map \<Rightarrow> bool" where
  "buffered_ok msg n w m \<longleftrightarrow> hm_ok m \<and>
     (\<forall>(s, d, t)\<in>set m. \<exists>k. n \<le> k \<and> k < w \<and> s = of_nat k \<and> d = msg k)"

definition delivered_ok :: "(nat \<Rightarrow> bytes) \<Rightarrow> nat \<Rightarrow> nat list \<Rightarrow> bytes list \<Rightarrow> nat \<Rightarrow> bool" where
  "delivered_ok msg n ks out gaps \<longleftrightarrow>
     out = map msg ks \<and> sorted_wrt (<) ks \<and> set ks \<subseteq> {..<n} \<and> n \<le> length ks + gaps"

definition ordered_inv :: "(nat \<Rightarrow> bytes) \<Rightarrow> nat \<Rightarrow> nat list \<Rightarrow> bytes list \<Rightarrow> channel \<Rightarrow> bool" where
  "ordered_inv msg n ks taken c \<longleftrightarrow>
     cc_delivery_mode (ch_config c) = ReliableOrdered \<and>
     ch_receive_sequence c = of_nat n \<and>
     buffered_ok msg n (n + 32768) (ch_ordered_receive_buffer c) \<and>
     hm_get (ch_ordered_receive_buffer c) (of_nat n) = None \<and>
     delivered_ok msg n ks (taken @ ch_delivery_queue c) (ch_gap_sequences_skipped c)"

lemma buffered_entry:
  assumes "buffered_ok msg n w m" and "hm_get m s = Some (d, t)"
  obtains k where "n \<le> k" "k < w" "s = of_nat k" "d = msg k"
proof -
  from assms have "(s, d, t) \<in> set m" by (simp add: buffered_ok_def hm_get_iff)
  with assms(1) that show ?thesis by (fastforce simp: buffered_ok_def)
qed

lemma buffered_mono:
  "buffered_ok msg n w m \<Longrightarrow> w \<le> w' \<Longrightarrow> buffered_ok msg n w' m"
  by (fastforce simp: buffered_ok_def)

lemma buffered_remove:
  "buffered_ok msg n w m \<Longrightarrow> buffered_ok msg n w (hm_remove s m)"
  by (auto simp: buffered_ok_def set_hm_remove hm_ok_remove)

lemma buffered_insert:
  assumes "buffered_ok msg n w m" and "n \<le> k" and "k < w"
  shows "buffered_ok msg n w (hm_insert (of_nat k) (msg k, t) m)"
  using assms by (auto simp: buffered_ok_def set_hm_insert hm_ok_insert)

text \<open>Dropping the entry of the index the receiver stands at lets it move on by one.\<close>

lemma buffered_pop:
  assumes "buffered_ok msg n w m" and "w \<le> n + 65536"
  shows "buffered_ok msg (n + 1) w (hm_remove (of_nat n) m)"
proof -
  have "\<exists>k. n + 1 \<le> k \<and> k < w \<and> s = of_nat k \<and> d = msg k"
    if "(s, d, t) \<in> set m" "s \<noteq> of_nat n" for s d t
  proof -
    from assms(1) that(1) obtain k where "n \<le> k" "k < w" "s = of_nat k" "d = msg k"
      by (fastforce simp: buffered_ok_def)
    then show ?thesis using that(2) by (intro exI[of _ k]) (cases "k = n"; simp)
  qed
  with assms show ?thesis by (auto simp: buffered_ok_def set_hm_remove hm_ok_remove)
qed

lemma delivered_snoc:
  assumes "delivered_ok msg n ks out gaps"
  shows "delivered_ok msg (n + 1) (ks @ [n]) (out @ [msg n]) gaps"
  using assms by (auto simp: delivered_ok_def sorted_wrt_append)

lemma delivered_all:
  assumes "delivered_ok msg n ks out 0"
  shows "ks = [0..<n]"
proof (rule sorted_distinct_set_unique)
  have s: "sorted_wrt (<) ks" "set ks \<subseteq> {..<n}" "n \<le> length ks" using assms by (simp_all add: delivered_ok_def)
  then show "sorted ks" "distinct ks" by (simp_all add: strict_sorted_iff)
  then have "card (set ks) = length ks" by (simp add: distinct_card)
  moreover have "card (set ks) \<le> n" using card_mono[OF _ s(2)] by simp
  ultimately have "card (set ks) = card {..<n}" using s(3) by simp
  from card_subset_eq[OF finite_lessThan s(2) this] have "set ks = {..<n}" .
  then show "set ks = set [0..<n]" by (simp only: set_upt atLeast0LessThan)
qed simp_all

lemma deliver_contiguous_spec:
  assumes "ch_receive_sequence c = of_nat n"
    and "buffered_ok msg n w (ch_ordered_receive_buffer c)" and "w \<le> n + 32768"
    and "delivered_ok msg n ks (taken @ ch_delivery_queue c) (ch_gap_sequences_skipped c)"
  shows "\<exists>m. n \<le> m \<and> m \<le> max n w \<and>
    ch_receive_sequence (deliver_contiguous c) = of_nat m \<and>
    buffered_ok msg m w (ch_ordered_receive_buffer (deliver_contiguous c)) \<and>
    hm_get (ch_ordered_receive_buffer (deliver_contiguous c)) (of_nat m) = None \<and>
    delivered_ok msg m (ks @ [n..<m]) (taken @ ch_delivery_queue (deliver_contiguous c))
      (ch_gap_sequences_skipped (deliver_contiguous c)) \<and>
    ch_config (deliver_contiguous c) = ch_config c \<and>
    hm_dom (ch_ordered_receive_buffer c) \<subseteq> hm_dom (ch_ordered_receive_buffer (deliver_contiguous c)) \<union> of_nat ` {n..<m}"
  using assms
proof (induction c arbitrary: n ks rule: deliver_contiguous.induct)
  case (1 c)
  show ?case
  proof (cases "hm_get (ch_ordered_receive_buffer c) (ch_receive_sequence c)")
    case None
    then have "deliver_contiguous c = c" by (simp add: deliver_contiguous.simps)
    then show ?thesis using None 1(2-5) by (intro exI[of _ n]) simp
  next
    case (Some e)
    obtain d t where e: "e = (d, t)" by fastforce
    define c1 where "c1 = (deliver d c)\<lparr>
      ch_ordered_receive_buffer := hm_remove (ch_receive_sequence c) (ch_ordered_receive_buffer c),
      ch_receive_sequence := ch_receive_sequence c + 1\<rparr>"
    have step: "deliver_contiguous c = deliver_contiguous c1"
      using Some e by (simp add: deliver_contiguous.simps[of c] c1_def)
    from Some e 1(2,3) obtain k where k: "n \<le> k" "k < w" "of_nat n = (of_nat k :: u16)" "d = msg k"
      using buffered_entry[of msg n w "ch_ordered_receive_buffer c" "ch_receive_sequence c" d t] by metis
    then have kn: "k = n" using of_nat_u16_eq[of n k] 1(4) k by auto
    have c1: "ch_receive_sequence c1 = of_nat (n + 1)"
      "buffered_ok msg (n + 1) w (ch_ordered_receive_buffer c1)" "w \<le> n + 1 + 32768"
      "delivered_ok msg (n + 1) (ks @ [n]) (taken @ ch_delivery_queue c1) (ch_gap_sequences_skipped c1)"
      using 1(2-5) k(2,4) kn buffered_pop[of msg n w "ch_ordered_receive_buffer c"]
        delivered_snoc[of msg n ks "taken @ ch_delivery_queue c"]
      by (simp_all add: c1_def deliver_def)
    have cfg: "ch_config c1 = ch_config c" by (simp add: c1_def deliver_def)
    note IH = 1(1)[OF Some e[symmetric], folded c1_def]
    from IH[OF c1] obtain m where m: "n + 1 \<le> m" "m \<le> max (n + 1) w"
      "ch_receive_sequence (deliver_contiguous c1) = of_nat m"
      "buffered_ok msg m w (ch_ordered_receive_buffer (deliver_contiguous c1))"
      "hm_get (ch_ordered_receive_buffer (deliver_contiguous c1)) (of_nat m) = None"
      "delivered_ok msg m ((ks @ [n]) @ [n + 1..<m]) (taken @ ch_delivery_queue (deliver_contiguous c1))
        (ch_gap_sequences_skipped (deliver_contiguous c1))"
      "ch_config (deliver_contiguous c1) = ch_config c1"
      "hm_dom (ch_ordered_receive_buffer c1) \<subseteq> hm_dom (ch_ordered_receive_buffer (deliver_contiguous c1)) \<union> of_nat ` {n + 1..<m}"
      by blast
    have "hm_dom (ch_ordered_receive_buffer c) \<subseteq> insert (of_nat n) (hm_dom (ch_ordered_receive_buffer c1))"
      using 1(2) by (auto simp: c1_def hm_dom_remove)
    also have "\<dots> \<subseteq> hm_dom (ch_ordered_receive_buffer (deliver_contiguous c1)) \<union> of_nat ` {n..<m}"
      using m(1,8) by auto
    finally have dom: "hm_dom (ch_ordered_receive_buffer c) \<subseteq>
      hm_dom (ch_ordered_receive_buffer (deliver_contiguous c1)) \<union> of_nat ` {n..<m}" .
    have "[n..<m] = n # [n + 1..<m]" using m(1) by (simp add: upt_conv_Cons)
    with m(6) have "delivered_ok msg m (ks @ [n..<m]) (taken @ ch_delivery_queue (deliver_contiguous c1))
        (ch_gap_sequences_skipped (deliver_contiguous c1))" by simp
    moreover have "n \<le> m" "m \<le> max n w" using m(1,2) k(2) kn by simp_all
    ultimately show ?thesis
      unfolding step using m(3-5,7) cfg dom by (intro exI[of _ m]) (simp only: simp_thms)
  qed
qed

text \<open>The fold over the buffered keys finds the least buffered index.\<close>

definition in_window :: "nat \<Rightarrow> u16 \<Rightarrow> bool" where
  "in_window n s \<longleftrightarrow> unat (s - of_nat n) < 32768"

definition index_of :: "nat \<Rightarrow> u16 \<Rightarrow> nat" where
  "index_of n s = n + unat (s - of_nat n)"

lemma in_window_index [simp]: "n \<le> k \<Longrightarrow> k < n + 32768 \<Longrightarrow> in_window n (of_nat k) \<and> index_of n (of_nat k) = k"
  by (simp add: in_window_def index_of_def unat_index_diff)

lemma of_nat_index_of [simp]: "of_nat (index_of n s) = s"
  by (simp add: index_of_def)

lemma index_of_window: "in_window n s \<Longrightarrow> n \<le> index_of n s \<and> index_of n s < n + 32768"
  by (simp add: in_window_def index_of_def)

lemma window_greater:
  assumes "in_window n a" and "in_window n b"
  shows "sequence_greater_than a b \<longleftrightarrow> index_of n b < index_of n a"
  using index_greater[of "index_of n b" "index_of n a"] index_of_window[OF assms(1)]
    index_of_window[OF assms(2)] by simp

lemma foldl_earliest:
  assumes "\<forall>x\<in>insert a (set xs). in_window n x"
  shows "let r = foldl (\<lambda>a b. if sequence_greater_than a b then b else a) a xs
         in r \<in> insert a (set xs) \<and> (\<forall>x\<in>insert a (set xs). index_of n r \<le> index_of n x)"
  using assms
proof (induction xs arbitrary: a)
  case Nil
  then show ?case by simp
next
  case (Cons b xs)
  have g: "sequence_greater_than a b \<longleftrightarrow> index_of n b < index_of n a"
    using Cons.prems by (intro window_greater) simp_all
  have "\<forall>x\<in>insert (if sequence_greater_than a b then b else a) (set xs). in_window n x"
    using Cons.prems by simp
  from Cons.IH[OF this] show ?case by (auto simp: Let_def g split: if_splits)
qed

lemma count_gap_index:
  assumes "n \<le> k" and "k < n + 65536"
  shows "count_gap (of_nat n) (of_nat k) g = g + (k - n)"
  using assms
proof (induction "k - n" arbitrary: n g)
  case 0
  then show ?case by (simp add: count_gap.simps)
next
  case (Suc d)
  then have "(of_nat k :: u16) \<noteq> of_nat n" using of_nat_u16_eq[of n k] by simp
  moreover have "count_gap (of_nat (n + 1)) (of_nat k) (g + 1) = (g + 1) + (k - (n + 1))"
    using Suc.prems Suc.hyps(2) by (intro Suc.hyps(1)) simp_all
  ultimately show ?case
    using Suc.hyps(2) by (subst count_gap.simps) (simp add: add.commute)
qed

lemma buffered_window:
  assumes "buffered_ok msg n (n + 32768) m" and "s \<in> hm_dom m"
  shows "in_window n s"
proof -
  from assms(2) obtain d t where "(s, d, t) \<in> set m" by auto
  with assms(1) obtain k where "n \<le> k" "k < n + 32768" "s = of_nat k"
    by (fastforce simp: buffered_ok_def)
  then show ?thesis by simp
qed

lemma find_earliest_spec:
  assumes "is_iter_order it" and "buffered_ok msg n w (ch_ordered_receive_buffer c)" and "w \<le> n + 32768"
    and "find_earliest_buffered it c = Some s"
  obtains k where "s = of_nat k" "n \<le> k" "k < w"
    "buffered_ok msg k w (ch_ordered_receive_buffer c)"
proof -
  let ?m = "ch_ordered_receive_buffer c"
  from assms(4) obtain a xs where ks: "hm_keys it ?m = a # xs"
    and s: "s = foldl (\<lambda>a b. if sequence_greater_than a b then b else a) a xs"
    by (auto simp: find_earliest_buffered_def split: list.splits)
  have dom: "insert a (set xs) = hm_dom ?m"
    using set_hm_keys[OF assms(1), of ?m] ks by simp
  have win: "in_window n x" if "x \<in> hm_dom ?m" for x
    using buffered_window[OF buffered_mono[OF assms(2,3)] that] .
  have r: "s \<in> hm_dom ?m" "\<And>x. x \<in> hm_dom ?m \<Longrightarrow> index_of n s \<le> index_of n x"
    using foldl_earliest[of a xs n] win unfolding dom s by (auto simp: Let_def)
  have "\<exists>k. index_of n s \<le> k \<and> k < w \<and> x = of_nat k \<and> d = msg k"
    if "(x, d, t) \<in> set ?m" for x d t
  proof -
    from that assms(2) obtain k where k: "n \<le> k" "k < w" "x = of_nat k" "d = msg k"
      by (fastforce simp: buffered_ok_def)
    moreover have "x \<in> hm_dom ?m" using that by force
    ultimately show ?thesis using r(2)[of x] assms(3) by (intro exI[of _ k]) simp
  qed
  then have b: "buffered_ok msg (index_of n s) w ?m"
    using assms(2) by (auto simp: buffered_ok_def)
  from r(1) obtain d t where "(s, d, t) \<in> set ?m" by auto
  with b have "index_of n s < w" by (fastforce simp: buffered_ok_def)
  with b show ?thesis
    using that[of "index_of n s"] index_of_window[OF win[OF r(1)]] by simp
qed

section \<open>The invariant of the ordered mode\<close>

lemma ordered_invD:
  assumes "ordered_inv msg n ks taken c"
  shows "cc_delivery_mode (ch_config c) = ReliableOrdered" "ch_receive_sequence c = of_nat n"
    "buffered_ok msg n (n + 32768) (ch_ordered_receive_buffer c)"
    "hm_get (ch_ordered_receive_buffer c) (of_nat n) = None"
    "delivered_ok msg n ks (taken @ ch_delivery_queue c) (ch_gap_sequences_skipped c)"
  using assms by (simp_all add: ordered_inv_def)

lemma ordered_contiguous:
  assumes "cc_delivery_mode (ch_config c) = ReliableOrdered" and "ch_receive_sequence c = of_nat n"
    and "buffered_ok msg n w (ch_ordered_receive_buffer c)" and "w \<le> n + 32768"
    and "delivered_ok msg n ks (taken @ ch_delivery_queue c) (ch_gap_sequences_skipped c)"
  obtains m where "n \<le> m" "m \<le> max n w" "ordered_inv msg m (ks @ [n..<m]) taken (deliver_contiguous c)"
proof -
  from deliver_contiguous_spec[OF assms(2-5)] obtain m where m: "n \<le> m" "m \<le> max n w"
    "ch_receive_sequence (deliver_contiguous c) = of_nat m"
    "buffered_ok msg m w (ch_ordered_receive_buffer (deliver_contiguous c))"
    "hm_get (ch_ordered_receive_buffer (deliver_contiguous c)) (of_nat m) = None"
    "delivered_ok msg m (ks @ [n..<m]) (taken @ ch_delivery_queue (deliver_contiguous c))
      (ch_gap_sequences_skipped (deliver_contiguous c))"
    "ch_config (deliver_contiguous c) = ch_config c" by blast
  have "buffered_ok msg m (m + 32768) (ch_ordered_receive_buffer (deliver_contiguous c))"
    using m(1,4) assms(4) by (intro buffered_mono[OF m(4)]) simp
  with m assms(1) show ?thesis by (intro that[of m]) (simp_all add: ordered_inv_def)
qed

lemma evict_inv:
  assumes "is_iter_order it" and "ordered_inv msg n ks taken c"
  shows "ordered_inv msg n ks taken (evict_oldest_buffered it c)"
proof (cases "hm_oldest it snd (ch_ordered_receive_buffer c)")
  case None
  then show ?thesis using assms by (simp add: evict_oldest_buffered_def)
next
  case (Some s)
  note inv = ordered_invD[OF assms(2)]
  from inv(3) have "hm_ok (ch_ordered_receive_buffer c)" by (simp add: buffered_ok_def)
  then obtain e where "hm_get (ch_ordered_receive_buffer c) s = Some e"
    using hm_oldest_Some[OF assms(1) _ Some] by blast
  then have "s \<noteq> ch_receive_sequence c" using inv(2,4) by auto
  then show ?thesis
    using Some inv by (simp add: evict_oldest_buffered_def ordered_inv_def buffered_remove hm_get_remove
        delivered_ok_def)
qed

lemma ordered_inv_bytes:
  "ordered_inv msg n ks taken (c\<lparr>ch_bytes_received := b\<rparr>) = ordered_inv msg n ks taken c"
  by (simp add: ordered_inv_def)

lemma receive_ordered_inv:
  assumes it: "is_iter_order it" and inv: "ordered_inv msg n ks taken c"
    and i: "i < n + 32768" "n < i + 32768"
  obtains m ks' where "n \<le> m" "m \<le> n + 32768"
    "ordered_inv msg m ks' taken (receive_ordered it now (of_nat i) (msg i) c)"
proof (cases i n rule: linorder_cases)
  case less
  then have "\<not> sequence_greater_than (of_nat i) (of_nat n)" "(of_nat i :: u16) \<noteq> of_nat n"
    using index_greater[of n i] index_eq[of n i] i by simp_all
  then have "receive_ordered it now (of_nat i) (msg i) c = c"
    using ordered_invD(2)[OF inv] by (simp add: receive_ordered_def)
  with inv show ?thesis using that[of n ks] by simp
next
  case equal
  let ?c = "(deliver (msg n) c)\<lparr>ch_receive_sequence := ch_receive_sequence c + 1\<rparr>"
  note I = ordered_invD[OF inv]
  have "hm_remove (of_nat n) (ch_ordered_receive_buffer c) = ch_ordered_receive_buffer c"
    using I(4) by (simp add: hm_remove_def hm_get_None_iff delete_idem)
  then have "buffered_ok msg (n + 1) (n + 32768) (ch_ordered_receive_buffer c)"
    using buffered_pop[OF I(3)] by simp
  then obtain m where m: "n + 1 \<le> m" "m \<le> max (n + 1) (n + 32768)"
    "ordered_inv msg m ((ks @ [n]) @ [n + 1..<m]) taken (deliver_contiguous ?c)"
    using I delivered_snoc[OF I(5)]
    by (elim ordered_contiguous[of ?c "n + 1" msg "n + 32768" "ks @ [n]" taken, rotated 5])
      (simp_all add: deliver_def)
  have "receive_ordered it now (of_nat i) (msg i) c = deliver_contiguous ?c"
    using I(2) equal by (simp add: receive_ordered_def)
  with m show ?thesis by (intro that[of m]) simp_all
next
  case greater
  define c1 where "c1 = (if hm_len (ch_ordered_receive_buffer c) \<ge> cc_max_ordered_buffer_size (ch_config c)
    then evict_oldest_buffered it c else c)"
  have g: "sequence_greater_than (of_nat i) (of_nat n)" "(of_nat i :: u16) \<noteq> of_nat n"
    using index_greater[of n i] index_eq[of n i] i greater by simp_all
  have "ordered_inv msg n ks taken c1" using evict_inv[OF it inv] inv by (simp add: c1_def)
  then have "ordered_inv msg n ks taken
      (c1\<lparr>ch_ordered_receive_buffer := hm_insert (of_nat i) (msg i, now) (ch_ordered_receive_buffer c1)\<rparr>)"
    using greater i g(2) by (auto simp: ordered_inv_def hm_get_insert intro: buffered_insert)
  moreover have "receive_ordered it now (of_nat i) (msg i) c =
      c1\<lparr>ch_ordered_receive_buffer := hm_insert (of_nat i) (msg i, now) (ch_ordered_receive_buffer c1)\<rparr>"
    using g ordered_invD(2)[OF inv] by (simp add: receive_ordered_def c1_def Let_def)
  ultimately show ?thesis using that[of n ks] by simp
qed

lemma delivered_gap:
  "delivered_ok msg n ks out g \<Longrightarrow> n \<le> k \<Longrightarrow> delivered_ok msg k ks out (g + (k - n))"
  by (auto simp: delivered_ok_def)

lemma update_inv:
  assumes it: "is_iter_order it" and inv: "ordered_inv msg n ks taken c"
  obtains m ks' where "n \<le> m" "m \<le> n + 32768" "ordered_inv msg m ks' taken (Channel_update it now c)"
proof (cases "Channel_update it now c = c")
  case True
  with inv that[of n ks] show ?thesis by simp
next
  case False
  then have up: "Channel_update it now c = flush_ordered_buffer it c"
    by (simp add: Channel_update_def Let_def split: if_splits)
  with False obtain s where s: "find_earliest_buffered it c = Some s"
    by (cases "find_earliest_buffered it c") (auto simp: flush_ordered_buffer_def)
  note I = ordered_invD[OF inv]
  obtain k where k: "s = of_nat k" "n \<le> k" "k < n + 32768"
    "buffered_ok msg k (n + 32768) (ch_ordered_receive_buffer c)"
    by (rule find_earliest_spec[OF it I(3) order.refl s])
  let ?c = "c\<lparr>ch_gap_sequences_skipped := count_gap (ch_receive_sequence c) s (ch_gap_sequences_skipped c),
    ch_receive_sequence := s\<rparr>"
  have gap: "count_gap (ch_receive_sequence c) s (ch_gap_sequences_skipped c) = ch_gap_sequences_skipped c + (k - n)"
    using k I(2) by (simp add: count_gap_index)
  obtain m where "k \<le> m" "m \<le> max k (n + 32768)" "ordered_inv msg m (ks @ [k..<m]) taken (deliver_contiguous ?c)"
    using I k delivered_gap[OF I(5) k(2)] gap
    by (elim ordered_contiguous[of ?c k msg "n + 32768" ks taken, rotated 5]) simp_all
  then show ?thesis
    using that[of m "ks @ [k..<m]"] up s k(2,3) by (simp add: flush_ordered_buffer_def)
qed

lemma receive_inv:
  assumes "ordered_inv msg n ks taken c" and "receive c = (Some d, c')"
  shows "ordered_inv msg n ks (taken @ [d]) c'"
  using assms by (auto simp: receive_def ordered_inv_def split: list.splits)

section \<open>Runs of an ordered receiver\<close>

text \<open>
  A state is the channel, the index its \<open>receive_sequence\<close> stands for and the messages the
  application has taken. A message may arrive when its index is less than 32768 away from that
  index, the distance sequence numbers can tell apart.
\<close>

type_synonym ordered_state = "channel \<times> nat \<times> bytes list"

definition moved :: "channel \<Rightarrow> channel \<Rightarrow> nat" where
  "moved c c' = unat (ch_receive_sequence c' - ch_receive_sequence c)"

inductive ordered_step :: "(nat \<Rightarrow> bytes) \<Rightarrow> ordered_state \<Rightarrow> ordered_state \<Rightarrow> bool"
  for msg :: "nat \<Rightarrow> bytes" where
  arrive: "is_iter_order it \<Longrightarrow> i < n + 32768 \<Longrightarrow> n < i + 32768 \<Longrightarrow>
    c' = Channel_on_packet_received it now (wire_data (of_nat i) (msg i)) c \<Longrightarrow>
    ordered_step msg (c, n, taken) (c', n + moved c c', taken)"
| tick: "is_iter_order it \<Longrightarrow> c' = Channel_update it now c \<Longrightarrow>
    ordered_step msg (c, n, taken) (c', n + moved c c', taken)"
| take: "receive c = (Some d, c') \<Longrightarrow>
    ordered_step msg (c, n, taken) (c', n, taken @ [d])"

inductive_cases ordered_stepE: "ordered_step msg (c, n, taken) s'"

lemma moved_index:
  assumes "ordered_inv msg n ks taken c" and "ordered_inv msg m ks' taken' c'"
    and "n \<le> m" and "m \<le> n + 32768"
  shows "n + moved c c' = m"
  using ordered_invD(2)[OF assms(1)] ordered_invD(2)[OF assms(2)] assms(3,4)
  by (simp add: moved_def unat_index_diff)

lemma arrive_inv:
  assumes "is_iter_order it" and "ordered_inv msg n ks taken c"
    and "i < n + 32768" "n < i + 32768"
  obtains m ks' where "n \<le> m" "m \<le> n + 32768"
    "ordered_inv msg m ks' taken (Channel_on_packet_received it now (wire_data (of_nat i) (msg i)) c)"
proof -
  let ?c = "c\<lparr>ch_bytes_received := ch_bytes_received c + length (msg i)\<rparr>"
  have "ordered_inv msg n ks taken ?c" using assms(2) by (simp add: ordered_inv_bytes)
  moreover have "Channel_on_packet_received it now (wire_data (of_nat i) (msg i)) c =
      receive_ordered it now (of_nat i) (msg i) ?c"
    using ordered_invD(1)[OF assms(2)] by (simp add: receive_wire)
  ultimately show ?thesis
    using that by (auto elim: receive_ordered_inv[OF assms(1) _ assms(3,4)])
qed

lemma ordered_step_inv:
  assumes "ordered_step msg (c, n, taken) (c', n', taken')" and "ordered_inv msg n ks taken c"
  obtains ks' where "ordered_inv msg n' ks' taken' c'"
  using assms(1)
proof (cases rule: ordered_step.cases)
  case (arrive it i now)
  obtain m ks' where m: "n \<le> m" "m \<le> n + 32768" "ordered_inv msg m ks' taken c'"
    using arrive_inv[OF arrive(3) assms(2) arrive(4,5), of now] arrive(6) by metis
  from moved_index[OF assms(2) m(3) m(1,2)] m(3) show ?thesis
    using that arrive(1,2) by simp
next
  case (tick it now)
  obtain m ks' where m: "n \<le> m" "m \<le> n + 32768" "ordered_inv msg m ks' taken c'"
    using update_inv[OF tick(3) assms(2), of now] tick(4) by metis
  from moved_index[OF assms(2) m(3) m(1,2)] m(3) show ?thesis
    using that tick(1,2) by simp
next
  case (take d)
  then show ?thesis using that receive_inv[OF assms(2)] by simp
qed

lemma ordered_run_inv:
  assumes "(ordered_step msg)\<^sup>*\<^sup>* s s'"
  shows "case s of (c, n, taken) \<Rightarrow> ordered_inv msg n ks taken c \<longrightarrow>
    (case s' of (c', n', taken') \<Rightarrow> \<exists>ks'. ordered_inv msg n' ks' taken' c')"
  using assms
proof (induction rule: rtranclp_induct)
  case base
  then show ?case by (auto split: prod.split)
next
  case (step y z)
  then show ?case by (cases s; cases y; cases z) (auto elim: ordered_step_inv)
qed

lemma ordered_new:
  "cc_delivery_mode cfg = ReliableOrdered \<Longrightarrow> ordered_inv msg 0 [] [] (Channel_new ident cfg)"
  by (simp add: ordered_inv_def Channel_new_def buffered_ok_def delivered_ok_def)

section \<open>Completeness of the ordered mode\<close>

definition arrive_all :: "u16 iter_order \<Rightarrow> instant \<Rightarrow> (nat \<Rightarrow> bytes) \<Rightarrow> nat list \<Rightarrow> channel \<Rightarrow> channel" where
  "arrive_all it now msg is c =
     fold (\<lambda>i. Channel_on_packet_received it now (wire_data (of_nat i) (msg i))) is c"





section \<open>The sequenced modes\<close>

text \<open>The reference: the indices newer than all before them.\<close>

fun records :: "nat option \<Rightarrow> nat list \<Rightarrow> nat list" where
  "records newest [] = []"
| "records None (i # is) = i # records (Some i) is"
| "records (Some m) (i # is) = (if m < i then i # records (Some i) is else records (Some m) is)"

text \<open>Every index is less than 32768 away from the newest one before it.\<close>

fun near :: "nat option \<Rightarrow> nat list \<Rightarrow> bool" where
  "near newest [] = True"
| "near None (i # is) = near (Some i) is"
| "near (Some m) (i # is) = (m < i + 32768 \<and> i < m + 32768 \<and> near (Some (max m i)) is)"

definition newest_inv :: "nat option \<Rightarrow> channel \<Rightarrow> bool" where
  "newest_inv newest c \<longleftrightarrow> is_sequenced (cc_delivery_mode (ch_config c)) \<and>
     (case newest of
        None \<Rightarrow> ch_messages_received c = 0
      | Some m \<Rightarrow> ch_messages_received c > 0 \<and> ch_last_received_sequence c = of_nat m)"

lemma sequenced_step:
  assumes "newest_inv newest c" and "near newest (i # is)"
  shows "\<exists>newest'. newest_inv newest' (Channel_on_packet_received it now (wire_data (of_nat i) (msg i)) c) \<and>
    near newest' is \<and>
    (\<exists>ks. ch_delivery_queue (Channel_on_packet_received it now (wire_data (of_nat i) (msg i)) c) =
        ch_delivery_queue c @ map msg ks \<and> records newest (i # is) = ks @ records newest' is)"
proof -
  let ?c = "c\<lparr>ch_bytes_received := ch_bytes_received c + length (msg i)\<rparr>"
  have r: "Channel_on_packet_received it now (wire_data (of_nat i) (msg i)) c = receive_sequenced (of_nat i) (msg i) ?c"
    using assms(1) by (auto simp: receive_wire newest_inv_def is_sequenced_def)
  show ?thesis
  proof (cases newest)
    case None
    then show ?thesis
      unfolding r using assms
      by (intro exI[of _ "Some i"] conjI exI[of _ "[i]"])
        (simp_all add: newest_inv_def receive_sequenced_def deliver_def)
  next
    case (Some m)
    have g: "sequence_greater_than (of_nat i) (of_nat m) \<longleftrightarrow> m < i"
      using assms(2) Some by (intro index_greater) simp_all
    show ?thesis
    proof (cases "m < i")
      case True
      then show ?thesis
        unfolding r using assms Some g
        by (intro exI[of _ "Some i"] conjI exI[of _ "[i]"])
          (simp_all add: newest_inv_def receive_sequenced_def deliver_def max_def)
    next
      case False
      then show ?thesis
        unfolding r using assms Some g
        by (intro exI[of _ newest] conjI exI[of _ "[]"])
          (simp_all add: newest_inv_def receive_sequenced_def deliver_def max_def)
    qed
  qed
qed

lemma sequenced_run:
  assumes "newest_inv newest c" and "near newest is"
  shows "ch_delivery_queue (arrive_all it now msg is c) = ch_delivery_queue c @ map msg (records newest is)"
  using assms
proof (induction "is" arbitrary: newest c)
  case Nil
  then show ?case by (simp add: arrive_all_def)
next
  case (Cons i xs)
  let ?c = "Channel_on_packet_received it now (wire_data (of_nat i) (msg i)) c"
  obtain newest' ks where *: "newest_inv newest' ?c" "near newest' xs"
    "ch_delivery_queue ?c = ch_delivery_queue c @ map msg ks" "records newest (i # xs) = ks @ records newest' xs"
    using sequenced_step[OF Cons.prems, of it now msg] by blast
  have "arrive_all it now msg (i # xs) c = arrive_all it now msg xs ?c" by (simp add: arrive_all_def)
  then show ?case using Cons.IH[OF *(1,2)] *(3,4) by simp
qed

section \<open>Properties\<close>

text \<open>C2: an ordered channel delivers messages in the order they were sent, each at most once,
  however packets are lost, duplicated, delayed or reordered, and whatever the buffer evicts or the
  gap timeout skips; as long as nothing was skipped, the delivered messages are exactly the first
  ones sent.\<close>

theorem ordered_delivery:
  assumes "cc_delivery_mode cfg = ReliableOrdered"
    and "(ordered_step msg)\<^sup>*\<^sup>* (Channel_new ident cfg, 0, []) (c, n, taken)"
  shows "\<exists>ks. taken @ ch_delivery_queue c = map msg ks \<and> sorted_wrt (<) ks \<and>
    (ch_gap_sequences_skipped c = 0 \<longrightarrow> ks = [0..<n])"
proof -
  obtain ks where "ordered_inv msg n ks taken c"
    using ordered_run_inv[OF assms(2), of "[]"] ordered_new[OF assms(1)] by auto
  then have d: "delivered_ok msg n ks (taken @ ch_delivery_queue c) (ch_gap_sequences_skipped c)"
    by (rule ordered_invD)
  with delivered_all[of msg n ks] show ?thesis by (auto simp: delivered_ok_def)
qed

definition example_text :: "nat \<Rightarrow> bytes" where
  "example_text k = [of_nat k, 7]"

definition example_config :: channel_config where
  "example_config = \<lparr>cc_delivery_mode = ReliableOrdered, cc_max_message_size = 10, cc_message_buffer_size = 4,
     cc_block_on_full = False, cc_ordered_buffer_timeout = 9, cc_max_ordered_buffer_size = 4,
     cc_max_reliable_retries = 3, cc_priority = 0\<rparr>"

definition example_receiver :: "nat list \<Rightarrow> channel" where
  "example_receiver is = arrive_all id 5 example_text is (Channel_new 0 example_config)"

lemma example_run:
  "(ordered_step example_text)\<^sup>*\<^sup>* (Channel_new 0 example_config, 0, []) (example_receiver [1, 0], 2, [])"
proof -
  have "ordered_step example_text (Channel_new 0 example_config, 0, [])
      (example_receiver [1], 0 + moved (Channel_new 0 example_config) (example_receiver [1]), [])"
    by (rule ordered_step.arrive[of id 1 0 _ 5]) (simp_all add: is_iter_order_def example_receiver_def arrive_all_def)
  moreover have "moved (Channel_new 0 example_config) (example_receiver [1]) = 0" by code_simp
  moreover have "ordered_step example_text (example_receiver [1], 0, [])
      (example_receiver [1, 0], 0 + moved (example_receiver [1]) (example_receiver [1, 0]), [])"
    by (rule ordered_step.arrive[of id 0 0 _ 5]) (simp_all add: is_iter_order_def example_receiver_def arrive_all_def)
  moreover have "moved (example_receiver [1]) (example_receiver [1, 0]) = 2" by code_simp
  ultimately show ?thesis by (simp add: converse_rtranclp_into_rtranclp)
qed

theorem ordered_delivery_witness:
  "\<exists>ks. ch_delivery_queue (example_receiver [1, 0]) = map example_text ks \<and> sorted_wrt (<) ks"
  using ordered_delivery[OF _ example_run] by (auto simp: example_config_def)



text \<open>C25: a sequenced channel, reliable or not, delivers exactly the messages newer than all that
  arrived before them.\<close>

theorem sequenced_delivers_newest:
  assumes "is_sequenced (cc_delivery_mode cfg)" and "near None is"
  shows "ch_delivery_queue (arrive_all it now msg is (Channel_new ident cfg)) = map msg (records None is)"
  using sequenced_run[of None "Channel_new ident cfg" "is" it now msg] assms
  by (simp add: newest_inv_def Channel_new_def)

theorem sequenced_delivers_newest_witness:
  "ch_delivery_queue (arrive_all id 5 example_text [5, 3, 7] (Channel_new 0 unreliable_sequenced)) =
     map example_text [5, 7]"
proof -
  have "ch_delivery_queue (arrive_all id 5 example_text [5, 3, 7] (Channel_new 0 unreliable_sequenced)) =
     map example_text (records None [5, 3, 7])"
    by (rule sequenced_delivers_newest) (simp_all add: unreliable_sequenced_def is_sequenced_def)
  then show ?thesis by simp
qed

end
