(* ===== verification/Channel_Retransmit.thy ===== *)
theory Channel_Retransmit
  imports Channel
begin

text \<open>
  The sending half of a channel: what one call of \<open>get_retransmit_messages\<close> does, whatever the
  order in which it visits the map, and what follows over runs of the channel's operations: the
  send queue stays bounded, no message is transmitted more often than the retries allow, and a
  message that is never acknowledged is transmitted that often and then given up.
\<close>

section \<open>One call\<close>

definition due :: "instant \<Rightarrow> duration \<Rightarrow> channel_message \<Rightarrow> bool" where
  "due now rto m \<longleftrightarrow>
     (case cm_send_time m of None \<Rightarrow> False | Some t \<Rightarrow> backoff_rto rto m \<le> duration_since now t)"

definition bump :: "instant \<Rightarrow> channel_message \<Rightarrow> channel_message" where
  "bump now m = m\<lparr>cm_retry_count := cm_retry_count m + 1, cm_send_time := Some now\<rparr>"

definition resends :: "nat \<Rightarrow> instant \<Rightarrow> duration \<Rightarrow> (u16, channel_message) hash_map \<Rightarrow> u16 \<Rightarrow> bool" where
  "resends max_retries now rto p s \<longleftrightarrow>
     (case hm_get p s of None \<Rightarrow> False | Some m \<Rightarrow> due now rto m \<and> cm_retry_count m < max_retries)"

definition gives_up :: "nat \<Rightarrow> instant \<Rightarrow> duration \<Rightarrow> (u16, channel_message) hash_map \<Rightarrow> u16 \<Rightarrow> bool" where
  "gives_up max_retries now rto p s \<longleftrightarrow>
     (case hm_get p s of None \<Rightarrow> False | Some m \<Rightarrow> due now rto m \<and> max_retries \<le> cm_retry_count m)"

definition resend_wire :: "(u16, channel_message) hash_map \<Rightarrow> u16 \<Rightarrow> u16 \<times> bytes" where
  "resend_wire p s = (s, wire_data s (cm_data (the (hm_get p s))))"

lemma retransmit_step_alt:
  "retransmit_step mx now rto s (p, rs, ex) =
     (if resends mx now rto p s
      then (hm_insert s (bump now (the (hm_get p s))) p, rs @ [resend_wire p s], ex)
      else if gives_up mx now rto p s then (p, rs, ex @ [s]) else (p, rs, ex))"
  by (auto simp: retransmit_step_def resends_def gives_up_def due_def bump_def resend_wire_def
      split: option.splits)

lemma retransmit_fold:
  assumes "distinct ks" and "hm_ok p"
  shows "\<exists>p'. fold (retransmit_step mx now rto) ks (p, rs, ex) =
      (p', rs @ map (resend_wire p) (filter (resends mx now rto p) ks),
       ex @ filter (gives_up mx now rto p) ks) \<and> hm_ok p' \<and>
    (\<forall>s. hm_get p' s = (if s \<in> set ks \<and> resends mx now rto p s then map_option (bump now) (hm_get p s)
                       else hm_get p s))"
  using assms
proof (induction ks arbitrary: p rs ex)
  case Nil
  then show ?case by simp
next
  case (Cons k ks)
  define q where "q = (if resends mx now rto p k then hm_insert k (bump now (the (hm_get p k))) p else p)"
  have other: "hm_get q s = hm_get p s" if "s \<noteq> k" for s using that by (simp add: hm_get_insert q_def)
  have ok: "hm_ok q" using Cons.prems by (simp add: hm_ok_insert q_def)
  have eqs: "resends mx now rto q s = resends mx now rto p s" "gives_up mx now rto q s = gives_up mx now rto p s"
    "resend_wire q s = resend_wire p s" if "s \<in> set ks" for s
  proof -
    have "hm_get q s = hm_get p s" using that Cons.prems(1) by (intro other) auto
    then show "resends mx now rto q s = resends mx now rto p s" "gives_up mx now rto q s = gives_up mx now rto p s"
      "resend_wire q s = resend_wire p s"
      by (simp_all only: resends_def[of mx now rto _ s] gives_up_def[of mx now rto _ s] resend_wire_def)
  qed
  have lists: "filter (resends mx now rto q) ks = filter (resends mx now rto p) ks"
    "filter (gives_up mx now rto q) ks = filter (gives_up mx now rto p) ks"
    "map (resend_wire q) (filter (resends mx now rto p) ks) = map (resend_wire p) (filter (resends mx now rto p) ks)"
    using eqs by (auto intro!: filter_cong)
  have not_both: "resends mx now rto p k \<Longrightarrow> \<not> gives_up mx now rto p k"
    by (auto simp: resends_def gives_up_def split: option.splits)
  have k: "resends mx now rto p k \<Longrightarrow> hm_get p k \<noteq> None" by (auto simp: resends_def split: option.splits)
  define rs1 where "rs1 = (if resends mx now rto p k then [resend_wire p k] else [])"
  define ex1 where "ex1 = (if gives_up mx now rto p k then [k] else [])"
  have step: "retransmit_step mx now rto k (p, rs, ex) = (q, rs @ rs1, ex @ ex1)"
    using not_both by (simp add: retransmit_step_alt rs1_def ex1_def q_def)
  obtain p' where p': "fold (retransmit_step mx now rto) ks (q, rs @ rs1, ex @ ex1) =
      (p', (rs @ rs1) @ map (resend_wire q) (filter (resends mx now rto q) ks),
       (ex @ ex1) @ filter (gives_up mx now rto q) ks)" "hm_ok p'"
    "\<forall>s. hm_get p' s = (if s \<in> set ks \<and> resends mx now rto q s then map_option (bump now) (hm_get q s)
                       else hm_get q s)"
    using Cons.IH[of q "rs @ rs1" "ex @ ex1"] Cons.prems(1) ok by (metis distinct.simps(2))
  have get: "hm_get p' s = (if s \<in> set (k # ks) \<and> resends mx now rto p s then map_option (bump now) (hm_get p s)
                       else hm_get p s)" for s
  proof (cases "s = k")
    case True
    then show ?thesis using p'(3) Cons.prems(1) k by (auto simp: hm_get_insert q_def)
  next
    case False
    then show ?thesis using p'(3) other[of s] eqs(1)[of s] by (cases "s \<in> set ks") simp_all
  qed
  have "fold (retransmit_step mx now rto) (k # ks) (p, rs, ex) =
      (p', rs @ map (resend_wire p) (filter (resends mx now rto p) (k # ks)),
       ex @ filter (gives_up mx now rto p) (k # ks))"
    using p'(1) not_both unfolding lists by (simp add: step) (simp add: rs1_def ex1_def)
  with p'(2) get show ?case by blast
qed

text \<open>The fate of a pending message in one call.\<close>

definition after_call :: "nat \<Rightarrow> instant \<Rightarrow> duration \<Rightarrow> channel_message \<Rightarrow> channel_message option" where
  "after_call max_retries now rto m =
     (if \<not> due now rto m then Some m
      else if max_retries \<le> cm_retry_count m then None
      else Some (bump now m))"

lemma retransmit_call:
  assumes it: "is_iter_order it" and ok: "hm_ok (ch_pending_ack c)"
    and rel: "is_reliable (cc_delivery_mode (ch_config c))"
  defines "mx \<equiv> cc_max_reliable_retries (ch_config c)" and "p \<equiv> ch_pending_ack c"
  shows "\<exists>p'. get_retransmit_messages it now rto c =
      (map (resend_wire p) (filter (resends mx now rto p) (hm_keys it p)), c\<lparr>ch_pending_ack := p'\<rparr>) \<and>
    hm_ok p' \<and> (\<forall>s. hm_get p' s = Option.bind (hm_get p s) (after_call mx now rto))"
proof -
  let ?ks = "hm_keys it p"
  obtain p1 where p1: "fold (retransmit_step mx now rto) ?ks (p, [], []) =
      (p1, [] @ map (resend_wire p) (filter (resends mx now rto p) ?ks), [] @ filter (gives_up mx now rto p) ?ks)"
    "hm_ok p1"
    "\<forall>s. hm_get p1 s = (if s \<in> set ?ks \<and> resends mx now rto p s then map_option (bump now) (hm_get p s)
                       else hm_get p s)"
    using retransmit_fold[OF distinct_hm_keys[OF it ok], of "ch_pending_ack c"] ok unfolding p_def by blast
  define p' where "p' = fold hm_remove (filter (gives_up mx now rto p) ?ks) p1"
  have call: "get_retransmit_messages it now rto c =
      (map (resend_wire p) (filter (resends mx now rto p) ?ks), c\<lparr>ch_pending_ack := p'\<rparr>)"
    using p1(1) rel by (simp add: get_retransmit_messages_def p'_def mx_def p_def)
  have "hm_get p' s = Option.bind (hm_get p s) (after_call mx now rto)" for s
  proof (cases "hm_get p s")
    case None
    then show ?thesis using p1(3) by (simp add: p'_def hm_get_removes resends_def gives_up_def)
  next
    case (Some m)
    then have "s \<in> set ?ks" using set_hm_keys[OF it, of p] by (metis hm_get_None_iff option.distinct(1))
    then show ?thesis
      using Some p1(3) by (auto simp: p'_def hm_get_removes resends_def gives_up_def after_call_def)
  qed
  then show ?thesis using call hm_ok_removes[OF p1(2)] by (auto simp: p'_def)
qed

section \<open>Runs of a sender\<close>

datatype sender_op =
    Send bytes bool
  | Outgoing instant
  | Resend "u16 iter_order" instant duration
  | Acked u16
  | Fast instant u16

text \<open>A step returns the messages that go out, with their sequence numbers.\<close>

fun sender_step :: "sender_op \<Rightarrow> channel \<Rightarrow> (u16 \<times> bytes) list \<times> channel" where
  "sender_step (Send data reliable) c = ([], snd (send data reliable c))"
| "sender_step (Outgoing now) c =
     (case get_outgoing_message now c of (out, c') \<Rightarrow> (case out of None \<Rightarrow> [] | Some x \<Rightarrow> [x], c'))"
| "sender_step (Resend it now rto) c = get_retransmit_messages it now rto c"
| "sender_step (Acked s) c = ([], acknowledge_message s c)"
| "sender_step (Fast now s) c = ([], mark_for_fast_retransmit now s c)"

fun sender_op_ok :: "sender_op \<Rightarrow> bool" where
  "sender_op_ok (Resend it now rto) = is_iter_order it"
| "sender_op_ok a = True"

fun is_send :: "sender_op \<Rightarrow> bool" where
  "is_send (Send data reliable) = True"
| "is_send a = False"

fun transmissions :: "sender_op list \<Rightarrow> channel \<Rightarrow> (u16 \<times> bytes) list" where
  "transmissions [] c = []"
| "transmissions (a # as) c = (case sender_step a c of (out, c') \<Rightarrow> out @ transmissions as c')"

definition queue_inv :: "nat \<Rightarrow> channel \<Rightarrow> bool" where
  "queue_inv k c \<longleftrightarrow> hm_ok (ch_pending_ack c) \<and>
     cc_message_buffer_size (ch_config c) = k \<and> length (ch_send_buffer c) \<le> max 1 k"

lemma retransmit_frame:
  assumes "is_iter_order it" and "hm_ok (ch_pending_ack c)"
  obtains rs p' where "get_retransmit_messages it now rto c = (rs, c\<lparr>ch_pending_ack := p'\<rparr>)" "hm_ok p'"
    "hm_dom p' \<subseteq> hm_dom (ch_pending_ack c)"
proof (cases "is_reliable (cc_delivery_mode (ch_config c))")
  case True
  from retransmit_call[OF assms True, of now rto] obtain p' where p':
    "snd (get_retransmit_messages it now rto c) = c\<lparr>ch_pending_ack := p'\<rparr>" "hm_ok p'"
    "\<And>s. hm_get p' s = Option.bind (hm_get (ch_pending_ack c) s)
       (after_call (cc_max_reliable_retries (ch_config c)) now rto)" by auto
  have "s \<in> hm_dom (ch_pending_ack c)" if "s \<in> hm_dom p'" for s
    using that p'(3)[of s] by (metis bind.bind_lzero hm_get_None_iff)
  with p' that[of "fst (get_retransmit_messages it now rto c)" p'] show ?thesis
    by (metis prod.collapse subsetI)
next
  case False
  then have "get_retransmit_messages it now rto c = ([], c\<lparr>ch_pending_ack := ch_pending_ack c\<rparr>)"
    by (simp add: get_retransmit_messages_def)
  with assms that show ?thesis by blast
qed

lemma sender_queue_inv: "sender_op_ok a \<Longrightarrow> queue_inv k c \<Longrightarrow> queue_inv k (snd (sender_step a c))"
proof (cases a)
  case (Resend it now rto)
  assume "sender_op_ok a" "queue_inv k c"
  with Resend show ?thesis
    by (auto simp: queue_inv_def elim: retransmit_frame[of it c now rto])
qed (auto simp: queue_inv_def send_def Let_def get_outgoing_message_def acknowledge_message_def
    mark_for_fast_retransmit_def hm_ok_insert hm_ok_remove split: list.splits option.splits)

interpretation sender: invariant_machine sender_op_ok "\<lambda>a c. snd (sender_step a c)" "queue_inv k" for k
  by unfold_locales (rule sender_queue_inv)

text \<open>
  The transmissions a sequence number has left: all while its message is queued, afterwards what
  the retry count leaves. The numbers of the first 65536 messages are distinct.
\<close>

definition budget :: "u16 \<Rightarrow> channel \<Rightarrow> nat" where
  "budget s c =
     (if s \<in> cm_sequence ` set (ch_send_buffer c) then Suc (cc_max_reliable_retries (ch_config c))
      else case hm_get (ch_pending_ack c) s of
             None \<Rightarrow> 0
           | Some m \<Rightarrow> cc_max_reliable_retries (ch_config c) - cm_retry_count m)"

definition used :: "nat \<Rightarrow> u16 set" where
  "used n = of_nat ` {..<n}"

definition sent_inv :: "nat \<Rightarrow> nat \<Rightarrow> u16 list \<Rightarrow> channel \<Rightarrow> bool" where
  "sent_inv mx n out c \<longleftrightarrow>
     cc_max_reliable_retries (ch_config c) = mx \<and> hm_ok (ch_pending_ack c) \<and>
     ch_send_sequence c = of_nat n \<and>
     distinct (map cm_sequence (ch_send_buffer c)) \<and>
     cm_sequence ` set (ch_send_buffer c) \<subseteq> used n \<and> hm_dom (ch_pending_ack c) \<subseteq> used n \<and> set out \<subseteq> used n \<and>
     cm_sequence ` set (ch_send_buffer c) \<inter> hm_dom (ch_pending_ack c) = {} \<and>
     (\<forall>s. count_list out s + budget s c \<le> Suc mx)"

lemma used_fresh: "n < 65536 \<Longrightarrow> (of_nat n :: u16) \<notin> used n"
proof
  assume n: "n < 65536" and "(of_nat n :: u16) \<in> used n"
  then obtain k where "k < n" "(of_nat n :: u16) = of_nat k" by (auto simp: used_def)
  then have "unat (of_nat n :: u16) = unat (of_nat k :: u16)" by simp
  with n \<open>k < n\<close> show False by (simp add: unat_of_nat take_bit_nat_eq_self)
qed

lemma used_Suc: "used (Suc n) = insert (of_nat n) (used n)"
  by (simp add: used_def lessThan_Suc)

lemma count_list_map_fst_filter:
  "distinct ks \<Longrightarrow> count_list (map fst (map (resend_wire p) (filter P ks))) s = (if s \<in> set ks \<and> P s then 1 else 0)"
  by (induction ks) (auto simp: resend_wire_def)

lemma sent_send:
  assumes "sent_inv mx n out c" and "n < 65536"
  shows "\<exists>n'. n' \<le> Suc n \<and> sent_inv mx n' out (snd (send d r c))"
proof (cases "fst (send d r c)")
  case (Inl e)
  then have "snd (send d r c) = c" by (auto simp: send_def Let_def split: if_splits)
  with assms show ?thesis by (intro exI[of _ n]) simp
next
  case (Inr u)
  define q where "q = (if length (ch_send_buffer c) \<ge> cc_message_buffer_size (ch_config c)
    then tl (ch_send_buffer c) else ch_send_buffer c)"
  define message where "message = \<lparr>cm_sequence = of_nat n, cm_data = d, cm_send_time = None,
    cm_acked = False, cm_retry_count = 0, cm_reliable = r\<rparr>"
  let ?c = "snd (send d r c)"
  have I: "cc_max_reliable_retries (ch_config c) = mx" "hm_ok (ch_pending_ack c)" "ch_send_sequence c = of_nat n"
    "distinct (map cm_sequence (ch_send_buffer c))" "cm_sequence ` set (ch_send_buffer c) \<subseteq> used n"
    "hm_dom (ch_pending_ack c) \<subseteq> used n" "set out \<subseteq> used n"
    "cm_sequence ` set (ch_send_buffer c) \<inter> hm_dom (ch_pending_ack c) = {}"
    "\<And>s. count_list out s + budget s c \<le> Suc mx"
    using assms(1) by (auto simp: sent_inv_def)
  have c': "ch_send_buffer ?c = q @ [message]" "ch_send_sequence ?c = of_nat (Suc n)"
    "ch_pending_ack ?c = ch_pending_ack c" "ch_config ?c = ch_config c"
    using Inr I(3) by (auto simp: send_def Let_def q_def message_def split: if_splits)
  have q: "set q \<subseteq> set (ch_send_buffer c)" "distinct (map cm_sequence q)"
    using I(4) by (cases "ch_send_buffer c"; auto simp: q_def)+
  have fresh: "of_nat n \<notin> cm_sequence ` set q" "of_nat n \<notin> hm_dom (ch_pending_ack c)" "of_nat n \<notin> set out"
    using used_fresh[OF assms(2)] I(5-7) q(1) by blast+
  have "count_list out s + budget s ?c \<le> Suc mx" for s
  proof (cases "s = of_nat n")
    case True
    then show ?thesis using fresh(3) I(1) c' by (simp add: budget_def message_def count_list_0_iff)
  next
    case False
    have "budget s ?c \<le> budget s c"
      using False q(1) c' by (auto simp: budget_def message_def split: option.splits)
    then show ?thesis using I(9)[of s] by linarith
  qed
  moreover have "cm_sequence ` set (ch_send_buffer ?c) \<subseteq> used (Suc n)" "hm_dom (ch_pending_ack ?c) \<subseteq> used (Suc n)"
    "set out \<subseteq> used (Suc n)" "cm_sequence ` set (ch_send_buffer ?c) \<inter> hm_dom (ch_pending_ack ?c) = {}"
    using image_mono[OF q(1), of cm_sequence] I(5-8) fresh(2) by (simp add: c' used_Suc message_def; blast)+
  moreover have "distinct (map cm_sequence (ch_send_buffer ?c))"
    using q(2) fresh(1) c' by (simp add: message_def)
  ultimately show ?thesis
    using I(1-3) c' by (intro exI[of _ "Suc n"]) (simp add: sent_inv_def)
qed

lemma sent_outgoing:
  assumes "sent_inv mx n out c" and "get_outgoing_message now c = (Some (s, w), c')"
  shows "sent_inv mx n (out @ [s]) c'"
proof -
  obtain m rest where buf: "ch_send_buffer c = m # rest" and s: "s = cm_sequence m"
    using assms(2) by (auto simp: get_outgoing_message_def Let_def split: list.splits)
  have I: "cc_max_reliable_retries (ch_config c) = mx" "hm_ok (ch_pending_ack c)"
    "s \<notin> cm_sequence ` set rest" "s \<in> used n" "s \<notin> hm_dom (ch_pending_ack c)"
    "\<And>s. count_list out s + budget s c \<le> Suc mx"
    using assms(1) buf s by (auto simp: sent_inv_def)
  have c': "ch_send_buffer c' = rest" "ch_config c' = ch_config c" "ch_send_sequence c' = ch_send_sequence c"
    "ch_pending_ack c' = (if cm_reliable m then hm_insert s (m\<lparr>cm_send_time := Some now\<rparr>) (ch_pending_ack c)
       else ch_pending_ack c)"
    using assms(2) buf s by (auto simp: get_outgoing_message_def Let_def)
  have "count_list (out @ [s]) t + budget t c' \<le> Suc mx" for t
  proof (cases "t = s")
    case True
    have "budget s c = Suc mx" using buf s I(1) by (simp add: budget_def)
    then have "count_list out s = 0" using I(6)[of s] by simp
    moreover have "budget s c' \<le> mx"
      using I(1,3,5) c' by (auto simp: budget_def hm_get_insert hm_get_None_iff split: option.splits)
    ultimately show ?thesis using True by simp
  next
    case False
    then have "budget t c' = budget t c" using buf s c' by (auto simp: budget_def hm_get_insert split: option.split)
    then show ?thesis using False I(6)[of t] by simp
  qed
  moreover have dom: "hm_dom (ch_pending_ack c') \<subseteq> insert s (hm_dom (ch_pending_ack c))"
    and "hm_ok (ch_pending_ack c')"
    using I(2) c'(4) by (auto simp: hm_dom_insert hm_ok_insert)
  moreover have old: "cm_sequence ` set rest \<inter> hm_dom (ch_pending_ack c) = {}" "hm_dom (ch_pending_ack c) \<subseteq> used n"
    and "cm_sequence ` set rest \<subseteq> used n" "set (out @ [s]) \<subseteq> used n" "distinct (map cm_sequence rest)"
    "ch_send_sequence c = of_nat n"
    using assms(1) buf I(4) by (auto simp: sent_inv_def)
  moreover have "hm_dom (ch_pending_ack c') \<subseteq> used n" using dom old(2) I(4) by blast
  moreover have "cm_sequence ` set rest \<inter> hm_dom (ch_pending_ack c') = {}" using dom old(1) I(3) by blast
  ultimately show ?thesis
    using I(1) unfolding sent_inv_def c'(1-3) by (intro conjI allI)
qed

lemma sent_inv_pending:
  assumes "sent_inv mx n out c" and "hm_ok p" and "hm_dom p \<subseteq> hm_dom (ch_pending_ack c)"
    and "set out' \<subseteq> used n" and "\<And>s. count_list out' s + budget s (c\<lparr>ch_pending_ack := p\<rparr>) \<le> Suc mx"
  shows "sent_inv mx n out' (c\<lparr>ch_pending_ack := p\<rparr>)"
proof -
  have a: "hm_dom (ch_pending_ack c) \<subseteq> used n"
    "cm_sequence ` set (ch_send_buffer c) \<inter> hm_dom (ch_pending_ack c) = {}"
    using assms(1) by (simp_all add: sent_inv_def)
  have "hm_dom p \<subseteq> used n" by (rule order.trans[OF assms(3) a(1)])
  moreover have "cm_sequence ` set (ch_send_buffer c) \<inter> hm_dom p = {}"
    using a(2) Int_mono[OF order.refl assms(3), of "cm_sequence ` set (ch_send_buffer c)"] by simp
  ultimately show ?thesis using assms by (simp add: sent_inv_def)
qed

lemma sent_resend:
  assumes "sent_inv mx n out c" and it: "is_iter_order it"
  shows "sent_inv mx n (out @ map fst (fst (get_retransmit_messages it now rto c)))
    (snd (get_retransmit_messages it now rto c))"
proof (cases "is_reliable (cc_delivery_mode (ch_config c))")
  case False
  then show ?thesis using assms by (simp add: get_retransmit_messages_def)
next
  case True
  let ?p = "ch_pending_ack c"
  have I: "cc_max_reliable_retries (ch_config c) = mx" "hm_ok ?p" "hm_dom ?p \<subseteq> used n"
    "cm_sequence ` set (ch_send_buffer c) \<inter> hm_dom ?p = {}"
    "\<And>s. count_list out s + budget s c \<le> Suc mx"
    using assms(1) by (auto simp: sent_inv_def)
  from retransmit_call[OF it I(2) True, of now rto] I(1) obtain p' where p':
    "get_retransmit_messages it now rto c =
      (map (resend_wire ?p) (filter (resends mx now rto ?p) (hm_keys it ?p)), c\<lparr>ch_pending_ack := p'\<rparr>)"
    "hm_ok p'" "\<And>s. hm_get p' s = Option.bind (hm_get ?p s) (after_call mx now rto)" by auto
  let ?rs = "map fst (map (resend_wire ?p) (filter (resends mx now rto ?p) (hm_keys it ?p)))"
  have keys: "set (hm_keys it ?p) = hm_dom ?p" by (rule set_hm_keys[OF it])
  have cnt: "count_list ?rs s = (if s \<in> hm_dom ?p \<and> resends mx now rto ?p s then 1 else 0)" for s
    using count_list_map_fst_filter[OF distinct_hm_keys[OF it I(2)]] keys by simp
  have dom: "hm_dom p' \<subseteq> hm_dom ?p"
  proof
    fix s assume "s \<in> hm_dom p'"
    then show "s \<in> hm_dom ?p" using p'(3)[of s] by (metis bind.bind_lzero hm_get_None_iff)
  qed
  have "count_list (out @ ?rs) s + budget s (c\<lparr>ch_pending_ack := p'\<rparr>) \<le> Suc mx" for s
  proof (cases "hm_get ?p s")
    case None
    then have "s \<notin> hm_dom ?p" by (simp add: hm_get_None_iff)
    then show ?thesis using None I(1) I(5)[of s] p'(3)[of s] cnt[of s] by (simp add: budget_def split: if_splits)
  next
    case (Some m)
    then have s: "s \<in> hm_dom ?p" by (metis hm_get_None_iff option.distinct(1))
    then have nb: "s \<notin> cm_sequence ` set (ch_send_buffer c)" using I(4) by blast
    have "count_list out s + (mx - cm_retry_count m) \<le> Suc mx"
      using I(1) I(5)[of s] nb Some by (simp add: budget_def)
    then show ?thesis
      using Some s nb p'(3)[of s] cnt[of s] I(1)
      by (auto simp: budget_def resends_def after_call_def bump_def)
  qed
  moreover have "set (out @ ?rs) \<subseteq> used n"
  proof -
    have "set ?rs \<subseteq> set (hm_keys it ?p)" by (auto simp: resend_wire_def)
    also have "\<dots> \<subseteq> used n" unfolding keys by (rule I(3))
    finally have "set ?rs \<subseteq> used n" .
    moreover have "set out \<subseteq> used n" using assms(1) by (simp add: sent_inv_def)
    ultimately show ?thesis by simp
  qed
  ultimately show ?thesis
    unfolding p'(1) fst_conv snd_conv by (intro sent_inv_pending[OF assms(1) p'(2) dom])
qed

lemma sent_ack: "sent_inv mx n out c \<Longrightarrow> sent_inv mx n out (acknowledge_message s c)"
proof -
  assume a: "sent_inv mx n out c"
  have "count_list out t + budget t (acknowledge_message s c) \<le> Suc mx" for t
  proof -
    have "budget t (acknowledge_message s c) \<le> budget t c"
      by (auto simp: budget_def acknowledge_message_def hm_get_remove split: option.splits)
    moreover have "count_list out t + budget t c \<le> Suc mx" using a by (simp add: sent_inv_def)
    ultimately show ?thesis by linarith
  qed
  moreover have "hm_dom (hm_remove s (ch_pending_ack c)) \<subseteq> hm_dom (ch_pending_ack c)"
    unfolding hm_dom_remove by blast
  moreover have "hm_ok (ch_pending_ack c)" "set out \<subseteq> used n" using a by (simp_all add: sent_inv_def)
  ultimately show ?thesis
    unfolding acknowledge_message_def by (intro sent_inv_pending[OF a]) (simp_all add: hm_ok_remove)
qed

lemma sent_fast: "sent_inv mx n out c \<Longrightarrow> sent_inv mx n out (mark_for_fast_retransmit now s c)"
proof (cases "hm_get (ch_pending_ack c) s")
  case (Some m)
  assume a: "sent_inv mx n out c"
  from Some have "s \<in> hm_dom (ch_pending_ack c)" by (metis hm_get_None_iff option.distinct(1))
  then have "hm_dom (ch_pending_ack (mark_for_fast_retransmit now s c)) = hm_dom (ch_pending_ack c)"
    using Some by (auto simp: mark_for_fast_retransmit_def hm_dom_insert insert_absorb)
  moreover have "budget t (mark_for_fast_retransmit now s c) = budget t c" for t
    using Some by (auto simp: budget_def mark_for_fast_retransmit_def hm_get_insert split: option.split)
  ultimately show ?thesis
    using a Some by (simp add: sent_inv_def) (simp add: mark_for_fast_retransmit_def hm_ok_insert)
qed (simp add: mark_for_fast_retransmit_def)

lemma sent_step:
  assumes "sent_inv mx n out c" and "sender_op_ok a" and "is_send a \<Longrightarrow> n < 65536"
  shows "\<exists>n'. n' \<le> n + (if is_send a then 1 else 0) \<and>
    sent_inv mx n' (out @ map fst (fst (sender_step a c))) (snd (sender_step a c))"
proof (cases a)
  case (Send d r)
  then show ?thesis using sent_send[OF assms(1), of d r] assms(3) by auto
next
  case (Outgoing now)
  then show ?thesis
  proof (cases "get_outgoing_message now c")
    case (Pair o' c')
    then show ?thesis
      using Outgoing assms(1) sent_outgoing[OF assms(1)]
      by (cases o') (auto simp: get_outgoing_message_def Let_def split: list.splits)
  qed
next
  case (Resend it now rto)
  then show ?thesis using sent_resend[OF assms(1)] assms(2) by auto
next
  case (Acked s)
  then show ?thesis using sent_ack[OF assms(1)] by auto
next
  case (Fast now s)
  then show ?thesis using sent_fast[OF assms(1)] by auto
qed

lemma sent_run:
  assumes "sent_inv mx n out c" and "list_all sender_op_ok as" and "n + length (filter is_send as) \<le> 65536"
  shows "count_list (out @ map fst (transmissions as c)) s \<le> Suc mx"
  using assms
proof (induction as arbitrary: n out c)
  case Nil
  then have "count_list out s + budget s c \<le> Suc mx" by (simp add: sent_inv_def)
  then show ?case by simp
next
  case (Cons a as)
  obtain o' c' where st: "sender_step a c = (o', c')" by fastforce
  obtain n' where n': "n' \<le> n + (if is_send a then 1 else 0)" "sent_inv mx n' (out @ map fst o') c'"
    using sent_step[OF Cons.prems(1), of a] Cons.prems(2,3) st by (auto split: if_splits)
  then show ?case using Cons.IH[OF n'(2)] Cons.prems(2,3) st by (auto split: if_splits)
qed

section \<open>A message that is never acknowledged\<close>

lemma filter_resends:
  "distinct ks \<Longrightarrow> filter (\<lambda>x. fst x = s) (map (resend_wire p) (filter P ks)) =
     (if s \<in> set ks \<and> P s then [resend_wire p s] else [])"
  by (induction ks) (auto simp: resend_wire_def)

lemma resend_one:
  assumes "is_iter_order it" and "hm_ok (ch_pending_ack c)" and "is_reliable (cc_delivery_mode (ch_config c))"
    and m: "hm_get (ch_pending_ack c) s = Some m" "due now rto m"
  obtains p' where "snd (sender_step (Resend it now rto) c) = c\<lparr>ch_pending_ack := p'\<rparr>" "hm_ok p'"
    "filter (\<lambda>x. fst x = s) (fst (sender_step (Resend it now rto) c)) =
       (if cm_retry_count m < cc_max_reliable_retries (ch_config c) then [(s, wire_data s (cm_data m))] else [])"
    "hm_get p' s = (if cm_retry_count m < cc_max_reliable_retries (ch_config c) then Some (bump now m) else None)"
proof -
  let ?p = "ch_pending_ack c" and ?mx = "cc_max_reliable_retries (ch_config c)"
  from retransmit_call[OF assms(1-3), of now rto] obtain p' where p':
    "get_retransmit_messages it now rto c =
      (map (resend_wire ?p) (filter (resends ?mx now rto ?p) (hm_keys it ?p)), c\<lparr>ch_pending_ack := p'\<rparr>)"
    "hm_ok p'" "\<And>s. hm_get p' s = Option.bind (hm_get ?p s) (after_call ?mx now rto)" by auto
  have s: "s \<in> set (hm_keys it ?p)"
    using m(1) set_hm_keys[OF assms(1), of ?p] by (metis hm_get_None_iff option.distinct(1))
  have r: "resends ?mx now rto ?p s \<longleftrightarrow> cm_retry_count m < ?mx" using m by (simp add: resends_def)
  show ?thesis
    by (rule that[of p'])
      (use p' m s r filter_resends[OF distinct_hm_keys[OF assms(1,2)]] in
        \<open>simp_all add: after_call_def resend_wire_def\<close>)
qed

fun spaced_calls :: "duration \<Rightarrow> instant \<Rightarrow> (u16 iter_order \<times> instant) list \<Rightarrow> bool" where
  "spaced_calls gap t [] = True"
| "spaced_calls gap t ((it, now) # cs) =
     (is_iter_order it \<and> gap \<le> duration_since now t \<and> spaced_calls gap now cs)"

definition resend_all :: "duration \<Rightarrow> (u16 iter_order \<times> instant) list \<Rightarrow> sender_op list" where
  "resend_all rto cs = map (\<lambda>(it, now). Resend it now rto) cs"

lemma backoff_le: "backoff_rto rto m \<le> rto * 2 ^ MAX_BACKOFF_EXPONENT"
  by (simp add: backoff_rto_def)

lemma unacked_run:
  assumes "is_reliable (cc_delivery_mode (ch_config c))" and "hm_ok (ch_pending_ack c)"
    and "hm_get (ch_pending_ack c) s = Some m" and "cm_send_time m = Some t"
    and "cm_retry_count m \<le> cc_max_reliable_retries (ch_config c)"
    and "spaced_calls (rto * 2 ^ MAX_BACKOFF_EXPONENT) t cs"
    and "length cs = Suc (cc_max_reliable_retries (ch_config c) - cm_retry_count m)"
  shows "hm_get (ch_pending_ack (fold (\<lambda>a c. snd (sender_step a c)) (resend_all rto cs) c)) s = None \<and>
    filter (\<lambda>x. fst x = s) (transmissions (resend_all rto cs) c) =
      replicate (cc_max_reliable_retries (ch_config c) - cm_retry_count m) (s, wire_data s (cm_data m))"
  using assms
proof (induction cs arbitrary: c m t)
  case Nil
  then show ?case by simp
next
  case (Cons x xs)
  obtain it now where x: "x = (it, now)" by fastforce
  let ?mx = "cc_max_reliable_retries (ch_config c)"
  have sp: "is_iter_order it" "rto * 2 ^ MAX_BACKOFF_EXPONENT \<le> duration_since now t"
    "spaced_calls (rto * 2 ^ MAX_BACKOFF_EXPONENT) now xs" using Cons.prems(6) x by simp_all
  have "due now rto m"
    using Cons.prems(4) sp(2) backoff_le[of rto m] by (simp add: due_def)
  from resend_one[OF sp(1) Cons.prems(2,1,3) this] obtain p' where p':
    "snd (sender_step (Resend it now rto) c) = c\<lparr>ch_pending_ack := p'\<rparr>" "hm_ok p'"
    "filter (\<lambda>x. fst x = s) (fst (sender_step (Resend it now rto) c)) =
       (if cm_retry_count m < ?mx then [(s, wire_data s (cm_data m))] else [])"
    "hm_get p' s = (if cm_retry_count m < ?mx then Some (bump now m) else None)" by metis
  have run: "transmissions (resend_all rto (x # xs)) c =
      fst (sender_step (Resend it now rto) c) @ transmissions (resend_all rto xs) (c\<lparr>ch_pending_ack := p'\<rparr>)"
    "fold (\<lambda>a c. snd (sender_step a c)) (resend_all rto (x # xs)) c =
      fold (\<lambda>a c. snd (sender_step a c)) (resend_all rto xs) (c\<lparr>ch_pending_ack := p'\<rparr>)"
    using p'(1) by (simp_all add: resend_all_def x case_prod_unfold)
  show ?case
  proof (cases "cm_retry_count m < ?mx")
    case True
    then have "?mx - cm_retry_count m = Suc (?mx - cm_retry_count (bump now m))" by (simp add: bump_def)
    moreover have "hm_get (ch_pending_ack (fold (\<lambda>a c. snd (sender_step a c)) (resend_all rto xs) (c\<lparr>ch_pending_ack := p'\<rparr>))) s = None \<and>
      filter (\<lambda>x. fst x = s) (transmissions (resend_all rto xs) (c\<lparr>ch_pending_ack := p'\<rparr>)) =
      replicate (?mx - cm_retry_count (bump now m)) (s, wire_data s (cm_data (bump now m)))"
      using Cons.prems(1,7) p'(2,4) True sp(3) Cons.IH[of "c\<lparr>ch_pending_ack := p'\<rparr>" "bump now m" now]
      by (simp add: bump_def)
    ultimately show ?thesis
      unfolding run using p'(3) True by (simp add: bump_def)
  next
    case False
    then have "xs = []" using Cons.prems(7) by simp
    then show ?thesis unfolding run using p'(3,4) False by (simp add: resend_all_def)
  qed
qed

section \<open>Properties\<close>

text \<open>Over any run of a channel's sending operations with at most 65536 messages, no sequence
  number goes out more often than once and the configured retries.\<close>

theorem retransmissions_bounded:
  assumes "list_all sender_op_ok as" and "length (filter is_send as) \<le> 65536"
  shows "count_list (map fst (transmissions as (Channel_new ident cfg))) s \<le> Suc (cc_max_reliable_retries cfg)"
proof -
  have "sent_inv (cc_max_reliable_retries cfg) 0 [] (Channel_new ident cfg)"
    by (simp add: sent_inv_def Channel_new_def budget_def)
  from sent_run[OF this assms(1)] assms(2) show ?thesis by simp
qed

definition small_config :: channel_config where
  "small_config = \<lparr>cc_delivery_mode = ReliableUnordered, cc_max_message_size = 10, cc_message_buffer_size = 2,
     cc_block_on_full = False, cc_ordered_buffer_timeout = 9, cc_max_ordered_buffer_size = 4,
     cc_max_reliable_retries = 2, cc_priority = 0\<rparr>"

theorem retransmissions_bounded_witness:
  "count_list (map fst (transmissions [Send [1] True, Outgoing 0, Resend id 9 1, Resend id 99 1, Fast 100 0, Resend id 999 1]
     (Channel_new 0 small_config))) 0 \<le> Suc (cc_max_reliable_retries small_config)"
  by (rule retransmissions_bounded) (simp_all add: is_iter_order_def)

text \<open>C14: a reliable message that is never acknowledged is transmitted again exactly as often as the
  retries allow and is then given up, as soon as that many calls have been made far enough apart.\<close>

theorem unacked_message_given_up:
  assumes "is_reliable (cc_delivery_mode (ch_config c))" and "hm_ok (ch_pending_ack c)"
    and "hm_get (ch_pending_ack c) s = Some m" and "cm_send_time m = Some t"
    and "cm_retry_count m = 0"
    and "spaced_calls (rto * 2 ^ MAX_BACKOFF_EXPONENT) t cs"
    and "length cs = Suc (cc_max_reliable_retries (ch_config c))"
  shows "hm_get (ch_pending_ack (fold (\<lambda>a c. snd (sender_step a c)) (resend_all rto cs) c)) s = None \<and>
    filter (\<lambda>x. fst x = s) (transmissions (resend_all rto cs) c) =
      replicate (cc_max_reliable_retries (ch_config c)) (s, wire_data s (cm_data m))"
  using unacked_run[OF assms(1-4) _ assms(6)] assms(5,7) by simp

definition sent_once :: channel where
  "sent_once = snd (get_outgoing_message 0 (snd (send [7] True (Channel_new 0 small_config))))"

theorem unacked_message_given_up_witness:
  "filter (\<lambda>x. fst x = 0) (transmissions (resend_all 1 [(id, 40), (id, 80), (id, 120)]) sent_once) =
     [(0, [0, 0, 7]), (0, [0, 0, 7])]"
proof -
  have w: "wire_data 0 [7] = [0, 0, 7]" by code_simp
  have p: "ch_pending_ack sent_once = [(0, \<lparr>cm_sequence = 0, cm_data = [7], cm_send_time = Some 0,
      cm_acked = False, cm_retry_count = 0, cm_reliable = True\<rparr>)]" "ch_config sent_once = small_config"
    by (simp_all add: sent_once_def send_def Channel_new_def get_outgoing_message_def small_config_def hm_insert_def)
  have "filter (\<lambda>x. fst x = 0) (transmissions (resend_all 1 [(id, 40), (id, 80), (id, 120)]) sent_once) =
     replicate (cc_max_reliable_retries (ch_config sent_once)) (0, wire_data 0 (cm_data (snd (hd (ch_pending_ack sent_once)))))"
    by (rule unacked_message_given_up[where t = 0, THEN conjunct2])
      (simp_all add: p small_config_def is_reliable_def hm_ok_def hm_get_def is_iter_order_def
        duration_since_def MAX_BACKOFF_EXPONENT_def)
  then show ?thesis by (simp add: p w small_config_def numeral_2_eq_2)
qed

text \<open>The queue of a channel never holds more messages than its configuration allows (or one, if
  it allows none): a full queue refuses the message or drops its oldest.\<close>

theorem send_queue_bounded:
  assumes "list_all sender_op_ok as"
  shows "length (ch_send_buffer (fold (\<lambda>a c. snd (sender_step a c)) as (Channel_new ident cfg)))
    \<le> max 1 (cc_message_buffer_size cfg)"
  using sender.run_inv[where as = as and s = "Channel_new ident cfg" and k = "cc_message_buffer_size cfg"] assms
  by (auto simp: list_all_iff queue_inv_def Channel_new_def)

theorem send_queue_bounded_witness:
  "length (ch_send_buffer (fold (\<lambda>a c. snd (sender_step a c)) [Send [1] True, Send [2] False, Send [3] True]
     (Channel_new 0 small_config))) \<le> max 1 (cc_message_buffer_size small_config)"
  by (rule send_queue_bounded) simp

end
