(* ===== verification/Reliability.thy ===== *)
theory Reliability
  imports Config Sequence
begin

text \<open>
  Packet-level reliability (\<open>gbnet/src/reliability.rs\<close>): the circular buffer of received sequence
  numbers, the acknowledgement word, the packets in flight, the estimation of the round-trip time
  and the retransmission timeout, and the loss window.

  A shift by 64 is what a release build does with it: the shift amount is taken modulo 64.
\<close>

section \<open>The sequence buffer\<close>

record 'a sequence_buffer =
  sb_entries :: "(u16 \<times> 'a) option list"
  sb_sequence :: u16
  sb_size :: nat

definition SequenceBuffer_new :: "nat \<Rightarrow> 'a sequence_buffer" where
  "SequenceBuffer_new n = \<lparr>sb_entries = replicate n None, sb_sequence = 0, sb_size = n\<rparr>"

text \<open>The loop that advances \<open>sequence\<close> and clears the slots it passes.\<close>

fun clear_ahead :: "nat \<Rightarrow> 'a sequence_buffer \<Rightarrow> 'a sequence_buffer" where
  "clear_ahead 0 b = b"
| "clear_ahead (Suc n) b =
     (let s = sb_sequence b + 1
      in clear_ahead n (b\<lparr>sb_sequence := s, sb_entries := (sb_entries b)[unat s mod sb_size b := None]\<rparr>))"

definition SequenceBuffer_insert :: "u16 \<Rightarrow> 'a \<Rightarrow> 'a sequence_buffer \<Rightarrow> 'a sequence_buffer" where
  "SequenceBuffer_insert sequence data b =
     (let b1 = (if sequence_greater_than sequence (sb_sequence b)
                then let diff = nat (sequence_diff sequence (sb_sequence b))
                     in if diff < sb_size b then clear_ahead diff b
                        else b\<lparr>sb_entries := map (\<lambda>_. None) (sb_entries b), sb_sequence := sequence\<rparr>
                else b)
      in b1\<lparr>sb_entries := (sb_entries b1)[unat sequence mod sb_size b1 := Some (sequence, data)]\<rparr>)"

definition exists :: "u16 \<Rightarrow> 'a sequence_buffer \<Rightarrow> bool" where
  "exists sequence b \<longleftrightarrow>
     (case sb_entries b ! (unat sequence mod sb_size b) of
        Some (stored_seq, _) \<Rightarrow> stored_seq = sequence
      | None \<Rightarrow> False)"

definition SequenceBuffer_get :: "u16 \<Rightarrow> 'a sequence_buffer \<Rightarrow> 'a option" where
  "SequenceBuffer_get sequence b =
     (case sb_entries b ! (unat sequence mod sb_size b) of
        Some (stored_seq, data) \<Rightarrow> if stored_seq = sequence then Some data else None
      | None \<Rightarrow> None)"

section \<open>The endpoint\<close>

definition INITIAL_RTO_MILLIS :: nat where "INITIAL_RTO_MILLIS = 100"
definition ACK_BITS_WINDOW :: nat where "ACK_BITS_WINDOW = 64"
definition RTT_ALPHA :: fl where "RTT_ALPHA = Fin (1 / 8)"
definition RTT_BETA :: fl where "RTT_BETA = Fin (1 / 4)"
definition MIN_RTO_MS :: fl where "MIN_RTO_MS = Fin 50"
definition MAX_RTO_MS :: fl where "MAX_RTO_MS = Fin 2000"
definition LOSS_WINDOW_SIZE :: nat where "LOSS_WINDOW_SIZE = 256"
definition FAST_RETRANSMIT_THRESHOLD :: u8 where "FAST_RETRANSMIT_THRESHOLD = 3"

record sent_packet_record =
  sp_channel_id :: u8
  sp_channel_sequence :: u16
  sp_send_time :: instant
  sp_size :: nat
  sp_nack_count :: u8

record reliable_endpoint =
  re_local_sequence :: u16
  re_remote_sequence :: u16
  re_ack_bits :: u64
  re_sent_packets :: "(u16, sent_packet_record) hash_map"
  re_received_packets :: "bool sequence_buffer"
  re_max_sequence_distance :: u16
  re_max_in_flight :: nat
  re_srtt :: fl
  re_rttvar :: fl
  re_rto :: duration
  re_has_rtt_sample :: bool
  re_loss_window :: "bool list"
  re_loss_window_index :: nat
  re_loss_window_count :: nat
  re_total_packets_sent :: nat
  re_total_packets_acked :: nat
  re_total_packets_lost :: nat
  re_packets_evicted :: nat
  re_bytes_sent :: nat
  re_bytes_acked :: nat

definition ReliableEndpoint_new :: "nat \<Rightarrow> reliable_endpoint" where
  "ReliableEndpoint_new buffer_size =
     \<lparr>re_local_sequence = 0, re_remote_sequence = 0, re_ack_bits = 0, re_sent_packets = [],
      re_received_packets = SequenceBuffer_new buffer_size,
      re_max_sequence_distance = DEFAULT_MAX_SEQUENCE_DISTANCE,
      re_max_in_flight = DEFAULT_MAX_IN_FLIGHT, re_srtt = Fin 0, re_rttvar = Fin 0,
      re_rto = from_millis INITIAL_RTO_MILLIS, re_has_rtt_sample = False,
      re_loss_window = replicate LOSS_WINDOW_SIZE False, re_loss_window_index = 0,
      re_loss_window_count = 0, re_total_packets_sent = 0, re_total_packets_acked = 0,
      re_total_packets_lost = 0, re_packets_evicted = 0, re_bytes_sent = 0, re_bytes_acked = 0\<rparr>"

definition endpoint_with_max_in_flight :: "nat \<Rightarrow> reliable_endpoint \<Rightarrow> reliable_endpoint" where
  "endpoint_with_max_in_flight m e = e\<lparr>re_max_in_flight := m\<rparr>"

definition next_sequence :: "reliable_endpoint \<Rightarrow> u16 \<times> reliable_endpoint" where
  "next_sequence e = (re_local_sequence e, e\<lparr>re_local_sequence := re_local_sequence e + 1\<rparr>)"

definition evict_worst_in_flight :: "u16 iter_order \<Rightarrow> reliable_endpoint \<Rightarrow> reliable_endpoint" where
  "evict_worst_in_flight it e =
     (case hm_oldest it sp_send_time (re_sent_packets e) of
        None \<Rightarrow> e
      | Some s \<Rightarrow> e\<lparr>re_sent_packets := hm_remove s (re_sent_packets e),
                    re_packets_evicted := re_packets_evicted e + 1\<rparr>)"

definition on_packet_sent :: "u16 iter_order \<Rightarrow> u16 \<Rightarrow> instant \<Rightarrow> u8 \<Rightarrow> u16 \<Rightarrow> nat \<Rightarrow>
    reliable_endpoint \<Rightarrow> reliable_endpoint" where
  "on_packet_sent it sequence send_time channel_id channel_sequence n e =
     (let e1 = (if hm_len (re_sent_packets e) \<ge> re_max_in_flight e then evict_worst_in_flight it e else e)
      in e1\<lparr>re_sent_packets := hm_insert sequence
              \<lparr>sp_channel_id = channel_id, sp_channel_sequence = channel_sequence,
               sp_send_time = send_time, sp_size = n, sp_nack_count = 0\<rparr> (re_sent_packets e1),
            re_total_packets_sent := re_total_packets_sent e1 + 1,
            re_bytes_sent := re_bytes_sent e1 + n\<rparr>)"

text \<open>Shifts of a release build: the amount modulo 64.\<close>

definition shl_u64 :: "u64 \<Rightarrow> nat \<Rightarrow> u64" where
  "shl_u64 w n = push_bit (n mod 64) w"

definition Endpoint_on_packet_received :: "u16 \<Rightarrow> reliable_endpoint \<Rightarrow> reliable_endpoint" where
  "Endpoint_on_packet_received sequence e =
     (let distance = \<bar>sequence_diff sequence (re_remote_sequence e)\<bar>
      in if distance > uint (re_max_sequence_distance e) then e
         else if exists sequence (re_received_packets e) then e
         else
           let e1 = e\<lparr>re_received_packets := SequenceBuffer_insert sequence True (re_received_packets e)\<rparr>
           in if sequence_greater_than sequence (re_remote_sequence e1)
              then let diff = nat (sequence_diff sequence (re_remote_sequence e1));
                       bits = (if diff \<le> ACK_BITS_WINDOW
                               then shl_u64 (re_ack_bits e1) diff OR shl_u64 1 (diff - 1)
                               else 0)
                   in e1\<lparr>re_ack_bits := bits, re_remote_sequence := sequence\<rparr>
              else let diff = nat (sequence_diff (re_remote_sequence e1) sequence)
                   in if diff > 0 \<and> diff \<le> ACK_BITS_WINDOW
                      then e1\<lparr>re_ack_bits := re_ack_bits e1 OR shl_u64 1 (diff - 1)\<rparr>
                      else e1)"

section \<open>Round-trip time and loss\<close>

definition update_rtt :: "fl \<Rightarrow> reliable_endpoint \<Rightarrow> reliable_endpoint" where
  "update_rtt sample_ms e =
     (let e1 = (if \<not> re_has_rtt_sample e
                then e\<lparr>re_srtt := sample_ms, re_rttvar := fl_div f64 sample_ms (Fin 2), re_has_rtt_sample := True\<rparr>
                else
                  let rttvar = fl_add f64 (fl_mul f64 (fl_sub f64 (Fin 1) RTT_BETA) (re_rttvar e))
                                 (fl_mul f64 RTT_BETA (fl_abs (fl_sub f64 sample_ms (re_srtt e))));
                      srtt = fl_add f64 (fl_mul f64 (fl_sub f64 (Fin 1) RTT_ALPHA) (re_srtt e))
                               (fl_mul f64 RTT_ALPHA sample_ms)
                  in e\<lparr>re_rttvar := rttvar, re_srtt := srtt\<rparr>);
          rto_ms = fl_clamp (fl_add f64 (re_srtt e1) (fl_mul f64 (Fin 4) (re_rttvar e1))) MIN_RTO_MS MAX_RTO_MS
      in e1\<lparr>re_rto := from_millis (fl_to_nat 64 rto_ms)\<rparr>)"

definition record_loss_sample :: "bool \<Rightarrow> reliable_endpoint \<Rightarrow> reliable_endpoint" where
  "record_loss_sample lost e =
     e\<lparr>re_loss_window := (re_loss_window e)[re_loss_window_index e mod LOSS_WINDOW_SIZE := lost],
       re_loss_window_index := re_loss_window_index e + 1,
       re_loss_window_count := (if re_loss_window_count e < LOSS_WINDOW_SIZE
                                then re_loss_window_count e + 1 else re_loss_window_count e)\<rparr>"

definition packet_loss_percent :: "reliable_endpoint \<Rightarrow> fl" where
  "packet_loss_percent e =
     (if re_loss_window_count e = 0 then Fin 0
      else let lost = length (filter (\<lambda>l. l) (take (min (re_loss_window_count e) LOSS_WINDOW_SIZE) (re_loss_window e)))
           in fl_div f32 (fl_of_nat f32 lost) (fl_of_nat f32 (re_loss_window_count e)))"

definition get_ack_info :: "reliable_endpoint \<Rightarrow> u16 \<times> u64" where
  "get_ack_info e = (re_remote_sequence e, re_ack_bits e)"

section \<open>Processing acknowledgements\<close>

definition ack_single :: "instant \<Rightarrow> u16 \<Rightarrow> reliable_endpoint \<Rightarrow> (u8 \<times> u16) option \<times> reliable_endpoint" where
  "ack_single now sequence e =
     (case hm_get (re_sent_packets e) sequence of
        None \<Rightarrow> (None, e)
      | Some r \<Rightarrow>
          let e1 = e\<lparr>re_sent_packets := hm_remove sequence (re_sent_packets e)\<rparr>;
              rtt_sample = fl_mul f64 (as_secs_f64 (duration_since now (sp_send_time r))) (Fin 1000);
              e2 = update_rtt rtt_sample e1;
              e3 = e2\<lparr>re_total_packets_acked := re_total_packets_acked e2 + 1,
                      re_bytes_acked := re_bytes_acked e2 + sp_size r\<rparr>
          in (Some (sp_channel_id r, sp_channel_sequence r), record_loss_sample False e3))"

definition acked_seqs :: "u16 \<Rightarrow> u64 \<Rightarrow> reliable_endpoint \<Rightarrow> u16 list" where
  "acked_seqs ack bits e =
     (if hm_contains_key (re_sent_packets e) ack then [ack] else []) @
     filter (\<lambda>s. hm_contains_key (re_sent_packets e) s)
       (map (\<lambda>i. ack - of_nat (i + 1)) (filter (\<lambda>i. bits AND push_bit i 1 \<noteq> 0) [0..<ACK_BITS_WINDOW]))"

fun ack_all :: "instant \<Rightarrow> u16 list \<Rightarrow> reliable_endpoint \<Rightarrow> (u8 \<times> u16) list \<times> reliable_endpoint" where
  "ack_all now [] e = ([], e)"
| "ack_all now (s # ss) e =
     (case ack_single now s e of (pair, e1) \<Rightarrow>
        case ack_all now ss e1 of (acked, e2) \<Rightarrow>
          ((case pair of None \<Rightarrow> acked | Some p \<Rightarrow> p # acked), e2))"

text \<open>\<open>u8::saturating_add\<close>.\<close>

definition saturating_inc :: "u8 \<Rightarrow> u8" where
  "saturating_inc w = (if w = 255 then 255 else w + 1)"

definition nack_one :: "u16 \<Rightarrow> u64 \<Rightarrow> u16 \<Rightarrow> (u8 \<times> u16) list \<times> reliable_endpoint \<Rightarrow>
    (u8 \<times> u16) list \<times> reliable_endpoint" where
  "nack_one ack bits sequence st =
     (case st of (fast, e) \<Rightarrow>
        if \<not> sequence_greater_than ack sequence then st
        else
          let diff = sequence_diff ack sequence
          in if diff \<le> 0 \<or> diff > int ACK_BITS_WINDOW then st
             else if bits AND push_bit (nat diff - 1) 1 \<noteq> 0 then st
             else case hm_get (re_sent_packets e) sequence of
                    None \<Rightarrow> st
                  | Some r \<Rightarrow>
                      let r1 = r\<lparr>sp_nack_count := saturating_inc (sp_nack_count r)\<rparr>
                      in (if sp_nack_count r1 = FAST_RETRANSMIT_THRESHOLD
                          then fast @ [(sp_channel_id r1, sp_channel_sequence r1)] else fast,
                          e\<lparr>re_sent_packets := hm_insert sequence r1 (re_sent_packets e)\<rparr>))"

definition process_acks :: "u16 iter_order \<Rightarrow> instant \<Rightarrow> u16 \<Rightarrow> u64 \<Rightarrow> reliable_endpoint \<Rightarrow>
    ((u8 \<times> u16) list \<times> (u8 \<times> u16) list) \<times> reliable_endpoint" where
  "process_acks it now ack bits e =
     (case ack_all now (acked_seqs ack bits e) e of (acked, e1) \<Rightarrow>
        case fold (nack_one ack bits) (hm_keys it (re_sent_packets e1)) ([], e1) of (fast, e2) \<Rightarrow>
          ((acked, fast), e2))"

definition is_in_flight :: "u16 \<Rightarrow> reliable_endpoint \<Rightarrow> bool" where
  "is_in_flight sequence e = hm_contains_key (re_sent_packets e) sequence"

record reliability_stats =
  rs_packets_in_flight :: nat
  rs_local_sequence :: u16
  rs_remote_sequence :: u16
  rs_srtt_ms :: fl
  rs_rttvar_ms :: fl
  rs_rto_ms :: fl
  rs_packet_loss :: fl
  rs_total_sent :: nat
  rs_total_acked :: nat
  rs_total_lost :: nat
  rs_packets_evicted :: nat

definition Endpoint_stats :: "reliable_endpoint \<Rightarrow> reliability_stats" where
  "Endpoint_stats e =
     \<lparr>rs_packets_in_flight = hm_len (re_sent_packets e), rs_local_sequence = re_local_sequence e,
      rs_remote_sequence = re_remote_sequence e, rs_srtt_ms = re_srtt e, rs_rttvar_ms = re_rttvar e,
      rs_rto_ms = fl_of_nat f64 (re_rto e div 1000000), rs_packet_loss = packet_loss_percent e,
      rs_total_sent = re_total_packets_sent e, rs_total_acked = re_total_packets_acked e,
      rs_total_lost = re_total_packets_lost e, rs_packets_evicted = re_packets_evicted e\<rparr>"

text \<open>The packets in flight are a table that makes room by dropping its oldest entry.\<close>

interpretation in_flight: evicting_table re_sent_packets sp_send_time evict_worst_in_flight
proof
  fix it :: "u16 iter_order" and e :: reliable_endpoint
  show "re_sent_packets (evict_worst_in_flight it e) =
      (case hm_oldest it sp_send_time (re_sent_packets e) of
         None \<Rightarrow> re_sent_packets e | Some k \<Rightarrow> hm_remove k (re_sent_packets e))"
    by (simp add: evict_worst_in_flight_def split: option.split)
qed

end
