(* ===== verification/Reliability_Facts.thy ===== *)
theory Reliability_Facts
  imports Reliability Channel_Order
begin

text \<open>
  What the reliable endpoint promises: the acknowledgement word says exactly which packets arrived,
  acknowledgements release exactly the packets they cover, the number of packets in flight stays
  bounded, and the retransmission timeout stays within its limits whatever the clock measures. Two
  exceptions are stated as theorems of their own: a gap of exactly 64, and packet 0.
\<close>

section \<open>The sequence buffer\<close>

definition sb_ok :: "(u16 \<Rightarrow> bool) \<Rightarrow> 'a sequence_buffer \<Rightarrow> bool" where
  "sb_ok P b \<longleftrightarrow> sb_size b > 0 \<and> length (sb_entries b) = sb_size b \<and>
     (\<forall>s d. Some (s, d) \<in> set (sb_entries b) \<longrightarrow> P s)"

lemma clear_ahead_ok: "sb_ok P b \<Longrightarrow> sb_ok P (clear_ahead n b)"
proof (induction n arbitrary: b)
  case (Suc n)
  let ?b = "b\<lparr>sb_sequence := sb_sequence b + 1, sb_entries := (sb_entries b)[unat (sb_sequence b + 1) mod sb_size b := None]\<rparr>"
  have "sb_ok P ?b"
    using Suc.prems by (auto simp: sb_ok_def dest!: set_update_subset_insert[THEN subsetD])
  from Suc.IH[OF this] show ?case by (simp add: Let_def)
qed simp

lemma insert_ok:
  assumes "sb_ok P b"
  shows "sb_ok (\<lambda>s. P s \<or> s = q) (SequenceBuffer_insert q d b)"
proof -
  define b1 where "b1 = (if sequence_greater_than q (sb_sequence b)
                then let diff = nat (sequence_diff q (sb_sequence b))
                     in if diff < sb_size b then clear_ahead diff b
                        else b\<lparr>sb_entries := map (\<lambda>_. None) (sb_entries b), sb_sequence := q\<rparr>
                else b)"
  have "sb_ok P b1"
    using assms clear_ahead_ok[OF assms] by (auto simp: b1_def Let_def) (auto simp: sb_ok_def)
  moreover have "SequenceBuffer_insert q d b = b1\<lparr>sb_entries := (sb_entries b1)[unat q mod sb_size b1 := Some (q, d)]\<rparr>"
    by (simp add: SequenceBuffer_insert_def b1_def Let_def)
  ultimately show ?thesis by (auto simp: sb_ok_def dest!: set_update_subset_insert[THEN subsetD])
qed

lemma exists_stored:
  assumes "sb_ok P b" and "exists s b"
  shows "P s"
proof -
  from assms(2) obtain d where "sb_entries b ! (unat s mod sb_size b) = Some (s, d)"
    by (auto simp: exists_def split: option.splits)
  moreover have "unat s mod sb_size b < length (sb_entries b)" using assms(1) by (simp add: sb_ok_def)
  ultimately have "Some (s, d) \<in> set (sb_entries b)" by (metis nth_mem)
  with assms(1) show ?thesis unfolding sb_ok_def by blast
qed

section \<open>The acknowledgement word\<close>

lemma bit_shl: "n < 64 \<Longrightarrow> bit (shl_u64 w n) j \<longleftrightarrow> j < 64 \<and> n \<le> j \<and> bit w (j - n)"
  by (auto simp: shl_u64_def bit_push_bit_iff)

definition covered_by :: "nat \<Rightarrow> nat set \<Rightarrow> u64 \<Rightarrow> bool" where
  "covered_by newest arrived bits \<longleftrightarrow>
     (\<forall>j<64. bit bits j \<longleftrightarrow> j + 1 \<le> newest \<and> newest - (j + 1) \<in> insert 0 arrived)"

definition ack_inv :: "nat \<Rightarrow> nat set \<Rightarrow> reliable_endpoint \<Rightarrow> bool" where
  "ack_inv newest arrived e \<longleftrightarrow>
     newest < 65536 \<and> newest \<in> insert 0 arrived \<and> arrived \<subseteq> {..newest} \<and>
     re_remote_sequence e = of_nat newest \<and> re_max_sequence_distance e = 32768 \<and>
     sb_ok (\<lambda>s. s \<in> of_nat ` arrived) (re_received_packets e) \<and>
     covered_by newest arrived (re_ack_bits e)"

text \<open>Arrivals below 65536, less than 32768 away from the newest, none exactly 64 ahead of it.\<close>

fun steady :: "nat \<Rightarrow> nat list \<Rightarrow> bool" where
  "steady newest [] = True"
| "steady newest (i # is) =
     (newest < i + 32768 \<and> i < newest + 32768 \<and> i < 65536 \<and> i \<noteq> newest + 64 \<and> steady (max newest i) is)"

lemma ack_newer:
  assumes inv: "ack_inv newest arrived e" and i: "newest < i" "i < newest + 32768" "i < 65536" "i \<noteq> newest + 64"
    and ne: "\<not> exists (of_nat i) (re_received_packets e)"
  shows "ack_inv i (insert i arrived) (Endpoint_on_packet_received (of_nat i) e)"
proof -
  let ?e = "Endpoint_on_packet_received (of_nat i) e"
  have d: "sequence_diff (of_nat i) (of_nat newest) = int (i - newest)"
    using index_diff[of newest i] i by simp
  have g: "sequence_greater_than (of_nat i) (of_nat newest)" using d i(1) by (simp add: sequence_greater_than_iff_diff)
  have nat_diff: "nat (int i - int newest) = i - newest" "i - newest - Suc 0 = i - Suc newest" by linarith+
  define bits where "bits = (if i - newest \<le> 64 then shl_u64 (re_ack_bits e) (i - newest) OR shl_u64 1 (i - newest - 1) else 0)"
  have e: "?e = e\<lparr>re_received_packets := SequenceBuffer_insert (of_nat i) True (re_received_packets e),
      re_ack_bits := bits, re_remote_sequence := of_nat i\<rparr>"
    using inv ne d g i nat_diff by (simp add: Endpoint_on_packet_received_def ack_inv_def Let_def bits_def ACK_BITS_WINDOW_def)
  have "bit bits j \<longleftrightarrow> j + 1 \<le> i \<and> i - (j + 1) \<in> insert 0 (insert i arrived)" if j: "j < 64" for j
  proof (cases "i - newest \<le> 64")
    case True
    then have lt: "i - newest < 64" using i(1,4) by linarith
    have b: "bit bits j \<longleftrightarrow> (i - newest \<le> j \<and> bit (re_ack_bits e) (j - (i - newest))) \<or> j = i - newest - 1"
      using True lt j by (auto simp: bits_def bit_or_iff bit_shl bit_1_iff)
    have old: "bit (re_ack_bits e) (j - (i - newest)) \<longleftrightarrow>
        j - (i - newest) + 1 \<le> newest \<and> newest - (j - (i - newest) + 1) \<in> insert 0 arrived"
      using inv j by (simp add: ack_inv_def covered_by_def)
    show ?thesis
    proof (cases "i - newest \<le> j")
      case True
      then have "newest - (j - (i - newest) + 1) = i - (j + 1)" using i(1) by linarith
      then show ?thesis using b old True i(1) by auto
    next
      case False
      show ?thesis
      proof (cases "j = i - newest - 1")
        case True
        then have "i - (j + 1) = newest" using i(1) by linarith
        then show ?thesis using b True inv i(1) by (auto simp: ack_inv_def)
      next
        case nj: False
        then have "newest < i - (j + 1)" "i - (j + 1) < i" using False by linarith+
        then show ?thesis using b nj False inv by (auto simp: ack_inv_def)
      qed
    qed
  next
    case False
    then have "newest < i - (j + 1)" using j by linarith
    then have "i - (j + 1) \<notin> insert 0 (insert i arrived)" using inv j False by (auto simp: ack_inv_def)
    with False show ?thesis by (simp add: bits_def)
  qed
  moreover have "sb_ok (\<lambda>s. s \<in> of_nat ` arrived \<or> s = of_nat i) (re_received_packets ?e)"
    using inv e by (simp add: ack_inv_def insert_ok)
  moreover have "(\<lambda>s. s \<in> of_nat ` arrived \<or> s = (of_nat i :: u16)) = (\<lambda>s. s \<in> of_nat ` insert i arrived)"
    by auto
  ultimately show ?thesis
    using inv e i(1,3) by (auto simp: ack_inv_def covered_by_def)
qed

lemma ack_older:
  assumes inv: "ack_inv newest arrived e" and i: "i \<le> newest" "newest < i + 32768"
    and ne: "\<not> exists (of_nat i) (re_received_packets e)"
  shows "ack_inv newest (insert i arrived) (Endpoint_on_packet_received (of_nat i) e)"
proof -
  let ?e = "Endpoint_on_packet_received (of_nat i) e"
  have d: "sequence_diff (of_nat newest) (of_nat i) = int (newest - i)"
    using index_diff[of i newest] i by simp
  then have d': "sequence_diff (of_nat i) (of_nat newest) = - int (newest - i)"
    using sequence_diff_antisym[of "of_nat i" "of_nat newest"] by simp
  then have g: "\<not> sequence_greater_than (of_nat i) (of_nat newest)" by (simp add: sequence_greater_than_iff_diff)
  have nat_diff: "nat (int newest - int i) = newest - i" by linarith
  define bits where "bits = (if 0 < newest - i \<and> newest - i \<le> 64 then re_ack_bits e OR shl_u64 1 (newest - i - 1) else re_ack_bits e)"
  have e: "?e = e\<lparr>re_received_packets := SequenceBuffer_insert (of_nat i) True (re_received_packets e), re_ack_bits := bits\<rparr>"
    using inv ne d d' g i nat_diff
    by (simp add: Endpoint_on_packet_received_def ack_inv_def Let_def bits_def ACK_BITS_WINDOW_def)
  have "bit bits j \<longleftrightarrow> j + 1 \<le> newest \<and> newest - (j + 1) \<in> insert 0 (insert i arrived)" if j: "j < 64" for j
  proof -
    have old: "bit (re_ack_bits e) j \<longleftrightarrow> j + 1 \<le> newest \<and> newest - (j + 1) \<in> insert 0 arrived"
      using inv j by (simp add: ack_inv_def covered_by_def)
    have new: "newest - (j + 1) = i \<and> j + 1 \<le> newest \<longleftrightarrow> j = newest - i - 1 \<and> 0 < newest - i"
      using i(1) by auto
    have "bit bits j \<longleftrightarrow> bit (re_ack_bits e) j \<or> (0 < newest - i \<and> newest - i \<le> 64 \<and> j = newest - i - 1)"
      using j by (auto simp: bits_def bit_or_iff bit_shl bit_1_iff)
    with old new j show ?thesis by auto
  qed
  moreover have "sb_ok (\<lambda>s. s \<in> of_nat ` arrived \<or> s = of_nat i) (re_received_packets ?e)"
    using inv e by (simp add: ack_inv_def insert_ok)
  moreover have "(\<lambda>s. s \<in> of_nat ` arrived \<or> s = (of_nat i :: u16)) = (\<lambda>s. s \<in> of_nat ` insert i arrived)"
    by auto
  ultimately show ?thesis
    using inv e i(1) by (auto simp: ack_inv_def covered_by_def)
qed

lemma ack_known:
  assumes inv: "ack_inv newest arrived e" and "i < 65536" and "exists (of_nat i) (re_received_packets e)"
  shows "i \<in> arrived" and "Endpoint_on_packet_received (of_nat i) e = e"
proof -
  have "sb_ok (\<lambda>s. s \<in> of_nat ` arrived) (re_received_packets e)" using inv by (simp add: ack_inv_def)
  from exists_stored[OF this assms(3)] obtain k where k: "k \<in> arrived" "(of_nat i :: u16) = of_nat k" by auto
  with inv have "k < 65536" by (auto simp: ack_inv_def)
  with k assms(2) have "k = i" using of_nat_u16_eq[of k i] of_nat_u16_eq[of i k] by (cases "k \<le> i") auto
  with k show "i \<in> arrived" by simp
  show "Endpoint_on_packet_received (of_nat i) e = e"
    using assms(3) by (simp add: Endpoint_on_packet_received_def Let_def)
qed

lemma ack_run:
  assumes "ack_inv newest arrived e" and "steady newest is"
  shows "\<exists>newest'. ack_inv newest' (arrived \<union> set is) (fold (\<lambda>i. Endpoint_on_packet_received (of_nat i)) is e)"
  using assms
proof (induction "is" arbitrary: newest arrived e)
  case Nil
  then show ?case by auto
next
  case (Cons i xs)
  have "ack_inv (max newest i) (insert i arrived) (Endpoint_on_packet_received (of_nat i) e)"
  proof (cases "exists (of_nat i) (re_received_packets e)")
    case True
    have "i \<in> arrived" "i \<le> newest" "Endpoint_on_packet_received (of_nat i) e = e"
      using ack_known[OF Cons.prems(1) _ True] Cons.prems by (auto simp: ack_inv_def)
    then show ?thesis using Cons.prems(1) by (simp add: insert_absorb max_def)
  next
    case False
    then show ?thesis
      using Cons.prems ack_newer[of newest arrived e i] ack_older[of newest arrived e i]
      by (cases "newest < i") (simp_all add: max_def)
  qed
  from Cons.IH[OF this] Cons.prems(2) show ?case by simp
qed

lemma ack_new: "n > 0 \<Longrightarrow> ack_inv 0 {} (ReliableEndpoint_new n)"
  by (simp add: ack_inv_def ReliableEndpoint_new_def SequenceBuffer_new_def sb_ok_def covered_by_def
      DEFAULT_MAX_SEQUENCE_DISTANCE_def)

section \<open>Processing acknowledgements\<close>

definition covered :: "u16 \<Rightarrow> u64 \<Rightarrow> u16 \<Rightarrow> bool" where
  "covered ack bits s \<longleftrightarrow> s = ack \<or> list_ex (\<lambda>i. bit bits i \<and> s = ack - of_nat (i + 1)) [0..<64]"

definition missing :: "u16 \<Rightarrow> u64 \<Rightarrow> u16 \<Rightarrow> bool" where
  "missing ack bits s \<longleftrightarrow> sequence_greater_than ack s \<and> sequence_diff ack s \<le> 64 \<and>
     \<not> bit bits (nat (sequence_diff ack s) - 1)"

definition channel_pair :: "sent_packet_record \<Rightarrow> u8 \<times> u16" where
  "channel_pair r = (sp_channel_id r, sp_channel_sequence r)"

definition nacked :: "sent_packet_record \<Rightarrow> sent_packet_record" where
  "nacked r = r\<lparr>sp_nack_count := saturating_inc (sp_nack_count r)\<rparr>"

lemma covered_iff: "covered ack bits s \<longleftrightarrow> s = ack \<or> (\<exists>i<64. bit bits i \<and> s = ack - of_nat (i + 1))"
  by (auto simp: covered_def list_ex_iff)

lemma acked_seqs_alt:
  "acked_seqs ack bits e = (if hm_contains_key (re_sent_packets e) ack then [ack] else []) @
     filter (\<lambda>s. hm_contains_key (re_sent_packets e) s) (map (\<lambda>i. ack - of_nat (i + 1)) (filter (bit bits) [0..<64]))"
  unfolding acked_seqs_def and_push_bit_1 ACK_BITS_WINDOW_def by (rule refl)

lemma set_acked_seqs:
  "set (acked_seqs ack bits e) = {s. covered ack bits s \<and> hm_get (re_sent_packets e) s \<noteq> None}"
  by (auto simp: acked_seqs_alt covered_iff hm_contains_key_def hm_get_def)

lemma small_u16_inj: "i < 65536 \<Longrightarrow> j < 65536 \<Longrightarrow> (of_nat i :: u16) = of_nat j \<longleftrightarrow> i = j"
  using of_nat_u16_eq[of i j] of_nat_u16_eq[of j i] by (cases "i \<le> j") auto

lemma distinct_acked_seqs: "distinct (acked_seqs ack bits e)"
proof -
  have zero: "ack - of_nat (i + 1) \<noteq> ack" if "i < 64" for i
  proof
    assume "ack - of_nat (i + 1) = ack"
    then have "- 1 = (of_nat i :: u16)" by simp
    moreover have "(- 1 :: u16) = of_nat 65535" by simp
    ultimately have "(of_nat i :: u16) = of_nat 65535" by metis
    then show False using that small_u16_inj[of i 65535] by simp
  qed
  have "inj_on (\<lambda>i. ack - of_nat (i + 1)) (set (filter (bit bits) [0..<64]))"
  proof (rule inj_onI)
    fix i j assume ij: "i \<in> set (filter (bit bits) [0..<64])" "j \<in> set (filter (bit bits) [0..<64])"
    assume "ack - of_nat (i + 1) = ack - of_nat (j + 1)"
    then have "(of_nat i :: u16) = of_nat j" by simp
    then show "i = j" using ij small_u16_inj[of i j] by simp
  qed
  then have "distinct (map (\<lambda>i. ack - of_nat (i + 1)) (filter (bit bits) [0..<64]))"
    by (simp add: distinct_map)
  then show ?thesis
    unfolding acked_seqs_alt using zero by (auto simp del: of_nat_add of_nat_Suc)
qed

lemma update_rtt_frame [simp]:
  "re_sent_packets (update_rtt x e) = re_sent_packets e"
  by (simp add: update_rtt_def Let_def)

lemma ack_single_spec:
  assumes "hm_get (re_sent_packets e) s = Some r"
  shows "fst (ack_single now s e) = Some (channel_pair r)"
    "re_sent_packets (snd (ack_single now s e)) = hm_remove s (re_sent_packets e)"
  using assms by (simp_all add: ack_single_def Let_def channel_pair_def record_loss_sample_def)

lemma ack_all_spec:
  assumes "distinct ss" and "\<forall>s\<in>set ss. hm_get (re_sent_packets e) s \<noteq> None"
  shows "fst (ack_all now ss e) = map (\<lambda>s. channel_pair (the (hm_get (re_sent_packets e) s))) ss"
    "re_sent_packets (snd (ack_all now ss e)) = fold hm_remove ss (re_sent_packets e)"
proof -
  have "fst (ack_all now ss e) = map (\<lambda>s. channel_pair (the (hm_get (re_sent_packets e) s))) ss \<and>
    re_sent_packets (snd (ack_all now ss e)) = fold hm_remove ss (re_sent_packets e)"
    using assms
  proof (induction ss arbitrary: e)
    case (Cons s ss)
    obtain p e1 where st: "ack_single now s e = (p, e1)" by fastforce
    obtain r where r: "hm_get (re_sent_packets e) s = Some r" using Cons.prems(2) by auto
    have p: "p = Some (channel_pair r)" and e1: "re_sent_packets e1 = hm_remove s (re_sent_packets e)"
      using ack_single_spec[OF r, of now] st by simp_all
    have same: "hm_get (re_sent_packets e1) t = hm_get (re_sent_packets e) t" if "t \<in> set ss" for t
      using that Cons.prems(1) e1 by (auto simp: hm_get_remove)
    then have "fst (ack_all now ss e1) = map (\<lambda>s. channel_pair (the (hm_get (re_sent_packets e1) s))) ss \<and>
        re_sent_packets (snd (ack_all now ss e1)) = fold hm_remove ss (re_sent_packets e1)"
      using Cons by auto
    moreover have "map (\<lambda>s. channel_pair (the (hm_get (re_sent_packets e1) s))) ss =
        map (\<lambda>s. channel_pair (the (hm_get (re_sent_packets e) s))) ss"
      using same by simp
    ultimately show ?case using r p e1 by (simp add: st case_prod_unfold)
  qed simp
  then show "fst (ack_all now ss e) = map (\<lambda>s. channel_pair (the (hm_get (re_sent_packets e) s))) ss"
    "re_sent_packets (snd (ack_all now ss e)) = fold hm_remove ss (re_sent_packets e)" by simp_all
qed

lemma nack_one_alt:
  "nack_one ack bits s (fast, e) =
     (case hm_get (re_sent_packets e) s of
        None \<Rightarrow> (fast, e)
      | Some r \<Rightarrow>
          if missing ack bits s
          then (fast @ (if sp_nack_count (nacked r) = FAST_RETRANSMIT_THRESHOLD then [channel_pair r] else []),
                e\<lparr>re_sent_packets := hm_insert s (nacked r) (re_sent_packets e)\<rparr>)
          else (fast, e))"
  by (auto simp: nack_one_def missing_def nacked_def channel_pair_def and_power_2 ACK_BITS_WINDOW_def Let_def
      sequence_greater_than_iff_diff split: option.split)

definition fast_of :: "(u16, sent_packet_record) hash_map \<Rightarrow> u16 \<Rightarrow> (u8 \<times> u16) list" where
  "fast_of m s = (case hm_get m s of None \<Rightarrow> []
     | Some r \<Rightarrow> if sp_nack_count (nacked r) = FAST_RETRANSMIT_THRESHOLD then [channel_pair r] else [])"

lemma nack_fold:
  assumes "distinct ks"
  shows "\<exists>m'. fold (nack_one ack bits) ks (fast, e) =
      (fast @ concat (map (fast_of (re_sent_packets e)) (filter (missing ack bits) ks)), e\<lparr>re_sent_packets := m'\<rparr>) \<and>
    (\<forall>s. hm_get m' s = (if s \<in> set ks \<and> missing ack bits s then map_option nacked (hm_get (re_sent_packets e) s)
                       else hm_get (re_sent_packets e) s)) \<and>
    hm_dom m' = hm_dom (re_sent_packets e) \<and> (hm_ok (re_sent_packets e) \<longrightarrow> hm_ok m')"
  using assms
proof (induction ks arbitrary: fast e)
  case Nil
  show ?case by (intro exI[of _ "re_sent_packets e"]) simp
next
  case (Cons k ks)
  define m where "m = (case hm_get (re_sent_packets e) k of None \<Rightarrow> re_sent_packets e
     | Some r \<Rightarrow> if missing ack bits k then hm_insert k (nacked r) (re_sent_packets e) else re_sent_packets e)"
  define f1 where "f1 = (if missing ack bits k then fast_of (re_sent_packets e) k else [])"
  have step: "nack_one ack bits k (fast, e) = (fast @ f1, e\<lparr>re_sent_packets := m\<rparr>)"
    by (simp add: nack_one_alt m_def f1_def fast_of_def split: option.split)
  have mk: "hm_get m s = (if s = k \<and> missing ack bits k then map_option nacked (hm_get (re_sent_packets e) s)
      else hm_get (re_sent_packets e) s)" for s
    by (auto simp: m_def hm_get_insert split: option.split)
  have dom: "hm_dom m = hm_dom (re_sent_packets e)"
  proof -
    have "s \<in> hm_dom m \<longleftrightarrow> s \<in> hm_dom (re_sent_packets e)" for s
      using mk[of s] hm_get_None_iff[of m s] hm_get_None_iff[of "re_sent_packets e" s] by (auto split: if_splits)
    then show ?thesis by blast
  qed
  have ok: "hm_ok (re_sent_packets e) \<Longrightarrow> hm_ok m" by (auto simp: m_def hm_ok_insert split: option.split)
  have f: "map (fast_of m) (filter (missing ack bits) ks) = map (fast_of (re_sent_packets e)) (filter (missing ack bits) ks)"
    using Cons.prems mk by (auto simp: fast_of_def)
  from Cons.IH[of "fast @ f1" "e\<lparr>re_sent_packets := m\<rparr>"] Cons.prems obtain m' where m':
    "fold (nack_one ack bits) ks (fast @ f1, e\<lparr>re_sent_packets := m\<rparr>) =
      ((fast @ f1) @ concat (map (fast_of m) (filter (missing ack bits) ks)), e\<lparr>re_sent_packets := m'\<rparr>)"
    "\<forall>s. hm_get m' s = (if s \<in> set ks \<and> missing ack bits s then map_option nacked (hm_get m s) else hm_get m s)"
    "hm_dom m' = hm_dom m" "hm_ok m \<longrightarrow> hm_ok m'" by auto
  show ?case
    by (rule exI[of _ m']) (use m' step f mk dom ok Cons.prems in \<open>auto simp: f1_def\<close>)
qed

definition record_after :: "u16 \<Rightarrow> u64 \<Rightarrow> u16 \<Rightarrow> sent_packet_record \<Rightarrow> sent_packet_record option" where
  "record_after ack bits s r =
     (if covered ack bits s then None else if missing ack bits s then Some (nacked r) else Some r)"

lemma process_acks_effect:
  assumes it: "is_iter_order it" and ok: "hm_ok (re_sent_packets e)"
  shows "set (fst (fst (process_acks it now ack bits e))) =
      {channel_pair r | s r. covered ack bits s \<and> hm_get (re_sent_packets e) s = Some r}"
    "hm_get (re_sent_packets (snd (process_acks it now ack bits e))) s =
      Option.bind (hm_get (re_sent_packets e) s) (record_after ack bits s)"
    "hm_ok (re_sent_packets (snd (process_acks it now ack bits e)))"
    "re_sent_packets (snd (process_acks it now ack bits e)) = m \<Longrightarrow> hm_dom m \<subseteq> hm_dom (re_sent_packets e)"
proof -
  let ?ss = "acked_seqs ack bits e"
  define e1 where "e1 = snd (ack_all now ?ss e)"
  have a: "fst (ack_all now ?ss e) = map (\<lambda>s. channel_pair (the (hm_get (re_sent_packets e) s))) ?ss"
    "re_sent_packets e1 = fold hm_remove ?ss (re_sent_packets e)"
    using ack_all_spec[OF distinct_acked_seqs, of ack bits e e now] unfolding e1_def set_acked_seqs by auto
  have ok1: "hm_ok (re_sent_packets e1)" using ok a(2) by (simp add: hm_ok_removes)
  obtain m' where m': "fold (nack_one ack bits) (hm_keys it (re_sent_packets e1)) ([], e1) =
      ([] @ concat (map (fast_of (re_sent_packets e1)) (filter (missing ack bits) (hm_keys it (re_sent_packets e1)))),
       e1\<lparr>re_sent_packets := m'\<rparr>)"
    "\<And>s. hm_get m' s = (if s \<in> set (hm_keys it (re_sent_packets e1)) \<and> missing ack bits s
       then map_option nacked (hm_get (re_sent_packets e1) s) else hm_get (re_sent_packets e1) s)"
    "hm_dom m' = hm_dom (re_sent_packets e1)" "hm_ok m'"
    using nack_fold[OF distinct_hm_keys[OF it ok1], of ack bits "[]" e1] ok1 by blast
  have p: "fst (fst (process_acks it now ack bits e)) = fst (ack_all now ?ss e)"
    "re_sent_packets (snd (process_acks it now ack bits e)) = m'"
    using m'(1) by (simp_all add: process_acks_def case_prod_unfold e1_def)
  show "set (fst (fst (process_acks it now ack bits e))) =
      {channel_pair r | s r. covered ack bits s \<and> hm_get (re_sent_packets e) s = Some r}"
    unfolding p(1) a(1) set_map set_acked_seqs by force
  have e1: "hm_get (re_sent_packets e1) s = (if covered ack bits s then None else hm_get (re_sent_packets e) s)" for s
    unfolding a(2) hm_get_removes set_acked_seqs by auto
  have k: "s \<in> set (hm_keys it (re_sent_packets e1)) \<longleftrightarrow> hm_get (re_sent_packets e1) s \<noteq> None"
    by (simp add: set_hm_keys[OF it] hm_get_None_iff)
  show "hm_get (re_sent_packets (snd (process_acks it now ack bits e))) s =
      Option.bind (hm_get (re_sent_packets e) s) (record_after ack bits s)"
    unfolding p(2) m'(2) k e1 by (cases "hm_get (re_sent_packets e) s") (auto simp: record_after_def)
  show "hm_ok (re_sent_packets (snd (process_acks it now ack bits e)))" unfolding p(2) by (rule m'(4))
  have "hm_dom (re_sent_packets e1) \<subseteq> hm_dom (re_sent_packets e)"
    using e1 by (metis hm_get_None_iff subsetI)
  then show "re_sent_packets (snd (process_acks it now ack bits e)) = m \<Longrightarrow> hm_dom m \<subseteq> hm_dom (re_sent_packets e)"
    unfolding p(2) using m'(3) by blast
qed

section \<open>The estimators\<close>

lemma rtt_constants:
  "fl_sub f64 (Fin 1) RTT_BETA = Fin (3 / 4)" "fl_sub f64 (Fin 1) RTT_ALPHA = Fin (7 / 8)"
  by code_simp+

lemma fl_mul_pos: "fl_nonneg x \<Longrightarrow> c > 0 \<Longrightarrow> fl_nonneg (fl_mul ff (Fin c) x)"
  by (auto elim!: fl_nonneg_cases intro!: fl_round_nonneg)

lemma fl_abs_sub_nonneg: "fl_nonneg x \<Longrightarrow> fl_nonneg (fl_abs (fl_sub ff (Fin q) x))"
proof (elim fl_nonneg_cases)
  fix p assume "x = Fin p"
  then show ?thesis by (cases "fl_round ff (q - p)") (auto simp: fl_sub_def fl_round_def Let_def split: if_splits)
qed (simp add: fl_sub_def)

definition est_inv :: "reliable_endpoint \<Rightarrow> bool" where
  "est_inv e \<longleftrightarrow> fl_nonneg (re_srtt e) \<and> fl_nonneg (re_rttvar e) \<and>
     from_millis 50 \<le> re_rto e \<and> re_rto e \<le> from_millis 2000"

lemma update_rtt_inv:
  assumes "est_inv e" and "0 \<le> q"
  shows "est_inv (update_rtt (Fin q) e)"
proof -
  define e1 where "e1 = (if \<not> re_has_rtt_sample e
      then e\<lparr>re_srtt := Fin q, re_rttvar := fl_div f64 (Fin q) (Fin 2), re_has_rtt_sample := True\<rparr>
      else
        let rttvar = fl_add f64 (fl_mul f64 (fl_sub f64 (Fin 1) RTT_BETA) (re_rttvar e))
                       (fl_mul f64 RTT_BETA (fl_abs (fl_sub f64 (Fin q) (re_srtt e))));
            srtt = fl_add f64 (fl_mul f64 (fl_sub f64 (Fin 1) RTT_ALPHA) (re_srtt e))
                     (fl_mul f64 RTT_ALPHA (Fin q))
        in e\<lparr>re_rttvar := rttvar, re_srtt := srtt\<rparr>)"
  have "fl_nonneg (fl_mul f64 RTT_BETA (fl_abs (fl_sub f64 (Fin q) (re_srtt e))))"
    using assms unfolding RTT_BETA_def est_inv_def by (intro fl_mul_pos fl_abs_sub_nonneg) simp_all
  moreover have "fl_nonneg (fl_mul f64 RTT_ALPHA (Fin q))"
    using assms unfolding RTT_ALPHA_def by (intro fl_mul_pos) simp_all
  moreover have "fl_nonneg (fl_mul f64 (Fin (3 / 4)) (re_rttvar e))" "fl_nonneg (fl_mul f64 (Fin (7 / 8)) (re_srtt e))"
    using assms unfolding est_inv_def by (intro fl_mul_pos; simp)+
  moreover have "fl_nonneg (fl_div f64 (Fin q) (Fin 2))" using assms(2) by (simp add: fl_round_nonneg)
  ultimately have n: "fl_nonneg (re_srtt e1)" "fl_nonneg (re_rttvar e1)"
    using assms unfolding e1_def Let_def rtt_constants by (auto intro!: fl_add_nonneg)
  let ?x = "fl_add f64 (re_srtt e1) (fl_mul f64 (Fin 4) (re_rttvar e1))"
  have "fl_nonneg ?x" using n by (intro fl_add_nonneg fl_mul_pos) simp_all
  then have "?x \<noteq> NaN" by auto
  then obtain r where r: "fl_clamp ?x (Fin 50) (Fin 2000) = Fin r" "50 \<le> r" "r \<le> 2000"
    by (rule fl_clamp_bounds[where lo = 50 and hi = 2000]) simp_all
  have "update_rtt (Fin q) e = e1\<lparr>re_rto := from_millis (fl_to_nat 64 (Fin r))\<rparr>"
    using r(1) by (simp only: update_rtt_def e1_def[symmetric] Let_def[of e1] MIN_RTO_MS_def MAX_RTO_MS_def) (simp add: Let_def)
  moreover have "50 \<le> fl_to_nat 64 (Fin r)" "fl_to_nat 64 (Fin r) \<le> 2000"
    using r(2,3) by (intro fl_to_nat_Fin_bounds[of 50 r 2000 64]; simp)+
  ultimately show ?thesis using n by (simp add: est_inv_def from_millis_def)
qed

section \<open>Runs of an endpoint\<close>

datatype endpoint_op =
    NextSequence
  | Sent "u16 iter_order" u16 instant u8 u16 nat
  | Received u16
  | Acks "u16 iter_order" instant u16 u64

fun endpoint_step :: "endpoint_op \<Rightarrow> reliable_endpoint \<Rightarrow> reliable_endpoint" where
  "endpoint_step NextSequence e = snd (next_sequence e)"
| "endpoint_step (Sent it s t ch cs n) e = on_packet_sent it s t ch cs n e"
| "endpoint_step (Received s) e = Endpoint_on_packet_received s e"
| "endpoint_step (Acks it now ack bits) e = snd (process_acks it now ack bits e)"

text \<open>Clock readings below 584 years' worth of nanoseconds times a thousand million.\<close>

definition clock_ok :: "instant \<Rightarrow> bool" where
  "clock_ok t \<longleftrightarrow> 0 \<le> t \<and> t < 2 ^ 64 * 1000000000"

fun endpoint_op_ok :: "endpoint_op \<Rightarrow> bool" where
  "endpoint_op_ok NextSequence = True"
| "endpoint_op_ok (Sent it s t ch cs n) = (is_iter_order it \<and> clock_ok t)"
| "endpoint_op_ok (Received s) = True"
| "endpoint_op_ok (Acks it now ack bits) = (is_iter_order it \<and> clock_ok now)"

definition endpoint_inv :: "nat \<Rightarrow> reliable_endpoint \<Rightarrow> bool" where
  "endpoint_inv k e \<longleftrightarrow> est_inv e \<and> re_max_in_flight e = k \<and> hm_ok (re_sent_packets e) \<and>
     hm_len (re_sent_packets e) \<le> max 1 k \<and>
     (\<forall>r\<in>snd ` set (re_sent_packets e). clock_ok (sp_send_time r)) \<and>
     True \<notin> set (re_loss_window e) \<and> re_total_packets_lost e = 0"

lemma rtt_sample_finite:
  assumes "clock_ok now" and "clock_ok t"
  obtains q where "fl_mul f64 (as_secs_f64 (duration_since now t)) (Fin 1000) = Fin q" and "0 \<le> q"
proof -
  have "nat (now - t) < 2 ^ 64 * 1000000000" proof -
    have "now - t < int (2 ^ 64 * 1000000000)" using assms by (simp add: clock_ok_def)
    then have "nat (now - t) < nat (int (2 ^ 64 * 1000000000))" unfolding zless_nat_conj by simp
    then show ?thesis unfolding nat_int .
  qed
  then obtain r where r: "as_secs_f64 (duration_since now t) = Fin r" "0 \<le> r" "r \<le> 2 ^ 70"
    unfolding duration_since_def by (rule as_secs_f64_finite)
  obtain q where "fl_round f64 (r * 1000) = Fin q" "0 \<le> q" "q \<le> 2 ^ 70 * 1000 + (2 ^ 70 * 1000 + 1) / 4"
    by (rule f64_round_below[of "r * 1000" "2 ^ 70 * 1000"]) (use r in simp_all)
  then show ?thesis using that r(1) by simp
qed

lemma update_rtt_frames [simp]:
  "re_max_in_flight (update_rtt x e) = re_max_in_flight e" "re_loss_window (update_rtt x e) = re_loss_window e"
  "re_total_packets_lost (update_rtt x e) = re_total_packets_lost e"
  by (simp_all add: update_rtt_def Let_def)

lemma ack_single_inv:
  assumes "endpoint_inv k e" and "clock_ok now"
  shows "endpoint_inv k (snd (ack_single now s e))"
proof (cases "hm_get (re_sent_packets e) s")
  case None
  then show ?thesis using assms by (simp add: ack_single_def)
next
  case (Some r)
  have ok: "hm_ok (re_sent_packets e)" using assms(1) by (simp add: endpoint_inv_def)
  then have "(s, r) \<in> set (re_sent_packets e)" using Some by (simp add: hm_get_iff)
  then have "clock_ok (sp_send_time r)" using assms(1) by (force simp: endpoint_inv_def)
  with assms(2) obtain q where q: "fl_mul f64 (as_secs_f64 (duration_since now (sp_send_time r))) (Fin 1000) = Fin q" "0 \<le> q"
    by (rule rtt_sample_finite)
  let ?e1 = "e\<lparr>re_sent_packets := hm_remove s (re_sent_packets e)\<rparr>"
  have "est_inv ?e1" using assms(1) by (simp add: endpoint_inv_def est_inv_def)
  then have "est_inv (update_rtt (Fin q) ?e1)" using q(2) by (rule update_rtt_inv)
  moreover have "set ((re_loss_window e)[i := False]) \<subseteq> insert False (set (re_loss_window e))" for i
    by (rule set_update_subset_insert)
  ultimately show ?thesis
    using assms(1) Some ok q(1)
    by (auto simp: ack_single_def Let_def endpoint_inv_def record_loss_sample_def est_inv_def hm_ok_remove
        hm_len_remove set_hm_remove)
qed

lemma ack_all_inv: "endpoint_inv k e \<Longrightarrow> clock_ok now \<Longrightarrow> endpoint_inv k (snd (ack_all now ss e))"
proof (induction ss arbitrary: e)
  case (Cons s ss)
  then have "endpoint_inv k (snd (ack_single now s e))" by (intro ack_single_inv)
  with Cons show ?case by (simp add: case_prod_unfold)
qed simp

lemma nack_one_inv:
  assumes "endpoint_inv k (snd st)"
  shows "endpoint_inv k (snd (nack_one ack bits s st))"
proof -
  obtain fast e where st: "st = (fast, e)" by fastforce
  show ?thesis
  proof (cases "hm_get (re_sent_packets e) s")
    case None
    then show ?thesis using assms by (simp add: st nack_one_alt)
  next
    case (Some r)
    have ok: "hm_ok (re_sent_packets e)" using assms by (simp add: endpoint_inv_def st)
    have s: "(s, r) \<in> set (re_sent_packets e)" "s \<in> hm_dom (re_sent_packets e)"
      using Some ok by (simp_all add: hm_get_iff) force
    then have "clock_ok (sp_send_time (nacked r))" using assms st by (force simp: endpoint_inv_def nacked_def)
    then have "endpoint_inv k (e\<lparr>re_sent_packets := hm_insert s (nacked r) (re_sent_packets e)\<rparr>)"
      using assms s ok unfolding st
      by (auto simp: endpoint_inv_def est_inv_def hm_ok_insert hm_len_insert set_hm_insert)
    then show ?thesis using assms Some by (simp add: st nack_one_alt)
  qed
qed

lemma nack_all_inv: "endpoint_inv k (snd st) \<Longrightarrow> endpoint_inv k (snd (fold (nack_one ack bits) ks st))"
  by (induction ks arbitrary: st) (simp_all add: nack_one_inv)

lemma evict_inv_endpoint:
  assumes "is_iter_order it" and "endpoint_inv k e"
  shows "endpoint_inv k (evict_worst_in_flight it e)"
    "hm_len (re_sent_packets (evict_worst_in_flight it e)) = hm_len (re_sent_packets e) - 1"
proof -
  have ok: "hm_ok (re_sent_packets e)" using assms(2) by (simp add: endpoint_inv_def)
  show l: "hm_len (re_sent_packets (evict_worst_in_flight it e)) = hm_len (re_sent_packets e) - 1"
    by (rule in_flight.evict_len[OF assms(1) ok])
  have sub: "set (re_sent_packets (evict_worst_in_flight it e)) \<subseteq> set (re_sent_packets e)"
    by (rule in_flight.evict_subset[OF assms(1) ok])
  have fr: "est_inv (evict_worst_in_flight it e) = est_inv e"
    "re_max_in_flight (evict_worst_in_flight it e) = re_max_in_flight e"
    "re_loss_window (evict_worst_in_flight it e) = re_loss_window e"
    "re_total_packets_lost (evict_worst_in_flight it e) = re_total_packets_lost e"
    by (simp_all add: evict_worst_in_flight_def est_inv_def split: option.split)
  show "endpoint_inv k (evict_worst_in_flight it e)"
    using assms(2) sub l in_flight.evict_ok[OF assms(1) ok] fr by (auto simp: endpoint_inv_def)
qed

lemma sent_inv_endpoint:
  assumes "is_iter_order it" and "endpoint_inv k e" and "clock_ok t"
  shows "endpoint_inv k (on_packet_sent it s t ch cs n e)"
proof -
  define e1 where "e1 = (if hm_len (re_sent_packets e) \<ge> re_max_in_flight e then evict_worst_in_flight it e else e)"
  have inv: "endpoint_inv k e1" using evict_inv_endpoint(1)[OF assms(1,2)] assms(2) by (simp add: e1_def)
  have len: "Suc (hm_len (re_sent_packets e1)) \<le> max 1 k"
    using evict_inv_endpoint(2)[OF assms(1,2)] assms(2) by (auto simp: e1_def endpoint_inv_def)
  have ok: "hm_ok (re_sent_packets e1)" using inv by (simp add: endpoint_inv_def)
  show ?thesis
    using inv len assms(3) ok
    by (auto simp: on_packet_sent_def Let_def e1_def[symmetric] endpoint_inv_def est_inv_def hm_ok_insert
        hm_len_insert set_hm_insert)
qed

lemma endpoint_step_inv: "endpoint_op_ok a \<Longrightarrow> endpoint_inv k e \<Longrightarrow> endpoint_inv k (endpoint_step a e)"
proof (cases a)
  case NextSequence
  assume "endpoint_inv k e"
  with NextSequence show ?thesis by (simp add: next_sequence_def endpoint_inv_def est_inv_def)
next
  case (Received s)
  assume "endpoint_inv k e"
  with Received show ?thesis
    by (simp add: Endpoint_on_packet_received_def Let_def endpoint_inv_def est_inv_def)
next
  case (Acks it now ack bits)
  assume a: "endpoint_op_ok a" "endpoint_inv k e"
  then have "endpoint_inv k (snd (ack_all now (acked_seqs ack bits e) e))"
    using Acks by (intro ack_all_inv) simp_all
  then show ?thesis using Acks by (simp add: process_acks_def case_prod_unfold nack_all_inv)
qed (simp add: sent_inv_endpoint)

interpretation endpoint: invariant_machine endpoint_op_ok endpoint_step "endpoint_inv k" for k
  by unfold_locales (rule endpoint_step_inv)


lemma endpoint_new: "endpoint_inv k (endpoint_with_max_in_flight k (ReliableEndpoint_new n))"
  by (simp add: endpoint_inv_def endpoint_with_max_in_flight_def ReliableEndpoint_new_def est_inv_def
      from_millis_def INITIAL_RTO_MILLIS_def)

section \<open>Properties\<close>

text \<open>C5: the acknowledgement word is exact. After packets have arrived in any order, duplicated or
  with losses, its bit \<open>j\<close> is set exactly when the packet \<open>j + 1\<close> before the newest has arrived;
  packet 0 counts as arrived from the start. The packets are numbered below 65536, without a wrap, each
  comes within 32768 of the newest and none exactly 64 after it, where the word goes wrong
  (\<open>false_acknowledgements\<close>).\<close>

theorem ack_word_exact:
  assumes "buffer_size > 0" and "steady 0 is"
  shows "\<exists>newest. newest \<in> insert 0 (set is) \<and> set is \<subseteq> {..newest} \<and>
    fst (get_ack_info (fold (\<lambda>i. Endpoint_on_packet_received (of_nat i)) is (ReliableEndpoint_new buffer_size))) = of_nat newest \<and>
    list_all (\<lambda>j. bit (snd (get_ack_info (fold (\<lambda>i. Endpoint_on_packet_received (of_nat i)) is (ReliableEndpoint_new buffer_size)))) j
      \<longleftrightarrow> j + 1 \<le> newest \<and> newest - (j + 1) \<in> insert 0 (set is)) [0..<64]"
proof -
  obtain newest where "ack_inv newest ({} \<union> set is)
      (fold (\<lambda>i. Endpoint_on_packet_received (of_nat i)) is (ReliableEndpoint_new buffer_size))"
    using ack_run[OF ack_new[OF assms(1)] assms(2)] by blast
  then show ?thesis by (intro exI[of _ newest]) (auto simp: ack_inv_def covered_by_def get_ack_info_def list_all_iff)
qed

theorem ack_word_exact_witness:
  "\<exists>newest. newest \<in> insert 0 (set [1, 3, 3, 2, 70]) \<and>
    fst (get_ack_info (fold (\<lambda>i. Endpoint_on_packet_received (of_nat i)) [1, 3, 3, 2, 70] (ReliableEndpoint_new 256))) = of_nat newest"
proof -
  have "steady 0 [1, 3, 3, 2, 70]" by simp
  from ack_word_exact[OF _ this, of 256] show ?thesis by auto
qed

text \<open>C18: processing an acknowledgement releases exactly the packets in flight that it covers and
  reports their messages; of the others, those missing from the last 64 have their count of negative
  acknowledgements raised by one, and the rest are untouched.\<close>

theorem process_acks_spec:
  assumes "is_iter_order it" and "hm_ok (re_sent_packets e)"
  shows "set (fst (fst (process_acks it now ack bits e))) =
      {channel_pair r | s r. covered ack bits s \<and> hm_get (re_sent_packets e) s = Some r} \<and>
    hm_get (re_sent_packets (snd (process_acks it now ack bits e))) s =
      Option.bind (hm_get (re_sent_packets e) s) (record_after ack bits s)"
  using process_acks_effect(1,2)[OF assms] by blast

definition sent_three :: reliable_endpoint where
  "sent_three = on_packet_sent id 2 9 5 102 30 (on_packet_sent id 1 8 5 101 30 (on_packet_sent id 0 7 5 100 30 (ReliableEndpoint_new 8)))"

lemma sent_three_ok: "hm_ok (re_sent_packets sent_three)"
  "hm_get (re_sent_packets sent_three) 1 = Some \<lparr>sp_channel_id = 5, sp_channel_sequence = 101,
     sp_send_time = 8, sp_size = 30, sp_nack_count = 0\<rparr>"
  by (simp_all add: sent_three_def on_packet_sent_def ReliableEndpoint_new_def DEFAULT_MAX_IN_FLIGHT_def Let_def
      hm_ok_def hm_insert_def hm_get_def)

theorem process_acks_spec_witness:
  "hm_get (re_sent_packets (snd (process_acks id 20 2 2 sent_three))) 1 =
     Some \<lparr>sp_channel_id = 5, sp_channel_sequence = 101, sp_send_time = 8, sp_size = 30, sp_nack_count = 1\<rparr>"
proof -
  have "hm_get (re_sent_packets (snd (process_acks id 20 2 2 sent_three))) 1 =
      Option.bind (hm_get (re_sent_packets sent_three) 1) (record_after 2 2 1)"
    by (rule process_acks_spec[THEN conjunct2]) (simp_all add: is_iter_order_def sent_three_ok(1))
  moreover have "\<not> covered 2 2 1" by code_simp
  moreover have "missing 2 2 1" by code_simp
  ultimately show ?thesis
    by (simp add: sent_three_ok(2) record_after_def nacked_def saturating_inc_def)
qed

text \<open>C19: what one endpoint acknowledges and the other releases was received: every message reported
  acknowledged was carried by a packet that arrived, or by packet 0. The arrivals are steady: numbers
  below 65536, within 32768 of the newest, none exactly 64 ahead of it.\<close>

theorem acked_was_received:
  assumes "buffer_size > 0" and "steady 0 is" and "is_iter_order it" and "hm_ok (re_sent_packets sender)"
    and "get_ack_info (fold (\<lambda>i. Endpoint_on_packet_received (of_nat i)) is (ReliableEndpoint_new buffer_size)) = (ack, bits)"
    and "pair \<in> set (fst (fst (process_acks it now ack bits sender)))"
  shows "\<exists>i\<in>insert 0 (set is). map_option channel_pair (hm_get (re_sent_packets sender) (of_nat i)) = Some pair"
proof -
  let ?e = "fold (\<lambda>i. Endpoint_on_packet_received (of_nat i)) is (ReliableEndpoint_new buffer_size)"
  obtain newest where "ack_inv newest ({} \<union> set is) ?e"
    using ack_run[OF ack_new[OF assms(1)] assms(2)] by blast
  then have inv: "newest < 65536" "newest \<in> insert 0 (set is)" "ack = of_nat newest"
    "\<And>j. j < 64 \<Longrightarrow> bit bits j \<longleftrightarrow> j + 1 \<le> newest \<and> newest - (j + 1) \<in> insert 0 (set is)"
    using assms(5) by (auto simp: ack_inv_def covered_by_def get_ack_info_def)
  from assms(6) obtain s r where sr: "covered ack bits s" "hm_get (re_sent_packets sender) s = Some r" "pair = channel_pair r"
    using process_acks_effect(1)[OF assms(3,4)] by auto
  from sr(1) have "s = ack \<or> (\<exists>j<64. bit bits j \<and> s = ack - of_nat (j + 1))" by (simp add: covered_iff)
  then obtain i where "i \<in> insert 0 (set is)" "s = of_nat i"
  proof
    assume "\<exists>j<64. bit bits j \<and> s = ack - of_nat (j + 1)"
    then obtain j where j: "j < 64" "bit bits j" "s = ack - of_nat (j + 1)" by blast
    then have "j + 1 \<le> newest" "newest - (j + 1) \<in> insert 0 (set is)" using inv(4) by blast+
    then show ?thesis using j(3) inv(3) that[of "newest - (j + 1)"] by (simp add: of_nat_diff)
  qed (use inv that in blast)
  with sr(2,3) show ?thesis by auto
qed

text \<open>The acknowledgement side of three arrivals, evaluated step by step.\<close>

lemma example_buffers:
  "SequenceBuffer_insert 1 True (SequenceBuffer_new 4) =
     \<lparr>sb_entries = [None, Some (1, True), None, None], sb_sequence = 1, sb_size = 4\<rparr>"
  "SequenceBuffer_insert 2 True \<lparr>sb_entries = [None, Some (1, True), None, None], sb_sequence = 1, sb_size = 4\<rparr> =
     \<lparr>sb_entries = [None, Some (1, True), Some (2, True), None], sb_sequence = 2, sb_size = 4\<rparr>"
  "exists 1 (SequenceBuffer_new 4 :: bool sequence_buffer) = False"
  "exists 2 \<lparr>sb_entries = [None, Some (1, True), None, None], sb_sequence = 1, sb_size = 4\<rparr> = False"
  "exists 66 \<lparr>sb_entries = [None, Some (1, True), Some (2, True), None], sb_sequence = 2, sb_size = 4\<rparr> = False"
  by code_simp+

lemma example_order:
  "sequence_diff 1 0 = 1" "sequence_diff 2 1 = 1" "sequence_diff 66 2 = 64"
  "sequence_greater_than 1 0" "sequence_greater_than 2 1" "sequence_greater_than 66 2"
  by code_simp+

lemmas example_ack_simps = example_buffers example_order Endpoint_on_packet_received_def Let_def ReliableEndpoint_new_def
  DEFAULT_MAX_SEQUENCE_DISTANCE_def ACK_BITS_WINDOW_def shl_u64_def get_ack_info_def

lemma example_acks:
  "get_ack_info (fold (\<lambda>i. Endpoint_on_packet_received (of_nat i)) [1, 2] (ReliableEndpoint_new 4)) = (2, 3)"
  "get_ack_info (fold (\<lambda>i. Endpoint_on_packet_received (of_nat i)) [1, 2, 66] (ReliableEndpoint_new 4)) = (66, 0x8000000000000003)"
  by (simp_all add: example_ack_simps)

theorem acked_was_received_witness:
  "\<exists>i\<in>insert 0 (set [1, 2]). map_option channel_pair (hm_get (re_sent_packets sent_three) (of_nat i)) = Some (5, 101)"
proof (rule acked_was_received)
  show "steady 0 [1, 2]" by simp
  show g: "get_ack_info (fold (\<lambda>i. Endpoint_on_packet_received (of_nat i)) [1, 2] (ReliableEndpoint_new 4)) = (2, 3)"
    by (rule example_acks)
  have "covered 2 3 1" by code_simp
  then show "(5, 101) \<in> set (fst (fst (process_acks id 20 2 3 sent_three)))"
    using process_acks_effect(1)[of id sent_three 20 2 3] sent_three_ok
    by (force simp: is_iter_order_def channel_pair_def)
qed (simp_all add: is_iter_order_def sent_three_ok)

text \<open>Two exceptions. A gap of exactly 64 keeps the old acknowledgement bits: with packets 1 and
  66 received, packet 65 is acknowledged. And an endpoint that has received nothing acknowledges
  packet 0.\<close>

theorem false_acknowledgements:
  "get_ack_info (fold (\<lambda>i. Endpoint_on_packet_received (of_nat i)) [1, 2, 66] (ReliableEndpoint_new 4)) = (66, 0x8000000000000003)
   \<and> covered 66 0x8000000000000003 65 \<and> covered 66 0x8000000000000003 64 \<and>
   get_ack_info (ReliableEndpoint_new 4) = (0, 0) \<and> covered 0 0 0"
proof (intro conjI)
  show "get_ack_info (fold (\<lambda>i. Endpoint_on_packet_received (of_nat i)) [1, 2, 66] (ReliableEndpoint_new 4)) = (66, 0x8000000000000003)"
    by (rule example_acks)
  show "covered 66 0x8000000000000003 65" "covered 66 0x8000000000000003 64" "covered 0 0 0" by code_simp+
  show "get_ack_info (ReliableEndpoint_new 4) = (0, 0)" by (simp add: ReliableEndpoint_new_def get_ack_info_def)
qed

text \<open>Whatever the endpoint does, the retransmission timeout stays between 50 milliseconds and two
  seconds, the packets in flight stay within their bound, and no packet is ever reported lost.\<close>

theorem endpoint_bounds:
  assumes "list_all endpoint_op_ok as"
  shows "let e = fold endpoint_step as (endpoint_with_max_in_flight k (ReliableEndpoint_new n))
    in from_millis 50 \<le> re_rto e \<and> re_rto e \<le> from_millis 2000 \<and>
       hm_len (re_sent_packets e) \<le> max 1 k \<and> packet_loss_percent e = Fin 0"
proof -
  define e where "e = fold endpoint_step as (endpoint_with_max_in_flight k (ReliableEndpoint_new n))"
  have inv: "endpoint_inv k e"
    unfolding e_def using assms by (intro endpoint.run_inv endpoint_new) (simp add: list_all_iff)
  then have "filter (\<lambda>l. l) (take m (re_loss_window e)) = []" for m
    by (auto simp: endpoint_inv_def filter_empty_conv dest: in_set_takeD)
  then have "packet_loss_percent e = Fin 0"
    using fl_zero_ratio[of "re_loss_window_count e" f32] by (simp add: packet_loss_percent_def f32_def)
  with inv show ?thesis by (simp add: endpoint_inv_def est_inv_def e_def[symmetric])
qed

theorem endpoint_bounds_witness:
  "let e = fold endpoint_step [Sent id 0 5 1 7 100, Received 3, Acks id 90000000 0 0]
       (endpoint_with_max_in_flight 4 (ReliableEndpoint_new 16))
   in re_rto e \<le> from_millis 2000 \<and> hm_len (re_sent_packets e) \<le> 4"
  using endpoint_bounds[of "[Sent id 0 5 1 7 100, Received 3, Acks id 90000000 0 0]" 4 16]
  by (simp add: is_iter_order_def clock_ok_def Let_def)

end
