(* ===== verification/Congestion.thy ===== *)
theory Congestion
  imports Floats
begin

text \<open>
  Congestion control (\<open>gbnet/src/congestion.rs\<close>): the binary controller with its byte budget, the
  window-based controller and the bandwidth tracker. Batching is in \<open>Batch\<close>.

  \<open>None\<close> is the panic of \<open>Duration::from_secs_f64\<close> on a negative, infinite or huge argument.
  \<open>i64\<close> and \<open>u64\<close> counters are unbounded integers; casts from floats saturate as in Rust.
\<close>

section \<open>The binary controller\<close>

definition CONGESTION_RATE_REDUCTION :: fl where "CONGESTION_RATE_REDUCTION = Fin (1 / 2)"
definition MIN_SEND_RATE :: fl where "MIN_SEND_RATE = Fin 1"
definition INITIAL_CWND_PACKETS :: nat where "INITIAL_CWND_PACKETS = 10"
definition MIN_CWND_BYTES :: nat where "MIN_CWND_BYTES = 1200"
definition MIN_RECOVERY_SECS :: fl where "MIN_RECOVERY_SECS = Fin 1"
definition MAX_RECOVERY_SECS :: fl where "MAX_RECOVERY_SECS = Fin 60"
definition RECOVERY_HALVE_INTERVAL_SECS :: fl where "RECOVERY_HALVE_INTERVAL_SECS = Fin 10"
definition QUICK_DROP_THRESHOLD_SECS :: fl where "QUICK_DROP_THRESHOLD_SECS = Fin 10"

datatype congestion_mode = Good | Bad

record congestion_controller =
  co_mode :: congestion_mode
  co_good_conditions_start :: "instant option"
  co_loss_threshold :: fl
  co_rtt_threshold_ms :: fl
  co_base_send_rate :: fl
  co_current_send_rate :: fl
  co_budget_bytes_remaining :: int
  co_bytes_per_tick :: nat
  co_adaptive_recovery_secs :: fl
  co_last_good_entry :: "instant option"
  co_last_bad_entry :: "instant option"

definition CongestionController_new :: "fl \<Rightarrow> fl \<Rightarrow> fl \<Rightarrow> duration \<Rightarrow> congestion_controller" where
  "CongestionController_new base_send_rate loss_threshold rtt_threshold_ms recovery_time =
     \<lparr>co_mode = Good, co_good_conditions_start = None, co_loss_threshold = loss_threshold,
      co_rtt_threshold_ms = rtt_threshold_ms, co_base_send_rate = base_send_rate,
      co_current_send_rate = base_send_rate, co_budget_bytes_remaining = 0, co_bytes_per_tick = 0,
      co_adaptive_recovery_secs = as_secs_f64 recovery_time, co_last_good_entry = None,
      co_last_bad_entry = None\<rparr>"

definition refill_budget :: "nat \<Rightarrow> congestion_controller \<Rightarrow> congestion_controller" where
  "refill_budget mtu c =
     (let n = fl_to_nat 64 (fl_mul f32 (co_current_send_rate c) (fl_of_nat f32 mtu))
      in c\<lparr>co_bytes_per_tick := n, co_budget_bytes_remaining := signed_take_bit 63 (int n)\<rparr>)"

definition deduct_budget :: "nat \<Rightarrow> congestion_controller \<Rightarrow> congestion_controller" where
  "deduct_budget bytes c = c\<lparr>co_budget_bytes_remaining := co_budget_bytes_remaining c - int bytes\<rparr>"

definition can_send :: "nat \<Rightarrow> nat \<Rightarrow> congestion_controller \<Rightarrow> bool" where
  "can_send packets_sent_this_cycle packet_bytes c \<longleftrightarrow>
     fl_lt (fl_of_nat f32 packets_sent_this_cycle) (co_current_send_rate c) \<and>
     co_budget_bytes_remaining c \<ge> int packet_bytes"

text \<open>The two branches of the good mode.\<close>

definition enter_bad :: "instant \<Rightarrow> congestion_controller \<Rightarrow> congestion_controller" where
  "enter_bad now c =
     (let recovery = (case co_last_good_entry c of
            None \<Rightarrow> co_adaptive_recovery_secs c
          | Some good_entry \<Rightarrow>
              if fl_lt (as_secs_f64 (duration_since now good_entry)) QUICK_DROP_THRESHOLD_SECS
              then fl_min (fl_mul f64 (co_adaptive_recovery_secs c) (Fin 2)) MAX_RECOVERY_SECS
              else co_adaptive_recovery_secs c)
      in c\<lparr>co_adaptive_recovery_secs := recovery, co_mode := Bad, co_last_bad_entry := Some now,
           co_current_send_rate := fl_max (fl_mul f32 (co_base_send_rate c) CONGESTION_RATE_REDUCTION) MIN_SEND_RATE,
           co_good_conditions_start := None\<rparr>)"

definition halve_recovery :: "fl \<Rightarrow> fl" where
  "halve_recovery r = fl_max (fl_div f64 r (Fin 2)) MIN_RECOVERY_SECS"

definition stay_good :: "instant \<Rightarrow> congestion_controller \<Rightarrow> congestion_controller" where
  "stay_good now c =
     (case co_last_good_entry c of
        None \<Rightarrow> c
      | Some good_entry \<Rightarrow>
          let elapsed = as_secs_f64 (duration_since now good_entry);
              intervals = fl_to_nat 32 (fl_floor (fl_div f64 elapsed RECOVERY_HALVE_INTERVAL_SECS))
          in if intervals > 0
             then c\<lparr>co_adaptive_recovery_secs := (halve_recovery ^^ intervals) (co_adaptive_recovery_secs c),
                    co_last_good_entry := Some now\<rparr>
             else c)"

definition CongestionController_update :: "instant \<Rightarrow> fl \<Rightarrow> fl \<Rightarrow> congestion_controller \<Rightarrow>
    congestion_controller option" where
  "CongestionController_update now packet_loss rtt_ms c =
     (let is_bad = fl_lt (co_loss_threshold c) packet_loss \<or> fl_lt (co_rtt_threshold_ms c) rtt_ms
      in case co_mode c of
           Good \<Rightarrow> Some (if is_bad then enter_bad now c else stay_good now c)
         | Bad \<Rightarrow>
             if \<not> is_bad
             then (case co_good_conditions_start c of
                     None \<Rightarrow> Some (c\<lparr>co_good_conditions_start := Some now\<rparr>)
                   | Some start \<Rightarrow>
                       (case from_secs_f64 (co_adaptive_recovery_secs c) of
                          None \<Rightarrow> None
                        | Some required \<Rightarrow>
                            Some (if duration_since now start \<ge> required
                                  then c\<lparr>co_mode := Good, co_last_good_entry := Some now,
                                         co_current_send_rate := co_base_send_rate c,
                                         co_good_conditions_start := None\<rparr>
                                  else c)))
             else Some (c\<lparr>co_good_conditions_start := None\<rparr>))"

section \<open>The congestion window\<close>

datatype congestion_phase = SlowStart | Avoidance | Recovery

record congestion_window =
  cw_phase :: congestion_phase
  cw_cwnd :: fl
  cw_ssthresh :: fl
  cw_bytes_in_flight :: nat
  cw_mtu :: nat
  cw_last_send_time :: "instant option"
  cw_min_inter_packet_delay :: duration

definition f64_MAX :: fl where
  "f64_MAX = Fin (of_int ((2 ^ 53 - 1) * 2 ^ 971))"

definition CongestionWindow_new :: "nat \<Rightarrow> congestion_window" where
  "CongestionWindow_new mtu =
     \<lparr>cw_phase = SlowStart, cw_cwnd = fl_of_nat f64 (INITIAL_CWND_PACKETS * mtu), cw_ssthresh = f64_MAX,
      cw_bytes_in_flight = 0, cw_mtu = mtu, cw_last_send_time = None, cw_min_inter_packet_delay = 0\<rparr>"

definition on_ack :: "nat \<Rightarrow> congestion_window \<Rightarrow> congestion_window" where
  "on_ack bytes w0 =
     (let w = w0\<lparr>cw_bytes_in_flight := cw_bytes_in_flight w0 - bytes\<rparr>
      in case cw_phase w of
           SlowStart \<Rightarrow>
             let w1 = w\<lparr>cw_cwnd := fl_add f64 (cw_cwnd w) (fl_of_nat f64 bytes)\<rparr>
             in if fl_le (cw_ssthresh w1) (cw_cwnd w1) then w1\<lparr>cw_phase := Avoidance\<rparr> else w1
         | Avoidance \<Rightarrow>
             w\<lparr>cw_cwnd := fl_add f64 (cw_cwnd w)
                 (fl_div f64 (fl_mul f64 (fl_of_nat f64 (cw_mtu w)) (fl_of_nat f64 bytes)) (cw_cwnd w))\<rparr>
         | Recovery \<Rightarrow> w)"

definition on_loss :: "congestion_window \<Rightarrow> congestion_window" where
  "on_loss w =
     (let half = fl_div f64 (cw_cwnd w) (Fin 2);
          ssthresh = (if fl_lt half (fl_of_nat f64 MIN_CWND_BYTES) then fl_of_nat f64 MIN_CWND_BYTES else half)
      in w\<lparr>cw_ssthresh := ssthresh, cw_cwnd := ssthresh, cw_phase := Recovery\<rparr>)"

definition exit_recovery :: "congestion_window \<Rightarrow> congestion_window" where
  "exit_recovery w = (if cw_phase w = Recovery then w\<lparr>cw_phase := Avoidance\<rparr> else w)"

definition on_send :: "instant \<Rightarrow> nat \<Rightarrow> congestion_window \<Rightarrow> congestion_window" where
  "on_send now bytes w = w\<lparr>cw_bytes_in_flight := cw_bytes_in_flight w + bytes, cw_last_send_time := Some now\<rparr>"

definition window_can_send :: "nat \<Rightarrow> congestion_window \<Rightarrow> bool" where
  "window_can_send packet_bytes w \<longleftrightarrow> cw_bytes_in_flight w + packet_bytes \<le> fl_to_nat 64 (cw_cwnd w)"

definition update_pacing :: "duration \<Rightarrow> congestion_window \<Rightarrow> congestion_window option" where
  "update_pacing rtt w =
     (if fl_lt (Fin 0) (cw_cwnd w) \<and> rtt \<noteq> 0
      then let packets_in_window = fl_div f64 (cw_cwnd w) (fl_of_nat f64 (cw_mtu w))
           in if fl_lt (Fin 0) packets_in_window
              then (case from_secs_f64 (fl_div f64 (as_secs_f64 rtt) packets_in_window) of
                      None \<Rightarrow> None
                    | Some d \<Rightarrow> Some (w\<lparr>cw_min_inter_packet_delay := d\<rparr>))
              else Some w
      else Some w)"

definition can_send_paced :: "instant \<Rightarrow> congestion_window \<Rightarrow> bool" where
  "can_send_paced now w =
     (case cw_last_send_time w of
        Some t \<Rightarrow> duration_since now t \<ge> cw_min_inter_packet_delay w
      | None \<Rightarrow> True)"

section \<open>The bandwidth tracker\<close>

record bandwidth_tracker =
  bw_window :: "(instant \<times> nat) list"
  bw_window_duration :: duration

definition BandwidthTracker_new :: "duration \<Rightarrow> bandwidth_tracker" where
  "BandwidthTracker_new window_duration = \<lparr>bw_window = [], bw_window_duration = window_duration\<rparr>"

definition bandwidth_cleanup :: "instant \<Rightarrow> bandwidth_tracker \<Rightarrow> bandwidth_tracker" where
  "bandwidth_cleanup now b =
     b\<lparr>bw_window := dropWhile (\<lambda>(t, _). duration_since now t \<ge> bw_window_duration b) (bw_window b)\<rparr>"

definition bandwidth_record :: "instant \<Rightarrow> nat \<Rightarrow> bandwidth_tracker \<Rightarrow> bandwidth_tracker" where
  "bandwidth_record now bytes b = bandwidth_cleanup now (b\<lparr>bw_window := bw_window b @ [(now, bytes)]\<rparr>)"

definition bytes_per_second :: "bandwidth_tracker \<Rightarrow> fl" where
  "bytes_per_second b =
     (if bw_window b = [] then Fin 0
      else let total_bytes = sum_list (map snd (bw_window b));
               elapsed = as_secs_f64 (bw_window_duration b)
           in if fl_lt (Fin 0) elapsed then fl_div f64 (fl_of_nat f64 total_bytes) elapsed else Fin 0)"

section \<open>Invariants of the controller\<close>

definition finite_between :: "rat \<Rightarrow> rat \<Rightarrow> fl \<Rightarrow> bool" where
  "finite_between a b x \<longleftrightarrow> (case x of Fin q \<Rightarrow> a \<le> q \<and> q \<le> b | _ \<Rightarrow> False)"

lemma finite_betweenE:
  assumes "finite_between a b x"
  obtains q where "x = Fin q" "a \<le> q" "q \<le> b"
  using assms by (cases x) (auto simp: finite_between_def)

text \<open>
  The send rate follows the mode; the recovery time is finite, not negative and at most the larger
  of sixty seconds and its initial value's rounding bound.
\<close>

definition reduced_rate :: "congestion_controller \<Rightarrow> fl" where
  "reduced_rate c = fl_max (fl_mul f32 (co_base_send_rate c) CONGESTION_RATE_REDUCTION) MIN_SEND_RATE"

definition controller_inv :: "fl \<Rightarrow> congestion_controller \<Rightarrow> bool" where
  "controller_inv base c \<longleftrightarrow>
     co_base_send_rate c = base \<and>
     co_current_send_rate c = (if co_mode c = Good then base else reduced_rate c) \<and>
     (co_mode c = Good \<longrightarrow> co_good_conditions_start c = None) \<and>
     finite_between 0 (2 ^ 40) (co_adaptive_recovery_secs c)"

lemma from_secs_defined:
  assumes "finite_between 0 (2 ^ 40) x"
  obtains d where "from_secs_f64 x = Some d"
proof -
  from assms obtain q where q: "x = Fin q" "0 \<le> q" "q \<le> 2 ^ 40" by (rule finite_betweenE)
  have "round_half_even (q * 1000000000) \<le> round_half_even (of_int (2 ^ 40 * 1000000000))"
    using q by (intro round_half_even_mono) simp
  then have r: "round_half_even (q * 1000000000) \<le> 2 ^ 40 * 1000000000" by (simp only: round_half_even_of_int)
  have "nat (round_half_even (q * 1000000000)) \<le> 2 ^ 40 * 1000000000"
    using nat_mono[OF r] by simp
  then have "nat (round_half_even (q * 1000000000)) div 1000000000 \<le> 2 ^ 40 * 1000000000 div 1000000000"
    by (rule div_le_mono)
  then have "nat (round_half_even (q * 1000000000)) div 1000000000 < 2 ^ 64" by simp
  with q that show ?thesis by (simp add: from_secs_f64_def Let_def)
qed

lemma doubled_bounded:
  assumes "finite_between 0 (2 ^ 40) x"
  shows "finite_between 0 (2 ^ 40) (fl_min (fl_mul f64 x (Fin 2)) MAX_RECOVERY_SECS)"
proof -
  from assms obtain q where q: "x = Fin q" "0 \<le> q" "q \<le> 2 ^ 40" by (rule finite_betweenE)
  obtain r where "fl_round f64 (q * 2) = Fin r" "0 \<le> r" "r \<le> 2 ^ 41 + (2 ^ 41 + 1) / 4"
    by (rule f64_round_below[of "q * 2" "2 ^ 41"]) (use q in simp_all)
  then show ?thesis using q by (auto simp: fl_min_def MAX_RECOVERY_SECS_def finite_between_def)
qed

lemma halved_bounded:
  assumes "finite_between 0 (2 ^ 40) x"
  shows "finite_between 0 (2 ^ 40) (halve_recovery x)"
proof -
  from assms obtain q where q: "x = Fin q" "0 \<le> q" "q \<le> 2 ^ 40" by (rule finite_betweenE)
  obtain r where "fl_round f64 (q / 2) = Fin r" "0 \<le> r" "r \<le> 2 ^ 39 + (2 ^ 39 + 1) / 4"
    by (rule f64_round_below[of "q / 2" "2 ^ 39"]) (use q in simp_all)
  then show ?thesis using q by (auto simp: halve_recovery_def fl_max_def MIN_RECOVERY_SECS_def finite_between_def)
qed

lemma halvings_bounded: "finite_between 0 (2 ^ 40) x \<Longrightarrow> finite_between 0 (2 ^ 40) ((halve_recovery ^^ n) x)"
  by (induction n) (simp_all add: halved_bounded[simplified])

lemma enter_bad_inv:
  assumes "controller_inv base c"
  shows "controller_inv base (enter_bad now c)"
proof -
  have r: "finite_between 0 (2 ^ 40) (co_adaptive_recovery_secs c)" using assms by (simp add: controller_inv_def)
  then show ?thesis
    using assms doubled_bounded[OF r]
    by (auto simp: enter_bad_def Let_def controller_inv_def reduced_rate_def split: option.split)
qed

lemma stay_good_inv:
  assumes "controller_inv base c" and "co_mode c = Good"
  shows "controller_inv base (stay_good now c)"
  using assms halvings_bounded[of "co_adaptive_recovery_secs c"]
  by (auto simp: stay_good_def Let_def controller_inv_def split: option.split)

lemma update_controller_inv:
  assumes "controller_inv base c"
  obtains c' where "CongestionController_update now loss rtt c = Some c'" "controller_inv base c'"
proof (cases "co_mode c")
  case Good
  with assms that show ?thesis
    by (simp add: CongestionController_update_def Let_def enter_bad_inv stay_good_inv split: if_splits)
next
  case Bad
  obtain d where d: "from_secs_f64 (co_adaptive_recovery_secs c) = Some d"
    using from_secs_defined assms by (auto simp: controller_inv_def)
  define is_bad where "is_bad \<longleftrightarrow> fl_lt (co_loss_threshold c) loss \<or> fl_lt (co_rtt_threshold_ms c) rtt"
  show ?thesis
  proof (cases is_bad)
    case True
    with Bad assms show ?thesis
      by (intro that[of "c\<lparr>co_good_conditions_start := None\<rparr>"])
        (simp_all add: CongestionController_update_def Let_def is_bad_def controller_inv_def reduced_rate_def)
  next
    case False
    note up = CongestionController_update_def Let_def is_bad_def[symmetric]
    show ?thesis
    proof (cases "co_good_conditions_start c")
      case None
      with Bad False assms show ?thesis
        by (intro that[of "c\<lparr>co_good_conditions_start := Some now\<rparr>"])
          (simp_all add: up controller_inv_def reduced_rate_def)
    next
      case (Some start)
      show ?thesis
      proof (cases "d \<le> duration_since now start")
        case True
        with Some Bad False assms d show ?thesis
          by (intro that[of "c\<lparr>co_mode := Good, co_last_good_entry := Some now,
                co_current_send_rate := co_base_send_rate c, co_good_conditions_start := None\<rparr>"])
            (simp_all add: up controller_inv_def)
      next
        case early: False
        with Some Bad False assms d show ?thesis
          by (intro that[of c]) (simp_all add: up)
      qed
    qed
  qed
qed

datatype controller_op = Refill nat | Deduct nat | Sample instant fl fl

fun controller_step :: "controller_op \<Rightarrow> congestion_controller \<Rightarrow> congestion_controller option" where
  "controller_step (Refill mtu) c = Some (refill_budget mtu c)"
| "controller_step (Deduct n) c = Some (deduct_budget n c)"
| "controller_step (Sample now loss rtt) c = CongestionController_update now loss rtt c"

fun controller_run :: "controller_op list \<Rightarrow> congestion_controller \<Rightarrow> congestion_controller option" where
  "controller_run [] c = Some c"
| "controller_run (a # as) c = Option.bind (controller_step a c) (controller_run as)"

lemma controller_run_inv:
  "controller_inv base c \<Longrightarrow> \<exists>c'. controller_run as c = Some c' \<and> controller_inv base c'"
proof (induction as arbitrary: c)
  case (Cons a as)
  have "\<exists>c1. controller_step a c = Some c1 \<and> controller_inv base c1"
  proof (cases a)
    case (Sample now loss rtt)
    then show ?thesis using update_controller_inv[OF Cons.prems, of now loss rtt] by auto
  qed (use Cons.prems in \<open>simp_all add: refill_budget_def deduct_budget_def Let_def controller_inv_def reduced_rate_def\<close>)
  with Cons.IH show ?case by auto
qed simp

section \<open>Leaving the bad mode\<close>

definition good_sample :: "congestion_controller \<Rightarrow> fl \<Rightarrow> fl \<Rightarrow> bool" where
  "good_sample c loss rtt \<longleftrightarrow> \<not> fl_lt (co_loss_threshold c) loss \<and> \<not> fl_lt (co_rtt_threshold_ms c) rtt"

definition waiting :: "congestion_controller \<Rightarrow> instant \<Rightarrow> duration \<Rightarrow> congestion_controller \<Rightarrow> bool" where
  "waiting c0 start required c \<longleftrightarrow> co_mode c = Bad \<and> co_good_conditions_start c = Some start \<and>
     from_secs_f64 (co_adaptive_recovery_secs c) = Some required \<and>
     co_loss_threshold c = co_loss_threshold c0 \<and> co_rtt_threshold_ms c = co_rtt_threshold_ms c0"

definition recovered :: "congestion_controller \<Rightarrow> congestion_controller \<Rightarrow> bool" where
  "recovered c0 c \<longleftrightarrow> co_mode c = Good \<and>
     co_loss_threshold c = co_loss_threshold c0 \<and> co_rtt_threshold_ms c = co_rtt_threshold_ms c0"

lemma recovered_step:
  assumes "recovered c0 c" and "good_sample c0 loss rtt"
  shows "\<exists>c'. CongestionController_update now loss rtt c = Some c' \<and> recovered c0 c'"
  using assms
  by (auto simp: recovered_def good_sample_def CongestionController_update_def Let_def stay_good_def split: option.split)

lemma waiting_step:
  assumes "waiting c0 start required c" and "good_sample c0 loss rtt"
  shows "\<exists>c'. CongestionController_update now loss rtt c = Some c' \<and>
    (if required \<le> duration_since now start then recovered c0 c' else c' = c)"
  using assms by (auto simp: waiting_def recovered_def good_sample_def CongestionController_update_def Let_def)

fun samples :: "(instant \<times> fl \<times> fl) list \<Rightarrow> controller_op list" where
  "samples [] = []"
| "samples ((now, loss, rtt) # xs) = Sample now loss rtt # samples xs"

lemma recovered_run:
  assumes "recovered c0 c" and "list_all (\<lambda>(now, loss, rtt). good_sample c0 loss rtt) xs"
  shows "\<exists>c'. controller_run (samples xs) c = Some c' \<and> recovered c0 c'"
  using assms
proof (induction xs arbitrary: c)
  case (Cons x xs)
  obtain now loss rtt where x: "x = (now, loss, rtt)" by (cases x)
  from recovered_step[OF Cons.prems(1), of loss rtt now] Cons.prems(2) x
  obtain c1 where "CongestionController_update now loss rtt c = Some c1" "recovered c0 c1" by auto
  with Cons x show ?case by auto
qed simp

lemma waiting_run:
  assumes "waiting c0 start required c" and "list_all (\<lambda>(now, loss, rtt). good_sample c0 loss rtt) xs"
    and "list_ex (\<lambda>(now, loss, rtt). required \<le> duration_since now start) xs"
  shows "\<exists>c'. controller_run (samples xs) c = Some c' \<and> recovered c0 c'"
  using assms
proof (induction xs)
  case (Cons x xs)
  obtain now loss rtt where x: "x = (now, loss, rtt)" by (cases x)
  from waiting_step[OF Cons.prems(1), of loss rtt now] Cons.prems(2) x
  obtain c1 where c1: "CongestionController_update now loss rtt c = Some c1"
    "if required \<le> duration_since now start then recovered c0 c1 else c1 = c" by auto
  show ?case
  proof (cases "required \<le> duration_since now start")
    case True
    then show ?thesis using c1 recovered_run[of c0 c1 xs] Cons.prems(2) x by auto
  next
    case False
    then show ?thesis using c1 Cons x by auto
  qed
qed simp

section \<open>The budget of a cycle\<close>

text \<open>The sends of one cycle: every packet is checked, counted and deducted.\<close>

fun send_cycle :: "nat \<Rightarrow> nat list \<Rightarrow> congestion_controller \<Rightarrow> nat list \<times> congestion_controller" where
  "send_cycle n [] c = ([], c)"
| "send_cycle n (b # bs) c =
     (if can_send n b c
      then case send_cycle (n + 1) bs (deduct_budget b c) of (sent, c') \<Rightarrow> (b # sent, c')
      else send_cycle n bs c)"

lemma send_cycle_budget: "int (sum_list (fst (send_cycle n bs c))) \<le> max 0 (co_budget_bytes_remaining c)"
proof (induction bs arbitrary: n c)
  case (Cons b bs)
  then show ?case
    using Cons.IH[of "n + 1" "deduct_budget b c"] Cons.IH[of n c]
    by (auto simp: can_send_def deduct_budget_def case_prod_unfold)
qed simp

lemma send_cycle_rate:
  "fst (send_cycle n bs c) \<noteq> [] \<Longrightarrow>
   fl_lt (fl_of_nat f32 (n + length (fst (send_cycle n bs c)) - 1)) (co_current_send_rate c)"
proof (induction bs arbitrary: n c)
  case (Cons b bs)
  have r: "co_current_send_rate (deduct_budget b c) = co_current_send_rate c" by (simp add: deduct_budget_def)
  show ?case
  proof (cases "can_send n b c")
    case True
    show ?thesis
    proof (cases "fst (send_cycle (n + 1) bs (deduct_budget b c)) = []")
      case True
      then show ?thesis using \<open>can_send n b c\<close> by (simp add: case_prod_unfold) (simp add: can_send_def)
    next
      case False
      then show ?thesis using Cons.IH[OF False] \<open>can_send n b c\<close> r by (simp add: case_prod_unfold)
    qed
  next
    case False
    then show ?thesis using Cons by simp
  qed
qed simp

section \<open>The window\<close>

definition moderate :: "nat \<Rightarrow> bool" where
  "moderate n \<longleftrightarrow> n < 2 ^ 64"

lemma moderate_fl:
  assumes "moderate n"
  obtains q where "fl_of_nat f64 n = Fin q" "0 \<le> q" "q \<le> 2 ^ 66"
proof -
  have "rat_of_nat n \<le> 2 ^ 64"
    using assms unfolding moderate_def by (metis less_imp_le of_nat_le_iff of_nat_numeral of_nat_power)
  then obtain q where "fl_of_nat f64 n = Fin q" "0 \<le> q" "q \<le> 2 ^ 64 + (2 ^ 64 + 1) / 4"
    unfolding fl_of_nat_def by (elim f64_round_below[of "rat_of_nat n", rotated]) simp_all
  then show ?thesis using that[of q] by simp
qed

definition window_inv :: "congestion_window \<Rightarrow> bool" where
  "window_inv w \<longleftrightarrow> fl_ge1 (cw_cwnd w) \<and> moderate (cw_mtu w)"

lemma fl_1200: "fl_of_nat f64 MIN_CWND_BYTES = Fin 1200"
  by (simp add: fl_of_nat_def MIN_CWND_BYTES_def) code_simp

lemma on_loss_inv:
  assumes "window_inv w"
  shows "window_inv (on_loss w)" "fl_le (Fin 1200) (cw_cwnd (on_loss w))"
proof -
  have "fl_le (Fin 1200) (cw_cwnd (on_loss w)) \<and> fl_ge1 (cw_cwnd (on_loss w))"
  proof (cases "cw_cwnd w")
    case (Fin q)
    obtain x where x: "fl_div f64 (cw_cwnd w) (Fin 2) = x" by blast
    have "x \<noteq> NaN" "x \<noteq> Inf False"
      using x Fin assms fl_round_nonneg[of "q / 2" f64]
      by (auto simp: window_inv_def fl_ge1_def)
    with x show ?thesis
      by (cases x) (auto simp: on_loss_def Let_def fl_1200 fl_le_def fl_eq_def fl_ge1_def)
  next
    case (Inf s)
    then show ?thesis
      using assms by (auto simp: on_loss_def Let_def fl_1200 fl_le_def fl_eq_def fl_ge1_def window_inv_def)
  qed (use assms in \<open>simp add: window_inv_def fl_ge1_def\<close>)
  then show "window_inv (on_loss w)" "fl_le (Fin 1200) (cw_cwnd (on_loss w))"
    using assms by (simp_all add: window_inv_def on_loss_def Let_def)
qed

lemma on_ack_inv:
  assumes "window_inv w" and "moderate bytes"
  shows "window_inv (on_ack bytes w)"
proof -
  obtain b where b: "fl_of_nat f64 bytes = Fin b" "0 \<le> b" "b \<le> 2 ^ 66" using assms(2) by (rule moderate_fl)
  obtain m where m: "fl_of_nat f64 (cw_mtu w) = Fin m" "0 \<le> m" "m \<le> 2 ^ 66"
    using assms(1) by (elim moderate_fl[rotated]) (simp add: window_inv_def)
  have "m * b \<le> 2 ^ 66 * 2 ^ 66" using b m by (intro mult_mono) simp_all
  then have mb: "0 \<le> m * b" "m * b \<le> 2 ^ 132" using b m by simp_all
  obtain p where p: "fl_round f64 (m * b) = Fin p" "0 \<le> p" "p \<le> 2 ^ 132 + (2 ^ 132 + 1) / 4"
    by (rule f64_round_below[OF mb]) simp_all
  have "fl_nonneg (fl_div f64 (Fin p) (cw_cwnd w))"
    using assms(1) p(2) by (cases "cw_cwnd w") (auto simp: window_inv_def fl_ge1_def intro!: fl_round_nonneg)
  with assms b m p show ?thesis
    by (auto simp: on_ack_def Let_def window_inv_def intro!: fl_add_ge1 split: congestion_phase.split)
qed

datatype window_op = WAck nat | WLoss | WExit | WSend instant nat

fun window_step :: "window_op \<Rightarrow> congestion_window \<Rightarrow> congestion_window" where
  "window_step (WAck n) w = on_ack n w"
| "window_step WLoss w = on_loss w"
| "window_step WExit w = exit_recovery w"
| "window_step (WSend now n) w = on_send now n w"

fun window_op_ok :: "window_op \<Rightarrow> bool" where
  "window_op_ok (WAck n) = moderate n"
| "window_op_ok a = True"

interpretation cwnd: invariant_machine window_op_ok window_step window_inv
proof
  fix a and w :: congestion_window
  assume "window_op_ok a" "window_inv w"
  then show "window_inv (window_step a w)"
    by (cases a) (simp_all add: on_ack_inv on_loss_inv, simp_all add: exit_recovery_def on_send_def window_inv_def)
qed

lemma window_new:
  assumes "0 < mtu" and "10 * mtu < 2 ^ 64"
  shows "window_inv (CongestionWindow_new mtu)"
proof -
  have "rat_of_nat 1 \<le> rat_of_nat (INITIAL_CWND_PACKETS * mtu)"
    using assms(1) by (simp only: of_nat_le_iff) (simp add: INITIAL_CWND_PACKETS_def)
  then have "fl_ge1 (fl_of_nat f64 (INITIAL_CWND_PACKETS * mtu))"
    unfolding fl_of_nat_def by (intro fl_round_ge1) simp
  with assms(2) show ?thesis by (simp add: window_inv_def CongestionWindow_new_def moderate_def)
qed

section \<open>The tracker\<close>

fun track :: "(instant \<times> nat) list \<Rightarrow> bandwidth_tracker \<Rightarrow> bandwidth_tracker" where
  "track [] b = b"
| "track ((now, bytes) # xs) b = track xs (bandwidth_record now bytes b)"

lemma dropWhile_sorted:
  assumes "sorted (map fst xs)"
  shows "dropWhile (\<lambda>(t, _). d \<le> duration_since now t) xs = filter (\<lambda>(t, _). duration_since now t < d) xs"
  using assms
proof (induction xs)
  case (Cons x xs)
  obtain t n where x: "x = (t, n)" by fastforce
  show ?case
  proof (cases "d \<le> duration_since now t")
    case True
    then show ?thesis using Cons x by simp
  next
    case False
    have "duration_since now t' < d" if "(t', n') \<in> set xs" for t' n'
    proof -
      have "t \<le> t'" using Cons.prems that x by force
      then show ?thesis using duration_since_mono[of t t' now] False by linarith
    qed
    then have "filter (\<lambda>(t, _). duration_since now t < d) xs = xs" by (auto simp: filter_id_conv)
    then show ?thesis using False x by simp
  qed
qed simp

lemma filter_recent_twice:
  assumes "now \<le> now'"
  shows "filter (\<lambda>(t, _). duration_since now' t < d) (filter (\<lambda>(t, _). duration_since now t < d) xs) =
    filter (\<lambda>(t, _). duration_since now' t < d) xs"
  using duration_since_mono_now[OF assms] by (auto intro!: filter_cong dest: le_less_trans simp: case_prod_unfold)

lemma track_window:
  assumes "sorted (map fst (xs @ ys))" and "ys \<noteq> []"
    and "bw_window b = filter (\<lambda>(t, _). duration_since now t < bw_window_duration b) xs"
    and "\<forall>t\<in>fst ` set ys. now \<le> t"
  shows "bw_window (track ys b) = filter (\<lambda>(t, _). duration_since (fst (last ys)) t < bw_window_duration b) (xs @ ys) \<and>
    bw_window_duration (track ys b) = bw_window_duration b"
  using assms
proof (induction ys arbitrary: xs b now)
  case (Cons y ys)
  obtain t n where y: "y = (t, n)" by fastforce
  let ?d = "bw_window_duration b"
  have sx: "sorted (map fst (xs @ [y]))" using Cons.prems(1) by (simp add: sorted_append)
  have sf: "sorted (map fst (filter (\<lambda>(t, _). duration_since now t < ?d) xs @ [y]))"
    using sorted_filter[of fst xs] Cons.prems(1) by (auto simp: sorted_append)
  have nt: "now \<le> t" using Cons.prems(4) y by simp
  have b1: "bw_window (bandwidth_record t n b) = filter (\<lambda>(s, _). duration_since t s < ?d) (xs @ [y])"
    using dropWhile_sorted[OF sf, of ?d t] filter_recent_twice[OF nt, of ?d xs] Cons.prems(3) y
    by (simp add: bandwidth_record_def bandwidth_cleanup_def)
  have d1: "bw_window_duration (bandwidth_record t n b) = ?d"
    by (simp add: bandwidth_record_def bandwidth_cleanup_def)
  show ?case
  proof (cases "ys = []")
    case True
    then show ?thesis using b1 d1 y by simp
  next
    case False
    have "\<forall>s\<in>fst ` set ys. t \<le> s" using Cons.prems(1) y by (auto simp: sorted_append)
    then show ?thesis
      using Cons.IH[of "xs @ [y]" "bandwidth_record t n b" t] Cons.prems(1) False b1 d1 y by simp
  qed
qed simp

section \<open>Properties\<close>

text \<open>A controller whose configured recovery time is less than 4000 years never panics, whatever it
  measures; its send rate is the base rate in the good mode and the reduced rate in the bad mode, and
  its recovery time stays finite.\<close>

theorem controller_total:
  assumes "recovery_time < 2 ^ 37 * 1000000000"
  shows "\<exists>c. controller_run as (CongestionController_new base loss rtt recovery_time) = Some c \<and>
    co_current_send_rate c = (if co_mode c = Good then base
      else fl_max (fl_mul f32 base CONGESTION_RATE_REDUCTION) MIN_SEND_RATE) \<and>
    finite_between 0 (2 ^ 40) (co_adaptive_recovery_secs c)"
proof -
  from assms obtain r where "as_secs_f64 recovery_time = Fin r" "0 \<le> r" "r \<le> 2 * of_nat (2 ^ 37) + 6"
    by (rule as_secs_f64_below) simp_all
  then have "controller_inv base (CongestionController_new base loss rtt recovery_time)"
    by (simp add: controller_inv_def CongestionController_new_def finite_between_def)
  from controller_run_inv[OF this, of as] obtain c where
    "controller_run as (CongestionController_new base loss rtt recovery_time) = Some c" "controller_inv base c" by blast
  then show ?thesis by (intro exI[of _ c]) (simp add: controller_inv_def reduced_rate_def)
qed

theorem controller_total_witness:
  "\<exists>c. controller_run [Refill 1200, Sample 5 (Fin 1) (Fin 300), Deduct 7, Sample 9 (Fin 0) (Fin 1)]
     (CongestionController_new (Fin 60) (Fin (1 / 10)) (Fin 250) (from_secs 10)) = Some c"
proof -
  have "from_secs 10 < 2 ^ 37 * 1000000000" by (simp add: from_secs_def)
  from controller_total[OF this] show ?thesis by blast
qed

text \<open>C26: once conditions are good and stay good, the controller leaves the bad mode no later than the
  first measurement after its recovery time, and does not fall back.\<close>

theorem controller_recovers:
  assumes "co_mode c = Bad" and "co_good_conditions_start c = None"
    and "from_secs_f64 (co_adaptive_recovery_secs c) = Some required"
    and "good_sample c loss rtt" and "list_all (\<lambda>(now, loss, rtt). good_sample c loss rtt) xs"
    and "list_ex (\<lambda>(now, _). required \<le> duration_since now t) xs"
  shows "\<exists>c'. controller_run (Sample t loss rtt # samples xs) c = Some c' \<and> co_mode c' = Good"
proof -
  let ?c = "c\<lparr>co_good_conditions_start := Some t\<rparr>"
  have "CongestionController_update t loss rtt c = Some ?c"
    using assms(1,2,4) by (simp add: CongestionController_update_def Let_def good_sample_def)
  moreover have "waiting c t required ?c" using assms(1,3) by (simp add: waiting_def)
  moreover have "list_ex (\<lambda>(now, loss, rtt). required \<le> duration_since now t) xs"
    using assms(6) by (auto simp: list_ex_iff)
  ultimately show ?thesis
    using waiting_run[of c t required ?c xs] assms(5) by (auto simp: recovered_def)
qed

theorem controller_recovers_witness:
  "\<exists>c'. controller_run (Sample 10 (Fin 0) (Fin 1) # samples [(20, Fin 0, Fin 2), (1000000020, Fin 0, Fin 1)])
     ((CongestionController_new (Fin 60) (Fin (1 / 10)) (Fin 250) 0)\<lparr>co_mode := Bad, co_adaptive_recovery_secs := Fin 1\<rparr>) = Some c' \<and>
     co_mode c' = Good"
proof (rule controller_recovers)
  show "from_secs_f64 (co_adaptive_recovery_secs
      ((CongestionController_new (Fin 60) (Fin (1 / 10)) (Fin 250) 0)\<lparr>co_mode := Bad, co_adaptive_recovery_secs := Fin 1\<rparr>)) = Some 1000000000"
    using round_half_even_of_int[of 1000000000] by (simp add: from_secs_f64_def)
qed (simp_all add: CongestionController_new_def good_sample_def duration_since_def)

text \<open>However many packets are offered in a cycle, the bytes sent stay within the budget of the
  tick, and the packets sent stay within the send rate.\<close>

theorem cycle_within_budget:
  "sum_list (fst (send_cycle 0 packets (refill_budget mtu c))) \<le> co_bytes_per_tick (refill_budget mtu c) \<and>
   (fst (send_cycle 0 packets (refill_budget mtu c)) = [] \<or>
    fl_lt (fl_of_nat f32 (length (fst (send_cycle 0 packets (refill_budget mtu c))) - 1)) (co_current_send_rate c))"
proof
  have "signed_take_bit 63 (int n) \<le> int n" for n by (simp add: signed_take_bit_int_less_eq_self_iff)
  then show "sum_list (fst (send_cycle 0 packets (refill_budget mtu c))) \<le> co_bytes_per_tick (refill_budget mtu c)"
    using send_cycle_budget[of 0 packets "refill_budget mtu c"] by (simp add: refill_budget_def Let_def) (smt (verit) of_nat_0_le_iff of_nat_le_iff)
  show "fst (send_cycle 0 packets (refill_budget mtu c)) = [] \<or>
    fl_lt (fl_of_nat f32 (length (fst (send_cycle 0 packets (refill_budget mtu c))) - 1)) (co_current_send_rate c)"
    using send_cycle_rate[of 0 packets "refill_budget mtu c"] by (auto simp: refill_budget_def Let_def)
qed

text \<open>The congestion window is a number of at least one byte in every run of acknowledgements,
  losses, sends and recoveries, and at least 1200 bytes right after a loss; no division by it fails.\<close>

theorem window_well_defined:
  assumes "0 < mtu" and "10 * mtu < 2 ^ 64" and "list_all window_op_ok as"
  shows "fl_ge1 (cw_cwnd (fold window_step as (CongestionWindow_new mtu))) \<and>
    fl_le (Fin 1200) (cw_cwnd (on_loss (fold window_step as (CongestionWindow_new mtu))))"
proof -
  have "window_inv (fold window_step as (CongestionWindow_new mtu))"
    using assms(3) by (intro cwnd.run_inv window_new[OF assms(1,2)]) (simp add: list_all_iff)
  then show ?thesis using on_loss_inv(2) by (simp add: window_inv_def)
qed

theorem window_well_defined_witness:
  "fl_ge1 (cw_cwnd (fold window_step [WSend 3 1200, WAck 1200, WLoss, WExit, WAck 500] (CongestionWindow_new 1200)))"
  by (rule window_well_defined[THEN conjunct1]) (simp_all add: moderate_def)

text \<open>Right after a packet is recorded, the tracker holds exactly the records of the last window.\<close>

theorem tracker_window_exact:
  assumes "sorted (map fst xs)" and "xs \<noteq> []"
  shows "bw_window (track xs (BandwidthTracker_new d)) =
    filter (\<lambda>(t, _). duration_since (fst (last xs)) t < d) xs"
proof -
  have le: "\<forall>t\<in>fst ` set xs. fst (hd xs) \<le> t" using assms by (cases xs) auto
  have b: "bw_window (BandwidthTracker_new d) =
      filter (\<lambda>(t, _). duration_since (fst (hd xs)) t < bw_window_duration (BandwidthTracker_new d)) []"
    by (simp add: BandwidthTracker_new_def)
  from track_window[OF _ assms(2) b le] assms(1) show ?thesis by (simp add: BandwidthTracker_new_def)
qed

theorem tracker_window_exact_witness:
  "bw_window (track [(1, 10), (5, 20), (12, 30)] (BandwidthTracker_new 8)) = [(5, 20), (12, 30)]"
proof -
  have "bw_window (track [(1, 10), (5, 20), (12, 30)] (BandwidthTracker_new 8)) =
    filter (\<lambda>(t, _). duration_since (fst (last [(1, 10 :: nat), (5, 20), (12, 30)])) t < 8) [(1, 10), (5, 20), (12, 30)]"
    by (rule tracker_window_exact) simp_all
  then show ?thesis by (simp add: duration_since_def)
qed

text \<open>A recovery time of \<open>Duration::from_secs(u64::MAX)\<close>, which \<open>validate\<close> accepts, is rounded up to
  \<open>2 ^ 64\<close> seconds, which no \<open>Duration\<close> holds: once the good conditions after a bad spell have begun,
  the next good sample panics.\<close>

lemma round_u64_max: "fl_round f64 18446744073709551615 = Fin 18446744073709551616"
  and round_2_64: "fl_round f64 18446744073709551616 = Fin 18446744073709551616"
proof -
  have q: "quotient_of 18446744073709551615 = (18446744073709551615, 1)" "quotient_of 18446744073709551616 = (18446744073709551616, 1)"
    using quotient_of_int[of 18446744073709551615] quotient_of_int[of 18446744073709551616] by simp_all
  have l: "int_log2 18446744073709551615 = 63" "int_log2 18446744073709551616 = 64" "int_log2 1 = 0"
    by (simp_all add: int_log2.simps)
  have "ilog2 18446744073709551615 = 63" "ilog2 18446744073709551616 = 64" by (simp_all add: ilog2_def q l pow2_def)
  moreover have "\<lfloor>18446744073709551615 / 2048 :: rat\<rfloor> = 9007199254740991" by (rule floor_unique) simp_all
  ultimately have "round_value f64 18446744073709551615 = 18446744073709551616" "round_value f64 18446744073709551616 = 18446744073709551616"
    by (simp_all add: round_value_def f64_def pow2_def round_half_even_def Let_def)
  moreover have "(18446744073709551616 :: rat) < pow2 (ff_emax f64 + 1)"
    using pow2_mono[of 65 "ff_emax f64 + 1"] by (simp add: f64_def pow2_nat[of 65, simplified])
  moreover have "- pow2 (ff_emax f64 + 1) < (18446744073709551616 :: rat)"
    using pow2_pos[of "ff_emax f64 + 1"] by (simp del: pow2_pos)
  ultimately show "fl_round f64 18446744073709551615 = Fin 18446744073709551616"
    "fl_round f64 18446744073709551616 = Fin 18446744073709551616" by (simp_all add: fl_round_def)
qed

lemma recovery_time_panics:
  assumes "co_mode c = Bad" and "co_good_conditions_start c = Some start" and "good_sample c loss rtt"
    and "co_adaptive_recovery_secs c = as_secs_f64 (18446744073709551615 * 1000000000)"
  shows "CongestionController_update now loss rtt c = None"
proof -
  have "as_secs_f64 (18446744073709551615 * 1000000000) = Fin 18446744073709551616"
    by (simp add: as_secs_f64_def fl_of_nat_def round_u64_max round_2_64)
  moreover have "from_secs_f64 (Fin 18446744073709551616) = None" by (simp add: from_secs_f64_def round_half_even_def)
  ultimately show ?thesis using assms by (simp add: CongestionController_update_def good_sample_def)
qed

end
