(* ===== verification/Stats.thy ===== *)
theory Stats
  imports Channel Reliability
begin

text \<open>
  Statistics (\<open>gbnet/src/stats.rs\<close>): the quality grade of a connection, its counters, and the
  counters of a channel (\<open>Channel::stats\<close>). The constructors of the grade carry the suffix
  \<open>Quality\<close>, since \<open>Good\<close> is a mode of the congestion controller.
\<close>

datatype connection_quality = GoodQuality | FairQuality | PoorQuality

definition GOOD_RTT_THRESHOLD_MS :: fl where "GOOD_RTT_THRESHOLD_MS = Fin 100"
definition GOOD_LOSS_THRESHOLD :: fl where "GOOD_LOSS_THRESHOLD = fl_round f32 (2 / 100)"
definition FAIR_RTT_THRESHOLD_MS :: fl where "FAIR_RTT_THRESHOLD_MS = Fin 250"
definition FAIR_LOSS_THRESHOLD :: fl where "FAIR_LOSS_THRESHOLD = fl_round f32 (1 / 10)"

definition assess_connection_quality :: "fl \<Rightarrow> fl \<Rightarrow> connection_quality" where
  "assess_connection_quality rtt_ms loss_percent =
     (if fl_lt rtt_ms GOOD_RTT_THRESHOLD_MS \<and> fl_lt loss_percent GOOD_LOSS_THRESHOLD then GoodQuality
      else if fl_lt rtt_ms FAIR_RTT_THRESHOLD_MS \<and> fl_lt loss_percent FAIR_LOSS_THRESHOLD then FairQuality
      else PoorQuality)"

record network_stats =
  ns_packets_sent :: nat
  ns_packets_received :: nat
  ns_bytes_sent :: nat
  ns_bytes_received :: nat
  ns_packet_loss :: fl
  ns_rtt :: fl
  ns_bandwidth_up :: fl
  ns_bandwidth_down :: fl
  ns_send_errors :: nat
  ns_connection_quality :: connection_quality

definition NetworkStats_default :: network_stats where
  "NetworkStats_default =
     \<lparr>ns_packets_sent = 0, ns_packets_received = 0, ns_bytes_sent = 0, ns_bytes_received = 0,
      ns_packet_loss = Fin 0, ns_rtt = Fin 0, ns_bandwidth_up = Fin 0, ns_bandwidth_down = Fin 0,
      ns_send_errors = 0, ns_connection_quality = GoodQuality\<rparr>"

record channel_stats =
  cs_id :: u8
  cs_messages_sent :: nat
  cs_messages_received :: nat
  cs_bytes_sent :: nat
  cs_bytes_received :: nat
  cs_send_buffer_size :: nat
  cs_pending_ack_count :: nat
  cs_receive_buffer_size :: nat
  cs_gap_sequences_skipped :: nat
  cs_messages_dropped :: nat

definition Channel_stats :: "channel \<Rightarrow> channel_stats" where
  "Channel_stats c =
     \<lparr>cs_id = ch_id c, cs_messages_sent = ch_messages_sent c, cs_messages_received = ch_messages_received c,
      cs_bytes_sent = ch_bytes_sent c, cs_bytes_received = ch_bytes_received c,
      cs_send_buffer_size = length (ch_send_buffer c), cs_pending_ack_count = hm_len (ch_pending_ack c),
      cs_receive_buffer_size = hm_len (ch_ordered_receive_buffer c),
      cs_gap_sequences_skipped = ch_gap_sequences_skipped c, cs_messages_dropped = ch_messages_dropped c\<rparr>"

record socket_stats =
  ss_packets_sent :: nat
  ss_packets_received :: nat
  ss_bytes_sent :: nat
  ss_bytes_received :: nat
  ss_last_receive_time :: "instant option"
  ss_last_send_time :: "instant option"

definition SocketStats_default :: socket_stats where
  "SocketStats_default =
     \<lparr>ss_packets_sent = 0, ss_packets_received = 0, ss_bytes_sent = 0, ss_bytes_received = 0,
      ss_last_receive_time = None, ss_last_send_time = None\<rparr>"

section \<open>The grades are ordered\<close>

fun quality_rank :: "connection_quality \<Rightarrow> nat" where
  "quality_rank PoorQuality = 0"
| "quality_rank FairQuality = 1"
| "quality_rank GoodQuality = 2"

instantiation connection_quality :: linorder
begin

definition less_eq_connection_quality :: "connection_quality \<Rightarrow> connection_quality \<Rightarrow> bool" where
  "p \<le> q \<longleftrightarrow> quality_rank p \<le> quality_rank q"

definition less_connection_quality :: "connection_quality \<Rightarrow> connection_quality \<Rightarrow> bool" where
  "p < q \<longleftrightarrow> quality_rank p < quality_rank q"

instance
proof
  fix p q :: connection_quality
  assume "p \<le> q" and "q \<le> p"
  then show "p = q" unfolding less_eq_connection_quality_def by (cases p; cases q) simp_all
qed (auto simp: less_eq_connection_quality_def less_connection_quality_def)

end

text \<open>A connection that is slower and loses more is never graded better; one that measures \<open>NaN\<close> is graded worst.\<close>

lemma quality_monotone:
  assumes "fl_le rtt rtt'" and "fl_le loss loss'"
  shows "assess_connection_quality rtt' loss' \<le> assess_connection_quality rtt loss"
proof -
  have lt: "fl_le x y \<Longrightarrow> fl_lt y z \<Longrightarrow> fl_lt x z" for x y z
    by (cases x; cases y; cases z) (auto simp: fl_le_def fl_eq_def)
  show ?thesis
    using lt[OF assms(1)] lt[OF assms(2)] by (auto simp: assess_connection_quality_def less_eq_connection_quality_def)
qed

lemma quality_NaN: "assess_connection_quality NaN loss = PoorQuality" "assess_connection_quality rtt NaN = PoorQuality"
  by (cases rtt; cases loss; simp add: assess_connection_quality_def)+

end
