(* ===== verification/Socket.thy ===== *)
theory Socket
  imports Stats Packet Crc Security
begin

text \<open>
  Datagrams on a socket (\<open>gbnet/src/socket.rs\<close>) and control packets (\<open>gbnet/src/wire.rs\<close>).

  The operating system's socket is explicit: \<open>os_incoming\<close> holds what the coming receive calls
  return, in order (a datagram with its sender or an error; \<open>WouldBlock\<close> when nothing is left),
  \<open>os_send_errors\<close> what the coming send calls return (success when nothing is left), and
  \<open>os_outgoing\<close> the datagrams accepted for sending. The texts of the errors are left out.
\<close>

section \<open>Errors\<close>

datatype os_error = OsWouldBlock | OsOther

datatype socket_error =
    SocketIo os_error | InvalidAddress | SocketClosed | SocketWouldBlock | SocketOther string

definition SocketError_from :: "os_error \<Rightarrow> socket_error" where
  "SocketError_from err = (case err of OsWouldBlock \<Rightarrow> SocketWouldBlock | _ \<Rightarrow> SocketIo err)"

section \<open>The socket\<close>

definition MAX_UDP_PACKET_SIZE :: nat where
  "MAX_UDP_PACKET_SIZE = 65536"

record os_socket =
  os_incoming :: "(os_error + (bytes \<times> socket_addr)) list"
  os_send_errors :: "os_error option list"
  os_outgoing :: "(bytes \<times> socket_addr) list"

record udp_socket =
  us_socket :: os_socket
  us_stats :: socket_stats

definition UdpSocket_bind :: "os_error + os_socket \<Rightarrow> socket_error + udp_socket" where
  "UdpSocket_bind bound =
     (case bound of
        Inl e \<Rightarrow> Inl (SocketError_from e)
      | Inr s \<Rightarrow> Inr \<lparr>us_socket = s, us_stats = SocketStats_default\<rparr>)"

definition os_send_to :: "bytes \<Rightarrow> socket_addr \<Rightarrow> os_socket \<Rightarrow> (os_error + nat) \<times> os_socket" where
  "os_send_to data addr s =
     (case os_send_errors s of
        Some e # rest \<Rightarrow> (Inl e, s\<lparr>os_send_errors := rest\<rparr>)
      | None # rest \<Rightarrow> (Inr (length data), s\<lparr>os_send_errors := rest, os_outgoing := os_outgoing s @ [(data, addr)]\<rparr>)
      | [] \<Rightarrow> (Inr (length data), s\<lparr>os_outgoing := os_outgoing s @ [(data, addr)]\<rparr>))"

definition os_recv_from :: "os_socket \<Rightarrow> (os_error + (bytes \<times> socket_addr)) \<times> os_socket" where
  "os_recv_from s =
     (case os_incoming s of
        [] \<Rightarrow> (Inl OsWouldBlock, s)
      | Inl e # rest \<Rightarrow> (Inl e, s\<lparr>os_incoming := rest\<rparr>)
      | Inr (data, addr) # rest \<Rightarrow> (Inr (take MAX_UDP_PACKET_SIZE data, addr), s\<lparr>os_incoming := rest\<rparr>))"

definition send_to :: "instant \<Rightarrow> bytes \<Rightarrow> socket_addr \<Rightarrow> udp_socket \<Rightarrow> (socket_error + nat) \<times> udp_socket" where
  "send_to now data addr u =
     (case os_send_to data addr (us_socket u) of
        (Inl e, s) \<Rightarrow> (Inl (SocketError_from e), u\<lparr>us_socket := s\<rparr>)
      | (Inr sent, s) \<Rightarrow>
          (Inr sent, u\<lparr>us_socket := s, us_stats := (us_stats u)
             \<lparr>ss_bytes_sent := ss_bytes_sent (us_stats u) + sent,
              ss_packets_sent := ss_packets_sent (us_stats u) + 1, ss_last_send_time := Some now\<rparr>\<rparr>))"

definition recv_from :: "instant \<Rightarrow> udp_socket \<Rightarrow> (socket_error + (bytes \<times> socket_addr)) \<times> udp_socket" where
  "recv_from now u =
     (case os_recv_from (us_socket u) of
        (Inl e, s) \<Rightarrow> (Inl (SocketError_from e), u\<lparr>us_socket := s\<rparr>)
      | (Inr (data, addr), s) \<Rightarrow>
          (Inr (data, addr), u\<lparr>us_socket := s, us_stats := (us_stats u)
             \<lparr>ss_bytes_received := ss_bytes_received (us_stats u) + length data,
              ss_packets_received := ss_packets_received (us_stats u) + 1, ss_last_receive_time := Some now\<rparr>\<rparr>))"

definition reset_stats :: "udp_socket \<Rightarrow> udp_socket" where
  "reset_stats u = u\<lparr>us_stats := SocketStats_default\<rparr>"

text \<open>What is still to be received: the measure of every receive loop.\<close>

definition pending_receives :: "udp_socket \<Rightarrow> nat" where
  "pending_receives u = length (os_incoming (us_socket u))"

lemma pending_receives_send [simp]: "pending_receives (snd (send_to now data addr u)) = pending_receives u"
  by (auto simp: pending_receives_def send_to_def os_send_to_def split: list.split option.split)

lemma pending_receives_recv: "recv_from now u = (Inr x, u') \<Longrightarrow> pending_receives u' < pending_receives u"
  by (auto simp: pending_receives_def recv_from_def os_recv_from_def split: list.splits sum.splits prod.splits)

section \<open>Frames\<close>

text \<open>
  \<open>seal_packet\<close> is what every sender does with a packet (\<open>Packet::serialize\<close>, then
  \<open>append_crc32\<close>), \<open>open_packet\<close> what every receiver does with a datagram: check and strip the
  checksum, read the packet, compare the protocol id.
\<close>

definition seal_packet :: "packet \<Rightarrow> bytes option" where
  "seal_packet p = (case Packet_serialize p of Inl _ \<Rightarrow> None | Inr data \<Rightarrow> Some (append_crc32 data))"

definition open_packet :: "u32 \<Rightarrow> bytes \<Rightarrow> (packet \<times> nat) option" where
  "open_packet protocol_id data =
     (case validate_and_strip_crc32 data of
        None \<Rightarrow> None
      | Some validated \<Rightarrow>
          (case Packet_deserialize validated of
             Inl _ \<Rightarrow> None
           | Inr p \<Rightarrow> if ph_protocol_id (pkt_header p) \<noteq> protocol_id then None
                      else Some (p, length validated)))"

definition send_raw_packet :: "instant \<Rightarrow> socket_addr \<Rightarrow> u32 \<Rightarrow> u16 \<Rightarrow> packet_type \<Rightarrow> udp_socket \<Rightarrow> udp_socket" where
  "send_raw_packet now addr protocol_id sequence t u =
     (case seal_packet (Packet_new \<lparr>ph_protocol_id = protocol_id, ph_sequence = sequence, ph_ack = 0, ph_ack_bits = 0\<rparr> t) of
        None \<Rightarrow> u
      | Some data \<Rightarrow> snd (send_to now data addr u))"

lemma pending_receives_raw [simp]:
  "pending_receives (send_raw_packet now addr protocol_id sequence t u) = pending_receives u"
  by (simp add: send_raw_packet_def split: option.split)

end
