(* ===== verification/Connection.thy ===== *)
theory Connection
  imports Socket Congestion Fragment Mtu Batch
begin

text \<open>
  A connection (\<open>gbnet/src/connection/mod.rs\<close>, \<open>handshake.rs\<close>, \<open>io.rs\<close>): the handshake, the
  channels with their reliability and congestion control, and the update of a tick.

  \<open>now\<close> is the one clock reading of a call, \<open>od\<close> the iteration orders of the maps it walks over,
  the random client salt and the operations of the optional encryption are arguments. A tick is
  \<open>None\<close> where the code panics (an index out of range, \<open>Duration::from_secs_f64\<close>).
\<close>

section \<open>Data\<close>

datatype connection_state = Disconnected | Connecting | ChallengeResponse | Connected | Disconnecting

datatype connection_error =
    NotConnected | AlreadyConnected | ConnectionDenied u8 | Timeout | ProtocolMismatch | InvalidPacket
  | InvalidChannel u8 | SocketError socket_error | ChannelError channel_error | ConnMessageTooLarge

datatype disconnect_reason =
    ReasonTimeout | Requested | Kicked | ReasonServerFull | ReasonProtocolMismatch | Unknown u8

definition DisconnectReason_from :: "u8 \<Rightarrow> disconnect_reason" where
  "DisconnectReason_from val =
     (if val = 0 then ReasonTimeout else if val = 1 then Requested else if val = 2 then Kicked
      else if val = 3 then ReasonServerFull else if val = 4 then ReasonProtocolMismatch
      else Unknown val)"

definition DISCONNECT_REQUESTED :: u8 where "DISCONNECT_REQUESTED = 1"
definition DENY_SERVER_FULL :: u8 where "DENY_SERVER_FULL = 0"
definition DENY_INVALID_CHALLENGE :: u8 where "DENY_INVALID_CHALLENGE = 4"

record connection =
  cn_config :: network_config
  cn_state :: connection_state
  cn_local_addr :: socket_addr
  cn_remote_addr :: socket_addr
  cn_client_salt :: u64
  cn_server_salt :: u64
  cn_last_packet_send_time :: instant
  cn_last_packet_recv_time :: instant
  cn_connection_start_time :: "instant option"
  cn_connection_request_time :: "instant option"
  cn_connection_retry_count :: nat
  cn_local_sequence :: u16
  cn_remote_sequence :: u16
  cn_ack_bits :: u64
  cn_reliability :: reliable_endpoint
  cn_channels :: "channel list"
  cn_send_queue :: "packet list"
  cn_recv_queue :: "packet list"
  cn_congestion :: congestion_controller
  cn_cwnd :: "congestion_window option"
  cn_bandwidth_up :: bandwidth_tracker
  cn_bandwidth_down :: bandwidth_tracker
  cn_fragment_assembler :: fragment_assembler
  cn_mtu_discovery :: mtu_discovery
  cn_encryption_state :: "encryption_state option"
  cn_channel_priority_order :: "nat list"
  cn_stats :: network_stats
  cn_disconnect_retry_count :: nat
  cn_disconnect_time :: "instant option"
  cn_pending_ack_send :: bool
  cn_data_sent_this_tick :: bool
  cn_next_fragment_id :: u32
  cn_pending_fragments :: "(u32, (u16 \<times> u8 \<times> bytes) list) hash_map"

text \<open>The iteration orders of the maps: packets in flight, each channel's maps, fragment buffers.\<close>

record map_orders =
  od_in_flight :: "u16 iter_order"
  od_channel :: "nat \<Rightarrow> u16 iter_order"
  od_fragments :: "u32 iter_order"

definition orders_ok :: "map_orders \<Rightarrow> bool" where
  "orders_ok od \<longleftrightarrow> is_iter_order (od_in_flight od) \<and> (\<forall>i. is_iter_order (od_channel od i)) \<and>
     is_iter_order (od_fragments od)"

section \<open>Construction\<close>

definition new_channels :: "network_config \<Rightarrow> channel list" where
  "new_channels config =
     (if nc_channel_configs config = []
      then map (\<lambda>i. Channel_new (of_nat i) (nc_default_channel_config config)) [0..<nc_max_channels config]
      else map (\<lambda>(i, cfg). Channel_new (of_nat i) cfg) (enumerate 0 (nc_channel_configs config)) @
        map (\<lambda>i. Channel_new (of_nat i) (nc_default_channel_config config))
          [length (nc_channel_configs config)..<nc_max_channels config])"

definition priority_order :: "channel list \<Rightarrow> nat list" where
  "priority_order channels = sort_key (\<lambda>i. cc_priority (ch_config (channels ! i))) [0..<length channels]"

definition new_congestion :: "network_config \<Rightarrow> congestion_controller" where
  "new_congestion config = CongestionController_new (nc_send_rate config)
     (nc_congestion_bad_loss_threshold config) (nc_congestion_good_rtt_threshold config)
     (nc_congestion_recovery_time config)"

definition Connection_new :: "(bytes \<Rightarrow> encryption_state option) \<Rightarrow> u64 \<Rightarrow> instant \<Rightarrow> network_config \<Rightarrow>
    socket_addr \<Rightarrow> socket_addr \<Rightarrow> connection" where
  "Connection_new enc_new client_salt now config local remote =
     \<lparr>cn_config = config, cn_state = Disconnected, cn_local_addr = local, cn_remote_addr = remote,
      cn_client_salt = client_salt, cn_server_salt = 0, cn_last_packet_send_time = now,
      cn_last_packet_recv_time = now, cn_connection_start_time = None,
      cn_connection_request_time = None, cn_connection_retry_count = 0, cn_local_sequence = 0,
      cn_remote_sequence = 0, cn_ack_bits = 0,
      cn_reliability = endpoint_with_max_in_flight (nc_max_in_flight config)
        (ReliableEndpoint_new (nc_packet_buffer_size config)),
      cn_channels = new_channels config, cn_send_queue = [], cn_recv_queue = [],
      cn_congestion = new_congestion config,
      cn_cwnd = (if nc_use_cwnd_congestion config then Some (CongestionWindow_new (nc_mtu config)) else None),
      cn_bandwidth_up = BandwidthTracker_new (from_secs 1),
      cn_bandwidth_down = BandwidthTracker_new (from_secs 1),
      cn_fragment_assembler = FragmentAssembler_new (nc_fragment_timeout config)
        (nc_max_reassembly_buffer_size config),
      cn_mtu_discovery = MtuDiscovery_new MIN_MTU (nc_mtu config),
      cn_encryption_state = Option.bind (nc_encryption_key config) enc_new,
      cn_channel_priority_order = priority_order (new_channels config),
      cn_stats = NetworkStats_default, cn_disconnect_retry_count = 0, cn_disconnect_time = None,
      cn_pending_ack_send = False, cn_data_sent_this_tick = False, cn_next_fragment_id = 0,
      cn_pending_fragments = []\<rparr>"

section \<open>Messages and headers\<close>

definition Connection_send :: "u8 \<Rightarrow> bytes \<Rightarrow> bool \<Rightarrow> connection \<Rightarrow> (connection_error + unit) \<times> connection" where
  "Connection_send channel_id data reliable c =
     (if cn_state c \<noteq> Connected then (Inl NotConnected, c)
      else if unat channel_id \<ge> length (cn_channels c) then (Inl (InvalidChannel channel_id), c)
      else case Channel.send data reliable (cn_channels c ! unat channel_id) of
             (r, ch) \<Rightarrow>
               ((case r of Inl e \<Rightarrow> Inl (ChannelError e) | Inr u \<Rightarrow> Inr u),
                c\<lparr>cn_channels := (cn_channels c)[unat channel_id := ch]\<rparr>))"

definition Connection_receive :: "u8 \<Rightarrow> connection \<Rightarrow> bytes option \<times> connection" where
  "Connection_receive channel_id c =
     (if unat channel_id \<ge> length (cn_channels c) then (None, c)
      else case Channel.receive (cn_channels c ! unat channel_id) of
             (r, ch) \<Rightarrow> (r, c\<lparr>cn_channels := (cn_channels c)[unat channel_id := ch]\<rparr>))"

definition set_state :: "connection_state \<Rightarrow> connection \<Rightarrow> connection" where
  "set_state s c = c\<lparr>cn_state := s\<rparr>"

definition create_header :: "connection \<Rightarrow> packet_header \<times> connection" where
  "create_header c =
     (case get_ack_info (cn_reliability c) of
        (ack, ack_bits) \<Rightarrow>
          (\<lparr>ph_protocol_id = nc_protocol_id (cn_config c), ph_sequence = cn_local_sequence c,
            ph_ack = ack, ph_ack_bits = ack_bits\<rparr>,
           c\<lparr>cn_local_sequence := cn_local_sequence c + 1\<rparr>))"

definition push_packet :: "packet \<Rightarrow> connection \<Rightarrow> connection" where
  "push_packet p c = c\<lparr>cn_send_queue := cn_send_queue c @ [p]\<rparr>"

text \<open>\<open>let header = self.create_header(); self.send_queue.push_back(Packet::new(header, t).with_payload(p))\<close>\<close>

definition queue_packet :: "packet_type \<Rightarrow> bytes \<Rightarrow> connection \<Rightarrow> connection" where
  "queue_packet t payload c =
     (case create_header c of (h, c1) \<Rightarrow> push_packet (with_payload payload (Packet_new h t)) c1)"

definition migration_token :: "connection \<Rightarrow> u64" where
  "migration_token c = cn_client_salt c XOR cn_server_salt c"

definition set_remote_addr :: "socket_addr \<Rightarrow> connection \<Rightarrow> connection" where
  "set_remote_addr addr c = c\<lparr>cn_remote_addr := addr\<rparr>"

definition set_server_salt :: "u64 \<Rightarrow> connection \<Rightarrow> connection" where
  "set_server_salt salt c = c\<lparr>cn_server_salt := salt\<rparr>"

definition touch_recv_time :: "instant \<Rightarrow> connection \<Rightarrow> connection" where
  "touch_recv_time now c = c\<lparr>cn_last_packet_recv_time := now\<rparr>"

definition touch_send_time :: "instant \<Rightarrow> connection \<Rightarrow> connection" where
  "touch_send_time now c = c\<lparr>cn_last_packet_send_time := now\<rparr>"

definition get_channel_outgoing :: "instant \<Rightarrow> u8 \<Rightarrow> connection \<Rightarrow> (u16 \<times> bytes) option \<times> connection" where
  "get_channel_outgoing now channel c =
     (if unat channel < length (cn_channels c)
      then case get_outgoing_message now (cn_channels c ! unat channel) of
             (r, ch) \<Rightarrow> (r, c\<lparr>cn_channels := (cn_channels c)[unat channel := ch]\<rparr>)
      else (None, c))"

definition receive_payload_direct :: "map_orders \<Rightarrow> instant \<Rightarrow> u8 \<Rightarrow> bytes \<Rightarrow> connection \<Rightarrow> connection" where
  "receive_payload_direct od now channel payload c =
     (if unat channel < length (cn_channels c)
      then c\<lparr>cn_channels := (cn_channels c)[unat channel :=
             Channel_on_packet_received (od_channel od (unat channel)) now payload (cn_channels c ! unat channel)]\<rparr>
      else c)"

definition drain_send_queue :: "connection \<Rightarrow> packet list \<times> connection" where
  "drain_send_queue c = (cn_send_queue c, c\<lparr>cn_send_queue := []\<rparr>)"

definition record_bytes_sent :: "instant \<Rightarrow> nat \<Rightarrow> connection \<Rightarrow> connection" where
  "record_bytes_sent now bytes c =
     c\<lparr>cn_bandwidth_up := bandwidth_record now bytes (cn_bandwidth_up c), cn_last_packet_send_time := now,
       cn_stats := (cn_stats c)\<lparr>ns_packets_sent := ns_packets_sent (cn_stats c) + 1,
         ns_bytes_sent := ns_bytes_sent (cn_stats c) + bytes\<rparr>\<rparr>"

definition record_bytes_received :: "instant \<Rightarrow> nat \<Rightarrow> connection \<Rightarrow> connection" where
  "record_bytes_received now bytes c =
     c\<lparr>cn_bandwidth_down := bandwidth_record now bytes (cn_bandwidth_down c),
       cn_stats := (cn_stats c)\<lparr>ns_packets_received := ns_packets_received (cn_stats c) + 1,
         ns_bytes_received := ns_bytes_received (cn_stats c) + bytes\<rparr>\<rparr>"

definition all_channel_stats :: "connection \<Rightarrow> channel_stats list" where
  "all_channel_stats c = map Channel_stats (cn_channels c)"

section \<open>Incoming packets\<close>

definition acknowledge :: "u8 \<times> u16 \<Rightarrow> channel list \<Rightarrow> channel list" where
  "acknowledge pair chs =
     (case pair of (channel_id, channel_seq) \<Rightarrow>
        if unat channel_id < length chs
        then chs[unat channel_id := acknowledge_message channel_seq (chs ! unat channel_id)] else chs)"

definition fast_retransmit :: "instant \<Rightarrow> u8 \<times> u16 \<Rightarrow> channel list \<Rightarrow> channel list" where
  "fast_retransmit now pair chs =
     (case pair of (channel_id, channel_seq) \<Rightarrow>
        if unat channel_id < length chs
        then chs[unat channel_id := mark_for_fast_retransmit now channel_seq (chs ! unat channel_id)] else chs)"

text \<open>The \<open>retain\<close> that drops the fragments no longer in flight, and the groups left empty.\<close>

definition retain_fragments :: "reliable_endpoint \<Rightarrow> (u32, (u16 \<times> u8 \<times> bytes) list) hash_map \<Rightarrow>
    (u32, (u16 \<times> u8 \<times> bytes) list) hash_map" where
  "retain_fragments e m =
     hm_retain (\<lambda>_ entries. entries \<noteq> [])
       (map (\<lambda>(fid, entries). (fid, filter (\<lambda>(pkt_seq, _, _). is_in_flight pkt_seq e) entries)) m)"

definition process_incoming_header :: "map_orders \<Rightarrow> instant \<Rightarrow> packet_header \<Rightarrow> connection \<Rightarrow> connection" where
  "process_incoming_header od now h c =
     (let e1 = Endpoint_on_packet_received (ph_sequence h) (cn_reliability c);
          remote = (if sequence_greater_than (ph_sequence h) (cn_remote_sequence c)
                    then ph_sequence h else cn_remote_sequence c)
      in case process_acks (od_in_flight od) now (ph_ack h) (ph_ack_bits h) e1 of
           ((acked_pairs, fast), e2) \<Rightarrow>
             let acked_bytes = length acked_pairs * nc_mtu (cn_config c);
                 cwnd = (case cn_cwnd c of
                           Some cw \<Rightarrow> Some (if acked_bytes > 0 then on_ack acked_bytes cw else cw)
                         | None \<Rightarrow> None)
             in c\<lparr>cn_reliability := e2, cn_pending_ack_send := True, cn_remote_sequence := remote,
                  cn_cwnd := cwnd,
                  cn_channels := fold (fast_retransmit now) fast (fold acknowledge acked_pairs (cn_channels c)),
                  cn_pending_fragments := retain_fragments e2 (cn_pending_fragments c)\<rparr>)"

definition reset_connection :: "connection \<Rightarrow> connection" where
  "reset_connection c =
     c\<lparr>cn_connection_start_time := None, cn_connection_request_time := None, cn_local_sequence := 0,
       cn_remote_sequence := 0, cn_ack_bits := 0, cn_send_queue := [], cn_recv_queue := [],
       cn_disconnect_time := None, cn_disconnect_retry_count := 0, cn_pending_ack_send := False,
       cn_data_sent_this_tick := False, cn_next_fragment_id := 0, cn_pending_fragments := [],
       cn_channels := map Channel_reset (cn_channels c), cn_congestion := new_congestion (cn_config c),
       cn_bandwidth_up := BandwidthTracker_new (from_secs 1),
       cn_bandwidth_down := BandwidthTracker_new (from_secs 1),
       cn_fragment_assembler := FragmentAssembler_new (nc_fragment_timeout (cn_config c))
         (nc_max_reassembly_buffer_size (cn_config c)),
       cn_mtu_discovery := MtuDiscovery_new MIN_MTU (nc_mtu (cn_config c))\<rparr>"

text \<open>The packets of a connected peer.\<close>

definition handle_connected :: "map_orders \<Rightarrow> instant \<Rightarrow> packet \<Rightarrow> connection \<Rightarrow> connection" where
  "handle_connected od now p c0 =
     (let c = process_incoming_header od now (pkt_header p) c0
      in case pkt_type p of
           Payload channel _ \<Rightarrow> receive_payload_direct od now channel (pkt_payload p) c
         | BatchedPayload channel \<Rightarrow>
             if unat channel < length (cn_channels c)
             then (case unbatch_messages (pkt_payload p) of
                     Some messages \<Rightarrow> fold (receive_payload_direct od now channel) messages c
                   | None \<Rightarrow> c)
             else c
         | MtuProbe probe_size \<Rightarrow> queue_packet (MtuProbeAck probe_size) [] c
         | MtuProbeAck probe_size \<Rightarrow>
             c\<lparr>cn_mtu_discovery := on_probe_success (unat probe_size) (cn_mtu_discovery c)\<rparr>
         | Disconnect _ \<Rightarrow>
             reset_connection (set_state Disconnected (queue_packet (Disconnect DISCONNECT_REQUESTED) [] c))
         | _ \<Rightarrow> c)"

definition handle_packet :: "map_orders \<Rightarrow> instant \<Rightarrow> packet \<Rightarrow> connection \<Rightarrow>
    (connection_error + unit) \<times> connection" where
  "handle_packet od now p c =
     (case (cn_state c, pkt_type p) of
        (Connecting, ConnectionChallenge server_salt) \<Rightarrow>
          (Inr (), queue_packet (ConnectionResponse (cn_client_salt c)) []
             (c\<lparr>cn_server_salt := server_salt, cn_state := ChallengeResponse\<rparr>))
      | (ChallengeResponse, ConnectionAccept) \<Rightarrow>
          (Inr (), c\<lparr>cn_state := Connected, cn_connection_start_time := Some now,
             cn_last_packet_recv_time := now, cn_local_sequence := 0, cn_remote_sequence := 0\<rparr>)
      | (Connecting, ConnectionDeny reason) \<Rightarrow> (Inl (ConnectionDenied reason), c\<lparr>cn_state := Disconnected\<rparr>)
      | (ChallengeResponse, ConnectionDeny reason) \<Rightarrow> (Inl (ConnectionDenied reason), c\<lparr>cn_state := Disconnected\<rparr>)
      | (Connected, _) \<Rightarrow> (Inr (), handle_connected od now p c)
      | (Disconnecting, Disconnect _) \<Rightarrow> (Inr (), reset_connection (c\<lparr>cn_state := Disconnected\<rparr>))
      | _ \<Rightarrow> (Inr (), c))"

section \<open>Connecting and disconnecting\<close>

definition send_connection_request :: "connection \<Rightarrow> connection" where
  "send_connection_request c =
     push_packet (Packet_new \<lparr>ph_protocol_id = nc_protocol_id (cn_config c), ph_sequence = 0, ph_ack = 0,
       ph_ack_bits = 0\<rparr> ConnectionRequest) c"

definition connect :: "instant \<Rightarrow> connection \<Rightarrow> (connection_error + unit) \<times> connection" where
  "connect now c =
     (if cn_state c \<noteq> Disconnected then (Inl AlreadyConnected, c)
      else (Inr (), send_connection_request (c\<lparr>cn_state := Connecting,
        cn_connection_request_time := Some now, cn_connection_retry_count := 0\<rparr>)))"

definition disconnect :: "instant \<Rightarrow> u8 \<Rightarrow> connection \<Rightarrow> (connection_error + unit) \<times> connection" where
  "disconnect now reason c =
     (if cn_state c = Disconnected then (Inr (), c)
      else (Inr (), (queue_packet (Disconnect reason) [] c)\<lparr>cn_state := Disconnecting,
        cn_disconnect_time := Some now, cn_disconnect_retry_count := 0\<rparr>))"

section \<open>The update of a tick\<close>

definition update_connecting :: "instant \<Rightarrow> connection \<Rightarrow> (connection_error + unit) \<times> connection" where
  "update_connecting now c =
     (case cn_connection_request_time c of
        None \<Rightarrow> (Inr (), c)
      | Some request_time \<Rightarrow>
          if duration_since now request_time > nc_connection_request_timeout (cn_config c)
          then let c1 = c\<lparr>cn_connection_retry_count := cn_connection_retry_count c + 1\<rparr>
               in if cn_connection_retry_count c1 > nc_connection_request_max_retries (cn_config c)
                  then (Inl Timeout, c1\<lparr>cn_state := Disconnected\<rparr>)
                  else (Inr (), (send_connection_request c1)\<lparr>cn_connection_request_time := Some now\<rparr>)
          else (Inr (), c))"

definition update_disconnecting :: "instant \<Rightarrow> connection \<Rightarrow> connection" where
  "update_disconnecting now c =
     (case cn_disconnect_time c of
        None \<Rightarrow> c
      | Some disc_time \<Rightarrow>
          if duration_since now disc_time > nc_disconnect_retry_timeout (cn_config c)
          then if cn_disconnect_retry_count c \<ge> nc_disconnect_retries (cn_config c)
               then reset_connection (c\<lparr>cn_state := Disconnected\<rparr>)
               else queue_packet (Disconnect DISCONNECT_REQUESTED) []
                      (c\<lparr>cn_disconnect_retry_count := cn_disconnect_retry_count c + 1,
                         cn_disconnect_time := Some now\<rparr>)
          else c)"

text \<open>The congestion state at the start of a tick, and the probe of the path MTU.\<close>

definition update_congestion :: "instant \<Rightarrow> connection \<Rightarrow> connection option" where
  "update_congestion now c =
     Option.bind (CongestionController_update now (ns_packet_loss (cn_stats c)) (ns_rtt (cn_stats c)) (cn_congestion c))
       (\<lambda>cc. let c1 = c\<lparr>cn_congestion := refill_budget (nc_mtu (cn_config c)) cc\<rparr>
             in case cn_cwnd c1 of
                  None \<Rightarrow> Some c1
                | Some cw \<Rightarrow> map_option (\<lambda>cw'. c1\<lparr>cn_cwnd := Some cw'\<rparr>)
                    (update_pacing (re_rto (cn_reliability c1)) cw))"

definition send_keepalive :: "connection \<Rightarrow> connection" where
  "send_keepalive c = queue_packet KeepAlive [] c"

definition send_mtu_probe :: "instant \<Rightarrow> connection \<Rightarrow> connection" where
  "send_mtu_probe now c =
     (case next_probe now (cn_mtu_discovery c) of
        (probe, d) \<Rightarrow>
          let c1 = c\<lparr>cn_mtu_discovery := d\<rparr>
          in case probe of
               None \<Rightarrow> c1
             | Some probe_size \<Rightarrow>
                 queue_packet (MtuProbe (of_nat probe_size)) (replicate (probe_size - 16) 0) c1)"

text \<open>The fragments of a large message, each in a packet of its own.\<close>

definition queue_fragment :: "nat \<Rightarrow> nat \<times> bytes \<Rightarrow> (u16 \<times> u8 \<times> bytes) list \<times> connection \<Rightarrow>
    (u16 \<times> u8 \<times> bytes) list \<times> connection" where
  "queue_fragment ch_idx piece st =
     (case (piece, st) of ((frag_idx, frag_data), (entries, c)) \<Rightarrow>
        (entries @ [(cn_local_sequence c, of_nat frag_idx, frag_data)],
         queue_packet (Payload (of_nat ch_idx) True) frag_data c))"

definition queue_fragments :: "nat \<Rightarrow> bytes \<Rightarrow> connection \<Rightarrow> connection" where
  "queue_fragments ch_idx wire c0 =
     (let frag_id = cn_next_fragment_id c0;
          c = c0\<lparr>cn_next_fragment_id := frag_id + 1\<rparr>
      in case fragment_message frag_id wire (nc_fragment_threshold (cn_config c)) of
           Inl _ \<Rightarrow> c
         | Inr fragments \<Rightarrow>
             (case fold (queue_fragment ch_idx) (enumerate 0 fragments) ([], c) of
                (frag_entries, c1) \<Rightarrow>
                  c1\<lparr>cn_pending_fragments := hm_insert frag_id frag_entries (cn_pending_fragments c1)\<rparr>))"

text \<open>The body of the sending loop for one message.\<close>

definition send_message :: "map_orders \<Rightarrow> instant \<Rightarrow> nat \<Rightarrow> u16 \<Rightarrow> bytes \<Rightarrow> connection \<Rightarrow> connection" where
  "send_message od now ch_idx msg_seq wire c0 =
     (let packet_size = length wire;
          c = c0\<lparr>cn_congestion := deduct_budget packet_size (cn_congestion c0)\<rparr>
      in case create_header c of
           (h, c1) \<Rightarrow>
             let c2 = (if length wire > nc_fragment_threshold (cn_config c1)
                       then queue_fragments ch_idx wire c1
                       else push_packet (with_payload wire (Packet_new h (Payload (of_nat ch_idx) False))) c1);
                 c3 = c2\<lparr>cn_data_sent_this_tick := True,
                         cn_cwnd := map_option (on_send now packet_size) (cn_cwnd c2)\<rparr>
             in if is_reliable (cc_delivery_mode (ch_config (cn_channels c3 ! ch_idx)))
                then c3\<lparr>cn_reliability := on_packet_sent (od_in_flight od) (ph_sequence h) now
                       (of_nat ch_idx) msg_seq packet_size (cn_reliability c3)\<rparr>
                else c3)"

definition may_send :: "instant \<Rightarrow> nat \<Rightarrow> connection \<Rightarrow> bool" where
  "may_send now packets_sent_this_cycle c \<longleftrightarrow>
     can_send packets_sent_this_cycle (nc_mtu (cn_config c)) (cn_congestion c) \<and>
     (case cn_cwnd c of
        None \<Rightarrow> True
      | Some cw \<Rightarrow> window_can_send (nc_mtu (cn_config c)) cw \<and> can_send_paced now cw)"

lemma channels_queue [simp]: "cn_channels (queue_packet t p c) = cn_channels c"
  by (simp add: queue_packet_def create_header_def push_packet_def split: prod.split)

lemma channels_fragment_fold: "cn_channels (snd (fold (queue_fragment i) pieces st)) = cn_channels (snd st)"
  by (induction pieces arbitrary: st) (auto simp: queue_fragment_def split: prod.split)

lemma channels_fragments [simp]: "cn_channels (queue_fragments i wire c) = cn_channels c"
proof (cases "fragment_message (cn_next_fragment_id c) wire (nc_fragment_threshold (cn_config c))")
  case (Inr fragments)
  then show ?thesis
    using channels_fragment_fold[of i "enumerate 0 fragments" "([], c\<lparr>cn_next_fragment_id := cn_next_fragment_id c + 1\<rparr>)"]
    by (auto simp: queue_fragments_def Let_def split: prod.split)
qed (simp add: queue_fragments_def Let_def)

lemma channels_send_message [simp]: "cn_channels (send_message od now i s wire c) = cn_channels c"
  by (simp add: send_message_def create_header_def push_packet_def Let_def split: prod.split)

lemma outgoing_shorter:
  "get_outgoing_message now ch = (Some m, ch') \<Longrightarrow> length (ch_send_buffer ch') < length (ch_send_buffer ch)"
  by (auto simp: get_outgoing_message_def Let_def split: list.splits)

text \<open>The \<open>loop\<close> over one channel: as long as the congestion control allows, the next message.\<close>

function send_loop :: "map_orders \<Rightarrow> instant \<Rightarrow> nat \<Rightarrow> nat \<Rightarrow> connection \<Rightarrow> nat \<times> connection" where
  "send_loop od now ch_idx packets_sent c =
     (if may_send now packets_sent c \<and> ch_idx < length (cn_channels c)
      then case get_outgoing_message now (cn_channels c ! ch_idx) of
             (None, ch) \<Rightarrow> (packets_sent, c\<lparr>cn_channels := (cn_channels c)[ch_idx := ch]\<rparr>)
           | (Some (msg_seq, wire), ch) \<Rightarrow>
               send_loop od now ch_idx (packets_sent + 1)
                 (send_message od now ch_idx msg_seq wire (c\<lparr>cn_channels := (cn_channels c)[ch_idx := ch]\<rparr>))
      else (packets_sent, c))"
  by pat_completeness auto

termination
  by (relation "measure (\<lambda>(od, now, i, n, c). length (ch_send_buffer (cn_channels c ! i)))")
    (auto dest!: outgoing_shorter[OF sym])

declare send_loop.simps [simp del]

definition queue_retransmits :: "nat \<Rightarrow> (u16 \<times> bytes) list \<Rightarrow> connection \<Rightarrow> connection" where
  "queue_retransmits ch_idx retransmits c =
     fold (\<lambda>(_, wire). queue_packet (Payload (of_nat ch_idx) False) wire) retransmits c"

text \<open>The turn of one channel; an index out of range is a panic.\<close>

definition service_channel :: "map_orders \<Rightarrow> instant \<Rightarrow> nat \<Rightarrow> nat \<times> connection \<Rightarrow> (nat \<times> connection) option" where
  "service_channel od now ch_idx st =
     (if ch_idx \<ge> length (cn_channels (snd st)) then None
      else case send_loop od now ch_idx (fst st) (snd st) of
             (packets_sent, c) \<Rightarrow>
               (case get_retransmit_messages (od_channel od ch_idx) now (re_rto (cn_reliability c)) (cn_channels c ! ch_idx) of
                  (retransmits, ch) \<Rightarrow>
                    Some (packets_sent,
                      queue_retransmits ch_idx retransmits (c\<lparr>cn_channels := (cn_channels c)[ch_idx := ch]\<rparr>))))"

fun service_channels :: "map_orders \<Rightarrow> instant \<Rightarrow> nat list \<Rightarrow> nat \<times> connection \<Rightarrow> (nat \<times> connection) option" where
  "service_channels od now [] st = Some st"
| "service_channels od now (i # is) st = Option.bind (service_channel od now i st) (service_channels od now is)"

definition update_channels :: "map_orders \<Rightarrow> instant \<Rightarrow> connection \<Rightarrow> connection" where
  "update_channels od now c =
     c\<lparr>cn_channels := map (\<lambda>(i, ch). Channel_update (od_channel od i) now ch) (enumerate 0 (cn_channels c))\<rparr>"

definition finish_acks :: "connection \<Rightarrow> connection" where
  "finish_acks c =
     (let c1 = (if cn_pending_ack_send c \<and> \<not> cn_data_sent_this_tick c then queue_packet AckOnly [] c else c)
      in c1\<lparr>cn_pending_ack_send := False\<rparr>)"

definition update_connected :: "map_orders \<Rightarrow> instant \<Rightarrow> connection \<Rightarrow> connection option" where
  "update_connected od now c0 =
     Option.bind (update_congestion now c0) (\<lambda>c1.
       let c2 = (if duration_since now (cn_last_packet_send_time c1) > nc_keepalive_interval (cn_config c1)
                 then send_keepalive c1 else c1);
           c3 = (send_mtu_probe now c2)\<lparr>cn_data_sent_this_tick := False\<rparr>
       in map_option (\<lambda>(_, c4).
            let c5 = finish_acks (update_channels od now c4)
            in c5\<lparr>cn_mtu_discovery := check_probe_timeout now (cn_mtu_discovery c5)\<rparr>)
          (service_channels od now (cn_channel_priority_order c3) (0, c3)))"

definition LOSS_RATIO_TO_PERCENT :: fl where
  "LOSS_RATIO_TO_PERCENT = Fin 100"

definition update_stats :: "connection \<Rightarrow> connection" where
  "update_stats c =
     (let rtt = fl_cast f32 (re_srtt (cn_reliability c));
          loss = packet_loss_percent (cn_reliability c)
      in c\<lparr>cn_stats := (cn_stats c)\<lparr>ns_rtt := rtt, ns_packet_loss := loss,
           ns_bandwidth_up := fl_cast f32 (bytes_per_second (cn_bandwidth_up c)),
           ns_bandwidth_down := fl_cast f32 (bytes_per_second (cn_bandwidth_down c)),
           ns_connection_quality := assess_connection_quality rtt (fl_mul f32 loss LOSS_RATIO_TO_PERCENT)\<rparr>\<rparr>)"

definition update_state :: "map_orders \<Rightarrow> instant \<Rightarrow> connection \<Rightarrow>
    ((connection_error + unit) \<times> connection) option" where
  "update_state od now c =
     (case cn_state c of
        Connecting \<Rightarrow> Some (update_connecting now c)
      | Connected \<Rightarrow> map_option (\<lambda>c'. (Inr (), c')) (update_connected od now c)
      | Disconnecting \<Rightarrow> Some (Inr (), update_disconnecting now c)
      | _ \<Rightarrow> Some (Inr (), c))"

definition update_tick :: "map_orders \<Rightarrow> instant \<Rightarrow> connection \<Rightarrow>
    ((connection_error + unit) \<times> connection) option" where
  "update_tick od now c =
     (if cn_state c \<noteq> Disconnected \<and> cn_state c \<noteq> Disconnecting \<and>
         duration_since now (cn_last_packet_recv_time c) > nc_connection_timeout (cn_config c)
      then Some (Inl Timeout, reset_connection (c\<lparr>cn_state := Disconnected\<rparr>))
      else map_option (\<lambda>(r, c'). case r of Inl e \<Rightarrow> (Inl e, c') | Inr u \<Rightarrow> (Inr u, update_stats c'))
        (update_state od now (c\<lparr>cn_fragment_assembler := fragment_cleanup now (cn_fragment_assembler c)\<rparr>)))"

section \<open>Socket input and output\<close>

text \<open>Encryption is optional: a failure to encrypt sends the packet as it is.\<close>

definition encrypt_outgoing :: "(bytes \<Rightarrow> bytes \<Rightarrow> bytes option) \<Rightarrow> connection \<Rightarrow> bytes \<Rightarrow> bytes" where
  "encrypt_outgoing aead_seal c data =
     (case cn_encryption_state c of
        None \<Rightarrow> data
      | Some enc \<Rightarrow> (case encrypt aead_seal enc data (ucast (cn_local_sequence c)) of
                       Inl _ \<Rightarrow> data | Inr ct \<Rightarrow> ct))"

function process_send_queue :: "(bytes \<Rightarrow> bytes \<Rightarrow> bytes option) \<Rightarrow> instant \<Rightarrow> connection \<times> udp_socket \<Rightarrow>
    (connection_error + unit) \<times> connection \<times> udp_socket" where
  "process_send_queue aead_seal now (c0, u) =
     (case cn_send_queue c0 of
        [] \<Rightarrow> (Inr (), c0, u)
      | p # rest \<Rightarrow>
          let c = c0\<lparr>cn_send_queue := rest\<rparr>
          in case Packet_serialize p of
               Inl _ \<Rightarrow> (Inl InvalidPacket, c, u)
             | Inr data \<Rightarrow>
                 let data_with_crc = append_crc32 (encrypt_outgoing aead_seal c data)
                 in case send_to now data_with_crc (cn_remote_addr c) u of
                      (Inl e, u1) \<Rightarrow> (Inl (SocketError e), c, u1)
                    | (Inr _, u1) \<Rightarrow>
                        process_send_queue aead_seal now (record_bytes_sent now (length data_with_crc) c, u1))"
  by pat_completeness auto

termination
  by (relation "measure (\<lambda>(f, now, c, u). length (cn_send_queue c))") (auto simp: record_bytes_sent_def)

declare process_send_queue.simps [simp del]

definition decrypt_incoming :: "(bytes \<Rightarrow> bytes \<Rightarrow> bytes option) \<Rightarrow> connection \<Rightarrow> bytes \<Rightarrow> bytes option" where
  "decrypt_incoming aead_open c validated =
     (case cn_encryption_state c of
        None \<Rightarrow> Some validated
      | Some enc \<Rightarrow> (case decrypt aead_open enc validated (ucast (cn_remote_sequence c)) of
                       Inl _ \<Rightarrow> None | Inr d \<Rightarrow> Some d))"

text \<open>One datagram: what is not a packet of this peer is ignored.\<close>

definition receive_datagram :: "(bytes \<Rightarrow> bytes \<Rightarrow> bytes option) \<Rightarrow> map_orders \<Rightarrow> instant \<Rightarrow> bytes \<Rightarrow>
    socket_addr \<Rightarrow> connection \<Rightarrow> (connection_error + unit) \<times> connection" where
  "receive_datagram aead_open od now data addr c =
     (if addr \<noteq> cn_remote_addr c then (Inr (), c)
      else case Option.bind (validate_and_strip_crc32 data) (decrypt_incoming aead_open c) of
             None \<Rightarrow> (Inr (), c)
           | Some validated \<Rightarrow>
               (case Packet_deserialize validated of
                  Inl _ \<Rightarrow> (Inr (), c)
                | Inr p \<Rightarrow>
                    if ph_protocol_id (pkt_header p) \<noteq> nc_protocol_id (cn_config c) then (Inr (), c)
                    else handle_packet od now p
                           (touch_recv_time now (record_bytes_received now (length data) c))))"

function receive_packets :: "(bytes \<Rightarrow> bytes \<Rightarrow> bytes option) \<Rightarrow> map_orders \<Rightarrow> instant \<Rightarrow>
    connection \<times> udp_socket \<Rightarrow> (connection_error + unit) \<times> connection \<times> udp_socket" where
  "receive_packets aead_open od now (c, u) =
     (case recv_from now u of
        (Inl SocketWouldBlock, u1) \<Rightarrow> (Inr (), c, u1)
      | (Inl e, u1) \<Rightarrow> (Inl (SocketError e), c, u1)
      | (Inr (data, addr), u1) \<Rightarrow>
          (case receive_datagram aead_open od now data addr c of
             (Inl e, c1) \<Rightarrow> (Inl e, c1, u1)
           | (Inr _, c1) \<Rightarrow> receive_packets aead_open od now (c1, u1)))"
  by pat_completeness auto

termination
  by (relation "measure (\<lambda>(f, od, now, c, u). pending_receives u)") (auto dest!: pending_receives_recv[OF sym])

declare receive_packets.simps [simp del]

definition Connection_update :: "(bytes \<Rightarrow> bytes \<Rightarrow> bytes option) \<Rightarrow> (bytes \<Rightarrow> bytes \<Rightarrow> bytes option) \<Rightarrow>
    map_orders \<Rightarrow> instant \<Rightarrow> connection \<times> udp_socket \<Rightarrow>
    ((connection_error + unit) \<times> connection \<times> udp_socket) option" where
  "Connection_update aead_seal aead_open od now st =
     (case update_tick od now (fst st) of
        None \<Rightarrow> None
      | Some (Inl e, c) \<Rightarrow> Some (Inl e, c, snd st)
      | Some (Inr _, c) \<Rightarrow>
          (case process_send_queue aead_seal now (c, snd st) of
             (Inl e, st1) \<Rightarrow> Some (Inl e, st1)
           | (Inr _, st1) \<Rightarrow> Some (receive_packets aead_open od now st1)))"

end
