(* ===== verification/Connection_Facts.thy ===== *)
theory Connection_Facts
  imports Connection Channel_Retransmit "HOL-Library.Sublist"
begin

text \<open>
  Facts about the connection: how a tick numbers its packets, the handshake as a step relation,
  the end of unanswered attempts to connect and to disconnect, and the state of an endpoint that
  sends a fragmented message.
\<close>

section \<open>The numbers of the queued packets\<close>

text \<open>
  \<open>queued c ks n c'\<close>: from \<open>c\<close> to \<open>c'\<close> the queue has grown by packets numbered \<open>local + k\<close> for
  the \<open>k\<close> of \<open>ks\<close>, in this order, and \<open>n\<close> numbers have been used.
\<close>

definition packet_ok :: "u32 \<Rightarrow> u16 \<times> u64 \<Rightarrow> packet \<Rightarrow> bool" where
  "packet_ok protocol_id info p \<longleftrightarrow> ph_protocol_id (pkt_header p) = protocol_id \<and>
     (ph_ack (pkt_header p), ph_ack_bits (pkt_header p)) = info"

abbreviation header_ok :: "connection \<Rightarrow> packet \<Rightarrow> bool" where
  "header_ok c \<equiv> packet_ok (nc_protocol_id (cn_config c)) (get_ack_info (cn_reliability c))"

definition kept :: "connection \<Rightarrow> connection \<Rightarrow> bool" where
  "kept c c' \<longleftrightarrow> cn_config c' = cn_config c \<and> cn_state c' = cn_state c \<and>
     cn_remote_addr c' = cn_remote_addr c \<and> cn_client_salt c' = cn_client_salt c \<and>
     cn_server_salt c' = cn_server_salt c \<and> cn_channel_priority_order c' = cn_channel_priority_order c \<and>
     length (cn_channels c') = length (cn_channels c) \<and>
     (cn_cwnd c = None \<longrightarrow> cn_cwnd c' = None) \<and>
     (\<forall>base. controller_inv base (cn_congestion c) \<longrightarrow> controller_inv base (cn_congestion c')) \<and>
     get_ack_info (cn_reliability c') = get_ack_info (cn_reliability c)"

lemma controller_inv_budget [simp]:
  "controller_inv base (deduct_budget n cc) \<longleftrightarrow> controller_inv base cc"
  "controller_inv base (refill_budget mtu cc) \<longleftrightarrow> controller_inv base cc"
  by (simp_all add: deduct_budget_def refill_budget_def Let_def controller_inv_def reduced_rate_def)

lemma kept_refl [simp]: "kept c c"
  by (simp add: kept_def)

lemma kept_trans: "kept c c1 \<Longrightarrow> kept c1 c2 \<Longrightarrow> kept c c2"
  by (simp add: kept_def)

definition queued :: "connection \<Rightarrow> nat list \<Rightarrow> nat \<Rightarrow> connection \<Rightarrow> bool" where
  "queued c ks n c' \<longleftrightarrow> (\<exists>ps. cn_send_queue c' = cn_send_queue c @ ps \<and>
     map (\<lambda>p. ph_sequence (pkt_header p)) ps = map (\<lambda>k. cn_local_sequence c + of_nat k) ks \<and>
     list_all (header_ok c) ps) \<and>
     sorted_wrt (<) ks \<and> set ks \<subseteq> {..<n} \<and> cn_local_sequence c' = cn_local_sequence c + of_nat n \<and>
     kept c c'"

lemma queued_frame:
  assumes "cn_send_queue c' = cn_send_queue c" and "cn_local_sequence c' = cn_local_sequence c"
    and "kept c c'"
  shows "queued c [] 0 c'"
  using assms by (simp add: queued_def)

lemma queued_trans:
  assumes "queued c ks n c1" and "queued c1 ls m c2"
  shows "queued c (ks @ map (\<lambda>l. n + l) ls) (n + m) c2"
proof -
  from assms(1) obtain ps where ps: "cn_send_queue c1 = cn_send_queue c @ ps"
    "map (\<lambda>p. ph_sequence (pkt_header p)) ps = map (\<lambda>k. cn_local_sequence c + of_nat k) ks" "list_all (header_ok c) ps"
    by (auto simp: queued_def)
  from assms(2) obtain qs where qs: "cn_send_queue c2 = cn_send_queue c1 @ qs"
    "map (\<lambda>p. ph_sequence (pkt_header p)) qs = map (\<lambda>k. cn_local_sequence c1 + of_nat k) ls" "list_all (header_ok c1) qs"
    by (auto simp: queued_def)
  have c1: "cn_local_sequence c1 = cn_local_sequence c + of_nat n" "cn_config c1 = cn_config c"
    "get_ack_info (cn_reliability c1) = get_ack_info (cn_reliability c)" using assms(1) by (simp_all add: queued_def kept_def)
  have k: "kept c c2" using assms kept_trans by (auto simp: queued_def)
  have "list_all (header_ok c) qs" using qs(3) c1 by simp
  moreover have "sorted_wrt (<) (ks @ map (\<lambda>l. n + l) ls)" and "set (ks @ map (\<lambda>l. n + l) ls) \<subseteq> {..<n + m}"
    using assms by (auto simp: queued_def sorted_wrt_append sorted_wrt_map)
  ultimately show ?thesis
    using assms ps qs c1 k unfolding queued_def
    by (intro conjI exI[of _ "ps @ qs"]) (simp_all add: comp_def add.assoc)
qed

text \<open>Some numbering, as a preorder.\<close>

definition numbered :: "connection \<Rightarrow> connection \<Rightarrow> bool" where
  "numbered c c' \<longleftrightarrow> (\<exists>ks n. queued c ks n c')"

lemma numbered_trans [trans]: "numbered c c1 \<Longrightarrow> numbered c1 c2 \<Longrightarrow> numbered c c2"
  using queued_trans unfolding numbered_def by blast

lemma numbered_frame:
  assumes "cn_send_queue c' = cn_send_queue c" and "cn_local_sequence c' = cn_local_sequence c"
    and "kept c c'"
  shows "numbered c c'"
  using queued_frame[OF assms] unfolding numbered_def by blast

lemma numbered_refl [simp]: "numbered c c"
  by (simp add: numbered_frame)

lemma queued_packet: "queued c [0] 1 (queue_packet t p c)"
  unfolding queued_def
  by (auto simp: queue_packet_def create_header_def push_packet_def with_payload_def Packet_new_def packet_ok_def
      get_ack_info_def kept_def)

lemma numbered_packet [simp]: "numbered c (queue_packet t p c)"
  using queued_packet unfolding numbered_def by blast

text \<open>\<open>sent_packets\<close> may change under a numbering, the acknowledgement information not.\<close>

lemma ack_info_sent [simp]: "get_ack_info (on_packet_sent it s now ch m n e) = get_ack_info e"
  by (simp add: on_packet_sent_def Let_def evict_worst_in_flight_def get_ack_info_def split: option.split)

lemma queued_fragment_fold:
  "queued (snd st) [0..<length pieces] (length pieces) (snd (fold (queue_fragment i) pieces st))"
proof (induction pieces arbitrary: st)
  case Nil
  then show ?case by (simp add: queued_frame)
next
  case (Cons piece pieces)
  have "queued (snd st) [0] 1 (snd (queue_fragment i piece st))"
    by (auto simp: queue_fragment_def queued_packet[simplified] split: prod.split)
  from queued_trans[OF this Cons.IH[of "queue_fragment i piece st"]]
  have "queued (snd st) ([0] @ map (\<lambda>l. 1 + l) [0..<length pieces]) (1 + length pieces)
     (snd (fold (queue_fragment i) (piece # pieces) st))" by simp
  moreover have "[0] @ map (\<lambda>l. 1 + l) [0..<length pieces] = [0..<length (piece # pieces)]"
    by (simp add: upt_conv_Cons map_Suc_upt[symmetric] plus_1_eq_Suc del: upt_Suc)
  ultimately show ?case by simp
qed

lemma queued_fragments:
  assumes "fragment_message (cn_next_fragment_id c) wire (nc_fragment_threshold (cn_config c)) = Inr fragments"
  shows "queued c [0..<length fragments] (length fragments) (queue_fragments i wire c)"
proof -
  let ?c = "c\<lparr>cn_next_fragment_id := cn_next_fragment_id c + 1\<rparr>"
  let ?r = "fold (queue_fragment i) (enumerate 0 fragments) ([], ?c)"
  have q: "queued ?c [0..<length fragments] (length fragments) (snd ?r)"
    using queued_fragment_fold[of "([], ?c)" "enumerate 0 fragments" i] by simp
  have "queue_fragments i wire c = (snd ?r)\<lparr>cn_pending_fragments :=
      hm_insert (cn_next_fragment_id c) (fst ?r) (cn_pending_fragments (snd ?r))\<rparr>"
    using assms by (simp add: queue_fragments_def Let_def split: prod.split)
  with q show ?thesis by (simp add: queued_def kept_def)
qed

lemma numbered_fragments [simp]: "numbered c (queue_fragments i wire c)"
proof (cases "fragment_message (cn_next_fragment_id c) wire (nc_fragment_threshold (cn_config c))")
  case (Inl e)
  then show ?thesis by (simp add: queue_fragments_def Let_def numbered_frame kept_def)
next
  case (Inr fragments)
  from queued_fragments[OF this] show ?thesis unfolding numbered_def by blast
qed

lemma create_header_alt:
  "create_header c = (\<lparr>ph_protocol_id = nc_protocol_id (cn_config c), ph_sequence = cn_local_sequence c,
     ph_ack = fst (get_ack_info (cn_reliability c)), ph_ack_bits = snd (get_ack_info (cn_reliability c))\<rparr>,
   c\<lparr>cn_local_sequence := cn_local_sequence c + 1\<rparr>)"
  by (simp add: create_header_def split: prod.split)

text \<open>A header that is created and not used only takes a number.\<close>

lemma numbered_header: "numbered c (c\<lparr>cn_local_sequence := cn_local_sequence c + 1\<rparr>)"
proof -
  have "queued c [] 1 (c\<lparr>cn_local_sequence := cn_local_sequence c + 1\<rparr>)" by (simp add: queued_def kept_def)
  then show ?thesis unfolding numbered_def by blast
qed

lemma numbered_send_message: "numbered c (send_message od now i s wire c)"
proof -
  let ?d = "c\<lparr>cn_congestion := deduct_budget (length wire) (cn_congestion c)\<rparr>"
  let ?h = "?d\<lparr>cn_local_sequence := cn_local_sequence c + 1\<rparr>"
  let ?c2 = "if length wire > nc_fragment_threshold (cn_config c) then queue_fragments i wire ?h
    else queue_packet (Payload (of_nat i) False) wire ?d"
  have frame: "numbered ?c2 (send_message od now i s wire c)"
    by (rule numbered_frame)
      (simp_all add: send_message_def create_header_alt queue_packet_def push_packet_def Let_def kept_def)
  have "numbered c ?d" by (rule numbered_frame) (simp_all add: kept_def)
  also have "numbered ?d ?c2"
  proof (cases "length wire > nc_fragment_threshold (cn_config c)")
    case True
    have "numbered ?d ?h" using numbered_header[of ?d] by simp
    then have "numbered ?d (queue_fragments i wire ?h)" by (rule numbered_trans) simp
    with True show ?thesis by simp
  qed simp
  finally show ?thesis using frame by (rule numbered_trans)
qed

lemma numbered_set_channels [simp]: "length chs = length (cn_channels c) \<Longrightarrow> numbered c (c\<lparr>cn_channels := chs\<rparr>)"
  by (rule numbered_frame) (simp_all add: kept_def)

lemma numbered_send_loop: "send_loop od now i n c = (m, c') \<Longrightarrow> numbered c c'"
proof (induction od now i n c arbitrary: m c' rule: send_loop.induct)
  case (1 od now i n c)
  show ?case
  proof (cases "may_send now n c \<and> i < length (cn_channels c)")
    case False
    then show ?thesis using 1(2) by (auto simp: send_loop.simps[of od now i n c])
  next
    case True
    obtain r ch where g: "get_outgoing_message now (cn_channels c ! i) = (r, ch)" by fastforce
    let ?c = "c\<lparr>cn_channels := (cn_channels c)[i := ch]\<rparr>"
    show ?thesis
    proof (cases r)
      case None
      then show ?thesis using 1(2) True g by (auto simp: send_loop.simps[of od now i n c])
    next
      case (Some x)
      obtain s wire where x: "x = (s, wire)" by (cases x)
      have "numbered ?c c'"
        using 1(1)[OF True g[symmetric] Some x[symmetric]] 1(2) True g Some x numbered_send_message[of ?c od now i s wire]
        by (auto simp: send_loop.simps[of od now i n c] intro: numbered_trans)
      moreover have "numbered c ?c" by simp
      ultimately show ?thesis using numbered_trans by blast
    qed
  qed
qed

lemma numbered_retransmits: "numbered c (queue_retransmits i rs c)"
proof (induction rs arbitrary: c)
  case (Cons r rs)
  have "numbered (queue_packet (Payload (of_nat i) False) (snd r) c) (queue_retransmits i (r # rs) c)"
    using Cons.IH by (simp add: queue_retransmits_def split_beta)
  with numbered_packet show ?case by (rule numbered_trans)
qed (simp add: queue_retransmits_def)

lemma numbered_service_channel:
  assumes "service_channel od now i (n, c) = Some (m, c')"
  shows "numbered c c'"
proof -
  obtain k c1 where l: "send_loop od now i n c = (k, c1)" by fastforce
  obtain rs ch where g: "get_retransmit_messages (od_channel od i) now (re_rto (cn_reliability c1)) (cn_channels c1 ! i) = (rs, ch)"
    by fastforce
  let ?c = "c1\<lparr>cn_channels := (cn_channels c1)[i := ch]\<rparr>"
  have "c' = queue_retransmits i rs ?c"
    using assms l g by (auto simp: service_channel_def split: if_splits)
  then show ?thesis
    using numbered_send_loop[OF l] numbered_set_channels[of "(cn_channels c1)[i := ch]" c1]
      numbered_retransmits[of ?c i rs] numbered_trans by (metis length_list_update)
qed

lemma numbered_service_channels:
  "service_channels od now is (n, c) = Some (m, c') \<Longrightarrow> numbered c c'"
proof (induction "is" arbitrary: n c)
  case (Cons i "is")
  then obtain k c1 where "service_channel od now i (n, c) = Some (k, c1)" "service_channels od now is (k, c1) = Some (m, c')"
    by (auto simp: bind_eq_Some_conv)
  with Cons.IH show ?case using numbered_service_channel numbered_trans by metis
qed simp

lemma controller_inv_update:
  "controller_inv base cc \<Longrightarrow> CongestionController_update now loss rtt cc = Some cc' \<Longrightarrow> controller_inv base cc'"
  by (metis option.inject update_controller_inv)

lemma numbered_congestion: "update_congestion now c = Some c' \<Longrightarrow> numbered c c'"
  by (rule numbered_frame)
    (auto simp: update_congestion_def Let_def bind_eq_Some_conv kept_def controller_inv_update split: option.splits)

lemma numbered_probe: "numbered c (send_mtu_probe now c)"
proof -
  obtain r d where r: "next_probe now (cn_mtu_discovery c) = (r, d)" by fastforce
  have "numbered c (c\<lparr>cn_mtu_discovery := d\<rparr>)" by (rule numbered_frame) (simp_all add: kept_def)
  with r show ?thesis by (auto simp: send_mtu_probe_def Let_def split: option.split intro: numbered_trans)
qed

lemma numbered_connected:
  assumes "update_connected od now c = Some c'"
  shows "numbered c c'"
proof -
  from assms obtain c1 where c1: "update_congestion now c = Some c1" by (auto simp: update_connected_def bind_eq_Some_conv)
  define c2 where "c2 = (if duration_since now (cn_last_packet_send_time c1) > nc_keepalive_interval (cn_config c1)
      then send_keepalive c1 else c1)"
  define c3 where "c3 = (send_mtu_probe now c2)\<lparr>cn_data_sent_this_tick := False\<rparr>"
  from assms c1 obtain n c4 where c4: "service_channels od now (cn_channel_priority_order c3) (0, c3) = Some (n, c4)"
    and c': "c' = (finish_acks (update_channels od now c4))\<lparr>cn_mtu_discovery :=
        check_probe_timeout now (cn_mtu_discovery (finish_acks (update_channels od now c4)))\<rparr>"
    by (auto simp: update_connected_def Let_def c2_def c3_def)
  have "numbered c c1" using c1 by (rule numbered_congestion)
  also have "numbered c1 c2" by (simp add: c2_def send_keepalive_def)
  also have "numbered c2 (send_mtu_probe now c2)" by (rule numbered_probe)
  also have "numbered (send_mtu_probe now c2) c3" by (rule numbered_frame) (simp_all add: c3_def kept_def)
  also have "numbered c3 c4" using c4 by (rule numbered_service_channels)
  also have "numbered c4 (update_channels od now c4)" by (simp add: update_channels_def)
  also have "numbered (update_channels od now c4) (finish_acks (update_channels od now c4))"
  proof -
    let ?c = "update_channels od now c4"
    have "numbered (queue_packet AckOnly [] ?c) (finish_acks ?c)" if "cn_pending_ack_send ?c \<and> \<not> cn_data_sent_this_tick ?c"
      using that by (intro numbered_frame) (simp_all add: finish_acks_def kept_def)
    moreover have "numbered ?c (finish_acks ?c)" if "\<not> (cn_pending_ack_send ?c \<and> \<not> cn_data_sent_this_tick ?c)"
      using that by (intro numbered_frame) (auto simp: finish_acks_def kept_def)
    ultimately show ?thesis using numbered_packet numbered_trans by metis
  qed
  also have "numbered (finish_acks (update_channels od now c4)) c'" by (rule numbered_frame) (simp_all add: c' kept_def)
  finally show ?thesis .
qed

text \<open>What sending the queue can change.\<close>

lemma queue_shape:
  "process_send_queue aead_seal now st = (r, c', u') \<Longrightarrow>
   \<exists>q b t n. c' = (fst st)\<lparr>cn_send_queue := q, cn_bandwidth_up := b, cn_last_packet_send_time := t, cn_stats := n\<rparr>"
proof (induction aead_seal now st arbitrary: r c' u' rule: process_send_queue.induct)
  case (1 aead_seal now c u)
  let ?same = "\<lambda>q. c\<lparr>cn_send_queue := q, cn_bandwidth_up := cn_bandwidth_up c,
      cn_last_packet_send_time := cn_last_packet_send_time c, cn_stats := cn_stats c\<rparr>"
  have "c = ?same (cn_send_queue c)" "c\<lparr>cn_send_queue := rest\<rparr> = ?same rest" for rest by simp_all
  then have keep: "\<exists>q b t n. d = c\<lparr>cn_send_queue := q, cn_bandwidth_up := b, cn_last_packet_send_time := t, cn_stats := n\<rparr>"
    if "d = c \<or> d = c\<lparr>cn_send_queue := rest\<rparr>" for d rest
    using that by blast
  show ?case
  proof (cases "cn_send_queue c")
    case Nil
    with 1(2) show ?thesis using keep by (simp add: process_send_queue.simps[of aead_seal now c u])
  next
    case (Cons p rest)
    show ?thesis
    proof (cases "Packet_serialize p")
      case (Inl e)
      then have "c' = c\<lparr>cn_send_queue := rest\<rparr>"
        using 1(2) Cons by (simp add: process_send_queue.simps[of aead_seal now c u] Let_def)
      then show ?thesis using keep[of c' rest] by simp
    next
      case (Inr data)
      let ?d = "append_crc32 (encrypt_outgoing aead_seal (c\<lparr>cn_send_queue := rest\<rparr>) data)"
      obtain x u1 where u1: "send_to now ?d (cn_remote_addr c) u = (x, u1)" by fastforce
      show ?thesis
      proof (cases x)
        case (Inl e)
        then have "c' = c\<lparr>cn_send_queue := rest\<rparr>"
          using 1(2) Cons Inr u1 by (simp add: process_send_queue.simps[of aead_seal now c u] Let_def)
        then show ?thesis using keep[of c' rest] by simp
      next
        case x: (Inr k)
        have "process_send_queue aead_seal now (record_bytes_sent now (length ?d) (c\<lparr>cn_send_queue := rest\<rparr>), u1) = (r, c', u')"
          using 1(2) Cons Inr u1 x by (simp add: process_send_queue.simps[of aead_seal now c u] Let_def)
        from 1(1)[OF Cons refl Inr refl, of x u1, simplified, OF u1[symmetric] x this]
        show ?thesis by (auto simp: record_bytes_sent_def)
      qed
    qed
  qed
qed

lemma queue_frame:
  assumes "process_send_queue aead_seal now st = (r, c', u')"
  shows "cn_state c' = cn_state (fst st)" and "cn_server_salt c' = cn_server_salt (fst st)"
    and "cn_channels c' = cn_channels (fst st)" and "cn_encryption_state c' = cn_encryption_state (fst st)"
    and "cn_channel_priority_order c' = cn_channel_priority_order (fst st)" and "cn_cwnd c' = cn_cwnd (fst st)"
    and "cn_congestion c' = cn_congestion (fst st)" and "cn_config c' = cn_config (fst st)"
  using queue_shape[OF assms] by auto

section \<open>The handshake as a step relation\<close>

text \<open>
  What an application, the network and the clock can do to a connection: every public operation but
  those that are runs of these (\<open>update\<close> is a tick, a flush and incoming packets), the setters with
  which \<open>NetClient\<close> and \<open>NetServer\<close> run a handshake of their own included.
\<close>

datatype conn_event =
    DoConnect instant
  | DoDisconnect instant u8
  | Incoming map_orders instant packet
  | Tick map_orders instant
  | DoSend u8 bytes bool
  | DoReceive u8
  | Drain
  | Flush "bytes \<Rightarrow> bytes \<Rightarrow> bytes option" instant udp_socket
  | SetState connection_state
  | SetServerSalt u64
  | SetRemoteAddr socket_addr
  | TouchRecv instant
  | TouchSend instant
  | Outgoing instant u8
  | DirectPayload map_orders instant u8 bytes
  | IncomingHeader map_orders instant packet_header
  | BytesSent instant nat
  | BytesReceived instant nat

inductive conn_step :: "connection \<Rightarrow> conn_event \<Rightarrow> connection \<Rightarrow> bool" where
  connect: "connect now c = (r, c') \<Longrightarrow> conn_step c (DoConnect now) c'"
| disconnect: "disconnect now reason c = (r, c') \<Longrightarrow> conn_step c (DoDisconnect now reason) c'"
| incoming: "handle_packet od now p c = (r, c') \<Longrightarrow> conn_step c (Incoming od now p) c'"
| tick: "update_tick od now c = Some (r, c') \<Longrightarrow> conn_step c (Tick od now) c'"
| send: "Connection_send ch data reliable c = (r, c') \<Longrightarrow> conn_step c (DoSend ch data reliable) c'"
| receive: "Connection_receive ch c = (r, c') \<Longrightarrow> conn_step c (DoReceive ch) c'"
| drain: "drain_send_queue c = (ps, c') \<Longrightarrow> conn_step c Drain c'"
| flush: "process_send_queue aead_seal now (c, u) = (r, c', u') \<Longrightarrow> conn_step c (Flush aead_seal now u) c'"
| set_state: "conn_step c (SetState s) (set_state s c)"
| set_server_salt: "conn_step c (SetServerSalt salt) (set_server_salt salt c)"
| set_remote_addr: "conn_step c (SetRemoteAddr a) (set_remote_addr a c)"
| touch_recv: "conn_step c (TouchRecv now) (touch_recv_time now c)"
| touch_send: "conn_step c (TouchSend now) (touch_send_time now c)"
| outgoing: "get_channel_outgoing now ch c = (m, c') \<Longrightarrow> conn_step c (Outgoing now ch) c'"
| direct: "conn_step c (DirectPayload od now ch payload) (receive_payload_direct od now ch payload c)"
| header: "conn_step c (IncomingHeader od now h) (process_incoming_header od now h c)"
| bytes_sent: "conn_step c (BytesSent now n) (record_bytes_sent now n c)"
| bytes_received: "conn_step c (BytesReceived now n) (record_bytes_received now n c)"

inductive_simps conn_step_simps:
  "conn_step c (DoConnect now) c'" "conn_step c (DoDisconnect now reason) c'"
  "conn_step c (Incoming od now p) c'" "conn_step c (Tick od now) c'"
  "conn_step c (DoSend ch data reliable) c'" "conn_step c (DoReceive ch) c'" "conn_step c Drain c'"

inductive conn_run :: "connection \<Rightarrow> conn_event list \<Rightarrow> connection \<Rightarrow> bool" where
  start: "conn_run c [] c"
| step: "conn_run c es c1 \<Longrightarrow> conn_step c1 e c2 \<Longrightarrow> conn_run c (es @ [e]) c2"

text \<open>Nobody reaches around the protocol: the state is set from outside to disconnected at most, the salt never.\<close>

definition by_protocol :: "conn_event \<Rightarrow> bool" where
  "by_protocol e = (case e of SetState s \<Rightarrow> s = Disconnected | SetServerSalt _ \<Rightarrow> False | _ \<Rightarrow> True)"

text \<open>The events every connection in a given state has seen, in this order.\<close>

definition handshake_seen :: "conn_event list \<Rightarrow> connection \<Rightarrow> bool" where
  "handshake_seen es c \<longleftrightarrow>
     (case cn_state c of
        Connecting \<Rightarrow> (\<exists>t. subseq [DoConnect t] es)
      | ChallengeResponse \<Rightarrow> (\<exists>t o1 t1 p1. subseq [DoConnect t, Incoming o1 t1 p1] es \<and>
          pkt_type p1 = ConnectionChallenge (cn_server_salt c))
      | Connected \<Rightarrow> (\<exists>t o1 t1 p1 o2 t2 p2. subseq [DoConnect t, Incoming o1 t1 p1, Incoming o2 t2 p2] es \<and>
          pkt_type p1 = ConnectionChallenge (cn_server_salt c) \<and> pkt_type p2 = ConnectionAccept)
      | _ \<Rightarrow> True)"

lemma subseq_snoc: "subseq xs es \<Longrightarrow> subseq xs (es @ [e])"
  by (metis append.right_neutral list_emb_append_mono subseq_append_iff list_emb_Nil)

lemma subseq_snoc2: "subseq xs es \<Longrightarrow> subseq (xs @ [e]) (es @ [e])"
  by simp

lemma handshake_frame:
  assumes "handshake_seen es c"
    and "cn_state c' = Disconnected \<or> cn_state c' = Disconnecting \<or>
      (cn_state c' = cn_state c \<and> cn_server_salt c' = cn_server_salt c)"
  shows "handshake_seen (es @ [e]) c'"
  using assms subseq_snoc unfolding handshake_seen_def by (auto split: connection_state.splits) blast+

text \<open>Parts of a packet's handling that leave the state of the handshake alone.\<close>

lemma kept_direct [simp]: "cn_state (receive_payload_direct od now ch p c) = cn_state c"
  "cn_server_salt (receive_payload_direct od now ch p c) = cn_server_salt c"
  by (simp_all add: receive_payload_direct_def)

lemma kept_direct_fold [simp]:
  "cn_state (fold (receive_payload_direct od now ch) ms c) = cn_state c"
  "cn_server_salt (fold (receive_payload_direct od now ch) ms c) = cn_server_salt c"
  by (induction ms arbitrary: c) simp_all

lemma kept_header [simp]: "cn_state (process_incoming_header od now h c) = cn_state c"
  "cn_server_salt (process_incoming_header od now h c) = cn_server_salt c"
  by (simp_all add: process_incoming_header_def Let_def split: prod.split)

lemma kept_queue [simp]: "cn_state (queue_packet t p c) = cn_state c"
  "cn_server_salt (queue_packet t p c) = cn_server_salt c" "cn_config (queue_packet t p c) = cn_config c"
  by (simp_all add: queue_packet_def create_header_def push_packet_def split: prod.split)

lemma reset_state [simp]: "cn_state (reset_connection c) = cn_state c"
  by (simp add: reset_connection_def)

lemma connected_state:
  "cn_state (handle_connected od now p c) = Disconnected \<or>
   (cn_state (handle_connected od now p c) = cn_state c \<and>
    cn_server_salt (handle_connected od now p c) = cn_server_salt c)"
  by (auto simp: handle_connected_def Let_def set_state_def split: packet_type.split option.split)

lemma numbered_kept: "numbered c c' \<Longrightarrow> kept c c'"
  by (auto simp: numbered_def queued_def)

lemma update_tickE:
  assumes "update_tick od now c = Some (r, c')"
  obtains (timeout) "cn_state c \<noteq> Disconnected" "cn_state c \<noteq> Disconnecting" "r = Inl Timeout"
      "duration_since now (cn_last_packet_recv_time c) > nc_connection_timeout (cn_config c)"
      "c' = reset_connection (c\<lparr>cn_state := Disconnected\<rparr>)"
    | (error) e where "r = Inl e"
      "update_state od now (c\<lparr>cn_fragment_assembler := fragment_cleanup now (cn_fragment_assembler c)\<rparr>) = Some (r, c')"
    | (ok) c1 where "r = Inr ()" "c' = update_stats c1"
      "update_state od now (c\<lparr>cn_fragment_assembler := fragment_cleanup now (cn_fragment_assembler c)\<rparr>) = Some (r, c1)"
proof (cases "cn_state c \<noteq> Disconnected \<and> cn_state c \<noteq> Disconnecting \<and>
    duration_since now (cn_last_packet_recv_time c) > nc_connection_timeout (cn_config c)")
  case True
  with assms timeout show ?thesis by (simp add: update_tick_def)
next
  case False
  with assms obtain r' c1 where u: "update_state od now (c\<lparr>cn_fragment_assembler :=
      fragment_cleanup now (cn_fragment_assembler c)\<rparr>) = Some (r', c1)"
    and r: "(r, c') = (case r' of Inl e \<Rightarrow> (Inl e, c1) | Inr u \<Rightarrow> (Inr u, update_stats c1))"
    by (auto simp: update_tick_def)
  show ?thesis
  proof (cases r')
    case (Inl e)
    with u r error show ?thesis by simp
  next
    case (Inr x)
    with u r ok show ?thesis by simp
  qed
qed

lemma tick_state:
  assumes "update_tick od now c = Some (r, c')"
  shows "cn_state c' = Disconnected \<or> (cn_state c' = cn_state c \<and> cn_server_salt c' = cn_server_salt c)"
proof -
  let ?c = "c\<lparr>cn_fragment_assembler := fragment_cleanup now (cn_fragment_assembler c)\<rparr>"
  consider "c' = reset_connection (c\<lparr>cn_state := Disconnected\<rparr>)"
    | r' c1 where "update_state od now ?c = Some (r', c1)" "c' = c1 \<or> c' = update_stats c1"
    using assms by (rule update_tickE) blast+
  then show ?thesis
  proof cases
    case 2
    have "cn_state c1 = Disconnected \<or> (cn_state c1 = cn_state c \<and> cn_server_salt c1 = cn_server_salt c)"
    proof (cases "cn_state c")
      case Connected
      with 2(1) have "update_connected od now ?c = Some c1" by (auto simp: update_state_def)
      from numbered_kept[OF numbered_connected[OF this]] show ?thesis by (simp add: kept_def)
    qed (use 2(1) in \<open>auto simp: update_state_def update_connecting_def update_disconnecting_def
        send_connection_request_def push_packet_def Let_def split: option.splits if_splits\<close>)
    with 2(2) show ?thesis by (auto simp: update_stats_def Let_def)
  qed simp
qed

lemma packet_seen:
  assumes "handshake_seen es c" and "handle_packet od now p c = (r, c')"
  shows "handshake_seen (es @ [Incoming od now p]) c'"
proof (cases "cn_state c = Connecting \<and> (\<exists>s. pkt_type p = ConnectionChallenge s)")
  case True
  then obtain s t where s: "pkt_type p = ConnectionChallenge s" "subseq [DoConnect t] es"
    using assms(1) by (auto simp: handshake_seen_def)
  have "cn_state c' = ChallengeResponse" "cn_server_salt c' = s"
    using assms(2) True s by (auto simp: handle_packet_def)
  with s subseq_snoc2[OF s(2), of "Incoming od now p"] show ?thesis by (auto simp: handshake_seen_def)
next
  case no_challenge: False
  show ?thesis
  proof (cases "cn_state c = ChallengeResponse \<and> pkt_type p = ConnectionAccept")
    case True
    then obtain t o1 t1 p1 where s: "subseq [DoConnect t, Incoming o1 t1 p1] es"
      "pkt_type p1 = ConnectionChallenge (cn_server_salt c)"
      using assms(1) by (auto simp: handshake_seen_def)
    have "cn_state c' = Connected" "cn_server_salt c' = cn_server_salt c"
      using assms(2) True by (auto simp: handle_packet_def)
    with True s subseq_snoc2[OF s(1), of "Incoming od now p"] show ?thesis
      by (auto simp: handshake_seen_def) (metis append_Cons append_Nil)
  next
    case False
    have "cn_state c' = Disconnected \<or> (cn_state c' = cn_state c \<and> cn_server_salt c' = cn_server_salt c)"
      using assms(2) no_challenge False connected_state[of od now p c]
      by (auto simp: handle_packet_def split: connection_state.splits packet_type.splits)
    with assms(1) show ?thesis by (intro handshake_frame) auto
  qed
qed

lemma handshake_step:
  assumes "handshake_seen es c" and "conn_step c e c'" and "by_protocol e"
  shows "handshake_seen (es @ [e]) c'"
  using assms(2)
proof cases
  case (connect now r)
  then show ?thesis
  proof (cases "cn_state c = Disconnected")
    case True
    with connect have "cn_state c' = Connecting"
      by (auto simp: connect_def send_connection_request_def push_packet_def)
    then show ?thesis using connect by (auto simp: handshake_seen_def)
  next
    case False
    with connect assms(1) show ?thesis by (intro handshake_frame) (auto simp: connect_def)
  qed
next
  case (incoming od now p r)
  with assms(1) show ?thesis using packet_seen by simp
next
  case (tick od now r)
  from tick_state[OF tick(2)] assms(1) show ?thesis by (intro handshake_frame) auto
next
  case (flush aead_seal now u r u')
  from queue_frame(1,2)[OF flush(2)] assms(1) show ?thesis by (intro handshake_frame) auto
qed (use assms(1,3) in \<open>auto intro!: handshake_frame simp: disconnect_def Connection_send_def Connection_receive_def
      drain_send_queue_def by_protocol_def set_state_def set_remote_addr_def touch_recv_time_def touch_send_time_def
      get_channel_outgoing_def receive_payload_direct_def record_bytes_sent_def record_bytes_received_def
      process_incoming_header_def Let_def split: if_splits prod.splits\<close>)

lemma handshake_run: "conn_run c0 es c \<Longrightarrow> cn_state c0 = Disconnected \<Longrightarrow> list_all by_protocol es \<Longrightarrow> handshake_seen es c"
  by (induction rule: conn_run.induct) (auto simp: handshake_step handshake_seen_def[of "[]"])

section \<open>Attempts that nobody answers\<close>

fun ticks :: "map_orders \<Rightarrow> instant list \<Rightarrow> connection \<Rightarrow> connection option" where
  "ticks od [] c = Some c"
| "ticks od (t # ts) c = Option.bind (update_tick od t c) (\<lambda>(_, c'). ticks od ts c')"

text \<open>Every tick comes later than \<open>gap\<close> after the one before.\<close>

fun spaced :: "duration \<Rightarrow> instant \<Rightarrow> instant list \<Rightarrow> bool" where
  "spaced gap t [] \<longleftrightarrow> True"
| "spaced gap t (u # us) \<longleftrightarrow> duration_since u t > gap \<and> spaced gap u us"

definition requests :: "connection \<Rightarrow> nat" where
  "requests c = length (filter (\<lambda>p. pkt_type p = ConnectionRequest) (cn_send_queue c))"

text \<open>A connection that is waiting: \<open>n\<close> requests so far, the last one at \<open>t\<close>.\<close>

definition asking :: "network_config \<Rightarrow> nat \<Rightarrow> nat \<Rightarrow> instant \<Rightarrow> connection \<Rightarrow> bool" where
  "asking cfg k n t c \<longleftrightarrow> cn_config c = cfg \<and> cn_state c = Connecting \<and>
     cn_connection_request_time c = Some t \<and> cn_connection_retry_count c = n \<and> requests c \<le> k + n"

definition closed_with :: "nat \<Rightarrow> connection \<Rightarrow> bool" where
  "closed_with k c \<longleftrightarrow> cn_state c = Disconnected \<and> requests c \<le> k"

lemma stats_frame [simp]: "cn_state (update_stats c) = cn_state c" "requests (update_stats c) = requests c"
  "cn_send_queue (update_stats c) = cn_send_queue c" "cn_config (update_stats c) = cn_config c"
  "cn_connection_request_time (update_stats c) = cn_connection_request_time c"
  "cn_connection_retry_count (update_stats c) = cn_connection_retry_count c"
  "cn_disconnect_time (update_stats c) = cn_disconnect_time c"
  "cn_disconnect_retry_count (update_stats c) = cn_disconnect_retry_count c"
  by (simp_all add: update_stats_def Let_def requests_def)

lemma closed_tick:
  assumes "closed_with k c"
  shows "\<exists>r c'. update_tick od t c = Some (r, c') \<and> closed_with k c'"
  using assms by (auto simp: update_tick_def update_state_def closed_with_def requests_def)

lemma closed_ticks: "closed_with k c \<Longrightarrow> \<exists>c'. ticks od ts c = Some c' \<and> closed_with k c'"
proof (induction ts arbitrary: c)
  case (Cons t ts)
  from closed_tick[OF Cons.prems, of od t] obtain r c1 where "update_tick od t c = Some (r, c1)" "closed_with k c1" by blast
  with Cons.IH show ?case by simp
qed simp

lemma asking_tick:
  assumes "asking cfg k n t c" and "duration_since u t > nc_connection_request_timeout cfg"
  shows "\<exists>r c'. update_tick od u c = Some (r, c') \<and>
    (if n < nc_connection_request_max_retries cfg then asking cfg k (Suc n) u c' \<or> closed_with (k + n) c'
     else closed_with (k + n) c')"
proof (cases "duration_since u (cn_last_packet_recv_time c) > nc_connection_timeout cfg")
  case True
  then show ?thesis
    using assms by (simp add: asking_def update_tick_def closed_with_def requests_def reset_connection_def)
next
  case False
  then show ?thesis
    using assms by (auto simp: asking_def update_tick_def update_state_def update_connecting_def Let_def
        send_connection_request_def push_packet_def Packet_new_def closed_with_def requests_def)
qed

lemma asking_ticks:
  assumes "asking cfg k n t c" and "spaced (nc_connection_request_timeout cfg) t ts"
    and "n + length ts = Suc (nc_connection_request_max_retries cfg)" and "n \<le> nc_connection_request_max_retries cfg"
  shows "\<exists>c'. ticks od ts c = Some c' \<and> closed_with (k + nc_connection_request_max_retries cfg) c'"
  using assms
proof (induction ts arbitrary: c n t)
  case (Cons u us)
  let ?m = "nc_connection_request_max_retries cfg"
  have "duration_since u t > nc_connection_request_timeout cfg" using Cons.prems(2) by simp
  from asking_tick[OF Cons.prems(1) this, of od] obtain r c1 where c1: "update_tick od u c = Some (r, c1)"
    "if n < ?m then asking cfg k (Suc n) u c1 \<or> closed_with (k + n) c1 else closed_with (k + n) c1" by blast
  show ?case
  proof (cases "closed_with (k + n) c1")
    case True
    then have "closed_with (k + ?m) c1" using Cons.prems(4) by (simp add: closed_with_def)
    with closed_ticks c1(1) show ?thesis by simp
  next
    case False
    with c1(2) have "n < ?m" "asking cfg k (Suc n) u c1" by (simp_all split: if_splits)
    with Cons.IH[of "Suc n" u c1] Cons.prems(2,3) c1(1) show ?thesis by simp
  qed
qed simp

text \<open>The same for a connection that is being closed.\<close>

definition closing :: "network_config \<Rightarrow> nat \<Rightarrow> instant \<Rightarrow> connection \<Rightarrow> bool" where
  "closing cfg n t c \<longleftrightarrow> cn_config c = cfg \<and> cn_state c = Disconnecting \<and>
     cn_disconnect_time c = Some t \<and> cn_disconnect_retry_count c = n"

definition closed_and_empty :: "connection \<Rightarrow> bool" where
  "closed_and_empty c \<longleftrightarrow> cn_state c = Disconnected \<and> cn_send_queue c = []"

lemma closed_and_empty_ticks:
  "closed_and_empty c \<Longrightarrow> \<exists>c'. ticks od ts c = Some c' \<and> closed_and_empty c'"
proof (induction ts arbitrary: c)
  case (Cons t ts)
  then have "\<exists>r c1. update_tick od t c = Some (r, c1) \<and> closed_and_empty c1"
    by (simp add: update_tick_def update_state_def closed_and_empty_def)
  with Cons.IH show ?case by auto
qed simp

lemma closing_tick:
  assumes "closing cfg n t c" and "duration_since u t > nc_disconnect_retry_timeout cfg"
  shows "\<exists>r c'. update_tick od u c = Some (r, c') \<and>
    (if n < nc_disconnect_retries cfg then closing cfg (Suc n) u c' else closed_and_empty c')"
  using assms
  by (auto simp: closing_def update_tick_def update_state_def update_disconnecting_def closed_and_empty_def
      queue_packet_def create_header_def push_packet_def reset_connection_def split: prod.split)

lemma closing_ticks:
  assumes "closing cfg n t c" and "spaced (nc_disconnect_retry_timeout cfg) t ts"
    and "n + length ts = Suc (nc_disconnect_retries cfg)" and "n \<le> nc_disconnect_retries cfg"
  shows "\<exists>c'. ticks od ts c = Some c' \<and> closed_and_empty c'"
  using assms
proof (induction ts arbitrary: c n t)
  case (Cons u us)
  have "duration_since u t > nc_disconnect_retry_timeout cfg" using Cons.prems(2) by simp
  from closing_tick[OF Cons.prems(1) this, of od] obtain r c1 where c1: "update_tick od u c = Some (r, c1)"
    "if n < nc_disconnect_retries cfg then closing cfg (Suc n) u c1 else closed_and_empty c1" by blast
  show ?case
  proof (cases "n < nc_disconnect_retries cfg")
    case True
    with Cons.IH[of "Suc n" u c1] Cons.prems(2,3) c1 show ?thesis by simp
  next
    case False
    with c1 closed_and_empty_ticks show ?thesis by simp
  qed
qed simp

section \<open>Ticks never panic\<close>

definition sound_conn :: "connection \<Rightarrow> bool" where
  "sound_conn c \<longleftrightarrow> set (cn_channel_priority_order c) \<subseteq> {..<length (cn_channels c)} \<and> cn_cwnd c = None \<and>
     (\<exists>base. controller_inv base (cn_congestion c)) \<and>
     nc_congestion_recovery_time (cn_config c) < 2 ^ 37 * 1000000000"

lemma sound_kept: "sound_conn c \<Longrightarrow> kept c c' \<Longrightarrow> sound_conn c'"
  by (auto simp: sound_conn_def kept_def)

lemma new_congestion_inv:
  assumes "nc_congestion_recovery_time cfg < 2 ^ 37 * 1000000000"
  shows "controller_inv (nc_send_rate cfg) (new_congestion cfg)"
proof -
  from assms obtain r where "as_secs_f64 (nc_congestion_recovery_time cfg) = Fin r" "0 \<le> r" "r \<le> 2 * of_nat (2 ^ 37) + 6"
    by (rule as_secs_f64_below) simp_all
  then show ?thesis by (simp add: new_congestion_def controller_inv_def CongestionController_new_def finite_between_def)
qed

lemma sound_new:
  assumes "\<not> nc_use_cwnd_congestion cfg" and "nc_congestion_recovery_time cfg < 2 ^ 37 * 1000000000"
  shows "sound_conn (Connection_new enc salt t cfg loc rem)"
  using assms new_congestion_inv by (auto simp: sound_conn_def Connection_new_def priority_order_def)

lemma sound_reset: "sound_conn c \<Longrightarrow> sound_conn (reset_connection c)"
  using new_congestion_inv by (auto simp: sound_conn_def reset_connection_def)

lemma service_channel_total:
  assumes "i < length (cn_channels c)"
  shows "\<exists>m c'. service_channel od now i (n, c) = Some (m, c')"
  using assms by (simp add: service_channel_def split: prod.split)

lemma service_channels_total:
  "set is \<subseteq> {..<length (cn_channels c)} \<Longrightarrow> \<exists>m c'. service_channels od now is (n, c) = Some (m, c')"
proof (induction "is" arbitrary: n c)
  case (Cons i "is")
  then obtain k c1 where s: "service_channel od now i (n, c) = Some (k, c1)" using service_channel_total by fastforce
  have "length (cn_channels c1) = length (cn_channels c)"
    using numbered_kept[OF numbered_service_channel[OF s]] by (simp add: kept_def)
  with Cons s show ?case by simp
qed simp

lemma sound_connected:
  assumes "sound_conn c"
  shows "\<exists>c'. update_connected od now c = Some c'"
proof -
  from assms obtain cc where "CongestionController_update now (ns_packet_loss (cn_stats c)) (ns_rtt (cn_stats c)) (cn_congestion c) = Some cc"
    using update_controller_inv unfolding sound_conn_def by metis
  with assms obtain c1 where c1: "update_congestion now c = Some c1"
    by (auto simp: update_congestion_def Let_def sound_conn_def)
  define c2 where "c2 = (if duration_since now (cn_last_packet_send_time c1) > nc_keepalive_interval (cn_config c1)
      then send_keepalive c1 else c1)"
  define c3 where "c3 = (send_mtu_probe now c2)\<lparr>cn_data_sent_this_tick := False\<rparr>"
  have "numbered c c1" using c1 by (rule numbered_congestion)
  also have "numbered c1 c2" by (simp add: c2_def send_keepalive_def)
  also have "numbered c2 (send_mtu_probe now c2)" by (rule numbered_probe)
  also have "numbered (send_mtu_probe now c2) c3" by (rule numbered_frame) (simp_all add: c3_def kept_def)
  finally have "kept c c3" by (rule numbered_kept)
  with assms have "set (cn_channel_priority_order c3) \<subseteq> {..<length (cn_channels c3)}"
    by (simp add: sound_conn_def kept_def)
  then obtain n c4 where "service_channels od now (cn_channel_priority_order c3) (0, c3) = Some (n, c4)"
    using service_channels_total by blast
  then show ?thesis
    using c1 unfolding update_connected_def Let_def c2_def[symmetric] c3_def[symmetric]
    by (auto simp: c2_def c3_def)
qed

lemma sound_tick_total:
  assumes "sound_conn c"
  shows "\<exists>r c'. update_tick od now c = Some (r, c')"
proof -
  let ?c = "c\<lparr>cn_fragment_assembler := fragment_cleanup now (cn_fragment_assembler c)\<rparr>"
  have "sound_conn ?c" using assms by (simp add: sound_conn_def)
  from sound_connected[OF this, of od now] have "\<exists>x. update_state od now ?c = Some x"
    by (auto simp: update_state_def split: connection_state.split)
  then show ?thesis by (auto simp: update_tick_def)
qed

lemma sound_frame:
  assumes "sound_conn c" and "cn_channel_priority_order c' = cn_channel_priority_order c"
    and "length (cn_channels c') = length (cn_channels c)" and "cn_cwnd c' = cn_cwnd c"
    and "cn_congestion c' = cn_congestion c" and "cn_config c' = cn_config c"
  shows "sound_conn c'"
  using assms by (simp add: sound_conn_def)

lemma sound_queue: "sound_conn c \<Longrightarrow> sound_conn (queue_packet t p c)"
  using numbered_kept[OF numbered_packet] by (rule sound_kept[rotated])

lemma sound_direct: "sound_conn c \<Longrightarrow> sound_conn (receive_payload_direct od now ch p c)"
  by (erule sound_frame) (simp_all add: receive_payload_direct_def)

lemma sound_directs: "sound_conn c \<Longrightarrow> sound_conn (fold (receive_payload_direct od now ch) ms c)"
  by (induction ms arbitrary: c) (simp_all add: sound_direct)

lemma length_acknowledge [simp]: "length (acknowledge pr chs) = length chs" "length (fast_retransmit now pr chs) = length chs"
  by (simp_all add: acknowledge_def fast_retransmit_def split: prod.split)

lemma length_acknowledges [simp]: "length (fold acknowledge prs chs) = length chs"
  "length (fold (fast_retransmit now) prs chs) = length chs"
  by (induction prs arbitrary: chs) simp_all

lemma sound_header: "sound_conn c \<Longrightarrow> sound_conn (process_incoming_header od now h c)"
  by (rule sound_frame[of c]) (simp_all add: process_incoming_header_def Let_def sound_conn_def split: prod.split)

lemma sound_handle_connected:
  assumes "sound_conn c"
  shows "sound_conn (handle_connected od now p c)"
proof -
  let ?c = "process_incoming_header od now (pkt_header p) c"
  have "sound_conn ?c" using assms by (rule sound_header)
  moreover have "sound_conn (set_state s d)" if "sound_conn d" for s d
    using that by (rule sound_frame) (simp_all add: set_state_def)
  moreover have "sound_conn (?c\<lparr>cn_mtu_discovery := d\<rparr>)" for d
    using \<open>sound_conn ?c\<close> by (rule sound_frame) simp_all
  ultimately show ?thesis
    by (auto simp: handle_connected_def Let_def sound_queue sound_direct sound_directs sound_reset
        split: packet_type.split option.split)
qed

lemma sound_state: "sound_conn c \<Longrightarrow> sound_conn (c\<lparr>cn_state := s\<rparr>)"
  by (erule sound_frame) simp_all

text \<open>The outcomes of \<open>handle_packet\<close>.\<close>

lemma handle_packet_outcomes:
  assumes "handle_packet od now p c = (r, c')"
  obtains (challenge) s where "c' = queue_packet (ConnectionResponse (cn_client_salt c)) []
        (c\<lparr>cn_server_salt := s, cn_state := ChallengeResponse\<rparr>)"
    | (accept) "c' = c\<lparr>cn_state := Connected, cn_connection_start_time := Some now,
        cn_last_packet_recv_time := now, cn_local_sequence := 0, cn_remote_sequence := 0\<rparr>"
    | (denied) "c' = c\<lparr>cn_state := Disconnected\<rparr>"
    | (connected) "c' = handle_connected od now p c"
    | (closed) "c' = reset_connection (c\<lparr>cn_state := Disconnected\<rparr>)"
    | (ignored) "c' = c"
  using assms by (cases "cn_state c"; cases "pkt_type p"; auto simp: handle_packet_def)

lemma sound_handle_packet:
  assumes "sound_conn c" and "handle_packet od now p c = (r, c')"
  shows "sound_conn c'"
  using assms(2)
proof (cases rule: handle_packet_outcomes)
  case (challenge s)
  have "sound_conn (c\<lparr>cn_server_salt := s, cn_state := ChallengeResponse\<rparr>)" using assms(1) by (simp add: sound_conn_def)
  with challenge show ?thesis by (simp add: sound_queue)
next
  case accept
  with assms(1) show ?thesis by (simp add: sound_conn_def)
qed (simp_all add: assms(1) sound_reset sound_handle_connected sound_state)

lemma sound_update_state:
  assumes "sound_conn c" and "update_state od now c = Some (r, c')"
  shows "sound_conn c'"
proof (cases "cn_state c")
  case Connecting
  have "sound_conn (c\<lparr>cn_connection_retry_count := n\<rparr>)" "sound_conn (send_connection_request d)"
    "sound_conn (d\<lparr>cn_connection_request_time := t\<rparr>)" if "sound_conn d" for n d t
    using assms(1) that by (simp_all add: sound_conn_def send_connection_request_def push_packet_def)
  with Connecting assms show ?thesis
    by (auto simp: update_state_def update_connecting_def Let_def sound_state split: option.splits if_splits)
next
  case Connected
  with assms(2) have "update_connected od now c = Some c'" by (auto simp: update_state_def)
  from sound_kept[OF assms(1) numbered_kept[OF numbered_connected[OF this]]] show ?thesis .
next
  case Disconnecting
  have "sound_conn (c\<lparr>cn_disconnect_retry_count := n, cn_disconnect_time := t\<rparr>)" for n t
    using assms(1) by (simp add: sound_conn_def)
  then have "sound_conn (update_disconnecting now c)"
    using assms(1) by (auto simp: update_disconnecting_def sound_reset sound_state intro!: sound_queue split: option.split)
  with Disconnecting assms(2) show ?thesis by (auto simp: update_state_def)
qed (use assms in \<open>auto simp: update_state_def\<close>)

lemma sound_tick:
  assumes "sound_conn c" and "update_tick od now c = Some (r, c')"
  shows "sound_conn c'"
proof -
  let ?c = "c\<lparr>cn_fragment_assembler := fragment_cleanup now (cn_fragment_assembler c)\<rparr>"
  have s: "sound_conn ?c" using assms(1) by (simp add: sound_conn_def)
  from assms(2) show ?thesis
  proof (cases rule: update_tickE)
    case (ok c1)
    have "sound_conn c1" using sound_update_state[OF s ok(3)] .
    then show ?thesis unfolding ok(2) by (rule sound_frame) (simp_all add: update_stats_def Let_def)
  qed (simp_all add: sound_reset sound_state assms(1) sound_update_state[OF s])
qed

lemma sound_step:
  assumes "sound_conn c" and "conn_step c e c'"
  shows "sound_conn c'"
  using assms(2)
proof cases
  case (incoming od now p r)
  with assms(1) show ?thesis using sound_handle_packet by blast
next
  case (tick od now r)
  with assms(1) show ?thesis using sound_tick by blast
next
  case (disconnect now reason r)
  have "sound_conn (d\<lparr>cn_state := s, cn_disconnect_time := t, cn_disconnect_retry_count := n\<rparr>)" if "sound_conn d" for d s t n
    using that by (simp add: sound_conn_def)
  with disconnect assms(1) show ?thesis by (auto simp: disconnect_def sound_queue split: if_splits)
next
  case (flush aead_seal now u r u')
  from queue_frame[OF flush(2)] show ?thesis using sound_frame[OF assms(1), of c'] by simp
next
  case (direct od now ch payload)
  with assms(1) show ?thesis by (simp add: sound_direct)
next
  case (header od now h)
  with assms(1) show ?thesis by (simp add: sound_header)
qed (use assms(1) in \<open>auto simp: connect_def Connection_send_def Connection_receive_def drain_send_queue_def
      send_connection_request_def push_packet_def sound_conn_def set_state_def set_server_salt_def set_remote_addr_def
      touch_recv_time_def touch_send_time_def get_channel_outgoing_def record_bytes_sent_def record_bytes_received_def
      split: if_splits prod.splits\<close>)

lemma sound_run: "conn_run c0 es c \<Longrightarrow> sound_conn c0 \<Longrightarrow> sound_conn c"
  by (induction rule: conn_run.induct) (auto intro: sound_step)

section \<open>Sending the queue\<close>

definition packet_bytes :: "packet \<Rightarrow> bytes" where
  "packet_bytes p = (case Packet_serialize p of Inr data \<Rightarrow> data | Inl _ \<Rightarrow> [])"

lemma packet_bytes_ok:
  assumes "channel_fits (pkt_type p)"
  shows "Packet_serialize p = Inr (packet_bytes p)" and "Packet_deserialize (packet_bytes p) = Inr p"
  by (rule roundtrip[OF assms]; simp add: packet_bytes_def)+

definition datagram :: "(bytes \<Rightarrow> bytes \<Rightarrow> bytes option) \<Rightarrow> connection \<Rightarrow> packet \<Rightarrow> bytes" where
  "datagram aead_seal c p = append_crc32 (encrypt_outgoing aead_seal c (packet_bytes p))"

lemma send_to_ok:
  assumes "os_send_errors (us_socket u) = []"
  obtains n u' where "send_to now data addr u = (Inr n, u')" "os_send_errors (us_socket u') = []"
    "os_outgoing (us_socket u') = os_outgoing (us_socket u) @ [(data, addr)]"
  using assms by (auto simp: send_to_def os_send_to_def)

lemma process_send_queue_ok:
  assumes "list_all (\<lambda>p. channel_fits (pkt_type p)) (cn_send_queue c)" and "os_send_errors (us_socket u) = []"
  shows "\<exists>c' u'. process_send_queue aead_seal now (c, u) = (Inr (), c', u') \<and> cn_send_queue c' = [] \<and>
    os_outgoing (us_socket u') = os_outgoing (us_socket u) @
      map (\<lambda>p. (datagram aead_seal c p, cn_remote_addr c)) (cn_send_queue c)"
  using assms
proof (induction "cn_send_queue c" arbitrary: c u)
  case Nil
  note q = Nil.hyps[symmetric]
  show ?case by (simp add: process_send_queue.simps[of aead_seal now c u] q)
next
  case (Cons p rest)
  let ?c = "c\<lparr>cn_send_queue := rest\<rparr>"
  let ?d = "record_bytes_sent now (length (datagram aead_seal c p)) ?c"
  note q = Cons.hyps(2)[symmetric]
  have p: "Packet_serialize p = Inr (packet_bytes p)"
    by (rule packet_bytes_ok(1)) (use Cons.prems(1) in \<open>simp add: q\<close>)
  obtain n u1 where u1: "send_to now (datagram aead_seal c p) (cn_remote_addr c) u = (Inr n, u1)"
    "os_send_errors (us_socket u1) = []"
    "os_outgoing (us_socket u1) = os_outgoing (us_socket u) @ [(datagram aead_seal c p, cn_remote_addr c)]"
    using send_to_ok[OF Cons.prems(2)] by metis
  have d: "cn_send_queue ?d = rest" "cn_remote_addr ?d = cn_remote_addr c"
    "datagram aead_seal ?d q = datagram aead_seal c q" "datagram aead_seal ?c q = datagram aead_seal c q" for q
    by (simp_all add: record_bytes_sent_def datagram_def encrypt_outgoing_def split: option.split)
  have "process_send_queue aead_seal now (c, u) = process_send_queue aead_seal now (?d, u1)"
    using u1(1) d(4)[of p]
    by (simp add: process_send_queue.simps[of aead_seal now c u] q p datagram_def Let_def)
  moreover have "list_all (\<lambda>p. channel_fits (pkt_type p)) (cn_send_queue ?d)"
    using Cons.prems(1) by (simp add: d q)
  ultimately show ?case
    using Cons.hyps(1)[of ?d u1] u1 by (simp add: d q)
qed

lemma receive_sealed:
  assumes "channel_fits (pkt_type p)" and "cn_encryption_state d = None" and "addr = cn_remote_addr d"
    and "ph_protocol_id (pkt_header p) = nc_protocol_id (cn_config d)"
  shows "receive_datagram aead_open od now (append_crc32 (packet_bytes p)) addr d =
    handle_packet od now p (touch_recv_time now
      (record_bytes_received now (length (append_crc32 (packet_bytes p))) d))"
  unfolding receive_datagram_def validate_append
  by (simp add: decrypt_incoming_def assms packet_bytes_ok(2)[OF assms(1)])

lemma fragment_count_bound:
  assumes "fragment_message mid data mx = Inr fragments"
  shows "length fragments \<le> 255"
  using assms by (auto simp: fragment_message_def Let_def MAX_FRAGMENT_COUNT_def split: if_splits)

text \<open>The new packets of a fragmented message.\<close>

lemma send_fragmented:
  assumes "length wire > nc_fragment_threshold (cn_config c)"
    and "fragment_message (cn_next_fragment_id c) wire (nc_fragment_threshold (cn_config c)) = Inr fragments"
  shows "\<exists>ps. cn_send_queue (send_message od now i s wire c) = cn_send_queue c @ ps \<and>
    map (\<lambda>p. ph_sequence (pkt_header p)) ps = map (\<lambda>k. cn_local_sequence c + 1 + of_nat k) [0..<length fragments]"
proof -
  let ?h = "c\<lparr>cn_congestion := deduct_budget (length wire) (cn_congestion c),
    cn_local_sequence := cn_local_sequence c + 1\<rparr>"
  have "queued ?h [0..<length fragments] (length fragments) (queue_fragments i wire ?h)"
    using assms(2) by (intro queued_fragments) simp
  then obtain ps where ps: "cn_send_queue (queue_fragments i wire ?h) = cn_send_queue c @ ps"
    "map (\<lambda>p. ph_sequence (pkt_header p)) ps = map (\<lambda>k. cn_local_sequence c + 1 + of_nat k) [0..<length fragments]"
    by (auto simp: queued_def)
  have "cn_send_queue (send_message od now i s wire c) = cn_send_queue (queue_fragments i wire ?h)"
    using assms(1) by (simp add: send_message_def create_header_alt Let_def)
  with ps show ?thesis by auto
qed

lemma sent_record:
  "hm_get (re_sent_packets (on_packet_sent it s now ch m n e)) s = Some
     \<lparr>sp_channel_id = ch, sp_channel_sequence = m, sp_send_time = now, sp_size = n, sp_nack_count = 0\<rparr>"
  by (simp add: on_packet_sent_def Let_def hm_get_insert)

lemma not_among_next:
  assumes "n \<le> 255"
  shows "(w :: u16) \<notin> set (map (\<lambda>k. w + 1 + of_nat k) [0..<n])"
proof
  assume "w \<in> set (map (\<lambda>k. w + 1 + of_nat k) [0..<n])"
  then obtain k where k: "k < n" "w = w + 1 + of_nat k" by auto
  from k(2) have "w + (1 + of_nat k) = w + 0" by (simp add: add.assoc)
  then have "(of_nat (Suc k) :: u16) = 0" by (simp only: add_left_cancel of_nat_Suc)
  moreover have "unat (of_nat (Suc k) :: u16) = Suc k"
    using k(1) assms by (simp only: unat_of_nat) (simp add: take_bit_nat_eq_self)
  ultimately show False by simp
qed

section \<open>Properties\<close>

text \<open>C12: a connection that reaches the connected state through its own protocol has gone through the
  handshake: it asked to connect, then received a challenge, the one whose salt it still holds, then an
  acceptance, in this order, whatever else happened before, between and after, as long as nobody sets
  its salt, or its state to anything but disconnected, from outside. (\<open>NetClient\<close> and \<open>NetServer\<close> do
  just that: they run handshakes of their own, which the session and the roster are about.)\<close>

theorem handshake_order:
  assumes "conn_run (Connection_new enc_new salt t0 cfg loc rem) es c" and "list_all by_protocol es"
    and "cn_state c = Connected"
  shows "\<exists>t o1 t1 p1 o2 t2 p2. subseq [DoConnect t, Incoming o1 t1 p1, Incoming o2 t2 p2] es \<and>
    pkt_type p1 = ConnectionChallenge (cn_server_salt c) \<and> pkt_type p2 = ConnectionAccept"
  using handshake_run[OF assms(1) _ assms(2)] assms(3) by (simp add: handshake_seen_def Connection_new_def)

definition example_header :: packet_header where
  "example_header = \<lparr>ph_protocol_id = 7, ph_sequence = 0, ph_ack = 0, ph_ack_bits = 0\<rparr>"

definition example_orders :: map_orders where
  "example_orders = \<lparr>od_in_flight = id, od_channel = (\<lambda>_. id), od_fragments = id\<rparr>"

definition example_addr :: "nat \<Rightarrow> socket_addr" where
  "example_addr k = \<lparr>sa_ip = V4 (of_nat k), sa_port = 9\<rparr>"

definition quiet_config :: network_config where
  "quiet_config = NetworkConfig_default\<lparr>nc_protocol_id := 7, nc_max_channels := 2,
     nc_default_channel_config := small_config, nc_fragment_threshold := 3, nc_connection_request_timeout := 5,
     nc_connection_request_max_retries := 2, nc_disconnect_retry_timeout := 5, nc_disconnect_retries := 1,
     nc_connection_timeout := 1000, nc_keepalive_interval := 100, nc_congestion_recovery_time := 1,
     nc_fragment_timeout := 50, nc_packet_buffer_size := 4, nc_encryption_key := None\<rparr>"

definition example_conn :: connection where
  "example_conn = Connection_new (\<lambda>_. None) 11 0 quiet_config (example_addr 1) (example_addr 2)"

definition shaken :: connection where
  "shaken = snd (handle_packet example_orders 3 (Packet_new example_header ConnectionAccept)
     (snd (handle_packet example_orders 2 (Packet_new example_header (ConnectionChallenge 5)) (snd (connect 1 example_conn)))))"

lemma shaken_run:
  "conn_run example_conn ([] @ [DoConnect 1] @ [Incoming example_orders 2 (Packet_new example_header (ConnectionChallenge 5))]
     @ [Incoming example_orders 3 (Packet_new example_header ConnectionAccept)]) shaken"
  unfolding append_assoc[symmetric] shaken_def
  by (rule conn_run.step[OF conn_run.step[OF conn_run.step[OF conn_run.start]]];
      simp add: conn_step_simps prod_eq_iff)

lemma example_conn_state: "cn_state example_conn = Disconnected" "cn_config example_conn = quiet_config"
  by (simp_all add: example_conn_def Connection_new_def)

lemma shaken_state: "cn_state shaken = Connected"
  by (simp add: shaken_def connect_def example_conn_state send_connection_request_def push_packet_def handle_packet_def
      Packet_new_def)

theorem handshake_order_witness:
  "\<exists>t o1 t1 p1 o2 t2 p2. subseq [DoConnect t, Incoming o1 t1 p1, Incoming o2 t2 p2]
     ([] @ [DoConnect 1] @ [Incoming example_orders 2 (Packet_new example_header (ConnectionChallenge 5))]
     @ [Incoming example_orders 3 (Packet_new example_header ConnectionAccept)]) \<and>
    pkt_type p1 = ConnectionChallenge (cn_server_salt shaken) \<and> pkt_type p2 = ConnectionAccept"
  by (rule handshake_order[OF shaken_run[unfolded example_conn_def] _ shaken_state]) (simp add: by_protocol_def)

text \<open>C21: an attempt to connect that nobody answers ends: after the configured retries, one for every
  tick past the request timeout, the connection is disconnected, having queued at most one request
  more than the retries.\<close>

theorem connect_gives_up:
  assumes "cn_state c = Disconnected" and "spaced (nc_connection_request_timeout (cn_config c)) t ts"
    and "length ts = Suc (nc_connection_request_max_retries (cn_config c))"
  shows "\<exists>c'. ticks od ts (snd (connect t c)) = Some c' \<and> cn_state c' = Disconnected \<and>
    requests c' \<le> requests c + Suc (nc_connection_request_max_retries (cn_config c))"
proof -
  have "asking (cn_config c) (Suc (requests c)) 0 t (snd (connect t c))"
    using assms(1) by (simp add: asking_def connect_def send_connection_request_def push_packet_def Packet_new_def requests_def)
  from asking_ticks[OF this assms(2)] assms(3) show ?thesis by (simp add: closed_with_def)
qed

theorem connect_gives_up_witness:
  "\<exists>c'. ticks example_orders [10, 20, 30] (snd (connect 1 example_conn)) = Some c' \<and> cn_state c' = Disconnected"
  using connect_gives_up[OF example_conn_state(1), of 1 "[10, 20, 30]" example_orders]
  by (auto simp: example_conn_state quiet_config_def duration_since_def)

text \<open>Closing a connection ends even if the peer never answers: after the configured retries it is
  disconnected and has nothing left to send.\<close>

theorem disconnect_completes:
  assumes "cn_state c \<noteq> Disconnected" and "spaced (nc_disconnect_retry_timeout (cn_config c)) t ts"
    and "length ts = Suc (nc_disconnect_retries (cn_config c))"
  shows "\<exists>c'. ticks od ts (snd (disconnect t reason c)) = Some c' \<and> cn_state c' = Disconnected \<and>
    cn_send_queue c' = []"
proof -
  have "closing (cn_config c) 0 t (snd (disconnect t reason c))"
    using assms(1) by (simp add: closing_def disconnect_def)
  from closing_ticks[OF this assms(2)] assms(3) show ?thesis by (simp add: closed_and_empty_def)
qed

lemma shaken_config: "cn_config shaken = quiet_config"
  by (simp add: shaken_def connect_def example_conn_state send_connection_request_def push_packet_def handle_packet_def
      Packet_new_def)

theorem disconnect_completes_witness:
  "\<exists>c'. ticks example_orders [10, 20] (snd (disconnect 1 2 shaken)) = Some c' \<and> cn_state c' = Disconnected"
  using disconnect_completes[of shaken 1 "[10, 20]" example_orders 2]
  by (auto simp: shaken_state shaken_config quiet_config_def duration_since_def)

text \<open>C13: whatever happens to a connection, its ticks never panic, when the congestion window (off by
  default) is off and the congestion recovery time is below \<open>2 ^ 37\<close> seconds, about 4,000 years. With
  the longest recovery time a tick can panic (\<open>recovery_time_panics\<close>).\<close>

theorem connection_never_panics:
  assumes "\<not> nc_use_cwnd_congestion cfg" and "nc_congestion_recovery_time cfg < 2 ^ 37 * 1000000000"
    and "conn_run (Connection_new enc_new salt t0 cfg loc rem) es c"
  shows "\<exists>r c'. update_tick od now c = Some (r, c')"
  by (rule sound_tick_total[OF sound_run[OF assms(3) sound_new[OF assms(1,2)]]])

theorem connection_never_panics_witness:
  "\<exists>r c'. update_tick example_orders 4 shaken = Some (r, c')"
  by (rule connection_never_panics[OF _ _ shaken_run[unfolded example_conn_def]])
    (simp_all add: quiet_config_def NetworkConfig_default_def)

text \<open>C15: a tick of a connected connection only appends to the queue. The appended packets carry the
  protocol id and the acknowledgement information of the endpoint, and their sequence numbers count
  upwards from the next one without a repetition, gaps allowed.\<close>

theorem tick_numbers:
  assumes "update_tick od now c = Some (Inr (), c')" and "cn_state c = Connected"
  shows "\<exists>ps ks n. cn_send_queue c' = cn_send_queue c @ ps \<and>
    map (\<lambda>p. ph_sequence (pkt_header p)) ps = map (\<lambda>k. cn_local_sequence c + of_nat k) ks \<and>
    sorted_wrt (<) ks \<and> set ks \<subseteq> {..<n} \<and> cn_local_sequence c' = cn_local_sequence c + of_nat n \<and>
    list_all (\<lambda>p. ph_protocol_id (pkt_header p) = nc_protocol_id (cn_config c) \<and>
      (ph_ack (pkt_header p), ph_ack_bits (pkt_header p)) = get_ack_info (cn_reliability c)) ps"
proof -
  let ?c = "c\<lparr>cn_fragment_assembler := fragment_cleanup now (cn_fragment_assembler c)\<rparr>"
  from assms(1) obtain c1 where c1: "c' = update_stats c1" "update_state od now ?c = Some (Inr (), c1)"
    by (cases rule: update_tickE) simp_all
  then have "update_connected od now ?c = Some c1" using assms(2) by (auto simp: update_state_def)
  then obtain ks n where q: "queued ?c ks n c1" using numbered_connected unfolding numbered_def by blast
  have "cn_local_sequence (update_stats c1) = cn_local_sequence c1" by (simp add: update_stats_def Let_def)
  with q c1(1) show ?thesis
    by (auto simp: queued_def packet_ok_def[abs_def] intro!: exI[of _ ks] exI[of _ n])
qed

lemma shaken_sound: "sound_conn shaken"
  by (rule sound_run[OF shaken_run])
    (simp add: example_conn_def sound_new quiet_config_def NetworkConfig_default_def)

lemma connected_tick:
  assumes "sound_conn c" and "cn_state c = Connected"
    and "duration_since now (cn_last_packet_recv_time c) \<le> nc_connection_timeout (cn_config c)"
  shows "\<exists>c'. update_tick od now c = Some (Inr (), c')"
proof -
  let ?c = "c\<lparr>cn_fragment_assembler := fragment_cleanup now (cn_fragment_assembler c)\<rparr>"
  have "sound_conn ?c" using assms(1) by (simp add: sound_conn_def)
  then obtain c1 where "update_connected od now ?c = Some c1" using sound_connected by blast
  then show ?thesis using assms(2,3) by (simp add: update_tick_def update_state_def)
qed

theorem tick_numbers_witness:
  "\<exists>c' ps. update_tick example_orders 4 shaken = Some (Inr (), c') \<and> cn_send_queue c' = cn_send_queue shaken @ ps"
proof -
  have "cn_last_packet_recv_time shaken = 3"
    by (simp add: shaken_def connect_def example_conn_state send_connection_request_def push_packet_def handle_packet_def
        Packet_new_def)
  then obtain c' where t: "update_tick example_orders 4 shaken = Some (Inr (), c')"
    using connected_tick[OF shaken_sound shaken_state, of 4] by (auto simp: shaken_config quiet_config_def duration_since_def)
  from tick_numbers[OF t shaken_state] t show ?thesis by blast
qed

text \<open>C31: a reliable message above the fragment threshold cannot be acknowledged. The packet the
  endpoint registers for it carries a number that none of its fragments has; nothing sent ever has it.\<close>

theorem fragmented_never_acked:
  assumes "is_reliable (cc_delivery_mode (ch_config (cn_channels c ! i)))"
    and "nc_fragment_threshold (cn_config c) < length wire"
    and "fragment_message (cn_next_fragment_id c) wire (nc_fragment_threshold (cn_config c)) = Inr fragments"
  shows "map_option (\<lambda>r. (sp_channel_id r, sp_channel_sequence r))
      (hm_get (re_sent_packets (cn_reliability (send_message od now i s wire c))) (cn_local_sequence c)) = Some (of_nat i, s) \<and>
    (\<exists>ps. cn_send_queue (send_message od now i s wire c) = cn_send_queue c @ ps \<and> length ps = length fragments \<and>
      cn_local_sequence c \<notin> (\<lambda>p. ph_sequence (pkt_header p)) ` set ps)"
proof
  show "map_option (\<lambda>r. (sp_channel_id r, sp_channel_sequence r))
      (hm_get (re_sent_packets (cn_reliability (send_message od now i s wire c))) (cn_local_sequence c)) = Some (of_nat i, s)"
    using assms(1,2) by (simp add: send_message_def create_header_alt Let_def sent_record)
  obtain ps where ps: "cn_send_queue (send_message od now i s wire c) = cn_send_queue c @ ps"
    "map (\<lambda>p. ph_sequence (pkt_header p)) ps = map (\<lambda>k. cn_local_sequence c + 1 + of_nat k) [0..<length fragments]"
    using send_fragmented[OF assms(2,3)] by blast
  have "cn_local_sequence c \<notin> set (map (\<lambda>p. ph_sequence (pkt_header p)) ps)"
    unfolding ps(2) by (rule not_among_next[OF fragment_count_bound[OF assms(3)]])
  moreover have "length ps = length fragments" using arg_cong[OF ps(2), of length] by simp
  ultimately show "\<exists>ps. cn_send_queue (send_message od now i s wire c) = cn_send_queue c @ ps \<and>
      length ps = length fragments \<and> cn_local_sequence c \<notin> (\<lambda>p. ph_sequence (pkt_header p)) ` set ps"
    using ps(1) by (auto simp del: map_map)
qed

theorem fragmented_never_acked_witness:
  "\<exists>ps. cn_send_queue (send_message example_orders 5 0 8 [0, 8, 1, 2] shaken) = cn_send_queue shaken @ ps \<and>
     length ps = 2 \<and> cn_local_sequence shaken \<notin> (\<lambda>p. ph_sequence (pkt_header p)) ` set ps"
proof -
  have "is_reliable (cc_delivery_mode (ch_config (cn_channels shaken ! 0)))"
    by (simp add: shaken_def connect_def example_conn_state send_connection_request_def push_packet_def handle_packet_def
        Packet_new_def example_conn_def Connection_new_def new_channels_def quiet_config_def NetworkConfig_default_def
        Channel_new_def small_config_def is_reliable_def queue_packet_def create_header_def split: prod.split)
  moreover have "fragment_message (cn_next_fragment_id shaken) [0, 8, 1, 2] 3 =
      Inr (map (make_fragment (cn_next_fragment_id shaken) [0, 8, 1, 2] 3 2) [0..<2])"
    by (simp add: fragment_message_def div_ceil_def MAX_FRAGMENT_COUNT_def numeral_2_eq_2)
  ultimately show ?thesis
    using fragmented_never_acked[of shaken 0 "[0, 8, 1, 2]" _ example_orders 5 8]
    by (simp add: shaken_config quiet_config_def)
qed

text \<open>With encryption on, every packet of a queue is encrypted under the same nonce, the one of
  the sequence number that comes after the queue; all of them go out.\<close>

theorem one_nonce_per_queue:
  assumes "list_all (\<lambda>p. channel_fits (pkt_type p)) (cn_send_queue c)" and "os_send_errors (us_socket u) = []"
    and "cn_encryption_state c = Some enc"
  shows "\<exists>c' u'. process_send_queue (\<lambda>nonce data. Some (nonce_seal nonce data)) now (c, u) = (Inr (), c', u') \<and>
    cn_send_queue c' = [] \<and> os_outgoing (us_socket u') = os_outgoing (us_socket u) @
      map (\<lambda>p. (append_crc32 (nonce_seal (make_nonce enc (ucast (cn_local_sequence c))) (packet_bytes p)), cn_remote_addr c))
        (cn_send_queue c)"
  using process_send_queue_ok[OF assms(1,2), of "\<lambda>nonce data. Some (nonce_seal nonce data)" now] assms(3)
  by (simp add: datagram_def encrypt_outgoing_def encrypt_def)

theorem one_nonce_per_queue_witness:
  "\<exists>c' u'. process_send_queue (\<lambda>nonce data. Some (nonce @ data)) 9
     (queue_packet KeepAlive [] (queue_packet AckOnly [] (shaken\<lparr>cn_encryption_state := Some \<lparr>connection_salt = 0\<rparr>\<rparr>)),
      \<lparr>us_socket = \<lparr>os_incoming = [], os_send_errors = [], os_outgoing = []\<rparr>, us_stats = SocketStats_default\<rparr>) =
       (Inr (), c', u') \<and> cn_send_queue c' = []"
proof -
  have q: "list_all (\<lambda>p. channel_fits (pkt_type p)) (cn_send_queue shaken)"
    by (simp add: shaken_def connect_def example_conn_state send_connection_request_def push_packet_def handle_packet_def
        Packet_new_def queue_packet_def create_header_def with_payload_def channel_fits_def example_conn_def
        Connection_new_def split: prod.split)
  let ?c = "queue_packet KeepAlive [] (queue_packet AckOnly [] (shaken\<lparr>cn_encryption_state := Some \<lparr>connection_salt = 0\<rparr>\<rparr>))"
  let ?u = "\<lparr>us_socket = \<lparr>os_incoming = [], os_send_errors = [], os_outgoing = []\<rparr>, us_stats = SocketStats_default\<rparr>"
  have "list_all (\<lambda>p. channel_fits (pkt_type p)) (cn_send_queue ?c)"
    using q by (simp add: queue_packet_def create_header_def push_packet_def Packet_new_def with_payload_def
        channel_fits_def split: prod.split)
  moreover have "cn_encryption_state ?c = Some \<lparr>connection_salt = 0\<rparr>"
    by (simp add: queue_packet_def create_header_def push_packet_def split: prod.split)
  ultimately show ?thesis
    using one_nonce_per_queue[of ?c ?u "\<lparr>connection_salt = 0\<rparr>" "\<lambda>nonce data. nonce @ data" 9] by auto
qed

end
