(* ===== verification/Channel_Ends.thy ===== *)
theory Channel_Ends
  imports Connection_Facts Channel_Order
begin

text \<open>
  Two connections and a network that loses, duplicates, delays and reorders their datagrams: whatever
  both applications do, a reliable ordered channel hands over the messages of the sender in their order.
  The sending half: every packet that leaves carries a message that was sent, under its number, through
  ticks, retransmissions and acknowledgements. The receiving half is the invariant of the ordered mode
  with the sender's count as its bound, through everything the receiver does besides.

  The messages of channel \<open>i\<close> are numbered, \<open>msg k\<close> is the \<open>k\<close>-th one sent.
\<close>

section \<open>The sender's channel\<close>

definition message_of :: "(nat \<Rightarrow> bytes) \<Rightarrow> nat \<Rightarrow> u16 \<Rightarrow> bytes \<Rightarrow> bool" where
  "message_of msg N s d \<longleftrightarrow> (\<exists>k<N. s = of_nat k \<and> d = msg k)"

definition wire_of :: "(nat \<Rightarrow> bytes) \<Rightarrow> nat \<Rightarrow> bytes \<Rightarrow> bool" where
  "wire_of msg N w \<longleftrightarrow> (\<exists>k<N. w = wire_data (of_nat k) (msg k))"

definition outbox :: "(nat \<Rightarrow> bytes) \<Rightarrow> nat \<Rightarrow> channel \<Rightarrow> bool" where
  "outbox msg N ch \<longleftrightarrow> ch_send_sequence ch = of_nat N \<and>
     (\<forall>m \<in> set (ch_send_buffer ch). message_of msg N (cm_sequence m) (cm_data m)) \<and>
     (\<forall>s m. hm_get (ch_pending_ack ch) s = Some m \<longrightarrow> message_of msg N s (cm_data m))"

lemma wire_of_message: "message_of msg N s d \<Longrightarrow> wire_of msg N (wire_data s d)"
  by (auto simp: message_of_def wire_of_def)

lemma wire_of_length: "wire_of msg N w \<Longrightarrow> (\<And>k. length (msg k) + 2 \<le> t) \<Longrightarrow> length w \<le> t"
  by (auto simp: wire_of_def wire_parts(1))

lemma outbox_new: "outbox msg 0 (Channel_new ident cfg)"
  by (simp add: outbox_def Channel_new_def)

lemma outbox_send:
  assumes "outbox msg N ch" and "Channel.send (msg N) reliable ch = (Inr (), ch')"
  shows "outbox msg (Suc N) ch'"
proof -
  have mono: "message_of msg N s d \<Longrightarrow> message_of msg (Suc N) s d" for s d by (fastforce simp: message_of_def less_Suc_eq)
  have new: "message_of msg (Suc N) (of_nat N) (msg N)" by (auto simp: message_of_def)
  have tl: "m \<in> set (tl xs) \<Longrightarrow> m \<in> set xs" for m :: channel_message and xs by (cases xs) simp_all
  show ?thesis
    using assms mono new by (auto simp: outbox_def Channel.send_def Let_def split: if_splits dest!: tl)
qed

lemma outbox_send_failed:
  "Channel.send d reliable ch = (Inl e, ch') \<Longrightarrow> ch' = ch"
  by (auto simp: Channel.send_def Let_def split: if_splits)

lemma outbox_outgoing:
  assumes "outbox msg N ch" and "get_outgoing_message now ch = (r, ch')"
  shows "outbox msg N ch'" and "r = Some (s, w) \<Longrightarrow> wire_of msg N w"
  using assms by (auto simp: outbox_def get_outgoing_message_def Let_def hm_get_insert split: list.splits if_splits intro: wire_of_message)

lemma outbox_retransmit_fold:
  assumes "\<forall>s m. hm_get pending s = Some m \<longrightarrow> message_of msg N s (cm_data m)" and "\<forall>x \<in> set rs. wire_of msg N (snd x)"
    and "fold (retransmit_step mx now rto) keys (pending, rs, ex) = (pending', rs', ex')"
  shows "(\<forall>s m. hm_get pending' s = Some m \<longrightarrow> message_of msg N s (cm_data m)) \<and> (\<forall>x \<in> set rs'. wire_of msg N (snd x))"
  using assms
proof (induction keys arbitrary: pending rs ex)
  case (Cons k keys)
  obtain p1 rs1 ex1 where s: "retransmit_step mx now rto k (pending, rs, ex) = (p1, rs1, ex1)" by (metis prod_cases3)
  have "(\<forall>s m. hm_get p1 s = Some m \<longrightarrow> message_of msg N s (cm_data m)) \<and> (\<forall>x \<in> set rs1. wire_of msg N (snd x))"
    using Cons.prems(1,2) s wire_of_message[of msg N k]
    by (auto simp: retransmit_step_def hm_get_insert split: option.splits if_splits)
  then show ?case using Cons.IH[of p1 rs1 ex1] Cons.prems(3) s by simp
qed simp

lemma outbox_retransmit:
  assumes "outbox msg N ch" and "get_retransmit_messages it now rto ch = (rs, ch')"
  shows "outbox msg N ch'" and "x \<in> set rs \<Longrightarrow> wire_of msg N (snd x)"
proof -
  obtain p' rs' ex' where f: "fold (retransmit_step (cc_max_reliable_retries (ch_config ch)) now rto)
      (hm_keys it (ch_pending_ack ch)) (ch_pending_ack ch, [], []) = (p', rs', ex')" by (metis prod_cases3)
  from outbox_retransmit_fold[OF _ _ f] assms(1)
  have p: "\<forall>s m. hm_get p' s = Some m \<longrightarrow> message_of msg N s (cm_data m)" "\<forall>x \<in> set rs'. wire_of msg N (snd x)"
    by (simp_all add: outbox_def)
  then show "outbox msg N ch'" "x \<in> set rs \<Longrightarrow> wire_of msg N (snd x)"
    using assms f by (auto simp: get_retransmit_messages_def outbox_def hm_get_removes split: if_splits)
qed

lemma outbox_ack: "outbox msg N ch \<Longrightarrow> outbox msg N (acknowledge_message s ch)"
  by (auto simp: outbox_def acknowledge_message_def hm_get_remove)

lemma outbox_fast: "outbox msg N ch \<Longrightarrow> outbox msg N (mark_for_fast_retransmit now s ch)"
  by (auto simp: outbox_def mark_for_fast_retransmit_def hm_get_insert split: option.splits)

text \<open>Receiving leaves the sender's half alone.\<close>

definition sender_half :: "channel \<Rightarrow> u16 \<times> channel_message list \<times> (u16, channel_message) hash_map" where
  "sender_half ch = (ch_send_sequence ch, ch_send_buffer ch, ch_pending_ack ch)"

lemma outbox_half: "sender_half ch' = sender_half ch \<Longrightarrow> outbox msg N ch \<Longrightarrow> outbox msg N ch'"
  by (simp add: sender_half_def outbox_def)

lemma half_deliver [simp]: "sender_half (deliver d ch) = sender_half ch"
  by (simp add: sender_half_def deliver_def)

lemma half_contiguous [simp]: "sender_half (deliver_contiguous ch) = sender_half ch"
proof (induction ch rule: deliver_contiguous.induct)
  case (1 c)
  show ?case
  proof (cases "hm_get (ch_ordered_receive_buffer c) (ch_receive_sequence c)")
    case None
    then show ?thesis by (simp add: deliver_contiguous.simps)
  next
    case (Some e)
    obtain d t where e: "e = (d, t)" by fastforce
    have "sender_half (deliver_contiguous c) = sender_half ((deliver d c)\<lparr>
        ch_ordered_receive_buffer := hm_remove (ch_receive_sequence c) (ch_ordered_receive_buffer c),
        ch_receive_sequence := ch_receive_sequence c + 1\<rparr>)"
      using 1[OF Some e[symmetric]] Some e by (simp add: deliver_contiguous.simps[of c])
    also have "\<dots> = sender_half c" by (simp add: sender_half_def deliver_def)
    finally show ?thesis .
  qed
qed

lemma half_receives [simp]:
  "sender_half (Channel_on_packet_received it now w ch) = sender_half ch"
  "sender_half (Channel_update it now ch) = sender_half ch"
  "sender_half (snd (Channel.receive ch)) = sender_half ch"
proof -
  have frame: "sender_half (c\<lparr>ch_receive_sequence := a\<rparr>) = sender_half c" "sender_half (c\<lparr>ch_ordered_receive_buffer := b\<rparr>) = sender_half c"
    "sender_half (c\<lparr>ch_last_received_sequence := a\<rparr>) = sender_half c" "sender_half (c\<lparr>ch_bytes_received := n\<rparr>) = sender_half c"
    "sender_half (c\<lparr>ch_gap_sequences_skipped := n\<rparr>) = sender_half c"
    "sender_half (c\<lparr>ch_ordered_receive_buffer := b, ch_gap_sequences_skipped := n, ch_messages_dropped := k\<rparr>) = sender_half c"
    "sender_half (c\<lparr>ch_delivery_queue := q\<rparr>) = sender_half c"
    for c a b n k q by (simp_all add: sender_half_def)
  have evict: "sender_half (evict_oldest_buffered it c) = sender_half c" for c
    by (simp add: evict_oldest_buffered_def Let_def frame split: option.split)
  have ordered: "sender_half (receive_ordered it now s d c) = sender_half c" for s d c
    by (simp add: receive_ordered_def Let_def frame evict)
  have sequenced: "sender_half (receive_sequenced s d c) = sender_half c" for s d c
    by (simp add: receive_sequenced_def frame)
  show "sender_half (Channel_on_packet_received it now w ch) = sender_half ch"
    by (simp add: Channel_on_packet_received_def Let_def frame ordered sequenced split: delivery_mode.split)
  show "sender_half (Channel_update it now ch) = sender_half ch"
    by (simp add: Channel_update_def flush_ordered_buffer_def Let_def frame split: option.split)
  show "sender_half (snd (Channel.receive ch)) = sender_half ch"
    by (simp add: receive_def frame split: list.split)
qed

section \<open>The sender's tick\<close>

definition on_channel :: "nat \<Rightarrow> packet_type \<Rightarrow> bool" where
  "on_channel i t \<longleftrightarrow> (case t of Payload ch _ \<Rightarrow> unat ch = i | BatchedPayload ch \<Rightarrow> unat ch = i | _ \<Rightarrow> False)"

definition genuine :: "nat \<Rightarrow> (nat \<Rightarrow> bytes) \<Rightarrow> nat \<Rightarrow> packet_type \<Rightarrow> bytes \<Rightarrow> bool" where
  "genuine i msg N t payload \<longleftrightarrow> (on_channel i t \<longrightarrow> (\<exists>b. t = Payload (of_nat i) b) \<and> wire_of msg N payload)"

text \<open>A connection that sends on channel \<open>i\<close>; its messages are below the fragment threshold.\<close>

definition sending :: "nat \<Rightarrow> (nat \<Rightarrow> bytes) \<Rightarrow> nat \<Rightarrow> connection \<Rightarrow> bool" where
  "sending i msg N c \<longleftrightarrow> i < length (cn_channels c) \<and> length (cn_channels c) \<le> 256 \<and>
     (\<forall>k. length (msg k) + 2 \<le> nc_fragment_threshold (cn_config c)) \<and> cn_encryption_state c = None \<and>
     outbox msg N (cn_channels c ! i) \<and> (\<forall>p \<in> set (cn_send_queue c). genuine i msg N (pkt_type p) (pkt_payload p))"

lemma sending_frame:
  assumes "sending i msg N c" and "cn_channels c' = cn_channels c" and "cn_send_queue c' = cn_send_queue c"
    and "cn_config c' = cn_config c" and "cn_encryption_state c' = cn_encryption_state c"
  shows "sending i msg N c'"
  using assms by (simp add: sending_def)

lemma other_channel: "j < 256 \<Longrightarrow> on_channel i (Payload (of_nat j) b) \<longleftrightarrow> j = i"
  by (simp add: on_channel_def unat_of_nat take_bit_nat_eq_self)

lemma sending_packet:
  assumes "sending i msg N c" and "genuine i msg N t payload"
  shows "sending i msg N (queue_packet t payload c)"
  using assms by (auto simp: sending_def queue_packet_def create_header_alt push_packet_def with_payload_def Packet_new_def)

lemma genuine_control:
  "\<not> on_channel i t \<Longrightarrow> genuine i msg N t payload"
  "\<not> on_channel i KeepAlive" "\<not> on_channel i AckOnly" "\<not> on_channel i (MtuProbe n)" "\<not> on_channel i (MtuProbeAck n)"
  "\<not> on_channel i (Disconnect r)"
  by (simp_all add: genuine_def on_channel_def)

lemma sending_channels:
  assumes "sending i msg N c" and "j = i \<Longrightarrow> outbox msg N ch"
  shows "sending i msg N (c\<lparr>cn_channels := (cn_channels c)[j := ch]\<rparr>)"
  using assms by (cases "j = i") (auto simp: sending_def)

lemma sending_fragment_fold:
  assumes "sending i msg N (snd st)" and "j < 256" and "j \<noteq> i"
  shows "sending i msg N (snd (fold (queue_fragment j) pieces st))"
  using assms(1)
proof (induction pieces arbitrary: st)
  case (Cons piece pieces)
  have "genuine i msg N (Payload (of_nat j) True) d" for d
    using assms(2,3) by (intro genuine_control(1)) (simp add: other_channel)
  then have "sending i msg N (snd (queue_fragment j piece st))"
    using Cons.prems by (auto simp: queue_fragment_def sending_packet split: prod.split)
  then show ?case using Cons.IH by simp
qed simp

lemma sending_fragments:
  assumes "sending i msg N c" and "j < 256" and "j \<noteq> i"
  shows "sending i msg N (queue_fragments j wire c)"
proof (cases "fragment_message (cn_next_fragment_id c) wire (nc_fragment_threshold (cn_config c))")
  case (Inl e)
  then show ?thesis using assms(1) by (simp add: queue_fragments_def Let_def sending_def)
next
  case (Inr fragments)
  let ?c = "c\<lparr>cn_next_fragment_id := cn_next_fragment_id c + 1\<rparr>"
  let ?r = "fold (queue_fragment j) (enumerate 0 fragments) ([], ?c)"
  have "sending i msg N ?c" using assms(1) by (rule sending_frame) simp_all
  then have "sending i msg N (snd ?r)" using assms(2,3) by (intro sending_fragment_fold) simp_all
  then have "sending i msg N ((snd ?r)\<lparr>cn_pending_fragments := m\<rparr>)" for m by (rule sending_frame) simp_all
  then show ?thesis using Inr by (cases ?r) (simp add: queue_fragments_def Let_def)
qed

lemma sending_send_message:
  assumes "sending i msg N c" and "j < 256" and "j = i \<Longrightarrow> wire_of msg N wire"
  shows "sending i msg N (send_message od now j s wire c)"
proof -
  let ?d = "c\<lparr>cn_congestion := deduct_budget (length wire) (cn_congestion c)\<rparr>"
  let ?h = "?d\<lparr>cn_local_sequence := cn_local_sequence c + 1\<rparr>"
  let ?c2 = "if length wire > nc_fragment_threshold (cn_config c) then queue_fragments j wire ?h
    else queue_packet (Payload (of_nat j) False) wire ?d"
  have d: "sending i msg N ?d" "sending i msg N ?h" using assms(1) by (auto intro: sending_frame)
  have "sending i msg N ?c2"
  proof (cases "j = i")
    case True
    then have "genuine i msg N (Payload (of_nat j) False) wire" using assms(3) by (auto simp: genuine_def)
    moreover have "length wire \<le> nc_fragment_threshold (cn_config c)"
      using wire_of_length[OF assms(3)[OF True]] assms(1) by (simp add: sending_def)
    ultimately show ?thesis using d(1) by (simp add: sending_packet)
  next
    case False
    then show ?thesis
      using d assms(2) by (auto intro!: sending_fragments sending_packet genuine_control(1) simp: other_channel)
  qed
  then show ?thesis
    by (rule sending_frame; cases "length wire > nc_fragment_threshold (cn_config c)")
      (simp_all add: send_message_def create_header_alt queue_packet_def push_packet_def Let_def)
qed

lemma sending_length: "sending i msg N c \<Longrightarrow> j < length (cn_channels c) \<Longrightarrow> j < 256"
  by (simp add: sending_def)

lemma sending_outbox: "sending i msg N c \<Longrightarrow> outbox msg N (cn_channels c ! i)"
  by (simp add: sending_def)

lemma sending_send_loop:
  "send_loop od now j n c = (m, c') \<Longrightarrow> sending i msg N c \<Longrightarrow> sending i msg N c' \<and> length (cn_channels c') = length (cn_channels c)"
proof (induction od now j n c arbitrary: m c' rule: send_loop.induct)
  case (1 od now j n c)
  show ?case
  proof (cases "may_send now n c \<and> j < length (cn_channels c)")
    case False
    then show ?thesis using 1(2,3) by (auto simp: send_loop.simps[of od now j n c])
  next
    case True
    obtain r ch where g: "get_outgoing_message now (cn_channels c ! j) = (r, ch)" by fastforce
    let ?c = "c\<lparr>cn_channels := (cn_channels c)[j := ch]\<rparr>"
    have out: "j = i \<Longrightarrow> outbox msg N (cn_channels c ! j)" using 1(3) by (simp add: sending_def)
    have c: "sending i msg N ?c" using 1(3) outbox_outgoing(1)[OF out g] by (rule sending_channels)
    show ?thesis
    proof (cases r)
      case None
      then show ?thesis using 1(2) True g c by (auto simp: send_loop.simps[of od now j n c])
    next
      case (Some x)
      obtain s wire where x: "x = (s, wire)" by (cases x)
      have "sending i msg N (send_message od now j s wire ?c)"
        using c sending_length[OF 1(3)] True outbox_outgoing(2)[OF out g] Some x by (intro sending_send_message) auto
      then show ?thesis
        using 1(1)[OF True g[symmetric] Some x[symmetric]] 1(2) True g Some x
        by (auto simp: send_loop.simps[of od now j n c])
    qed
  qed
qed

lemma sending_retransmits:
  "sending i msg N c \<Longrightarrow> j < 256 \<Longrightarrow> (\<And>x. x \<in> set rs \<Longrightarrow> j = i \<Longrightarrow> wire_of msg N (snd x)) \<Longrightarrow> sending i msg N (queue_retransmits j rs c)"
proof (induction rs arbitrary: c)
  case (Cons r rs)
  have "genuine i msg N (Payload (of_nat j) False) (snd r)"
    using Cons.prems(2,3) by (cases "j = i") (auto simp: genuine_def other_channel)
  then have "sending i msg N (queue_packet (Payload (of_nat j) False) (snd r) c)" using Cons.prems(1) by (intro sending_packet)
  from Cons.IH[OF this Cons.prems(2)] Cons.prems(3) show ?case by (simp add: queue_retransmits_def split_beta)
qed (simp add: queue_retransmits_def)

lemma sending_service_channel:
  assumes "service_channel od now j (n, c) = Some (m, c')" and "sending i msg N c"
  shows "sending i msg N c'"
proof -
  obtain k c1 where l: "send_loop od now j n c = (k, c1)" by fastforce
  obtain rs ch where g: "get_retransmit_messages (od_channel od j) now (re_rto (cn_reliability c1)) (cn_channels c1 ! j) = (rs, ch)"
    by fastforce
  have j: "j < length (cn_channels c)" and c': "c' = queue_retransmits j rs (c1\<lparr>cn_channels := (cn_channels c1)[j := ch]\<rparr>)"
    using assms(1) l g by (auto simp: service_channel_def split: if_splits)
  note c1 = sending_send_loop[OF l assms(2)]
  have out: "j = i \<Longrightarrow> outbox msg N (cn_channels c1 ! j)" using c1 by (simp add: sending_def)
  have "sending i msg N (c1\<lparr>cn_channels := (cn_channels c1)[j := ch]\<rparr>)"
    using conjunct1[OF c1] outbox_retransmit(1)[OF out g] by (rule sending_channels)
  then show ?thesis unfolding c'
    using sending_length[OF assms(2) j] outbox_retransmit(2)[OF out g] by (intro sending_retransmits)
qed

lemma sending_service_channels:
  "service_channels od now js (n, c) = Some (m, c') \<Longrightarrow> sending i msg N c \<Longrightarrow> sending i msg N c'"
proof (induction js arbitrary: n c)
  case (Cons j js)
  then obtain k c1 where "service_channel od now j (n, c) = Some (k, c1)" "service_channels od now js (k, c1) = Some (m, c')"
    by (auto simp: bind_eq_Some_conv)
  with Cons show ?case using sending_service_channel by blast
qed simp

lemma sending_congestion: "update_congestion now c = Some c' \<Longrightarrow> sending i msg N c \<Longrightarrow> sending i msg N c'"
  by (rule sending_frame[of i msg N c])
    (auto simp: update_congestion_def Let_def bind_eq_Some_conv split: option.splits)

lemma sending_probe: "sending i msg N c \<Longrightarrow> sending i msg N (send_mtu_probe now c)"
proof -
  assume c: "sending i msg N c"
  obtain r d where r: "next_probe now (cn_mtu_discovery c) = (r, d)" by fastforce
  have "sending i msg N (c\<lparr>cn_mtu_discovery := d\<rparr>)" using c by (rule sending_frame) simp_all
  with r show ?thesis
    by (auto simp: send_mtu_probe_def Let_def genuine_control split: option.split intro!: sending_packet)
qed

lemma sending_update_channels: "sending i msg N c \<Longrightarrow> sending i msg N (update_channels od now c)"
  by (auto simp: sending_def update_channels_def nth_enumerate_eq intro: outbox_half[OF half_receives(2)])

lemma sending_connected:
  assumes "update_connected od now c = Some c'" and "sending i msg N c"
  shows "sending i msg N c'"
proof -
  from assms(1) obtain c1 where c1: "update_congestion now c = Some c1" by (auto simp: update_connected_def bind_eq_Some_conv)
  define c2 where "c2 = (if duration_since now (cn_last_packet_send_time c1) > nc_keepalive_interval (cn_config c1)
      then send_keepalive c1 else c1)"
  define c3 where "c3 = (send_mtu_probe now c2)\<lparr>cn_data_sent_this_tick := False\<rparr>"
  from assms(1) c1 obtain n c4 where c4: "service_channels od now (cn_channel_priority_order c3) (0, c3) = Some (n, c4)"
    and c': "c' = (finish_acks (update_channels od now c4))\<lparr>cn_mtu_discovery :=
        check_probe_timeout now (cn_mtu_discovery (finish_acks (update_channels od now c4)))\<rparr>"
    by (auto simp: update_connected_def Let_def c2_def c3_def)
  have "sending i msg N c1" using c1 assms(2) by (rule sending_congestion)
  then have "sending i msg N c2" by (simp add: c2_def send_keepalive_def sending_packet genuine_control)
  then have "sending i msg N (send_mtu_probe now c2)" by (rule sending_probe)
  then have "sending i msg N c3" by (rule sending_frame) (simp_all add: c3_def)
  with c4 have "sending i msg N c4" by (rule sending_service_channels)
  then have u: "sending i msg N (update_channels od now c4)" by (rule sending_update_channels)
  let ?c = "if cn_pending_ack_send (update_channels od now c4) \<and> \<not> cn_data_sent_this_tick (update_channels od now c4)
    then queue_packet AckOnly [] (update_channels od now c4) else update_channels od now c4"
  have "sending i msg N ?c" using u by (simp add: sending_packet genuine_control)
  then show ?thesis by (rule sending_frame) (simp_all add: c' finish_acks_def Let_def)
qed

lemma tick_connected:
  assumes "update_tick od now c = Some (r, c')" and "cn_state c = Connected" and "cn_state c' = Connected"
  obtains c1 where "update_connected od now (c\<lparr>cn_fragment_assembler := fragment_cleanup now (cn_fragment_assembler c)\<rparr>) = Some c1"
    and "c' = update_stats c1"
  using assms(1)
proof (cases rule: update_tickE)
  case timeout
  with assms(3) show ?thesis by simp
next
  case (error e)
  with assms(2) show ?thesis by (auto simp: update_state_def)
next
  case (ok c1)
  with assms(2) that show ?thesis by (auto simp: update_state_def)
qed

lemma sending_tick:
  assumes "update_tick od now c = Some (r, c')" and "cn_state c = Connected" and "cn_state c' = Connected" and "sending i msg N c"
  shows "sending i msg N c'"
proof -
  obtain c1 where c1: "update_connected od now (c\<lparr>cn_fragment_assembler := fragment_cleanup now (cn_fragment_assembler c)\<rparr>) = Some c1"
    "c' = update_stats c1"
    using assms(1-3) by (rule tick_connected)
  have "sending i msg N (c\<lparr>cn_fragment_assembler := fragment_cleanup now (cn_fragment_assembler c)\<rparr>)"
    using assms(4) by (rule sending_frame) simp_all
  with c1(1) have "sending i msg N c1" by (rule sending_connected)
  then show ?thesis by (rule sending_frame) (simp_all add: c1(2) update_stats_def Let_def)
qed

section \<open>The sender's packets come back as acknowledgements\<close>

lemma acks_nth:
  assumes "\<And>s ch. P ch \<Longrightarrow> P (acknowledge_message s ch)" and "i < length chs" and "P (chs ! i)"
  shows "P (fold acknowledge pairs chs ! i)"
  using assms(2,3)
proof (induction pairs arbitrary: chs)
  case (Cons pr pairs)
  have "P (acknowledge pr chs ! i)" using Cons.prems assms(1) by (auto simp: acknowledge_def nth_list_update split: prod.split)
  then show ?case using Cons.IH[of "acknowledge pr chs"] Cons.prems(1) by simp
qed simp

lemma fasts_nth:
  assumes "\<And>s ch. P ch \<Longrightarrow> P (mark_for_fast_retransmit now s ch)" and "i < length chs" and "P (chs ! i)"
  shows "P (fold (fast_retransmit now) pairs chs ! i)"
  using assms(2,3)
proof (induction pairs arbitrary: chs)
  case (Cons pr pairs)
  have "P (fast_retransmit now pr chs ! i)" using Cons.prems assms(1) by (auto simp: fast_retransmit_def nth_list_update split: prod.split)
  then show ?case using Cons.IH[of "fast_retransmit now pr chs"] Cons.prems(1) by simp
qed simp

text \<open>What a header changes: a channel only by acknowledgements and fast retransmissions.\<close>

lemma header_channel:
  assumes "\<And>s ch. P ch \<Longrightarrow> P (acknowledge_message s ch)" and "\<And>s ch. P ch \<Longrightarrow> P (mark_for_fast_retransmit now s ch)"
    and "i < length (cn_channels c)" and "P (cn_channels c ! i)"
  shows "P (cn_channels (process_incoming_header od now h c) ! i)"
proof -
  have "P (fold (fast_retransmit now) f (fold acknowledge a (cn_channels c)) ! i)" for f a
  proof (rule fasts_nth[where P = P])
    show "P (fold acknowledge a (cn_channels c) ! i)" by (rule acks_nth[where P = P]) (use assms in simp_all)
  qed (use assms in simp_all)
  then show ?thesis by (simp add: process_incoming_header_def Let_def split: prod.split)
qed

lemma header_frame [simp]:
  "length (cn_channels (process_incoming_header od now h c)) = length (cn_channels c)"
  "cn_send_queue (process_incoming_header od now h c) = cn_send_queue c"
  "cn_config (process_incoming_header od now h c) = cn_config c"
  "cn_encryption_state (process_incoming_header od now h c) = cn_encryption_state c"
  by (simp_all add: process_incoming_header_def Let_def split: prod.split)

lemma sending_header: "sending i msg N c \<Longrightarrow> sending i msg N (process_incoming_header od now h c)"
  using header_channel[of "outbox msg N" now i c od h, OF outbox_ack outbox_fast] by (simp add: sending_def)

lemma sending_direct: "sending i msg N c \<Longrightarrow> sending i msg N (receive_payload_direct od now ch p c)"
  by (auto simp: receive_payload_direct_def intro!: sending_channels outbox_half[OF half_receives(1)] dest: sending_outbox)

lemma sending_directs: "sending i msg N c \<Longrightarrow> sending i msg N (fold (receive_payload_direct od now ch) ms c)"
  by (induction ms arbitrary: c) (simp_all add: sending_direct)

lemma sending_handle_connected:
  assumes "sending i msg N c" and "cn_state (handle_connected od now p c) = Connected"
  shows "sending i msg N (handle_connected od now p c)"
proof -
  let ?c = "process_incoming_header od now (pkt_header p) c"
  have c: "sending i msg N ?c" using assms(1) by (rule sending_header)
  have "sending i msg N (?c\<lparr>cn_mtu_discovery := d\<rparr>)" for d using c by (rule sending_frame) simp_all
  then show ?thesis
    using c assms(2)
    by (auto simp: handle_connected_def Let_def sending_direct sending_directs sending_packet genuine_control set_state_def
        split: packet_type.splits option.splits)
qed

section \<open>The sender's datagrams\<close>

definition travels :: "nat \<Rightarrow> (nat \<Rightarrow> bytes) \<Rightarrow> nat \<Rightarrow> bytes \<Rightarrow> bool" where
  "travels i msg N d \<longleftrightarrow> (\<exists>p bs. Packet_serialize p = Inr bs \<and> d = append_crc32 bs \<and> genuine i msg N (pkt_type p) (pkt_payload p))"

definition network :: "udp_socket \<Rightarrow> bytes set" where
  "network u = fst ` set (os_outgoing (us_socket u))"

lemma network_send:
  assumes "send_to now d a u = (r, u1)"
  shows "network u1 \<subseteq> insert d (network u)"
  using assms by (auto simp: network_def send_to_def os_send_to_def split: list.splits option.splits)

lemma network_recv: "recv_from now u = (r, u1) \<Longrightarrow> network u1 = network u"
  by (auto simp: network_def recv_from_def os_recv_from_def split: list.splits sum.splits prod.splits)

lemma sending_queue:
  assumes "process_send_queue aead_seal now st = (r, c', u')" and "sending i msg N (fst st)" and "\<forall>d \<in> network (snd st). travels i msg N d"
  shows "sending i msg N c' \<and> (\<forall>d \<in> network u'. travels i msg N d) \<and> cn_state c' = cn_state (fst st)"
  using assms
proof (induction aead_seal now st arbitrary: r c' u' rule: process_send_queue.induct)
  case (1 aead_seal now c u)
  show ?case
  proof (cases "cn_send_queue c")
    case Nil
    with 1(2-4) show ?thesis by (simp add: process_send_queue.simps[of aead_seal now c u])
  next
    case (Cons p rest)
    let ?c = "c\<lparr>cn_send_queue := rest\<rparr>"
    have c: "sending i msg N ?c" and p: "genuine i msg N (pkt_type p) (pkt_payload p)"
      using 1(3) Cons by (simp_all add: sending_def)
    have enc: "encrypt_outgoing aead_seal ?c data = data" for data
      using c by (simp add: encrypt_outgoing_def sending_def)
    show ?thesis
    proof (cases "Packet_serialize p")
      case (Inl e)
      then show ?thesis using 1(2,4) Cons c by (auto simp: process_send_queue.simps[of aead_seal now c u] Let_def)
    next
      case (Inr data)
      let ?d = "append_crc32 data"
      have t: "travels i msg N ?d" using Inr p by (auto simp: travels_def)
      obtain x u1 where u1: "send_to now ?d (cn_remote_addr c) u = (x, u1)" by fastforce
      have net: "\<forall>d \<in> network u1. travels i msg N d" using network_send[OF u1] t 1(4) by auto
      show ?thesis
      proof (cases x)
        case (Inl e)
        then show ?thesis
          using 1(2) Cons Inr u1 enc net c by (auto simp: process_send_queue.simps[of aead_seal now c u] Let_def)
      next
        case x: (Inr n)
        let ?e = "record_bytes_sent now (length ?d) ?c"
        have e: "sending i msg N ?e" using c by (rule sending_frame) (simp_all add: record_bytes_sent_def)
        have "process_send_queue aead_seal now (?e, u1) = (r, c', u')"
          using 1(2) Cons Inr u1 enc x by (simp add: process_send_queue.simps[of aead_seal now c u] Let_def)
        then show ?thesis
          using 1(1)[OF Cons refl Inr refl, of x u1] u1 x enc e net by (simp add: record_bytes_sent_def)
      qed
    qed
  qed
qed

lemma queue_state: "cn_state (fst (snd (process_send_queue aead_seal now st))) = cn_state (fst st)"
  using queue_frame(1)[of aead_seal now st] by (metis prod.collapse)

lemma datagram_cases:
  "receive_datagram aead_open od now d a c = (Inr (), c) \<or>
   (\<exists>p. receive_datagram aead_open od now d a c =
      handle_packet od now p (touch_recv_time now (record_bytes_received now (length d) c)))"
  unfolding receive_datagram_def by (auto split: option.split sum.split)

lemma touched [simp]:
  "cn_state (touch_recv_time now (record_bytes_received t n c)) = cn_state c"
  "cn_channels (touch_recv_time now (record_bytes_received t n c)) = cn_channels c"
  "cn_send_queue (touch_recv_time now (record_bytes_received t n c)) = cn_send_queue c"
  "cn_config (touch_recv_time now (record_bytes_received t n c)) = cn_config c"
  "cn_encryption_state (touch_recv_time now (record_bytes_received t n c)) = cn_encryption_state c"
  by (simp_all add: touch_recv_time_def record_bytes_received_def)

lemma sending_datagram:
  assumes "receive_datagram aead_open od now d a c = (r, c')" and "cn_state c = Connected" and "cn_state c' = Connected"
    and "sending i msg N c"
  shows "sending i msg N c'"
proof (cases "receive_datagram aead_open od now d a c = (Inr (), c)")
  case True
  with assms show ?thesis by simp
next
  case False
  let ?c = "touch_recv_time now (record_bytes_received now (length d) c)"
  obtain p where "receive_datagram aead_open od now d a c = handle_packet od now p ?c"
    using datagram_cases[of aead_open od now d a c] False by blast
  then have "c' = handle_connected od now p ?c" using assms(1,2) by (simp add: handle_packet_def)
  moreover have "sending i msg N ?c" using assms(4) by (rule sending_frame) simp_all
  ultimately show ?thesis using sending_handle_connected assms(3) by blast
qed

lemma datagram_state:
  assumes "receive_datagram aead_open od now d a c = (r, c')"
  shows "cn_state c = Disconnected \<Longrightarrow> cn_state c' = Disconnected"
    and "cn_state c = Connected \<Longrightarrow> cn_state c' = Connected \<or> cn_state c' = Disconnected"
proof -
  let ?c = "touch_recv_time now (record_bytes_received now (length d) c)"
  show "cn_state c = Disconnected \<Longrightarrow> cn_state c' = Disconnected"
    using assms datagram_cases[of aead_open od now d a c] by (auto simp: handle_packet_def)
  show "cn_state c = Connected \<Longrightarrow> cn_state c' = Connected \<or> cn_state c' = Disconnected"
    using assms connected_state[of od now _ ?c] datagram_cases[of aead_open od now d a c] by (auto simp: handle_packet_def)
qed

lemma receive_closed:
  "receive_packets aead_open od now st = (r, c', u') \<Longrightarrow> cn_state (fst st) = Disconnected \<Longrightarrow> cn_state c' = Disconnected"
proof (induction aead_open od now st arbitrary: r c' u' rule: receive_packets.induct)
  case (1 aead_open od now c u)
  obtain x u1 where x: "recv_from now u = (x, u1)" by fastforce
  show ?case
  proof (cases x)
    case (Inl e)
    then show ?thesis using 1(2,3) x
      by (auto simp: receive_packets.simps[of aead_open od now c u] split: socket_error.splits)
  next
    case (Inr y)
    obtain d a where y: "y = (d, a)" by fastforce
    obtain z c1 where c1: "receive_datagram aead_open od now d a c = (z, c1)" by fastforce
    have d: "cn_state c1 = Disconnected" using datagram_state(1)[OF c1] 1(3) by simp
    show ?thesis
    proof (cases z)
      case (Inl e)
      then show ?thesis using 1(2) x Inr y c1 d \<open>x = Inr y\<close> by (auto simp: receive_packets.simps[of aead_open od now c u])
    next
      case z: (Inr v)
      then have "receive_packets aead_open od now (c1, u1) = (r, c', u')"
        using 1(2) x Inr y c1 by (simp add: receive_packets.simps[of aead_open od now c u])
      from 1(1)[OF x[symmetric] Inr y[symmetric] c1[symmetric] z this] d show ?thesis by simp
    qed
  qed
qed

lemma sending_receive:
  assumes "receive_packets aead_open od now st = (r, c', u')" and "cn_state (fst st) = Connected" and "cn_state c' = Connected"
    and "sending i msg N (fst st)"
  shows "sending i msg N c' \<and> network u' = network (snd st)"
  using assms
proof (induction aead_open od now st arbitrary: r c' u' rule: receive_packets.induct)
  case (1 aead_open od now c u)
  obtain x u1 where x: "recv_from now u = (x, u1)" by fastforce
  note net = network_recv[OF x]
  show ?case
  proof (cases x)
    case (Inl e)
    then show ?thesis using 1(2-5) x net
      by (auto simp: receive_packets.simps[of aead_open od now c u] split: socket_error.splits)
  next
    case (Inr y)
    obtain d a where y: "y = (d, a)" by fastforce
    obtain z c1 where c1: "receive_datagram aead_open od now d a c = (z, c1)" by fastforce
    show ?thesis
    proof (cases z)
      case (Inl e)
      then have "c' = c1" "u' = u1"
        using 1(2) x Inr y c1 \<open>x = Inr y\<close> by (auto simp: receive_packets.simps[of aead_open od now c u])
      then show ?thesis using sending_datagram[OF c1] 1(3-5) net by simp
    next
      case z: (Inr v)
      have r: "receive_packets aead_open od now (c1, u1) = (r, c', u')"
        using 1(2) x Inr y c1 z by (simp add: receive_packets.simps[of aead_open od now c u])
      have c1s: "cn_state c1 = Connected"
        using datagram_state(2)[OF c1] 1(3,4) receive_closed[OF r] by auto
      have "sending i msg N c1" using sending_datagram[OF c1] 1(3,5) c1s by simp
      then show ?thesis
        using 1(1)[OF x[symmetric] Inr y[symmetric] c1[symmetric] z r] c1s 1(4) net by simp
    qed
  qed
qed

lemma sending_update:
  assumes "Connection_update aead_seal aead_open od now (c, u) = Some (r, c', u')"
    and "cn_state c = Connected" and "cn_state c' = Connected" and "sending i msg N c" and "\<forall>d \<in> network u. travels i msg N d"
  shows "sending i msg N c' \<and> (\<forall>d \<in> network u'. travels i msg N d)"
proof -
  obtain x c1 where t: "update_tick od now c = Some (x, c1)" using assms(1) by (auto simp: Connection_update_def split: option.splits)
  show ?thesis
  proof (cases x)
    case (Inl e)
    then show ?thesis using assms t sending_tick[OF t] by (simp add: Connection_update_def)
  next
    case (Inr v)
    obtain y c2 u2 where q: "process_send_queue aead_seal now (c1, u) = (y, c2, u2)" by (metis prod_cases3)
    have c2: "cn_state c2 = cn_state c1" using queue_state[of aead_seal now "(c1, u)"] q by simp
    show ?thesis
    proof (cases y)
      case (Inl e)
      then have r: "c' = c2" "u' = u2" using assms(1) t \<open>x = Inr v\<close> q by (simp_all add: Connection_update_def)
      with c2 assms(3) have "sending i msg N c1" using sending_tick[OF t assms(2) _ assms(4)] by simp
      then show ?thesis using r sending_queue[OF q, of i msg N] assms(5) by simp
    next
      case y: (Inr w)
      have r: "receive_packets aead_open od now (c2, u2) = (r, c', u')"
        using assms(1) t Inr q y by (simp add: Connection_update_def)
      have "cn_state c1 = Connected"
        using tick_state[OF t] assms(2,3) c2 receive_closed[OF r] by auto
      moreover from this have "sending i msg N c1" using sending_tick[OF t assms(2) _ assms(4)] by simp
      ultimately show ?thesis
        using sending_queue[OF q, of i msg N] sending_receive[OF r, of i msg N] c2 assms(3,5) by simp
    qed
  qed
qed

section \<open>The receiver's channel\<close>

text \<open>The invariant of the ordered mode, with the number of messages sent as a bound on what is buffered.\<close>

definition inbox :: "(nat \<Rightarrow> bytes) \<Rightarrow> nat \<Rightarrow> nat \<Rightarrow> nat list \<Rightarrow> bytes list \<Rightarrow> channel \<Rightarrow> bool" where
  "inbox msg N n ks taken ch \<longleftrightarrow> ordered_inv msg n ks taken ch \<and> n \<le> N \<and>
     buffered_ok msg n (min N (n + 32768)) (ch_ordered_receive_buffer ch)"

lemma inbox_new: "cc_delivery_mode cfg = ReliableOrdered \<Longrightarrow> inbox msg 0 0 [] [] (Channel_new ident cfg)"
  by (simp add: inbox_def ordered_new) (simp add: Channel_new_def buffered_ok_def)

lemma inbox_more: "inbox msg N n ks taken ch \<Longrightarrow> inbox msg (Suc N) n ks taken ch"
  by (auto simp: inbox_def elim: buffered_mono)

definition receiver_half :: "channel \<Rightarrow> channel_config \<times> u16 \<times> (u16, bytes \<times> instant) hash_map \<times> bytes list \<times> nat" where
  "receiver_half ch = (ch_config ch, ch_receive_sequence ch, ch_ordered_receive_buffer ch, ch_delivery_queue ch, ch_gap_sequences_skipped ch)"

lemma inbox_half: "receiver_half ch' = receiver_half ch \<Longrightarrow> inbox msg N n ks taken ch \<Longrightarrow> inbox msg N n ks taken ch'"
  by (simp add: receiver_half_def inbox_def ordered_inv_def)

lemma moved_half: "receiver_half ch' = receiver_half ch \<Longrightarrow> moved ch' x = moved ch x"
  by (simp add: receiver_half_def moved_def)

lemma half_sends [simp]:
  "receiver_half (snd (Channel.send d reliable ch)) = receiver_half ch"
  "receiver_half (snd (get_outgoing_message now ch)) = receiver_half ch"
  "receiver_half (snd (get_retransmit_messages it now rto ch)) = receiver_half ch"
  "receiver_half (acknowledge_message s ch) = receiver_half ch"
  "receiver_half (mark_for_fast_retransmit now s ch) = receiver_half ch"
  by (simp_all add: receiver_half_def Channel.send_def get_outgoing_message_def get_retransmit_messages_def
      acknowledge_message_def mark_for_fast_retransmit_def Let_def split: list.split option.split prod.split)

lemma inbox_contiguous:
  assumes "cc_delivery_mode (ch_config c) = ReliableOrdered" and "ch_receive_sequence c = of_nat n"
    and "buffered_ok msg n w (ch_ordered_receive_buffer c)" and "w \<le> n + 32768" and "w \<le> N" and "n \<le> N"
    and "delivered_ok msg n ks (taken @ ch_delivery_queue c) (ch_gap_sequences_skipped c)"
  obtains m where "n \<le> m" "m \<le> max n w" "inbox msg N m (ks @ [n..<m]) taken (deliver_contiguous c)"
proof -
  from deliver_contiguous_spec[OF assms(2-4,7)] obtain m where m: "n \<le> m" "m \<le> max n w"
    "ch_receive_sequence (deliver_contiguous c) = of_nat m"
    "buffered_ok msg m w (ch_ordered_receive_buffer (deliver_contiguous c))"
    "hm_get (ch_ordered_receive_buffer (deliver_contiguous c)) (of_nat m) = None"
    "delivered_ok msg m (ks @ [n..<m]) (taken @ ch_delivery_queue (deliver_contiguous c))
      (ch_gap_sequences_skipped (deliver_contiguous c))"
    "ch_config (deliver_contiguous c) = ch_config c" by blast
  have "buffered_ok msg m (m + 32768) (ch_ordered_receive_buffer (deliver_contiguous c))"
    and "buffered_ok msg m (min N (m + 32768)) (ch_ordered_receive_buffer (deliver_contiguous c))"
    using m(1,4) assms(4,5) by (auto intro: buffered_mono[OF m(4)])
  with m assms(1,5,6) show ?thesis by (intro that[of m]) (simp_all add: inbox_def ordered_inv_def)
qed

lemma inbox_evict:
  assumes "is_iter_order it" and "inbox msg N n ks taken c"
  shows "inbox msg N n ks taken (evict_oldest_buffered it c)"
proof -
  have "buffered_ok msg n w (ch_ordered_receive_buffer (evict_oldest_buffered it c))"
    if "buffered_ok msg n w (ch_ordered_receive_buffer c)" "ordered_inv msg n ks taken c" for w
  proof (cases "hm_oldest it snd (ch_ordered_receive_buffer c)")
    case (Some s)
    have "hm_ok (ch_ordered_receive_buffer c)" using that(1) by (simp add: buffered_ok_def)
    then obtain e where "hm_get (ch_ordered_receive_buffer c) s = Some e" using hm_oldest_Some[OF assms(1) _ Some] by blast
    then have "s \<noteq> ch_receive_sequence c" using ordered_invD(2,4)[OF that(2)] by auto
    then show ?thesis using Some that(1) by (simp add: evict_oldest_buffered_def buffered_remove)
  qed (simp add: evict_oldest_buffered_def that)
  then show ?thesis using assms evict_inv by (auto simp: inbox_def)
qed

lemma inbox_arrive:
  assumes it: "is_iter_order it" and inv: "inbox msg N n ks taken c"
    and i: "i < N" "i < n + 32768" "n < i + 32768"
  obtains m ks' where "n \<le> m" "m \<le> n + 32768"
    "inbox msg N m ks' taken (Channel_on_packet_received it now (wire_data (of_nat i) (msg i)) c)"
proof -
  define d where "d = c\<lparr>ch_bytes_received := ch_bytes_received c + length (msg i)\<rparr>"
  have inv: "inbox msg N n ks taken d" using inv by (rule inbox_half[rotated]) (simp add: d_def receiver_half_def)
  then have o: "ordered_inv msg n ks taken d" and nN: "n \<le> N"
    and b: "buffered_ok msg n (min N (n + 32768)) (ch_ordered_receive_buffer d)" by (simp_all add: inbox_def)
  note I = ordered_invD[OF o]
  have r: "Channel_on_packet_received it now (wire_data (of_nat i) (msg i)) c = receive_ordered it now (of_nat i) (msg i) d"
    using I(1) by (simp add: receive_wire d_def)
  show ?thesis
  proof (cases i n rule: linorder_cases)
    case less
    then have "\<not> sequence_greater_than (of_nat i) (of_nat n)" "(of_nat i :: u16) \<noteq> of_nat n"
      using index_greater[of n i] index_eq[of n i] i by simp_all
    then have "receive_ordered it now (of_nat i) (msg i) d = d" using I(2) by (simp add: receive_ordered_def)
    with inv r show ?thesis using that[of n ks] by simp
  next
    case equal
    let ?d = "(deliver (msg n) d)\<lparr>ch_receive_sequence := ch_receive_sequence d + 1\<rparr>"
    have "hm_remove (of_nat n) (ch_ordered_receive_buffer d) = ch_ordered_receive_buffer d"
      using I(4) by (simp add: hm_remove_def hm_get_None_iff delete_idem)
    then have "buffered_ok msg (n + 1) (min N (n + 32768)) (ch_ordered_receive_buffer d)"
      using buffered_pop[OF b] by simp
    then obtain m where m: "n + 1 \<le> m" "m \<le> max (n + 1) (min N (n + 32768))"
      "inbox msg N m ((ks @ [n]) @ [n + 1..<m]) taken (deliver_contiguous ?d)"
      using I i equal delivered_snoc[OF I(5)]
      by (elim inbox_contiguous[of ?d "n + 1" msg "min N (n + 32768)" N "ks @ [n]" taken, rotated 7])
        (simp_all add: deliver_def)
    have "receive_ordered it now (of_nat i) (msg i) d = deliver_contiguous ?d"
      using I(2) equal by (simp add: receive_ordered_def)
    with m r show ?thesis by (intro that[of m]) simp_all
  next
    case greater
    define d1 where "d1 = (if hm_len (ch_ordered_receive_buffer d) \<ge> cc_max_ordered_buffer_size (ch_config d)
      then evict_oldest_buffered it d else d)"
    have g: "sequence_greater_than (of_nat i) (of_nat n)" "(of_nat i :: u16) \<noteq> of_nat n"
      using index_greater[of n i] index_eq[of n i] i greater by simp_all
    have "inbox msg N n ks taken d1" using inbox_evict[OF it] inv by (simp add: d1_def)
    then have "inbox msg N n ks taken
        (d1\<lparr>ch_ordered_receive_buffer := hm_insert (of_nat i) (msg i, now) (ch_ordered_receive_buffer d1)\<rparr>)"
      using greater i g(2) by (auto simp: inbox_def ordered_inv_def hm_get_insert intro: buffered_insert)
    moreover have "receive_ordered it now (of_nat i) (msg i) d =
        d1\<lparr>ch_ordered_receive_buffer := hm_insert (of_nat i) (msg i, now) (ch_ordered_receive_buffer d1)\<rparr>"
      using g I(2) by (simp add: receive_ordered_def d1_def Let_def)
    ultimately show ?thesis using that[of n ks] r by simp
  qed
qed

lemma inbox_update:
  assumes it: "is_iter_order it" and inv: "inbox msg N n ks taken c"
  obtains m ks' where "n \<le> m" "m \<le> n + 32768" "inbox msg N m ks' taken (Channel_update it now c)"
proof (cases "Channel_update it now c = c")
  case True
  with inv that[of n ks] show ?thesis by simp
next
  case False
  then have up: "Channel_update it now c = flush_ordered_buffer it c"
    by (simp add: Channel_update_def Let_def split: if_splits)
  with False obtain s where s: "find_earliest_buffered it c = Some s"
    by (cases "find_earliest_buffered it c") (auto simp: flush_ordered_buffer_def)
  from inv have o: "ordered_inv msg n ks taken c" and nN: "n \<le> N"
    and b: "buffered_ok msg n (min N (n + 32768)) (ch_ordered_receive_buffer c)" by (simp_all add: inbox_def)
  note I = ordered_invD[OF o]
  obtain k where k: "s = of_nat k" "n \<le> k" "k < min N (n + 32768)"
    "buffered_ok msg k (min N (n + 32768)) (ch_ordered_receive_buffer c)"
    by (rule find_earliest_spec[OF it b _ s]) auto
  let ?c = "c\<lparr>ch_gap_sequences_skipped := count_gap (ch_receive_sequence c) s (ch_gap_sequences_skipped c),
    ch_receive_sequence := s\<rparr>"
  have gap: "count_gap (ch_receive_sequence c) s (ch_gap_sequences_skipped c) = ch_gap_sequences_skipped c + (k - n)"
    using k I(2) by (simp add: count_gap_index)
  obtain m where "k \<le> m" "m \<le> max k (min N (n + 32768))" "inbox msg N m (ks @ [k..<m]) taken (deliver_contiguous ?c)"
    using I k delivered_gap[OF I(5) k(2)] gap
    by (elim inbox_contiguous[of ?c k msg "min N (n + 32768)" N ks taken, rotated 7]) simp_all
  then show ?thesis
    using that[of m "ks @ [k..<m]"] up s k(2,3) by (simp add: flush_ordered_buffer_def)
qed

lemma inbox_receive:
  assumes "inbox msg N n ks taken c" and "Channel.receive c = (Some d, c')"
  shows "inbox msg N n ks (taken @ [d]) c'"
  using assms receive_inv[of msg n ks taken c d c'] by (auto simp: inbox_def receive_def split: list.splits)

lemma inbox_moved:
  assumes "inbox msg N n ks taken c" and "inbox msg N m ks' taken' c'" and "n \<le> m" and "m \<le> n + 32768"
  shows "n + moved c c' = m"
  using assms by (intro moved_index) (auto simp: inbox_def)

end
