(* ===== verification/End_To_End.thy ===== *)
theory End_To_End
  imports Channel_Ends
begin

text \<open>
  The composition: two connections, the packets between them and what the receiving application is
  handed. Nothing that the receiver sends, retransmits or learns from acknowledgements touches the
  receiving half of a channel; the datagrams it hears are genuine packets of the sender or are dropped.
\<close>

section \<open>Everything the receiver does besides\<close>

definition hearing :: "nat \<Rightarrow> connection \<Rightarrow> connection \<Rightarrow> bool" where
  "hearing i c c' \<longleftrightarrow> length (cn_channels c') = length (cn_channels c) \<and>
     cn_encryption_state c' = cn_encryption_state c \<and>
     receiver_half (cn_channels c' ! i) = receiver_half (cn_channels c ! i)"

lemma hearing_trans [trans]: "hearing i c c' \<Longrightarrow> hearing i c' c'' \<Longrightarrow> hearing i c c''"
  by (simp add: hearing_def)

lemma hearing_frame:
  "cn_channels c' = cn_channels c \<Longrightarrow> cn_encryption_state c' = cn_encryption_state c \<Longrightarrow> hearing i c c'"
  by (simp add: hearing_def)

lemma hearing_channel:
  "receiver_half ch = receiver_half (cn_channels c ! j) \<Longrightarrow> hearing i c (c\<lparr>cn_channels := (cn_channels c)[j := ch]\<rparr>)"
  by (cases "j = i"; cases "i < length (cn_channels c)") (auto simp: hearing_def not_less list_update_beyond)

lemma encryption_queue [simp]: "cn_encryption_state (queue_packet t p c) = cn_encryption_state c"
  by (simp add: queue_packet_def create_header_alt push_packet_def)

lemma encryption_fragment_fold:
  "cn_encryption_state (snd (fold (queue_fragment j) pieces st)) = cn_encryption_state (snd st)"
  by (induction pieces arbitrary: st) (auto simp: queue_fragment_def split: prod.split)

lemma encryption_fragments [simp]: "cn_encryption_state (queue_fragments j wire c) = cn_encryption_state c"
proof (cases "fragment_message (cn_next_fragment_id c) wire (nc_fragment_threshold (cn_config c))")
  case (Inr fragments)
  then show ?thesis
    using encryption_fragment_fold[of j "enumerate 0 fragments" "([], c\<lparr>cn_next_fragment_id := cn_next_fragment_id c + 1\<rparr>)"]
    by (auto simp: queue_fragments_def Let_def split: prod.split)
qed (simp add: queue_fragments_def Let_def)

lemma encryption_send_message [simp]: "cn_encryption_state (send_message od now j s wire c) = cn_encryption_state c"
  by (simp add: send_message_def create_header_alt push_packet_def Let_def)

lemma hearing_send_loop: "send_loop od now j n c = (m, c') \<Longrightarrow> hearing i c c'"
proof (induction od now j n c arbitrary: m c' rule: send_loop.induct)
  case (1 od now j n c)
  show ?case
  proof (cases "may_send now n c \<and> j < length (cn_channels c)")
    case False
    then show ?thesis using 1(2) by (auto simp: send_loop.simps[of od now j n c] hearing_def)
  next
    case True
    obtain r ch where g: "get_outgoing_message now (cn_channels c ! j) = (r, ch)" by fastforce
    let ?c = "c\<lparr>cn_channels := (cn_channels c)[j := ch]\<rparr>"
    have c: "hearing i c ?c" using half_sends(2)[of now "cn_channels c ! j"] g by (intro hearing_channel) simp
    show ?thesis
    proof (cases r)
      case None
      then show ?thesis using 1(2) True g c by (auto simp: send_loop.simps[of od now j n c])
    next
      case (Some x)
      obtain s wire where x: "x = (s, wire)" by (cases x)
      have "send_loop od now j (n + 1) (send_message od now j s wire ?c) = (m, c')"
        using 1(2) True g Some x by (simp add: send_loop.simps[of od now j n c])
      from 1(1)[OF True g[symmetric] Some x[symmetric] this]
      have "hearing i (send_message od now j s wire ?c) c'" .
      moreover have "hearing i ?c (send_message od now j s wire ?c)" by (rule hearing_frame) simp_all
      ultimately show ?thesis using c hearing_trans by blast
    qed
  qed
qed

lemma hearing_retransmits: "hearing i c (queue_retransmits j rs c)"
proof (induction rs arbitrary: c)
  case (Cons r rs)
  have "hearing i c (queue_packet (Payload (of_nat j) False) (snd r) c)" by (rule hearing_frame) simp_all
  from hearing_trans[OF this Cons.IH] show ?case by (simp add: queue_retransmits_def split_beta)
qed (simp add: queue_retransmits_def hearing_def)

lemma hearing_service_channels:
  "service_channels od now js (n, c) = Some (m, c') \<Longrightarrow> hearing i c c'"
proof (induction js arbitrary: n c)
  case (Cons j js)
  obtain k c1 where l: "send_loop od now j n c = (k, c1)" by fastforce
  obtain rs ch where g: "get_retransmit_messages (od_channel od j) now (re_rto (cn_reliability c1)) (cn_channels c1 ! j) = (rs, ch)"
    by fastforce
  let ?c = "queue_retransmits j rs (c1\<lparr>cn_channels := (cn_channels c1)[j := ch]\<rparr>)"
  have s: "service_channels od now js (k, ?c) = Some (m, c')"
    using Cons.prems l g by (auto simp: service_channel_def split: if_splits)
  have "receiver_half ch = receiver_half (cn_channels c1 ! j)"
    using half_sends(3)[of "od_channel od j" now "re_rto (cn_reliability c1)" "cn_channels c1 ! j"] g by simp
  with hearing_send_loop[OF l] hearing_channel have "hearing i c (c1\<lparr>cn_channels := (cn_channels c1)[j := ch]\<rparr>)"
    by (blast intro: hearing_trans)
  with hearing_retransmits Cons.IH[OF s] show ?case by (blast intro: hearing_trans)
qed (simp add: hearing_def)

lemma hearing_connected:
  assumes "update_connected od now c = Some c'" and "i < length (cn_channels c)"
  obtains ch where "receiver_half ch = receiver_half (cn_channels c ! i)"
    and "cn_channels c' ! i = Channel_update (od_channel od i) now ch"
    and "length (cn_channels c') = length (cn_channels c)" and "cn_encryption_state c' = cn_encryption_state c"
proof -
  from assms(1) obtain c1 where c1: "update_congestion now c = Some c1" by (auto simp: update_connected_def bind_eq_Some_conv)
  define c2 where "c2 = (if duration_since now (cn_last_packet_send_time c1) > nc_keepalive_interval (cn_config c1)
      then send_keepalive c1 else c1)"
  define c3 where "c3 = (send_mtu_probe now c2)\<lparr>cn_data_sent_this_tick := False\<rparr>"
  from assms(1) c1 obtain n c4 where c4: "service_channels od now (cn_channel_priority_order c3) (0, c3) = Some (n, c4)"
    and c': "c' = (finish_acks (update_channels od now c4))\<lparr>cn_mtu_discovery :=
        check_probe_timeout now (cn_mtu_discovery (finish_acks (update_channels od now c4)))\<rparr>"
    by (auto simp: update_connected_def Let_def c2_def c3_def)
  have "hearing i c c1" using c1
    by (intro hearing_frame) (auto simp: update_congestion_def Let_def bind_eq_Some_conv split: option.splits)
  also have "hearing i c1 c2" by (rule hearing_frame) (simp_all add: c2_def send_keepalive_def)
  also have "hearing i c2 c3"
    by (rule hearing_frame) (simp_all add: c3_def send_mtu_probe_def Let_def split: prod.split option.split)
  also have "hearing i c3 c4" using c4 by (rule hearing_service_channels)
  finally have h: "hearing i c c4" .
  have "cn_channels c' = cn_channels (update_channels od now c4)" "cn_encryption_state c' = cn_encryption_state c4"
    by (simp_all add: c' finish_acks_def update_channels_def Let_def)
  with h assms(2) show ?thesis
    by (intro that[of "cn_channels c4 ! i"]) (simp_all add: hearing_def update_channels_def nth_enumerate_eq)
qed

section \<open>A receiving connection\<close>

definition receiving :: "nat \<Rightarrow> (nat \<Rightarrow> bytes) \<Rightarrow> nat \<Rightarrow> nat \<Rightarrow> nat list \<Rightarrow> bytes list \<Rightarrow> connection \<Rightarrow> bool" where
  "receiving i msg N n ks taken c \<longleftrightarrow> cn_state c = Connected \<and> i < length (cn_channels c) \<and> cn_encryption_state c = None \<and>
     inbox msg N n ks taken (cn_channels c ! i)"

definition moved_on :: "nat \<Rightarrow> connection \<Rightarrow> connection \<Rightarrow> nat" where
  "moved_on i c c' = moved (cn_channels c ! i) (cn_channels c' ! i)"

lemma receiving_hearing:
  "hearing i c c' \<Longrightarrow> cn_state c' = Connected \<Longrightarrow> receiving i msg N n ks taken c \<Longrightarrow> receiving i msg N n ks taken c'"
  by (auto simp: receiving_def hearing_def intro: inbox_half)

text \<open>A change of the channel that the receiving half allows, found from the invariant before and after.\<close>

lemma receiving_moves:
  assumes "receiving i msg N n ks taken c" and "n \<le> m" and "m \<le> n + 32768"
    and "inbox msg N m ks' taken (cn_channels c' ! i)" and "cn_state c' = Connected"
    and "length (cn_channels c') = length (cn_channels c)" and "cn_encryption_state c' = cn_encryption_state c"
  shows "receiving i msg N (n + moved_on i c c') ks' taken c'"
  using assms inbox_moved[of msg N n ks taken "cn_channels c ! i" m ks' taken "cn_channels c' ! i"]
  by (simp add: receiving_def moved_on_def)

lemma receiving_tick:
  assumes "update_tick od now c = Some (r, c')" and "orders_ok od" and "cn_state c' = Connected"
    and "receiving i msg N n ks taken c"
  obtains ks' where "receiving i msg N (n + moved_on i c c') ks' taken c'"
proof -
  obtain c1 where c1: "update_connected od now (c\<lparr>cn_fragment_assembler := fragment_cleanup now (cn_fragment_assembler c)\<rparr>) = Some c1"
    "c' = update_stats c1"
    using assms(1,3,4) tick_connected by (metis receiving_def)
  have i: "i < length (cn_channels c)" and c: "inbox msg N n ks taken (cn_channels c ! i)"
    using assms(4) by (simp_all add: receiving_def)
  obtain ch where ch: "receiver_half ch = receiver_half (cn_channels c ! i)"
    "cn_channels c1 ! i = Channel_update (od_channel od i) now ch"
    "length (cn_channels c1) = length (cn_channels c)" "cn_encryption_state c1 = cn_encryption_state c"
    using hearing_connected[OF c1(1), of i] i by auto
  have "is_iter_order (od_channel od i)" using assms(2) by (simp add: orders_ok_def)
  then obtain m ks' where "n \<le> m" "m \<le> n + 32768" "inbox msg N m ks' taken (Channel_update (od_channel od i) now ch)"
    using inbox_update inbox_half[OF ch(1) c] by metis
  then have "receiving i msg N (n + moved_on i c c') ks' taken c'"
    using receiving_moves[OF assms(4), of m ks' c'] assms(3) ch c1(2) by (simp add: update_stats_def Let_def)
  then show ?thesis by (rule that)
qed

lemma hearing_header:
  assumes "i < length (cn_channels c)"
  shows "hearing i c (process_incoming_header od now h c)"
  using header_channel[of "\<lambda>ch. receiver_half ch = receiver_half (cn_channels c ! i)" now i c od h] assms
  by (simp add: hearing_def)

lemma hearing_direct:
  "unat ch \<noteq> i \<Longrightarrow> hearing i c (receive_payload_direct od now ch p c)"
  by (simp add: receive_payload_direct_def hearing_def)

lemma hearing_directs: "unat ch \<noteq> i \<Longrightarrow> hearing i c (fold (receive_payload_direct od now ch) ms c)"
proof (induction ms arbitrary: c)
  case (Cons m ms)
  from hearing_trans[OF hearing_direct[OF Cons.prems] Cons.IH[OF Cons.prems]] show ?case by simp
qed (simp add: hearing_def)

text \<open>A packet for another channel, or a control packet, does not concern this one.\<close>

lemma hearing_other:
  assumes "\<not> on_channel i (pkt_type p)" and "cn_state (handle_connected od now p c) = Connected"
    and "i < length (cn_channels c)"
  shows "hearing i c (handle_connected od now p c)"
proof -
  let ?c = "process_incoming_header od now (pkt_header p) c"
  have frame: "hearing i ?c (?c\<lparr>cn_mtu_discovery := d\<rparr>)" "hearing i ?c (queue_packet t q ?c)" "hearing i ?c ?c" for d t q
    by (rule hearing_frame; simp)+
  have "hearing i ?c (handle_connected od now p c)"
    using assms(1,2) frame
    by (auto simp: handle_connected_def Let_def hearing_direct hearing_directs set_state_def on_channel_def
        split: packet_type.splits option.splits)
  with hearing_header[OF assms(3)] show ?thesis by (rule hearing_trans)
qed

section \<open>What a datagram carries\<close>

definition carried :: "bytes \<Rightarrow> packet option" where
  "carried d = Option.bind (validate_and_strip_crc32 d)
     (\<lambda>bs. case Packet_deserialize bs of Inl e \<Rightarrow> None | Inr p \<Rightarrow> Some p)"

text \<open>Datagram \<open>d\<close> carries message \<open>k\<close> of channel \<open>i\<close>.\<close>

definition conveys :: "nat \<Rightarrow> (nat \<Rightarrow> bytes) \<Rightarrow> nat \<Rightarrow> bytes \<Rightarrow> bool" where
  "conveys i msg k d \<longleftrightarrow> (case carried d of
     None \<Rightarrow> False
   | Some p \<Rightarrow> on_channel i (pkt_type p) \<and> pkt_payload p = wire_data (of_nat k) (msg k))"

text \<open>If it carries one, then one that is not half the sequence space away from the index \<open>n\<close>.\<close>

definition recent :: "nat \<Rightarrow> (nat \<Rightarrow> bytes) \<Rightarrow> nat \<Rightarrow> nat \<Rightarrow> bytes \<Rightarrow> bool" where
  "recent i msg N n d \<longleftrightarrow> (\<forall>k<N. conveys i msg k d \<longrightarrow>
     (\<exists>k'<N. conveys i msg k' d \<and> k' < n + 32768 \<and> n < k' + 32768))"

lemma travels_carried:
  assumes "travels i msg N d"
  obtains p where "carried d = Some p" and "genuine i msg N (pkt_type p) (pkt_payload p)"
proof -
  obtain p bs where p: "Packet_serialize p = Inr bs" "d = append_crc32 bs" "genuine i msg N (pkt_type p) (pkt_payload p)"
    using assms by (auto simp: travels_def)
  then have "channel_fits (pkt_type p)" using serialize_overflow[of p] by auto
  then obtain bs' where "Packet_serialize p = Inr bs'" "Packet_deserialize bs' = Inr p" by (rule roundtrip)
  with p that show ?thesis by (simp add: carried_def validate_append)
qed

lemma receive_carried:
  assumes "receive_datagram aead_open od now d a c = (r, c')" and "cn_encryption_state c = None" and "carried d = Some p"
    and "cn_state c = Connected"
  shows "c' = c \<or> c' = handle_connected od now p (touch_recv_time now (record_bytes_received now (length d) c))"
  using assms by (auto simp: receive_datagram_def carried_def decrypt_incoming_def handle_packet_def
      bind_eq_Some_conv split: if_splits sum.splits option.splits)

lemma receiving_datagram:
  assumes "receive_datagram aead_open od now d a c = (r, c')" and "orders_ok od" and "cn_state c' = Connected"
    and "receiving i msg N n ks taken c" and "travels i msg N d" and "recent i msg N n d"
  obtains ks' where "receiving i msg N (n + moved_on i c c') ks' taken c'"
proof -
  let ?c = "touch_recv_time now (record_bytes_received now (length d) c)"
  obtain p where p: "carried d = Some p" "genuine i msg N (pkt_type p) (pkt_payload p)" using assms(5) by (rule travels_carried)
  have c: "cn_state c = Connected" "i < length (cn_channels c)" "cn_encryption_state c = None"
    "inbox msg N n ks taken (cn_channels c ! i)" using assms(4) by (simp_all add: receiving_def)
  have still: "receiving i msg N (n + moved_on i c c') ks taken c'" if "hearing i c c'"
    using receiving_moves[OF assms(4), of n ks c'] inbox_half[of "cn_channels c' ! i" "cn_channels c ! i"] that c assms(3)
    by (simp add: hearing_def)
  from receive_carried[OF assms(1) c(3) p(1) c(1)] show ?thesis
  proof
    assume "c' = c"
    then show ?thesis using still that by (simp add: hearing_def)
  next
    assume r: "c' = handle_connected od now p ?c"
    show ?thesis
    proof (cases "on_channel i (pkt_type p)")
      case False
      have "hearing i c ?c" by (rule hearing_frame) simp_all
      also have "hearing i ?c c'" unfolding r using False assms(3) c r by (intro hearing_other) simp_all
      finally show ?thesis using still that by blast
    next
      case True
      then obtain b k where t: "pkt_type p = Payload (of_nat i) b" and k: "k < N" "pkt_payload p = wire_data (of_nat k) (msg k)"
        using p(2) by (auto simp: genuine_def wire_of_def)
      then have "conveys i msg k d" using p(1) True by (simp add: conveys_def)
      then obtain j where j: "j < N" "conveys i msg j d" "j < n + 32768" "n < j + 32768"
        using assms(6) k(1) by (auto simp: recent_def)
      have payload: "pkt_payload p = wire_data (of_nat j) (msg j)" using j(2) p(1) by (simp add: conveys_def)
      have i: "unat (of_nat i :: u8) = i" using True t by (simp add: on_channel_def)
      let ?h = "process_incoming_header od now (pkt_header p) ?c"
      have h: "hearing i ?c ?h" using c(2) by (intro hearing_header) simp
      then have "inbox msg N n ks taken (cn_channels ?h ! i)" using c(4) by (auto simp: hearing_def intro: inbox_half)
      moreover have "is_iter_order (od_channel od i)" using assms(2) by (simp add: orders_ok_def)
      ultimately obtain m ks' where m: "n \<le> m" "m \<le> n + 32768"
        "inbox msg N m ks' taken (Channel_on_packet_received (od_channel od i) now (wire_data (of_nat j) (msg j)) (cn_channels ?h ! i))"
        using inbox_arrive j by metis
      have c': "c' = ?h\<lparr>cn_channels := (cn_channels ?h)[i :=
          Channel_on_packet_received (od_channel od i) now (wire_data (of_nat j) (msg j)) (cn_channels ?h ! i)]\<rparr>"
        using r t i payload c(2) by (simp add: handle_connected_def receive_payload_direct_def Let_def)
      then have "receiving i msg N (n + moved_on i c c') ks' taken c'"
        using receiving_moves[OF assms(4) m(1,2), of ks' c'] m(3) c(2) assms(3) by simp
      then show ?thesis by (rule that)
    qed
  qed
qed

text \<open>Datagrams of others and damaged ones are dropped.\<close>

lemma foreign_dropped:
  "a \<noteq> cn_remote_addr c \<or> validate_and_strip_crc32 d = None \<Longrightarrow> receive_datagram aead_open od now d a c = (Inr (), c)"
  by (auto simp: receive_datagram_def)

section \<open>Both ends and the network\<close>

text \<open>
  A state is the sender, its socket, whose log is the network, the number of messages it has accepted for
  channel \<open>i\<close>, the receiver, the index its channel stands at and the messages the receiving application
  has taken. The datagrams in the network stay there: one that is heard may be heard again, in any order,
  or never; the reader's buffer takes those of at most \<open>MAX_UDP_PACKET_SIZE\<close> bytes.
\<close>

type_synonym link_state = "connection \<times> udp_socket \<times> nat \<times> connection \<times> nat \<times> bytes list"

inductive link_step :: "nat \<Rightarrow> (nat \<Rightarrow> bytes) \<Rightarrow> link_state \<Rightarrow> link_state \<Rightarrow> bool"
  for i :: nat and msg :: "nat \<Rightarrow> bytes" where
  message: "Connection_send (of_nat i) (msg N) reliable a = (Inr (), a') \<Longrightarrow>
    link_step i msg (a, u, N, b, n, taken) (a', u, Suc N, b, n, taken)"
| sender_send: "Connection_send ch d reliable a = (r, a') \<Longrightarrow> unat ch \<noteq> i \<or> r \<noteq> Inr () \<Longrightarrow>
    link_step i msg (a, u, N, b, n, taken) (a', u, N, b, n, taken)"
| sender_take: "Connection_receive ch a = (r, a') \<Longrightarrow>
    link_step i msg (a, u, N, b, n, taken) (a', u, N, b, n, taken)"
| sender_tick: "update_tick od now a = Some (r, a') \<Longrightarrow> cn_state a' = Connected \<Longrightarrow>
    link_step i msg (a, u, N, b, n, taken) (a', u, N, b, n, taken)"
| sender_hear: "receive_datagram aead_open od now d addr a = (r, a') \<Longrightarrow> cn_state a' = Connected \<Longrightarrow>
    link_step i msg (a, u, N, b, n, taken) (a', u, N, b, n, taken)"
| sender_flush: "process_send_queue aead_seal now (a, u0) = (r, a', u') \<Longrightarrow> network u0 = network u \<Longrightarrow>
    link_step i msg (a, u, N, b, n, taken) (a', u', N, b, n, taken)"
| sender_update: "Connection_update aead_seal aead_open od now (a, u0) = Some (r, a', u') \<Longrightarrow> network u0 = network u \<Longrightarrow>
    cn_state a' = Connected \<Longrightarrow>
    link_step i msg (a, u, N, b, n, taken) (a', u', N, b, n, taken)"
| hear: "receive_datagram aead_open od now d addr b = (r, b') \<Longrightarrow> orders_ok od \<Longrightarrow> d \<in> network u \<Longrightarrow>
    length d \<le> MAX_UDP_PACKET_SIZE \<Longrightarrow> recent i msg N n d \<Longrightarrow> cn_state b' = Connected \<Longrightarrow>
    link_step i msg (a, u, N, b, n, taken) (a, u, N, b', n + moved_on i b b', taken)"
| noise: "receive_datagram aead_open od now d addr b = (r, b') \<Longrightarrow>
    addr \<noteq> cn_remote_addr b \<or> validate_and_strip_crc32 d = None \<Longrightarrow>
    link_step i msg (a, u, N, b, n, taken) (a, u, N, b', n, taken)"
| tick: "update_tick od now b = Some (r, b') \<Longrightarrow> orders_ok od \<Longrightarrow> cn_state b' = Connected \<Longrightarrow>
    link_step i msg (a, u, N, b, n, taken) (a, u, N, b', n + moved_on i b b', taken)"
| flush: "process_send_queue aead_seal now (b, v) = (r, b', v') \<Longrightarrow>
    link_step i msg (a, u, N, b, n, taken) (a, u, N, b', n, taken)"
| reply: "Connection_send ch d reliable b = (r, b') \<Longrightarrow>
    link_step i msg (a, u, N, b, n, taken) (a, u, N, b', n, taken)"
| take: "Connection_receive (of_nat i) b = (Some d, b') \<Longrightarrow>
    link_step i msg (a, u, N, b, n, taken) (a, u, N, b', n, taken @ [d])"
| take_other: "Connection_receive ch b = (r, b') \<Longrightarrow> unat ch \<noteq> i \<or> r = None \<Longrightarrow>
    link_step i msg (a, u, N, b, n, taken) (a, u, N, b', n, taken)"

fun link_ok :: "nat \<Rightarrow> (nat \<Rightarrow> bytes) \<Rightarrow> link_state \<Rightarrow> bool" where
  "link_ok i msg (a, u, N, b, n, taken) \<longleftrightarrow> cn_state a = Connected \<and> sending i msg N a \<and>
     (\<forall>d \<in> network u. travels i msg N d) \<and> (\<exists>ks. receiving i msg N n ks taken b)"

text \<open>One more message: all that was said before stands.\<close>

lemma genuine_more: "genuine i msg N t p \<Longrightarrow> genuine i msg (Suc N) t p"
  by (fastforce simp: genuine_def wire_of_def less_Suc_eq)

lemma travels_more: "travels i msg N d \<Longrightarrow> travels i msg (Suc N) d"
  by (auto simp: travels_def intro: genuine_more)

lemma receiving_more: "receiving i msg N n ks taken c \<Longrightarrow> receiving i msg (Suc N) n ks taken c"
  by (auto simp: receiving_def intro: inbox_more)

lemma channel_byte: "sending i msg N c \<Longrightarrow> unat (of_nat i :: u8) = i"
  by (simp add: sending_def unat_of_nat take_bit_nat_eq_self)

text \<open>Sending and receiving through a connection is sending and receiving on its channel.\<close>

lemma send_channel:
  assumes "Connection_send ch d reliable c = (r, c')"
  obtains "c' = c" "r \<noteq> Inr ()"
    | x ch' where "unat ch < length (cn_channels c)" "Channel.send d reliable (cn_channels c ! unat ch) = (x, ch')"
      "c' = c\<lparr>cn_channels := (cn_channels c)[unat ch := ch']\<rparr>" "r = Inr () \<longleftrightarrow> x = Inr ()"
proof (cases "cn_state c = Connected \<and> unat ch < length (cn_channels c)")
  case False
  with assms have "c' = c" "r \<noteq> Inr ()" by (auto simp: Connection_send_def split: if_splits)
  then show ?thesis by (rule that(1))
next
  case True
  obtain x ch' where x: "Channel.send d reliable (cn_channels c ! unat ch) = (x, ch')" by fastforce
  with True assms have "c' = c\<lparr>cn_channels := (cn_channels c)[unat ch := ch']\<rparr>" "r = Inr () \<longleftrightarrow> x = Inr ()"
    by (auto simp: Connection_send_def split: sum.splits)
  with True x show ?thesis by (intro that(2)[of x ch']) simp_all
qed

lemma receive_channel:
  assumes "Connection_receive ch c = (r, c')"
  obtains "c' = c" "r = None"
    | ch' where "unat ch < length (cn_channels c)" "Channel.receive (cn_channels c ! unat ch) = (r, ch')"
      "c' = c\<lparr>cn_channels := (cn_channels c)[unat ch := ch']\<rparr>"
proof (cases "unat ch < length (cn_channels c)")
  case False
  with assms have "c' = c" "r = None" by (simp_all add: Connection_receive_def)
  then show ?thesis by (rule that(1))
next
  case True
  obtain x ch' where x: "Channel.receive (cn_channels c ! unat ch) = (x, ch')" by fastforce
  with True assms show ?thesis by (intro that(2)[of ch']) (simp_all add: Connection_receive_def)
qed

lemma sending_message:
  assumes "Connection_send (of_nat i) (msg N) reliable a = (Inr (), a')" and "sending i msg N a"
  shows "sending i msg (Suc N) a'" and "cn_state a' = cn_state a"
proof -
  have i: "unat (of_nat i :: u8) = i" using assms(2) by (rule channel_byte)
  from assms(1) obtain ch' where ch: "Channel.send (msg N) reliable (cn_channels a ! i) = (Inr (), ch')"
    "a' = a\<lparr>cn_channels := (cn_channels a)[i := ch']\<rparr>"
    by (cases rule: send_channel) (auto simp: i)
  have "outbox msg (Suc N) ch'" using outbox_send[OF sending_outbox[OF assms(2)] ch(1)] .
  with assms(2) ch(2) show "sending i msg (Suc N) a'" by (auto simp: sending_def intro: genuine_more)
  show "cn_state a' = cn_state a" using ch(2) by simp
qed

lemma sending_send:
  assumes "Connection_send ch d reliable a = (r, a')" and "unat ch \<noteq> i \<or> r \<noteq> Inr ()" and "sending i msg N a"
  shows "sending i msg N a' \<and> cn_state a' = cn_state a"
  using assms(1)
proof (cases rule: send_channel)
  case 1
  with assms(3) show ?thesis by simp
next
  case (2 x ch')
  have "outbox msg N ch'" if "unat ch = i"
    using that 2 assms(2) outbox_send_failed[of d reliable "cn_channels a ! i" _ ch'] sending_outbox[OF assms(3)]
    by (cases x) auto
  then show ?thesis using 2(3) assms(3) by (auto intro: sending_channels)
qed

lemma sending_take:
  assumes "Connection_receive ch a = (r, a')" and "sending i msg N a"
  shows "sending i msg N a' \<and> cn_state a' = cn_state a"
  using assms(1)
proof (cases rule: receive_channel)
  case (2 ch')
  have "outbox msg N ch'" if "unat ch = i"
    using that 2 sending_outbox[OF assms(2)] half_receives(3)[of "cn_channels a ! i"] by (auto intro: outbox_half)
  then show ?thesis using 2(3) assms(2) by (auto intro: sending_channels)
qed (use assms(2) in simp)

lemma hearing_queue:
  assumes "process_send_queue aead_seal now st = (r, c', v')"
  shows "hearing i (fst st) c'" and "cn_state c' = cn_state (fst st)"
  using queue_frame[OF assms] by (auto intro: hearing_frame)

text \<open>The receiver's own sends and reads.\<close>

lemma receiving_reply:
  assumes "Connection_send ch d reliable b = (r, b')" and "receiving i msg N n ks taken b"
  shows "receiving i msg N n ks taken b'"
  using assms(1)
proof (cases rule: send_channel)
  case (2 x ch')
  have "receiver_half ch' = receiver_half (cn_channels b ! unat ch)"
    using half_sends(1)[of d reliable "cn_channels b ! unat ch"] 2(2) by simp
  then have "hearing i b b'" unfolding 2(3) by (rule hearing_channel)
  from receiving_hearing[OF this _ assms(2)] show ?thesis using assms(2) 2(3) by (simp add: receiving_def)
qed (use assms(2) in simp)

lemma receiving_take:
  assumes "Connection_receive (of_nat i) b = (Some d, b')" and "unat (of_nat i :: u8) = i"
    and "receiving i msg N n ks taken b"
  shows "receiving i msg N n ks (taken @ [d]) b'"
  using assms(1)
proof (cases rule: receive_channel)
  case (2 ch')
  then have "inbox msg N n ks (taken @ [d]) ch'" using assms(2,3) by (intro inbox_receive) (simp_all add: receiving_def)
  then show ?thesis using assms(2,3) 2(3) by (simp add: receiving_def)
qed simp

lemma receiving_take_other:
  assumes "Connection_receive ch b = (r, b')" and "unat ch \<noteq> i \<or> r = None" and "receiving i msg N n ks taken b"
  shows "receiving i msg N n ks taken b'"
  using assms(1)
proof (cases rule: receive_channel)
  case (2 ch')
  have "unat ch \<noteq> i \<or> ch' = cn_channels b ! unat ch" using 2(2) assms(2) by (auto simp: receive_def split: list.splits)
  then show ?thesis using 2(3) assms(3) by (cases "unat ch = i") (simp_all add: receiving_def)
qed (use assms(3) in simp)

section \<open>The invariant of the composition\<close>

lemma receiving_connected: "receiving i msg N n ks taken c \<Longrightarrow> cn_state c = Connected"
  by (simp add: receiving_def)

lemma link_step_ok:
  assumes "link_step i msg s s'" and "link_ok i msg s"
  shows "link_ok i msg s'"
  using assms
proof (induction rule: link_step.induct)
  case (message N reliable a a' u b n taken)
  then show ?case using sending_message by (auto intro: travels_more receiving_more)
next
  case (sender_send ch d reliable a r a' u N b n taken)
  then show ?case using sending_send[of ch d reliable a r a' i msg N] by auto
next
  case (sender_take ch a r a' u N b n taken)
  then show ?case using sending_take[of ch a r a' i msg N] by auto
next
  case (sender_tick od now a r a' u N b n taken)
  then show ?case using sending_tick[of od now a r a' i msg N] by auto
next
  case (sender_hear aead_open od now d addr a r a' u N b n taken)
  then show ?case using sending_datagram[of aead_open od now d addr a r a' i msg N] by auto
next
  case (sender_flush aead_seal now a u0 r a' u' u N b n taken)
  then show ?case using sending_queue[of aead_seal now "(a, u0)" r a' u' i msg N] by auto
next
  case (sender_update aead_seal aead_open od now a u0 r a' u' u N b n taken)
  then show ?case using sending_update[of aead_seal aead_open od now a u0 r a' u' i msg N] by auto
next
  case (hear aead_open od now d addr b r b' u N n a taken)
  then obtain ks where ks: "receiving i msg N n ks taken b" "travels i msg N d" by auto
  obtain ks' where "receiving i msg N (n + moved_on i b b') ks' taken b'"
    using hear(1,2,6) ks hear(5) by (rule receiving_datagram)
  with hear(7) show ?case by auto
next
  case (noise aead_open od now d addr b r b' a u N n taken)
  then have "b' = b" using foreign_dropped[of addr b d aead_open od now] by simp
  with noise show ?case by simp
next
  case (tick od now b r b' a u N n taken)
  then obtain ks where ks: "receiving i msg N n ks taken b" by auto
  obtain ks' where "receiving i msg N (n + moved_on i b b') ks' taken b'"
    using tick(1-3) ks by (rule receiving_tick)
  with tick(4) show ?case by auto
next
  case (flush aead_seal now b v r b' v' a u N n taken)
  then obtain ks where ks: "receiving i msg N n ks taken b" by auto
  have "hearing i b b'" "cn_state b' = cn_state b" using hearing_queue[OF flush(1)] by simp_all
  then have "receiving i msg N n ks taken b'" using ks receiving_connected[OF ks] by (auto intro: receiving_hearing)
  with flush(2) show ?case by auto
next
  case (reply ch d reliable b r b' a u N n taken)
  then show ?case using receiving_reply by fastforce
next
  case (take b d b' a u N n taken)
  then show ?case using receiving_take channel_byte by fastforce
next
  case (take_other ch b r b' a u N n taken)
  then show ?case using receiving_take_other by fastforce
qed

lemma link_run_ok:
  assumes "(link_step i msg)\<^sup>*\<^sup>* s s'" and "link_ok i msg s"
  shows "link_ok i msg s'"
  using assms by (induction rule: rtranclp_induct) (auto intro: link_step_ok)

text \<open>
  Where it starts: both ends connected, without encryption, their channels \<open>i\<close> new, the receiver's one
  ordered; nothing of channel \<open>i\<close> queued or under way; messages below the fragment threshold.
\<close>

definition fresh_link :: "nat \<Rightarrow> (nat \<Rightarrow> bytes) \<Rightarrow> connection \<Rightarrow> udp_socket \<Rightarrow> connection \<Rightarrow> bool" where
  "fresh_link i msg a u b \<longleftrightarrow>
     cn_state a = Connected \<and> cn_encryption_state a = None \<and> length (cn_channels a) \<le> 256 \<and> i < length (cn_channels a) \<and>
     (\<exists>ident cfg. cn_channels a ! i = Channel_new ident cfg) \<and>
     list_all (\<lambda>p. \<not> on_channel i (pkt_type p)) (cn_send_queue a) \<and>
     (\<forall>k. length (msg k) + 2 \<le> nc_fragment_threshold (cn_config a)) \<and>
     os_outgoing (us_socket u) = [] \<and>
     cn_state b = Connected \<and> cn_encryption_state b = None \<and> i < length (cn_channels b) \<and>
     (\<exists>ident cfg. cn_channels b ! i = Channel_new ident cfg \<and> cc_delivery_mode cfg = ReliableOrdered)"

lemma fresh_link_ok: "fresh_link i msg a u b \<Longrightarrow> link_ok i msg (a, u, 0, b, 0, [])"
proof -
  assume f: "fresh_link i msg a u b"
  then have "sending i msg 0 a"
    using outbox_new by (auto simp: fresh_link_def sending_def list_all_iff genuine_def)
  moreover have "receiving i msg 0 0 [] [] b" using f inbox_new by (auto simp: fresh_link_def receiving_def)
  ultimately show ?thesis using f by (auto simp: fresh_link_def network_def)
qed

section \<open>A message on its way\<close>

text \<open>
  Two connected ends with one ordered channel: a message is sent, a tick puts it into a packet, the packet
  leaves, the other end hears it and its application takes the message.
\<close>

definition link_config :: network_config where
  "link_config = NetworkConfig_default\<lparr>nc_max_channels := 1, nc_default_channel_config := example_config,
     nc_mtu := MIN_MTU, nc_packet_buffer_size := 4, nc_congestion_bad_loss_threshold := Fin 1\<rparr>"

definition link_end :: connection where
  "link_end = set_state Connected (Connection_new (\<lambda>_. None) 11 0 link_config (example_addr 1) (example_addr 2))"

definition link_sent :: connection where
  "link_sent = snd (Connection_send 0 (example_text 0) True link_end)"

definition link_message :: channel_message where
  "link_message = \<lparr>cm_sequence = 0, cm_data = [0, 7], cm_send_time = None, cm_acked = False, cm_retry_count = 0, cm_reliable = True\<rparr>"

definition link_channel :: channel where
  "link_channel = (Channel_new 0 example_config)\<lparr>ch_send_sequence := 1, ch_send_buffer := [link_message], ch_messages_sent := 1, ch_bytes_sent := 2\<rparr>"

lemmas link_defs = link_end_def set_state_def Connection_new_def link_config_def NetworkConfig_default_def
  new_channels_def priority_order_def Channel_new_def example_config_def example_text_def

lemma link_sent_fields:
  "Connection_send 0 (example_text 0) True link_end = (Inr (), link_sent)"
  "link_sent = link_end\<lparr>cn_channels := [link_channel]\<rparr>"
  by (simp_all add: link_sent_def Connection_send_def Channel.send_def Let_def link_defs link_channel_def link_message_def)

lemma link_end_fields:
  "cn_state link_end = Connected" "cn_config link_end = link_config" "cn_channels link_end = [Channel_new 0 example_config]"
  "cn_send_queue link_end = []" "cn_encryption_state link_end = None" "cn_congestion link_end = new_congestion link_config"
  "cn_cwnd link_end = None" "cn_channel_priority_order link_end = [0]" "cn_last_packet_recv_time link_end = 0"
  "cn_last_packet_send_time link_end = 0" "cn_mtu_discovery link_end = MtuDiscovery_new MIN_MTU MIN_MTU"
  "cn_stats link_end = NetworkStats_default" "cn_pending_ack_send link_end = False" "cn_local_sequence link_end = 0"
  "re_rto (cn_reliability link_end) = from_millis INITIAL_RTO_MILLIS" "cn_remote_addr link_end = example_addr 2"
  "get_ack_info (cn_reliability link_end) = (0, 0)"
  by (simp_all add: link_defs endpoint_with_max_in_flight_def ReliableEndpoint_new_def get_ack_info_def)

lemma exact: "fl_round f32 576 = Fin 576" "fl_round f32 34560 = Fin 34560" "fl_round f32 1 = Fin 1"
proof -
  have q: "quotient_of 576 = (576, 1)" "quotient_of 34560 = (34560, 1)" 
    using quotient_of_int[of 576] quotient_of_int[of 34560] by simp_all
  have l: "int_log2 576 = 9" "int_log2 34560 = 15" "int_log2 1 = 0"
    by (simp_all add: int_log2.simps)
  have "ilog2 576 = 9" "ilog2 34560 = 15" "ilog2 1 = 0" by (simp_all add: ilog2_def q l pow2_def)
  then show "fl_round f32 576 = Fin 576" "fl_round f32 34560 = Fin 34560" "fl_round f32 1 = Fin 1"
    by (simp_all add: fl_round_def round_value_def f32_def pow2_def round_half_even_def Let_def)
qed

lemma congested:
  "\<exists>g. update_congestion 1 (link_sent\<lparr>cn_fragment_assembler := f\<rparr>) =
     Some (link_sent\<lparr>cn_fragment_assembler := f, cn_congestion := g\<rparr>) \<and> can_send 0 576 g"
  by (simp add: update_congestion_def link_sent_fields(2) link_end_fields link_config_def NetworkConfig_default_def NetworkStats_default_def
   CongestionController_update_def new_congestion_def CongestionController_new_def stay_good_def Let_def
   DEFAULT_CONGESTION_GOOD_RTT_THRESHOLD_MS_def DEFAULT_CONGESTION_BAD_LOSS_THRESHOLD_def refill_budget_def
   DEFAULT_SEND_RATE_HZ_def fl_of_nat_def MIN_MTU_def exact can_send_def) (rule exI, rule conjI, rule refl, simp)

text \<open>An empty channel ends the loop.\<close>

lemma send_loop_empty:
  assumes "j < length (cn_channels c)" and "ch_send_buffer (cn_channels c ! j) = []"
  shows "send_loop od now j n c = (n, c)"
  using assms by (simp add: send_loop.simps[of od now j n c] get_outgoing_message_def)

definition link_wire :: bytes where
  "link_wire = wire_data 0 (example_text 0)"

definition link_packet :: packet where
  "link_packet = with_payload link_wire (Packet_new \<lparr>ph_protocol_id = DEFAULT_PROTOCOL_ID, ph_sequence = 0, ph_ack = 0, ph_ack_bits = 0\<rparr> (Payload 0 False))"

text \<open>A connection that has the message waiting and a budget for it.\<close>

definition link_ready :: "connection \<Rightarrow> bool" where
  "link_ready c \<longleftrightarrow> cn_state c = Connected \<and> cn_channels c = [link_channel] \<and> can_send 0 576 (cn_congestion c) \<and>
     cn_config c = link_config \<and> cn_cwnd c = None \<and> cn_encryption_state c = None \<and> cn_send_queue c = [] \<and> cn_local_sequence c = 0 \<and>
     get_ack_info (cn_reliability c) = (0, 0) \<and> re_rto (cn_reliability c) = from_millis INITIAL_RTO_MILLIS \<and> cn_remote_addr c = example_addr 2"

lemma rto_sent [simp]: "re_rto (on_packet_sent it s now ch m n e) = re_rto e"
  by (simp add: on_packet_sent_def Let_def evict_worst_in_flight_def split: option.split)

lemma loop_sends:
  assumes "link_ready c"
  shows "\<exists>c'. service_channels example_orders 1 [0] (0, c) = Some (1, c') \<and> cn_send_queue c' = [link_packet] \<and>
    cn_pending_ack_send c' = cn_pending_ack_send c \<and> cn_state c' = Connected \<and> cn_encryption_state c' = None \<and> cn_remote_addr c' = example_addr 2"
proof -
  note c = assms[unfolded link_ready_def]
  define ch where "ch = snd (get_outgoing_message 1 link_channel)"
  have g: "get_outgoing_message 1 link_channel = (Some (0, link_wire), ch)"
    by (simp add: ch_def get_outgoing_message_def link_channel_def link_message_def Let_def link_wire_def example_text_def)
  let ?c = "send_message example_orders 1 0 0 link_wire (c\<lparr>cn_channels := [ch]\<rparr>)"
  have "send_loop example_orders 1 0 0 c = send_loop example_orders 1 0 (0 + 1) ?c"
    using c g by (simp add: send_loop.simps[of example_orders 1 0 0 c] may_send_def link_config_def MIN_MTU_def)
  also have "\<dots> = (1, ?c)" by (subst send_loop_empty) (simp_all add: ch_def get_outgoing_message_def link_channel_def link_message_def)
  finally have l: "send_loop example_orders 1 0 0 c = (1, ?c)" .
  have q: "cn_send_queue ?c = [link_packet]" "cn_state ?c = Connected" "re_rto (cn_reliability ?c) = from_millis INITIAL_RTO_MILLIS"
    "cn_encryption_state ?c = None" "cn_remote_addr ?c = example_addr 2" "cn_pending_ack_send ?c = cn_pending_ack_send c"
    using c by (simp_all add: send_message_def create_header_alt push_packet_def Let_def link_packet_def link_wire_def wire_data_def
        SEQUENCE_BYTES_def example_text_def link_config_def NetworkConfig_default_def DEFAULT_FRAGMENT_THRESHOLD_def)
  have "fst (get_retransmit_messages id 1 (from_millis INITIAL_RTO_MILLIS) ch) = []"
    by (simp add: ch_def get_outgoing_message_def link_channel_def link_message_def get_retransmit_messages_def Channel_new_def
       hm_keys_def hm_insert_def retransmit_step_def hm_get_def duration_since_def backoff_rto_def example_config_def is_reliable_def from_millis_def INITIAL_RTO_MILLIS_def)
  moreover have "od_channel example_orders 0 = id" by (simp add: example_orders_def)
  ultimately show ?thesis using l q c
    by (auto simp: service_channel_def queue_retransmits_def split: prod.split)
qed

lemma no_probe: "fst (next_probe 1 (MtuDiscovery_new MIN_MTU MIN_MTU)) = None"
  by (simp add: next_probe_def MtuDiscovery_new_def usize_sub_def)

lemma link_probe: "cn_mtu_discovery (link_sent\<lparr>cn_fragment_assembler := f, cn_congestion := g\<rparr>) = MtuDiscovery_new MIN_MTU MIN_MTU"
  by (simp add: link_sent_fields(2) link_end_fields)

lemma link_tick:
  obtains a where "update_tick example_orders 1 link_sent = Some (Inr (), a)" and "cn_state a = Connected"
    and "cn_send_queue a = [link_packet]" and "cn_encryption_state a = None" and "cn_remote_addr a = example_addr 2"
proof -
  define f where "f = fragment_cleanup 1 (cn_fragment_assembler link_sent)"
  obtain g where g: "update_congestion 1 (link_sent\<lparr>cn_fragment_assembler := f\<rparr>) =
      Some (link_sent\<lparr>cn_fragment_assembler := f, cn_congestion := g\<rparr>)" "can_send 0 576 g"
    using congested by blast
  define c1 where "c1 = link_sent\<lparr>cn_fragment_assembler := f, cn_congestion := g\<rparr>"
  have k: "\<not> duration_since 1 (cn_last_packet_send_time c1) > nc_keepalive_interval (cn_config c1)"
    by (simp add: c1_def link_sent_fields(2) link_end_fields link_config_def NetworkConfig_default_def duration_since_def
        from_secs_def DEFAULT_KEEPALIVE_INTERVAL_SECS_def)
  obtain d where "next_probe 1 (cn_mtu_discovery c1) = (None, d)" using no_probe by (metis link_probe prod.collapse c1_def)
  then have p: "send_mtu_probe 1 c1 = c1\<lparr>cn_mtu_discovery := d\<rparr>" by (simp add: send_mtu_probe_def)
  define c3 where "c3 = c1\<lparr>cn_mtu_discovery := d, cn_data_sent_this_tick := False\<rparr>"
  have c3: "link_ready c3" "cn_channel_priority_order c1 = [0]" "cn_pending_ack_send c3 = False"
    using g(2) by (simp_all add: link_ready_def c3_def c1_def link_sent_fields(2) link_end_fields)
  obtain c4 where c4: "service_channels example_orders 1 [0] (0, c3) = Some (1, c4)"
    "cn_send_queue c4 = [link_packet]" "cn_state c4 = Connected" "cn_encryption_state c4 = None" "cn_remote_addr c4 = example_addr 2"
    "cn_pending_ack_send c4 = False" using loop_sends[OF c3(1)] c3(3) by auto
  define c5 where "c5 = (let c = finish_acks (update_channels example_orders 1 c4)
      in c\<lparr>cn_mtu_discovery := check_probe_timeout 1 (cn_mtu_discovery c)\<rparr>)"
  have "update_connected example_orders 1 (link_sent\<lparr>cn_fragment_assembler := f\<rparr>) = Some c5"
    using k p c3(2) c4(1)
    by (simp add: update_connected_def g(1) c1_def[symmetric] c3_def[symmetric] c5_def Let_def del: service_channels.simps)
  then have "update_tick example_orders 1 link_sent = Some (Inr (), update_stats c5)"
    by (simp add: update_tick_def update_state_def f_def link_sent_fields(2) link_end_fields link_config_def NetworkConfig_default_def
        duration_since_def from_secs_def DEFAULT_CONNECTION_TIMEOUT_SECS_def)
  then show ?thesis
    using c4 by (elim that) (simp_all add: c5_def update_stats_def finish_acks_def update_channels_def Let_def)
qed

lemma link_packet_fits: "channel_fits (pkt_type link_packet)"
  by (simp add: link_packet_def with_payload_def Packet_new_def channel_fits_def)

definition link_datagram :: bytes where
  "link_datagram = append_crc32 (packet_bytes link_packet)"

lemma link_datagram_short: "length link_datagram \<le> MAX_UDP_PACKET_SIZE"
proof -
  obtain data where "Packet_serialize link_packet = Inr data"
    "length data = head_size (pkt_type link_packet) + length (pkt_payload link_packet)"
    using roundtrip[OF link_packet_fits] by blast
  moreover have "head_size (pkt_type link_packet) \<le> 20"
    by (simp add: head_size_def link_packet_def with_payload_def Packet_new_def)
  ultimately show ?thesis
    by (simp add: link_datagram_def packet_bytes_def append_crc32_def MAX_UDP_PACKET_SIZE_def link_packet_def with_payload_def
        link_wire_def wire_parts(1) example_text_def)
qed

text \<open>The other end takes the message out of it.\<close>

lemma link_heard:
  obtains b where "receive_datagram (\<lambda>_ _. None) example_orders 2 link_datagram (example_addr 2) link_end = (Inr (), b)"
    and "cn_state b = Connected" and "ch_delivery_queue (cn_channels b ! 0) = [example_text 0]" and "length (cn_channels b) = 1"
proof -
  define c where "c = touch_recv_time 2 (record_bytes_received 2 (length link_datagram) link_end)"
  define h where "h = process_incoming_header example_orders 2 (pkt_header link_packet) c"
  have n: "length (cn_channels c) = 1" by (simp add: c_def link_end_fields)
  have "hearing 0 link_end c" by (rule hearing_frame) (simp_all add: c_def)
  also have "hearing 0 c h" unfolding h_def by (rule hearing_header) (simp add: n)
  finally have half: "receiver_half (cn_channels h ! 0) = receiver_half (Channel_new 0 example_config)" "length (cn_channels h) = 1"
    by (simp_all add: hearing_def link_end_fields)
  have "receive_datagram (\<lambda>_ _. None) example_orders 2 link_datagram (example_addr 2) link_end = handle_packet example_orders 2 link_packet c"
    unfolding link_datagram_def c_def
    by (rule receive_sealed) (simp_all add: link_packet_fits link_end_fields link_packet_def with_payload_def Packet_new_def
        link_config_def NetworkConfig_default_def channel_fits_def)
  also have "\<dots> = (Inr (), receive_payload_direct example_orders 2 0 link_wire h)"
    by (simp add: handle_packet_def c_def link_end_fields handle_connected_def h_def Let_def link_packet_def with_payload_def Packet_new_def)
  finally have r: "receive_datagram (\<lambda>_ _. None) example_orders 2 link_datagram (example_addr 2) link_end =
      (Inr (), receive_payload_direct example_orders 2 0 link_wire h)" .
  have "ch_delivery_queue (Channel_on_packet_received it 2 link_wire (cn_channels h ! 0)) = [example_text 0]" for it
    using half(1) unfolding link_wire_def receive_wire
    by (simp add: receiver_half_def Channel_new_def example_config_def receive_ordered_def deliver_contiguous.simps deliver_def Let_def)
  moreover have "cn_state h = Connected" by (simp add: h_def c_def link_end_fields)
  ultimately show ?thesis using that[OF r] half(2) by (simp add: receive_payload_direct_def)
qed


definition link_socket :: udp_socket where
  "link_socket = \<lparr>us_socket = \<lparr>os_incoming = [], os_send_errors = [], os_outgoing = []\<rparr>, us_stats = SocketStats_default\<rparr>"

lemma link_fresh: "fresh_link 0 example_text link_end link_socket link_end"
proof -
  have "\<exists>ident cfg. Channel_new 0 example_config = Channel_new ident cfg \<and> cc_delivery_mode cfg = ReliableOrdered"
    by (intro exI conjI, rule refl) (simp add: example_config_def)
  then show ?thesis
    by (auto simp: fresh_link_def link_end_fields link_socket_def link_config_def NetworkConfig_default_def
        DEFAULT_FRAGMENT_THRESHOLD_def example_text_def)
qed

lemma transfer_run:
  obtains a u b n where "(link_step 0 example_text)\<^sup>*\<^sup>* (link_end, link_socket, 0, link_end, 0, []) (a, u, 1, b, n, [example_text 0])"
proof -
  obtain a1 where a1: "update_tick example_orders 1 link_sent = Some (Inr (), a1)" "cn_state a1 = Connected"
    "cn_send_queue a1 = [link_packet]" "cn_encryption_state a1 = None" by (rule link_tick)
  obtain a2 u where a2: "process_send_queue (\<lambda>_ _. None) 1 (a1, link_socket) = (Inr (), a2, u)"
    "os_outgoing (us_socket u) = [(link_datagram, cn_remote_addr a1)]"
    using process_send_queue_ok[of a1 link_socket "\<lambda>_ _. None" 1] a1(3,4) link_packet_fits
    by (auto simp: link_socket_def datagram_def encrypt_outgoing_def link_datagram_def)
  obtain b1 where b1: "receive_datagram (\<lambda>_ _. None) example_orders 2 link_datagram (example_addr 2) link_end = (Inr (), b1)"
    "cn_state b1 = Connected" "ch_delivery_queue (cn_channels b1 ! 0) = [example_text 0]" "length (cn_channels b1) = 1"
    by (rule link_heard)
  obtain b2 where b2: "Connection_receive (of_nat 0) b1 = (Some (example_text 0), b2)"
    using b1(3,4) by (auto simp: Connection_receive_def receive_def)
  let ?step = "link_step 0 example_text"
  have "?step (link_end, link_socket, 0, link_end, 0, []) (link_sent, link_socket, Suc 0, link_end, 0, [])"
    by (rule link_step.message[where reliable = True]) (simp add: link_sent_fields(1))
  moreover have "?step (link_sent, link_socket, Suc 0, link_end, 0, []) (a1, link_socket, Suc 0, link_end, 0, [])"
    using a1(1,2) by (rule link_step.sender_tick)
  moreover have "?step (a1, link_socket, Suc 0, link_end, 0, []) (a2, u, Suc 0, link_end, 0, [])"
    using a2(1) refl by (rule link_step.sender_flush)
  moreover have "?step (a2, u, Suc 0, link_end, 0, []) (a2, u, Suc 0, b1, 0 + moved_on 0 link_end b1, [])"
    using b1(1) _ _ link_datagram_short _ b1(2)
  proof (rule link_step.hear)
    show "orders_ok example_orders" by (simp add: orders_ok_def example_orders_def is_iter_order_def)
    show "link_datagram \<in> network u" by (simp add: network_def a2(2))
    show "recent 0 example_text (Suc 0) 0 link_datagram" by (auto simp: recent_def)
  qed
  moreover have "?step (a2, u, Suc 0, b1, 0 + moved_on 0 link_end b1, []) (a2, u, Suc 0, b2, 0 + moved_on 0 link_end b1, [] @ [example_text 0])"
    using b2 by (rule link_step.take)
  ultimately have "?step\<^sup>*\<^sup>* (link_end, link_socket, 0, link_end, 0, []) (a2, u, 1, b2, 0 + moved_on 0 link_end b1, [example_text 0])"
    by (auto intro: converse_rtranclp_into_rtranclp)
  then show ?thesis by (rule that)
qed

section \<open>The property\<close>

text \<open>C1: two endpoints that stay connected, without encryption, and a network that loses, duplicates,
  delays and reorders datagrams and adds noise (from other addresses, or failing the checksum): what the
  receiving application takes from a reliable ordered channel, with what waits for it, is a subsequence of
  the messages the sender was given, in their order and unaltered, each at most once; and as long as the
  receiver has given up on no gap, it is all of the first \<open>n\<close>. The ticks, retransmissions and
  acknowledgements of both ends, whatever their order, do not change that. The channel starts out new with
  nothing of it queued, its messages are below the fragment threshold, and no datagram is heard that is half
  the sequence space old.\<close>

theorem end_to_end_ordered:
  assumes "fresh_link i msg a0 u0 b0"
    and "(link_step i msg)\<^sup>*\<^sup>* (a0, u0, 0, b0, 0, []) (a, u, N, b, n, taken)"
  shows "\<exists>ks. taken @ ch_delivery_queue (cn_channels b ! i) = map msg ks \<and> sorted_wrt (<) ks \<and>
    set ks \<subseteq> {..<N} \<and> (ch_gap_sequences_skipped (cn_channels b ! i) = 0 \<longrightarrow> ks = [0..<n])"
proof -
  have "link_ok i msg (a, u, N, b, n, taken)" using assms(2) fresh_link_ok[OF assms(1)] by (rule link_run_ok)
  then obtain ks where "inbox msg N n ks taken (cn_channels b ! i)" by (auto simp: receiving_def)
  then have d: "delivered_ok msg n ks (taken @ ch_delivery_queue (cn_channels b ! i))
      (ch_gap_sequences_skipped (cn_channels b ! i))" and n: "n \<le> N"
    by (auto simp: inbox_def dest: ordered_invD)
  then have "set ks \<subseteq> {..<N}" by (auto simp: delivered_ok_def)
  with d delivered_all[of msg n ks] show ?thesis by (auto simp: delivered_ok_def)
qed

theorem end_to_end_ordered_witness:
  "\<exists>a u b n ks. (link_step 0 example_text)\<^sup>*\<^sup>* (link_end, link_socket, 0, link_end, 0, []) (a, u, 1, b, n, [example_text 0]) \<and>
    [example_text 0] @ ch_delivery_queue (cn_channels b ! 0) = map example_text ks \<and> sorted_wrt (<) ks \<and> set ks \<subseteq> {..<1}"
proof -
  obtain a u b n where r: "(link_step 0 example_text)\<^sup>*\<^sup>* (link_end, link_socket, 0, link_end, 0, []) (a, u, 1, b, n, [example_text 0])"
    by (rule transfer_run)
  from end_to_end_ordered[OF link_fresh r] r show ?thesis by blast
qed

end
