(* ===== verification/Client.thy ===== *)
theory Client
  imports Connection
begin

text \<open>
  The client (\<open>gbnet/src/client.rs\<close>): a connection to one server over its own socket. The
  constructors of the client's state and events carry a prefix, since the connection's states have
  the same names. An update is \<open>None\<close> where the tick of its connection panics.
\<close>

section \<open>Data\<close>

datatype client_state = ClConnecting | ClChallengeResponse | ClConnected | ClDisconnecting | ClDisconnected

datatype client_event = EvConnected | EvDisconnected disconnect_reason | EvMessage u8 bytes

record net_client =
  cl_socket :: udp_socket
  cl_connection :: connection
  cl_server_addr :: socket_addr
  cl_connected_notified :: bool
  cl_state :: client_state
  cl_connect_time :: instant
  cl_disconnect_time :: "instant option"
  cl_disconnect_retry_count :: nat

definition client_send_raw :: "instant \<Rightarrow> packet_type \<Rightarrow> net_client \<Rightarrow> net_client" where
  "client_send_raw now t c =
     c\<lparr>cl_socket := send_raw_packet now (cl_server_addr c)
         (nc_protocol_id (cn_config (cl_connection c))) 0 t (cl_socket c)\<rparr>"

text \<open>
  \<open>NetClient::connect\<close>. What the operating system answers to bind and to the question for the
  local address, the random salt and the texts of the configuration errors are arguments.
\<close>

definition Client_connect :: "(bytes \<Rightarrow> encryption_state option) \<Rightarrow> (config_error \<Rightarrow> string) \<Rightarrow> u64 \<Rightarrow> instant \<Rightarrow>
    os_error + os_socket \<Rightarrow> os_error + socket_addr \<Rightarrow> socket_addr \<Rightarrow> network_config \<Rightarrow> socket_error + net_client" where
  "Client_connect enc_new error_text client_salt now bound local server_addr config =
     (case NetworkConfig_validate config of
        Inl e \<Rightarrow> Inl (SocketOther (error_text e))
      | Inr _ \<Rightarrow>
          (case UdpSocket_bind bound of
             Inl e \<Rightarrow> Inl e
           | Inr socket \<Rightarrow>
               (case local of
                  Inl e \<Rightarrow> Inl (SocketError_from e)
                | Inr local_addr \<Rightarrow>
                    Inr (client_send_raw now ConnectionRequest
                      \<lparr>cl_socket = socket,
                       cl_connection = Connection_new enc_new client_salt now config local_addr server_addr,
                       cl_server_addr = server_addr, cl_connected_notified = False, cl_state = ClConnecting,
                       cl_connect_time = now, cl_disconnect_time = None, cl_disconnect_retry_count = 0\<rparr>))))"

section \<open>Packets\<close>

definition on_connection :: "(connection \<Rightarrow> connection) \<Rightarrow> net_client \<Rightarrow> net_client" where
  "on_connection f c = c\<lparr>cl_connection := f (cl_connection c)\<rparr>"

text \<open>\<open>touch_recv_time\<close> and \<open>process_incoming_header\<close>, the start of every packet of a connected peer.\<close>

definition accept_header :: "map_orders \<Rightarrow> instant \<Rightarrow> packet_header \<Rightarrow> connection \<Rightarrow> connection" where
  "accept_header od now h c = process_incoming_header od now h (touch_recv_time now c)"

definition accept_payload :: "map_orders \<Rightarrow> instant \<Rightarrow> u8 \<Rightarrow> bool \<Rightarrow> packet \<Rightarrow> connection \<Rightarrow> connection" where
  "accept_payload od now channel is_fragment p c0 =
     (let c = accept_header od now (pkt_header p) c0
      in if is_fragment
         then (case process_fragment (od_fragments od) now (pkt_payload p) (cn_fragment_assembler c) of
                 (assembled, fa) \<Rightarrow>
                   let c1 = c\<lparr>cn_fragment_assembler := fa\<rparr>
                   in case assembled of
                        Some data \<Rightarrow> receive_payload_direct od now channel data c1
                      | None \<Rightarrow> c1)
         else receive_payload_direct od now channel (pkt_payload p) c)"

definition accept_batch :: "map_orders \<Rightarrow> instant \<Rightarrow> u8 \<Rightarrow> packet \<Rightarrow> connection \<Rightarrow> connection" where
  "accept_batch od now channel p c0 =
     (let c = accept_header od now (pkt_header p) c0
      in case unbatch_messages (pkt_payload p) of
           Some messages \<Rightarrow> fold (receive_payload_direct od now channel) messages c
         | None \<Rightarrow> c)"

definition accept_probe_ack :: "map_orders \<Rightarrow> instant \<Rightarrow> u16 \<Rightarrow> packet \<Rightarrow> connection \<Rightarrow> connection" where
  "accept_probe_ack od now probe_size p c0 =
     (let c = accept_header od now (pkt_header p) c0
      in c\<lparr>cn_mtu_discovery := on_probe_success (unat probe_size) (cn_mtu_discovery c)\<rparr>)"

text \<open>The packets of a connected client.\<close>

definition client_connected_packet :: "map_orders \<Rightarrow> instant \<Rightarrow> packet \<Rightarrow> net_client \<Rightarrow>
    net_client \<times> client_event list" where
  "client_connected_packet od now p c =
     (case pkt_type p of
        Disconnect reason \<Rightarrow>
          (c\<lparr>cl_state := ClDisconnected\<rparr>, [EvDisconnected (DisconnectReason_from reason)])
      | Payload channel is_fragment \<Rightarrow>
          (if length (pkt_payload p) >
              cc_max_message_size (nc_default_channel_config (cn_config (cl_connection c)))
           then (c, []) else (on_connection (accept_payload od now channel is_fragment p) c, []))
      | MtuProbe probe_size \<Rightarrow>
          (client_send_raw now (MtuProbeAck probe_size) (on_connection (accept_header od now (pkt_header p)) c), [])
      | MtuProbeAck probe_size \<Rightarrow> (on_connection (accept_probe_ack od now probe_size p) c, [])
      | BatchedPayload channel \<Rightarrow> (on_connection (accept_batch od now channel p) c, [])
      | KeepAlive \<Rightarrow> (on_connection (accept_header od now (pkt_header p)) c, [])
      | AckOnly \<Rightarrow> (on_connection (accept_header od now (pkt_header p)) c, [])
      | _ \<Rightarrow> (c, []))"

text \<open>\<open>handle_packet\<close>: the new client and the events it pushes.\<close>

definition client_handle_packet :: "map_orders \<Rightarrow> instant \<Rightarrow> packet \<Rightarrow> net_client \<Rightarrow>
    net_client \<times> client_event list" where
  "client_handle_packet od now p c =
     (case (cl_state c, pkt_type p) of
        (ClConnecting, ConnectionCookie cookie_high cookie_low) \<Rightarrow>
          (client_send_raw now (ConnectionRequestWithCookie cookie_high cookie_low) c, [])
      | (ClConnecting, ConnectionChallenge server_salt) \<Rightarrow>
          (client_send_raw now (ConnectionResponse (cn_client_salt (cl_connection c)))
             ((on_connection (set_server_salt server_salt) c)\<lparr>cl_state := ClChallengeResponse\<rparr>), [])
      | (ClChallengeResponse, ConnectionChallenge _) \<Rightarrow>
          (client_send_raw now (ConnectionResponse (cn_client_salt (cl_connection c))) c, [])
      | (ClChallengeResponse, ConnectionAccept) \<Rightarrow>
          (let c1 = on_connection (\<lambda>n. touch_recv_time now (set_state Connected n)) (c\<lparr>cl_state := ClConnected\<rparr>)
           in if \<not> cl_connected_notified c1 then (c1\<lparr>cl_connected_notified := True\<rparr>, [EvConnected]) else (c1, []))
      | (ClConnecting, ConnectionDeny reason) \<Rightarrow> (c\<lparr>cl_state := ClDisconnected\<rparr>, [EvDisconnected (Unknown reason)])
      | (ClChallengeResponse, ConnectionDeny reason) \<Rightarrow>
          (c\<lparr>cl_state := ClDisconnected\<rparr>, [EvDisconnected (Unknown reason)])
      | (ClConnected, _) \<Rightarrow> client_connected_packet od now p c
      | (ClDisconnecting, Disconnect reason) \<Rightarrow>
          (c\<lparr>cl_state := ClDisconnected\<rparr>, [EvDisconnected (DisconnectReason_from reason)])
      | _ \<Rightarrow> (c, []))"

lemma raw_frame [simp]:
  "pending_receives (cl_socket (client_send_raw now t c)) = pending_receives (cl_socket c)"
  "cl_connection (client_send_raw now t c) = cl_connection c" "cl_state (client_send_raw now t c) = cl_state c"
  "cl_server_addr (client_send_raw now t c) = cl_server_addr c"
  by (simp_all add: client_send_raw_def)

lemma on_connection_frame [simp]: "cl_socket (on_connection f c) = cl_socket c"
  "cl_connection (on_connection f c) = f (cl_connection c)" "cl_state (on_connection f c) = cl_state c"
  "cl_server_addr (on_connection f c) = cl_server_addr c"
  by (simp_all add: on_connection_def)

lemma connected_packet_receives:
  "pending_receives (cl_socket (fst (client_connected_packet od now p c))) = pending_receives (cl_socket c)"
  by (simp add: client_connected_packet_def split: packet_type.split)

lemma handle_packet_receives [simp]:
  "pending_receives (cl_socket (fst (client_handle_packet od now p c))) = pending_receives (cl_socket c)"
  by (cases "cl_state c"; cases "pkt_type p") (simp_all add: client_handle_packet_def connected_packet_receives Let_def)

section \<open>The update\<close>

definition client_datagram :: "map_orders \<Rightarrow> instant \<Rightarrow> bytes \<Rightarrow> socket_addr \<Rightarrow> net_client \<Rightarrow>
    net_client \<times> client_event list" where
  "client_datagram od now data addr c =
     (if addr \<noteq> cl_server_addr c then (c, [])
      else case open_packet (nc_protocol_id (cn_config (cl_connection c))) data of
             None \<Rightarrow> (c, [])
           | Some (p, len) \<Rightarrow> client_handle_packet od now p (on_connection (record_bytes_received now len) c))"

lemma datagram_receives [simp]:
  "pending_receives (cl_socket (fst (client_datagram od now data addr c))) = pending_receives (cl_socket c)"
  by (simp add: client_datagram_def split: option.split prod.split)

function client_receive_loop :: "map_orders \<Rightarrow> instant \<Rightarrow> net_client \<times> client_event list \<Rightarrow>
    net_client \<times> client_event list" where
  "client_receive_loop od now (c, events) =
     (case recv_from now (cl_socket c) of
        (Inl e, u) \<Rightarrow> (c\<lparr>cl_socket := u\<rparr>, events)
      | (Inr (data, addr), u) \<Rightarrow>
          (case client_datagram od now data addr (c\<lparr>cl_socket := u\<rparr>) of
             (c1, pushed) \<Rightarrow> client_receive_loop od now (c1, events @ pushed)))"
  by pat_completeness auto

termination
proof (relation "measure (\<lambda>(od, now, c, events). pending_receives (cl_socket c))", goal_cases)
  case (2 od now c events r u x data addr c1 pushed)
  then have "pending_receives (cl_socket c1) = pending_receives u"
    using datagram_receives[of od now data addr "c\<lparr>cl_socket := u\<rparr>"] by (metis fst_conv net_client.select_convs(1) net_client.surjective net_client.update_convs(1))
  with 2 show ?case by (auto dest!: pending_receives_recv[OF sym])
qed simp

declare client_receive_loop.simps [simp del]

text \<open>The retries of a client that is disconnecting; the flag tells that the update ends here.\<close>

definition client_disconnecting :: "instant \<Rightarrow> net_client \<Rightarrow> bool \<times> net_client \<times> client_event list" where
  "client_disconnecting now c =
     (let config = cn_config (cl_connection c)
      in if cl_state c \<noteq> ClDisconnecting then (False, c, [])
         else case cl_disconnect_time c of
                None \<Rightarrow> (False, c, [])
              | Some disc_time \<Rightarrow>
                  if duration_since now disc_time > nc_disconnect_retry_timeout config
                  then if cl_disconnect_retry_count c \<ge> nc_disconnect_retries config
                       then (True, c\<lparr>cl_state := ClDisconnected\<rparr>, [EvDisconnected Requested])
                       else (False, client_send_raw now (Disconnect DISCONNECT_REQUESTED)
                              (c\<lparr>cl_disconnect_retry_count := cl_disconnect_retry_count c + 1,
                                 cl_disconnect_time := Some now\<rparr>), [])
                  else (False, c, []))"

text \<open>The packets of the queue go out one by one; one that cannot be serialized is dropped.\<close>

definition flush_packet :: "instant \<Rightarrow> socket_addr \<Rightarrow> packet \<Rightarrow> connection \<times> udp_socket \<Rightarrow> connection \<times> udp_socket" where
  "flush_packet now addr p st =
     (case st of (n, u) \<Rightarrow>
        case seal_packet p of
          None \<Rightarrow> st
        | Some data \<Rightarrow>
            (case send_to now data addr u of
               (Inl _, u1) \<Rightarrow>
                 (n\<lparr>cn_stats := (cn_stats n)\<lparr>ns_send_errors := ns_send_errors (cn_stats n) + 1\<rparr>\<rparr>, u1)
             | (Inr _, u1) \<Rightarrow> (record_bytes_sent now (length data) n, u1)))"

definition flush_packets :: "instant \<Rightarrow> socket_addr \<Rightarrow> connection \<times> udp_socket \<Rightarrow> connection \<times> udp_socket" where
  "flush_packets now addr st =
     (case drain_send_queue (fst st) of
        (packets, n) \<Rightarrow> fold (flush_packet now addr) packets (n, snd st))"

text \<open>\<open>while let Some(data) = connection.receive(ch)\<close>\<close>

lemma receive_shorter:
  "Connection_receive ch n = (Some data, n') \<Longrightarrow>
   length (ch_delivery_queue (cn_channels n' ! unat ch)) < length (ch_delivery_queue (cn_channels n ! unat ch))"
  by (auto simp: Connection_receive_def Channel.receive_def split: if_splits list.splits)

function receive_all :: "u8 \<Rightarrow> connection \<Rightarrow> bytes list \<times> connection" where
  "receive_all ch n =
     (case Connection_receive ch n of
        (None, n1) \<Rightarrow> ([], n1)
      | (Some data, n1) \<Rightarrow> (case receive_all ch n1 of (rest, n2) \<Rightarrow> (data # rest, n2)))"
  by auto

termination
  by (relation "measure (\<lambda>(ch, n). length (ch_delivery_queue (cn_channels n ! unat ch)))")
    (auto dest!: receive_shorter[OF sym])

declare receive_all.simps [simp del]

text \<open>\<open>for ch in 0..channel_count as u8\<close>: the count is cast to \<open>u8\<close>, so 256 channels give an empty range.\<close>

definition channel_range :: "connection \<Rightarrow> u8 list" where
  "channel_range n = map of_nat [0..<unat (of_nat (length (cn_channels n)) :: u8)]"

fun deliver_channels :: "u8 list \<Rightarrow> connection \<Rightarrow> (u8 \<times> bytes) list \<times> connection" where
  "deliver_channels [] n = ([], n)"
| "deliver_channels (ch # chs) n =
     (case receive_all ch n of (datas, n1) \<Rightarrow>
        case deliver_channels chs n1 of (rest, n2) \<Rightarrow> (map (Pair ch) datas @ rest, n2))"

definition client_connected_tick :: "map_orders \<Rightarrow> instant \<Rightarrow> net_client \<Rightarrow> (net_client \<times> client_event list) option" where
  "client_connected_tick od now c =
     (case update_tick od now (cl_connection c) of
        None \<Rightarrow> None
      | Some (Inl _, n) \<Rightarrow>
          Some (c\<lparr>cl_connection := n, cl_state := ClDisconnected\<rparr>, [EvDisconnected ReasonTimeout])
      | Some (Inr _, n) \<Rightarrow>
          (case flush_packets now (cl_server_addr c) (n, cl_socket c) of
             (n1, u1) \<Rightarrow>
               (case deliver_channels (channel_range n1) n1 of
                  (messages, n2) \<Rightarrow>
                    Some (c\<lparr>cl_connection := n2, cl_socket := u1\<rparr>,
                      map (\<lambda>(ch, data). EvMessage ch data) messages))))"

definition Client_update :: "map_orders \<Rightarrow> instant \<Rightarrow> net_client \<Rightarrow> (net_client \<times> client_event list) option" where
  "Client_update od now c =
     (if cl_state c \<in> {ClConnecting, ClChallengeResponse} \<and>
         duration_since now (cl_connect_time c) > nc_connection_timeout (cn_config (cl_connection c))
      then Some (c\<lparr>cl_state := ClDisconnected\<rparr>, [EvDisconnected ReasonTimeout])
      else
        case client_disconnecting now c of
          (True, c1, events) \<Rightarrow> Some (c1, events)
        | (False, c1, events) \<Rightarrow>
            (case client_receive_loop od now (c1, events) of
               (c2, events2) \<Rightarrow>
                 if cl_state c2 = ClConnected
                 then map_option (\<lambda>(c3, more). (c3, events2 @ more)) (client_connected_tick od now c2)
                 else Some (c2, events2)))"

section \<open>Actions\<close>

definition client_send_with_reliability :: "u8 \<Rightarrow> bytes \<Rightarrow> bool \<Rightarrow> net_client \<Rightarrow>
    (connection_error + unit) \<times> net_client" where
  "client_send_with_reliability channel data reliable c =
     (if cl_state c \<noteq> ClConnected then (Inl NotConnected, c)
      else case Connection_send channel data reliable (cl_connection c) of
             (r, n) \<Rightarrow> (r, c\<lparr>cl_connection := n\<rparr>))"

definition client_send :: "u8 \<Rightarrow> bytes \<Rightarrow> net_client \<Rightarrow> (connection_error + unit) \<times> net_client" where
  "client_send channel data c = client_send_with_reliability channel data True c"

definition reconnect :: "instant \<Rightarrow> net_client \<Rightarrow> net_client" where
  "reconnect now c =
     client_send_raw now ConnectionRequest
       ((on_connection (\<lambda>n. (set_state Disconnected (reset_connection n))\<lparr>cn_stats := NetworkStats_default\<rparr>) c)
        \<lparr>cl_connected_notified := False, cl_state := ClConnecting, cl_connect_time := now,
         cl_disconnect_time := None, cl_disconnect_retry_count := 0\<rparr>)"

definition client_disconnect :: "instant \<Rightarrow> net_client \<Rightarrow> net_client" where
  "client_disconnect now c =
     (client_send_raw now (Disconnect DISCONNECT_REQUESTED) c)
       \<lparr>cl_state := ClDisconnecting, cl_disconnect_time := Some now, cl_disconnect_retry_count := 0\<rparr>"

definition client_shutdown :: "instant \<Rightarrow> net_client \<Rightarrow> net_client" where
  "client_shutdown now c =
     (if cl_state c = ClConnected \<or> cl_state c = ClDisconnecting
      then (client_send_raw now (Disconnect DISCONNECT_REQUESTED) c)\<lparr>cl_state := ClDisconnected\<rparr>
      else c)"

definition client_visible_state :: "net_client \<Rightarrow> connection_state" where
  "client_visible_state c =
     (case cl_state c of
        ClConnecting \<Rightarrow> Connecting | ClChallengeResponse \<Rightarrow> ChallengeResponse | ClConnected \<Rightarrow> Connected
      | ClDisconnecting \<Rightarrow> Disconnecting | ClDisconnected \<Rightarrow> Disconnected)"

end
