(* ===== verification/Server.thy ===== *)
theory Server
  imports Client
begin

text \<open>
  The server (\<open>gbnet/src/server.rs\<close>): the table of connections with its pending and closing
  clients, the handshake with salts and stateless cookies, and connection migration.

  What a call takes from outside is in its \<open>server_env\<close>: the clock and the wall clock, the
  socket's own address, the iteration orders of the maps and the optional encryption. \<open>random()\<close> is
  a number drawn for the packet being handled (at most one is drawn). An update is \<open>None\<close> where the
  tick of a connection panics.
\<close>

section \<open>Data\<close>

datatype server_event =
    ClientConnected socket_addr
  | ClientDisconnected socket_addr disconnect_reason
  | ServerMessage socket_addr u8 bytes
  | ClientMigrated socket_addr socket_addr

record pending_connection =
  pc_server_salt :: u64
  pc_created_at :: instant

definition MIGRATION_COOLDOWN :: duration where
  "MIGRATION_COOLDOWN = from_secs 5"

record net_server =
  sv_socket :: udp_socket
  sv_connections :: "(socket_addr, connection) hash_map"
  sv_pending :: "(socket_addr, pending_connection) hash_map"
  sv_disconnecting :: "(socket_addr, connection) hash_map"
  sv_config :: network_config
  sv_rate_limiter :: rate_limiter
  sv_cookie_secret :: bytes
  sv_migration_cooldowns :: "(u64, instant) hash_map"

record server_env =
  se_now :: instant
  se_unix_secs :: u64
  se_local_addr :: "os_error + socket_addr"
  se_addr_order :: "socket_addr iter_order"
  se_orders :: "socket_addr \<Rightarrow> map_orders"
  se_enc_new :: "bytes \<Rightarrow> encryption_state option"
  se_seal :: "bytes \<Rightarrow> bytes \<Rightarrow> bytes option"
  se_open :: "bytes \<Rightarrow> bytes \<Rightarrow> bytes option"

text \<open>\<open>NetServer::bind\<close>, with the 32 random bytes it draws for the secret.\<close>

definition cookie_secret_of :: "bytes \<Rightarrow> bytes" where
  "cookie_secret_of rnd = map (\<lambda>i. rnd ! i + of_nat i) [0..<32]"

definition Server_bind :: "(config_error \<Rightarrow> string) \<Rightarrow> bytes \<Rightarrow> os_error + os_socket \<Rightarrow> network_config \<Rightarrow>
    socket_error + net_server" where
  "Server_bind error_text rnd bound config =
     (case NetworkConfig_validate config of
        Inl e \<Rightarrow> Inl (SocketOther (error_text e))
      | Inr _ \<Rightarrow>
          (case UdpSocket_bind bound of
             Inl e \<Rightarrow> Inl e
           | Inr socket \<Rightarrow>
               Inr \<lparr>sv_socket = socket, sv_connections = [], sv_pending = [], sv_disconnecting = [],
                    sv_config = config,
                    sv_rate_limiter = ConnectionRateLimiter_new (nc_rate_limit_per_second config),
                    sv_cookie_secret = cookie_secret_of rnd, sv_migration_cooldowns = []\<rparr>))"

definition server_send_raw :: "instant \<Rightarrow> socket_addr \<Rightarrow> packet_type \<Rightarrow> net_server \<Rightarrow> net_server" where
  "server_send_raw now addr t s =
     s\<lparr>sv_socket := send_raw_packet now addr (nc_protocol_id (sv_config s)) 0 t (sv_socket s)\<rparr>"

definition put_connection :: "socket_addr \<Rightarrow> connection \<Rightarrow> net_server \<Rightarrow> net_server" where
  "put_connection addr n s = s\<lparr>sv_connections := hm_insert addr n (sv_connections s)\<rparr>"

section \<open>The handshake\<close>

text \<open>The challenge of a client the server does not know yet, the end of both requests.\<close>

definition challenge_client :: "server_env \<Rightarrow> u64 \<Rightarrow> socket_addr \<Rightarrow> net_server \<Rightarrow> net_server" where
  "challenge_client env rnd addr s =
     (case hm_get (sv_pending s) addr of
        Some pending \<Rightarrow> server_send_raw (se_now env) addr (ConnectionChallenge (pc_server_salt pending)) s
      | None \<Rightarrow>
          if hm_len (sv_pending s) \<ge> nc_max_pending (sv_config s) then s
          else if hm_len (sv_connections s) \<ge> nc_max_clients (sv_config s)
          then server_send_raw (se_now env) addr (ConnectionDeny DENY_SERVER_FULL) s
          else
            let s1 = server_send_raw (se_now env) addr (ConnectionChallenge rnd) s
            in s1\<lparr>sv_pending := hm_insert addr \<lparr>pc_server_salt = rnd, pc_created_at = se_now env\<rparr> (sv_pending s1)\<rparr>)"

definition handle_request :: "server_env \<Rightarrow> u64 \<Rightarrow> socket_addr \<Rightarrow> net_server \<Rightarrow> net_server" where
  "handle_request env rnd addr s0 =
     (case allow (se_now env) addr (sv_rate_limiter s0) of
        (ok, rl) \<Rightarrow>
          let s = s0\<lparr>sv_rate_limiter := rl\<rparr>
          in if \<not> ok then s
             else if hm_contains_key (sv_connections s) addr then server_send_raw (se_now env) addr ConnectionAccept s
             else if nc_enable_stateless_cookie (sv_config s)
             then let timestamp = se_unix_secs env div DEFAULT_COOKIE_WINDOW_SECS;
                      cookie = generate_cookie addr timestamp (sv_cookie_secret s)
                  in case cookie_to_u64_pair cookie of
                       (high, low) \<Rightarrow> server_send_raw (se_now env) addr (ConnectionCookie high low) s
             else challenge_client env rnd addr s)"

definition handle_cookie_request :: "server_env \<Rightarrow> u64 \<Rightarrow> u64 \<Rightarrow> u64 \<Rightarrow> socket_addr \<Rightarrow> net_server \<Rightarrow> net_server" where
  "handle_cookie_request env rnd cookie_high cookie_low addr s0 =
     (case allow (se_now env) addr (sv_rate_limiter s0) of
        (ok, rl) \<Rightarrow>
          let s = s0\<lparr>sv_rate_limiter := rl\<rparr>
          in if \<not> ok then s
             else if hm_contains_key (sv_connections s) addr then server_send_raw (se_now env) addr ConnectionAccept s
             else if validate_cookie (cookie_from_u64_pair cookie_high cookie_low) addr (se_unix_secs env)
                       (sv_cookie_secret s) DEFAULT_COOKIE_WINDOW_SECS = Some True
             then challenge_client env rnd addr s
             else s)"

definition unwrap_or :: "'e + 'a \<Rightarrow> 'a \<Rightarrow> 'a" where
  "unwrap_or r d = (case r of Inl _ \<Rightarrow> d | Inr x \<Rightarrow> x)"

definition handle_response :: "server_env \<Rightarrow> u64 \<Rightarrow> u64 \<Rightarrow> socket_addr \<Rightarrow> net_server \<Rightarrow>
    net_server \<times> server_event list" where
  "handle_response env rnd client_salt addr s0 =
     (if hm_contains_key (sv_connections s0) addr
      then (server_send_raw (se_now env) addr ConnectionAccept s0, [])
      else case hm_get (sv_pending s0) addr of
             None \<Rightarrow> (s0, [])
           | Some pending \<Rightarrow>
               let s = s0\<lparr>sv_pending := hm_remove addr (sv_pending s0)\<rparr>
               in if client_salt = 0 \<or> client_salt = pc_server_salt pending
                  then (server_send_raw (se_now env) addr (ConnectionDeny DENY_INVALID_CHALLENGE) s, [])
                  else
                    let s1 = server_send_raw (se_now env) addr ConnectionAccept s;
                        local_addr = unwrap_or (se_local_addr env) addr;
                        conn = Connection_new (se_enc_new env) rnd (se_now env) (sv_config s1) local_addr addr
                    in (put_connection addr (touch_recv_time (se_now env) (set_state Connected conn)) s1,
                        [ClientConnected addr]))"

section \<open>Migration\<close>

definition may_migrate :: "instant \<Rightarrow> packet_header \<Rightarrow> (u64, instant) hash_map \<Rightarrow> connection \<Rightarrow> bool" where
  "may_migrate now h cooldowns n \<longleftrightarrow>
     cn_state n = Connected \<and>
     \<bar>sequence_diff (ph_sequence h) (cn_remote_sequence n)\<bar> \<le> uint (nc_max_sequence_distance (cn_config n)) \<and>
     (case hm_get cooldowns (migration_token n) of
        Some prev \<Rightarrow> duration_since now prev \<ge> MIGRATION_COOLDOWN
      | None \<Rightarrow> True)"

definition migration_source :: "server_env \<Rightarrow> packet_header \<Rightarrow> net_server \<Rightarrow> socket_addr option" where
  "migration_source env h s =
     List.find (\<lambda>addr. case hm_get (sv_connections s) addr of
         Some n \<Rightarrow> may_migrate (se_now env) h (sv_migration_cooldowns s) n
       | None \<Rightarrow> False)
       (hm_keys (se_addr_order env) (sv_connections s))"

definition try_migrate :: "server_env \<Rightarrow> socket_addr \<Rightarrow> packet_header \<Rightarrow> net_server \<Rightarrow>
    socket_addr option \<times> net_server" where
  "try_migrate env new_addr h s =
     (if \<not> nc_enable_connection_migration (sv_config s) then (None, s)
      else case migration_source env h s of
             None \<Rightarrow> (None, s)
           | Some old_addr \<Rightarrow>
               (case hm_get (sv_connections s) old_addr of
                  None \<Rightarrow> (None, s)
                | Some conn \<Rightarrow>
                    (Some old_addr, s\<lparr>
                      sv_connections := hm_insert new_addr (set_remote_addr new_addr conn)
                        (hm_remove old_addr (sv_connections s)),
                      sv_migration_cooldowns := hm_insert (migration_token conn) (se_now env)
                        (sv_migration_cooldowns s)\<rparr>)))"

section \<open>Packets of connected clients\<close>

definition on_client :: "socket_addr \<Rightarrow> (connection \<Rightarrow> connection) \<Rightarrow> net_server \<Rightarrow> net_server" where
  "on_client addr f s =
     (case hm_get (sv_connections s) addr of
        None \<Rightarrow> s
      | Some n \<Rightarrow> put_connection addr (f n) s)"

definition handle_payload :: "server_env \<Rightarrow> socket_addr \<Rightarrow> u8 \<Rightarrow> bool \<Rightarrow> packet \<Rightarrow> net_server \<Rightarrow>
    net_server \<times> server_event list" where
  "handle_payload env addr channel is_fragment p s0 =
     (case (if hm_contains_key (sv_connections s0) addr then (True, s0, [])
            else case try_migrate env addr (pkt_header p) s0 of
                   (Some old_addr, s) \<Rightarrow> (True, s, [ClientMigrated old_addr addr])
                 | (None, s) \<Rightarrow> (False, s, [])) of
        (known, s, events) \<Rightarrow>
          if \<not> known then (s, events)
          else case hm_get (sv_connections s) addr of
                 None \<Rightarrow> (s, events)
               | Some n \<Rightarrow>
                   if length (pkt_payload p) > cc_max_message_size (nc_default_channel_config (cn_config n))
                   then (s, events)
                   else (put_connection addr
                           (accept_payload (se_orders env addr) (se_now env) channel is_fragment p n) s, events))"

definition handle_disconnect :: "server_env \<Rightarrow> u8 \<Rightarrow> socket_addr \<Rightarrow> net_server \<Rightarrow> net_server \<times> server_event list" where
  "handle_disconnect env reason addr s =
     (if hm_contains_key (sv_connections s) addr
      then (server_send_raw (se_now env) addr (Disconnect DISCONNECT_REQUESTED)
              (s\<lparr>sv_connections := hm_remove addr (sv_connections s)\<rparr>),
            [ClientDisconnected addr (DisconnectReason_from reason)])
      else (s, []))"

definition handle_server_packet :: "server_env \<Rightarrow> u64 \<Rightarrow> socket_addr \<Rightarrow> packet \<Rightarrow> net_server \<Rightarrow>
    net_server \<times> server_event list" where
  "handle_server_packet env rnd addr p s =
     (let od = se_orders env addr; now = se_now env
      in case pkt_type p of
           ConnectionRequest \<Rightarrow> (handle_request env rnd addr s, [])
         | ConnectionRequestWithCookie high low \<Rightarrow> (handle_cookie_request env rnd high low addr s, [])
         | ConnectionResponse client_salt \<Rightarrow> handle_response env rnd client_salt addr s
         | Disconnect reason \<Rightarrow> handle_disconnect env reason addr s
         | Payload channel is_fragment \<Rightarrow> handle_payload env addr channel is_fragment p s
         | BatchedPayload channel \<Rightarrow> (on_client addr (accept_batch od now channel p) s, [])
         | MtuProbe probe_size \<Rightarrow>
             (if hm_contains_key (sv_connections s) addr
              then server_send_raw now addr (MtuProbeAck probe_size)
                     (on_client addr (accept_header od now (pkt_header p)) s)
              else s, [])
         | MtuProbeAck probe_size \<Rightarrow> (on_client addr (accept_probe_ack od now probe_size p) s, [])
         | KeepAlive \<Rightarrow> (on_client addr (accept_header od now (pkt_header p)) s, [])
         | AckOnly \<Rightarrow> (on_client addr (accept_header od now (pkt_header p)) s, [])
         | _ \<Rightarrow> (s, []))"

section \<open>The update\<close>

text \<open>The loop that takes everything from the socket before any packet is handled.\<close>

definition server_datagram :: "instant \<Rightarrow> bytes \<Rightarrow> socket_addr \<Rightarrow> net_server \<Rightarrow>
    net_server \<times> (socket_addr \<times> packet) list" where
  "server_datagram now data addr s =
     (case open_packet (nc_protocol_id (sv_config s)) data of
        None \<Rightarrow> (s, [])
      | Some (p, len) \<Rightarrow> (on_client addr (record_bytes_received now len) s, [(addr, p)]))"

lemma socket_on_client [simp]: "sv_socket (on_client addr f s) = sv_socket s"
  by (simp add: on_client_def put_connection_def split: option.split)

lemma socket_datagram: "server_datagram now data addr s = (s', ps) \<Longrightarrow> sv_socket s' = sv_socket s"
  by (auto simp: server_datagram_def split: option.splits)

function server_receive_loop :: "instant \<Rightarrow> net_server \<times> (socket_addr \<times> packet) list \<Rightarrow>
    net_server \<times> (socket_addr \<times> packet) list" where
  "server_receive_loop now (s, incoming) =
     (case recv_from now (sv_socket s) of
        (Inl e, u) \<Rightarrow> (s\<lparr>sv_socket := u\<rparr>, incoming)
      | (Inr (data, addr), u) \<Rightarrow>
          (case server_datagram now data addr (s\<lparr>sv_socket := u\<rparr>) of
             (s1, taken) \<Rightarrow> server_receive_loop now (s1, incoming @ taken)))"
  by pat_completeness auto

termination
  by (relation "measure (\<lambda>(now, s, incoming). pending_receives (sv_socket s))")
    (auto dest!: socket_datagram[OF sym] pending_receives_recv[OF sym])

declare server_receive_loop.simps [simp del]

text \<open>The packets in the order of their arrival, each with the number drawn for it.\<close>

fun handle_incoming :: "server_env \<Rightarrow> (nat \<Rightarrow> u64) \<Rightarrow> nat \<Rightarrow> (socket_addr \<times> packet) list \<Rightarrow> net_server \<Rightarrow>
    net_server \<times> server_event list" where
  "handle_incoming env rnds k [] s = (s, [])"
| "handle_incoming env rnds k ((addr, p) # ps) s =
     (case handle_server_packet env (rnds k) addr p s of
        (s1, events) \<Rightarrow>
          case handle_incoming env rnds (k + 1) ps s1 of (s2, later) \<Rightarrow> (s2, events @ later))"

type_synonym sweep = "net_server \<times> server_event list \<times> (socket_addr \<times> disconnect_reason) list"

definition tick_client :: "server_env \<Rightarrow> socket_addr \<Rightarrow> sweep \<Rightarrow> sweep option" where
  "tick_client env addr st =
     (case st of (s, events, disconnected) \<Rightarrow>
        case hm_get (sv_connections s) addr of
          None \<Rightarrow> Some st
        | Some conn \<Rightarrow>
            (case update_tick (se_orders env addr) (se_now env) conn of
               None \<Rightarrow> None
             | Some (Inl _, n) \<Rightarrow> Some (put_connection addr n s, events, disconnected @ [(addr, ReasonTimeout)])
             | Some (Inr _, n) \<Rightarrow>
                 (case flush_packets (se_now env) addr (n, sv_socket s) of
                    (n1, u) \<Rightarrow>
                      (case deliver_channels (channel_range n1) n1 of
                         (messages, n2) \<Rightarrow>
                           Some (put_connection addr n2 (s\<lparr>sv_socket := u\<rparr>),
                             events @ map (\<lambda>(ch, data). ServerMessage addr ch data) messages, disconnected)))))"

fun tick_clients :: "server_env \<Rightarrow> socket_addr list \<Rightarrow> sweep \<Rightarrow> sweep option" where
  "tick_clients env [] st = Some st"
| "tick_clients env (addr # addrs) st = Option.bind (tick_client env addr st) (tick_clients env addrs)"

definition drop_client :: "socket_addr \<times> disconnect_reason \<Rightarrow> net_server \<times> server_event list \<Rightarrow>
    net_server \<times> server_event list" where
  "drop_client d st =
     (case (d, st) of ((addr, reason), (s, events)) \<Rightarrow>
        (s\<lparr>sv_connections := hm_remove addr (sv_connections s)\<rparr>, events @ [ClientDisconnected addr reason]))"

text \<open>The connections that are closing do their own input and output.\<close>

definition update_closing :: "server_env \<Rightarrow> socket_addr \<Rightarrow> net_server \<times> socket_addr list \<Rightarrow>
    (net_server \<times> socket_addr list) option" where
  "update_closing env addr st =
     (case st of (s, finished) \<Rightarrow>
        case hm_get (sv_disconnecting s) addr of
          None \<Rightarrow> Some st
        | Some conn \<Rightarrow>
            map_option (\<lambda>(_, n, u).
                (s\<lparr>sv_socket := u, sv_disconnecting := hm_insert addr n (sv_disconnecting s)\<rparr>,
                 if cn_state n = Disconnected then finished @ [addr] else finished))
              (Connection_update (se_seal env) (se_open env) (se_orders env addr) (se_now env) (conn, sv_socket s)))"

fun update_all_closing :: "server_env \<Rightarrow> socket_addr list \<Rightarrow> net_server \<times> socket_addr list \<Rightarrow>
    (net_server \<times> socket_addr list) option" where
  "update_all_closing env [] st = Some st"
| "update_all_closing env (addr # addrs) st = Option.bind (update_closing env addr st) (update_all_closing env addrs)"

definition expire_server :: "instant \<Rightarrow> net_server \<Rightarrow> net_server" where
  "expire_server now s =
     s\<lparr>sv_pending := hm_retain (\<lambda>_ p. duration_since now (pc_created_at p) <
           nc_connection_request_timeout (sv_config s)) (sv_pending s),
       sv_rate_limiter := limiter_cleanup now (sv_rate_limiter s),
       sv_migration_cooldowns := hm_retain (\<lambda>_ prev. duration_since now prev < MIGRATION_COOLDOWN)
         (sv_migration_cooldowns s)\<rparr>"

definition Server_update :: "server_env \<Rightarrow> (nat \<Rightarrow> u64) \<Rightarrow> net_server \<Rightarrow> (net_server \<times> server_event list) option" where
  "Server_update env rnds s0 =
     (case server_receive_loop (se_now env) (s0, []) of
        (s1, incoming) \<Rightarrow>
          (case handle_incoming env rnds 0 incoming s1 of
             (s2, events) \<Rightarrow>
               Option.bind (tick_clients env (hm_keys (se_addr_order env) (sv_connections s2)) (s2, events, []))
                 (\<lambda>(s3, events3, disconnected).
                    case fold drop_client disconnected (s3, events3) of
                      (s4, events4) \<Rightarrow>
                        map_option (\<lambda>(s5, finished).
                            (expire_server (se_now env)
                              (s5\<lparr>sv_disconnecting := fold hm_remove finished (sv_disconnecting s5)\<rparr>), events4))
                          (update_all_closing env (hm_keys (se_addr_order env) (sv_disconnecting s4)) (s4, [])))))"

section \<open>Actions\<close>

definition server_send_with_reliability :: "socket_addr \<Rightarrow> u8 \<Rightarrow> bytes \<Rightarrow> bool \<Rightarrow> net_server \<Rightarrow>
    (connection_error + unit) \<times> net_server" where
  "server_send_with_reliability addr channel data reliable s =
     (case hm_get (sv_connections s) addr of
        None \<Rightarrow> (Inl NotConnected, s)
      | Some n \<Rightarrow>
          (case Connection_send channel data reliable n of
             (r, n1) \<Rightarrow> (r, put_connection addr n1 s)))"

definition server_send :: "socket_addr \<Rightarrow> u8 \<Rightarrow> bytes \<Rightarrow> net_server \<Rightarrow> (connection_error + unit) \<times> net_server" where
  "server_send addr channel data s = server_send_with_reliability addr channel data True s"

definition broadcast :: "socket_addr iter_order \<Rightarrow> u8 \<Rightarrow> bytes \<Rightarrow> socket_addr option \<Rightarrow> net_server \<Rightarrow> net_server" where
  "broadcast it channel data except s0 =
     fold (\<lambda>addr s. if except = Some addr then s else snd (server_send addr channel data s))
       (hm_keys it (sv_connections s0)) s0"

definition server_disconnect :: "server_env \<Rightarrow> socket_addr \<Rightarrow> u8 \<Rightarrow> net_server \<Rightarrow> net_server option" where
  "server_disconnect env addr reason s =
     (case hm_get (sv_connections s) addr of
        None \<Rightarrow> Some s
      | Some conn \<Rightarrow>
          map_option (\<lambda>(_, n, u).
              s\<lparr>sv_connections := hm_remove addr (sv_connections s), sv_socket := u,
                sv_disconnecting := hm_insert addr n (sv_disconnecting s)\<rparr>)
            (Connection_update (se_seal env) (se_open env) (se_orders env addr) (se_now env)
              (snd (disconnect (se_now env) reason conn), sv_socket s)))"

fun disconnect_all :: "server_env \<Rightarrow> u8 \<Rightarrow> socket_addr list \<Rightarrow> net_server \<Rightarrow> net_server option" where
  "disconnect_all env reason [] s = Some s"
| "disconnect_all env reason (addr # addrs) s =
     Option.bind (server_disconnect env addr reason s) (disconnect_all env reason addrs)"

definition server_shutdown :: "server_env \<Rightarrow> net_server \<Rightarrow> net_server option" where
  "server_shutdown env s =
     disconnect_all env DISCONNECT_REQUESTED (hm_keys (se_addr_order env) (sv_connections s)) s"

end
