(* ===== verification/Simulation.thy ===== *)
theory Simulation
  imports Prelude
begin

text \<open>
  Refinement of an automaton over observable labels: a machine whose operations may fail
  (\<open>None\<close>, a panic) and emit labels, the automaton that is its specification, and the law under
  which the machine never fails and every run of it is a run of the automaton.
\<close>

fun replay :: "('a \<Rightarrow> 'l \<Rightarrow> 'a option) \<Rightarrow> 'a \<Rightarrow> 'l list \<Rightarrow> 'a option" where
  "replay astep a [] = Some a"
| "replay astep a (l # ls) = Option.bind (astep a l) (\<lambda>a1. replay astep a1 ls)"

fun trace_run :: "('op \<Rightarrow> 'c \<Rightarrow> ('c \<times> 'l list) option) \<Rightarrow> 'op list \<Rightarrow> 'c \<Rightarrow> ('c \<times> 'l list) option" where
  "trace_run cstep [] c = Some (c, [])"
| "trace_run cstep (op # ops) c =
     Option.bind (cstep op c) (\<lambda>(c1, ls). map_option (apsnd ((@) ls)) (trace_run cstep ops c1))"

lemma replay_append [simp]:
  "replay astep a (ls @ ms) = Option.bind (replay astep a ls) (\<lambda>a1. replay astep a1 ms)"
  by (induction ls arbitrary: a) (simp_all split: bind_split)

lemma replay_prefix: "replay astep a (ls @ ms) = Some b \<Longrightarrow> \<exists>a1. replay astep a ls = Some a1"
  by (auto split: bind_splits)

locale simulation =
  fixes ok_op :: "'op \<Rightarrow> bool"
    and cstep :: "'op \<Rightarrow> 'c \<Rightarrow> ('c \<times> 'l list) option"
    and inv :: "'c \<Rightarrow> bool"
    and view :: "'c \<Rightarrow> 'a"
    and astep :: "'a \<Rightarrow> 'l \<Rightarrow> 'a option"
  assumes simulates: "ok_op op \<Longrightarrow> inv c \<Longrightarrow>
    \<exists>c' ls. cstep op c = Some (c', ls) \<and> inv c' \<and> replay astep (view c) ls = Some (view c')"
begin

lemma run_simulates:
  "list_all ok_op ops \<Longrightarrow> inv c \<Longrightarrow>
   \<exists>c' ls. trace_run cstep ops c = Some (c', ls) \<and> inv c' \<and> replay astep (view c) ls = Some (view c')"
proof (induction ops arbitrary: c)
  case (Cons op ops)
  then obtain c1 ms where s: "cstep op c = Some (c1, ms)" "inv c1" "replay astep (view c) ms = Some (view c1)"
    using simulates by fastforce
  with Cons.IH[of c1] Cons.prems(1) show ?case by (auto split: prod.splits)
qed simp

text \<open>A run that is observed is one the automaton accepts; what it never accepts is never shown.\<close>

lemma run_observed:
  assumes "list_all ok_op ops" and "inv c" and "trace_run cstep ops c = Some (c', ls)"
  shows "inv c'" and "replay astep (view c) ls = Some (view c')"
  using run_simulates[OF assms(1,2)] assms(3) by auto

lemma run_safe:
  assumes "list_all ok_op ops" and "inv c" and "replay astep (view c) ls = None"
  shows "trace_run cstep ops c \<noteq> Some (c', ls @ ms)"
  using run_observed(2)[OF assms(1,2)] assms(3) by fastforce

end

end
