(* ===== verification/Client_Facts.thy ===== *)
theory Client_Facts
  imports Client Simulation Connection_Facts
begin

text \<open>
  The session of a client as the application sees it: the automaton of the events and calls, and
  the simulation that shows the client implements it, whatever arrives at its socket.
\<close>

section \<open>Connections inside a client\<close>

named_theorems sound \<open>operations that keep a connection free of panics\<close>

declare sound_direct [sound] sound_directs [sound] sound_header [sound] sound_reset [sound]

lemma sound_frames [sound]:
  assumes "sound_conn n"
  shows "sound_conn (touch_recv_time now n)" and "sound_conn (record_bytes_received now len n)"
    and "sound_conn (record_bytes_sent now len n)" and "sound_conn (set_state st n)"
    and "sound_conn (set_server_salt salt n)" and "sound_conn (set_remote_addr addr n)"
    and "sound_conn (n\<lparr>cn_stats := stats\<rparr>)" and "sound_conn (n\<lparr>cn_fragment_assembler := fa\<rparr>)"
    and "sound_conn (n\<lparr>cn_mtu_discovery := d\<rparr>)"
  using assms by (simp_all add: sound_conn_def touch_recv_time_def record_bytes_received_def record_bytes_sent_def
      set_state_def set_server_salt_def set_remote_addr_def)

lemma sound_accept [sound]:
  assumes "sound_conn n"
  shows "sound_conn (accept_header od now h n)" and "sound_conn (accept_payload od now ch fragmented p n)"
    and "sound_conn (accept_batch od now ch p n)" and "sound_conn (accept_probe_ack od now probe_size p n)"
proof -
  have h: "sound_conn (accept_header od now h n)" for h using assms by (simp add: accept_header_def sound)
  from h show "sound_conn (accept_header od now h n)" "sound_conn (accept_payload od now ch fragmented p n)" "sound_conn (accept_batch od now ch p n)"
    "sound_conn (accept_probe_ack od now probe_size p n)"
    by (auto simp: accept_payload_def accept_batch_def accept_probe_ack_def Let_def sound split: prod.split option.split)
qed

lemma sound_send [sound]: "sound_conn n \<Longrightarrow> sound_conn (snd (Connection_send ch data reliable n))"
  by (auto simp: Connection_send_def sound_conn_def split: prod.split)

lemma sound_flush_packet: "sound_conn (fst st) \<Longrightarrow> sound_conn (fst (flush_packet now addr p st))"
  by (auto simp: flush_packet_def sound split: prod.splits option.split sum.split)

lemma sound_flush [sound]: "sound_conn (fst st) \<Longrightarrow> sound_conn (fst (flush_packets now addr st))"
proof -
  assume a: "sound_conn (fst st)"
  have "sound_conn (fst (fold (flush_packet now addr) ps su))" if "sound_conn (fst su)" for ps su
    using that by (induction ps arbitrary: su) (simp_all add: sound_flush_packet)
  moreover have "sound_conn (snd (drain_send_queue (fst st)))" using a by (simp add: drain_send_queue_def sound_conn_def)
  ultimately show ?thesis by (auto simp: flush_packets_def split: prod.split)
qed

lemma sound_receive: "sound_conn n \<Longrightarrow> sound_conn (snd (Connection_receive ch n))"
  by (auto simp: Connection_receive_def sound_conn_def split: prod.split)

lemma sound_receive_all: "sound_conn n \<Longrightarrow> sound_conn (snd (receive_all ch n))"
proof (induction ch n rule: receive_all.induct)
  case (1 ch n)
  then show ?case using sound_receive[OF 1(2), of ch]
    by (subst receive_all.simps) (auto split: prod.split option.split)
qed

lemma sound_deliver [sound]: "sound_conn n \<Longrightarrow> sound_conn (snd (deliver_channels chs n))"
proof (induction chs arbitrary: n)
  case (Cons ch chs)
  then show ?case using sound_receive_all[OF Cons.prems, of ch] by (auto split: prod.split) (metis snd_conv)
qed simp

section \<open>The session\<close>

datatype session = Waiting | Live | Closing | Over

datatype session_label = Notified client_event | Sent "connection_error + unit" | Reconnected | Disconnected_by_user | Shut

fun session_step :: "session \<Rightarrow> session_label \<Rightarrow> session option" where
  "session_step Waiting (Notified EvConnected) = Some Live"
| "session_step Waiting (Notified (EvDisconnected _)) = Some Over"
| "session_step Live (Notified (EvMessage _ _)) = Some Live"
| "session_step Live (Notified (EvDisconnected _)) = Some Over"
| "session_step Closing (Notified (EvDisconnected _)) = Some Over"
| "session_step _ (Notified _) = None"
| "session_step Live (Sent _) = Some Live"
| "session_step s (Sent r) = (if r = Inl NotConnected then Some s else None)"
| "session_step _ Reconnected = Some Waiting"
| "session_step _ Disconnected_by_user = Some Closing"
| "session_step Waiting Shut = Some Waiting"
| "session_step _ Shut = Some Over"

definition session_of :: "net_client \<Rightarrow> session" where
  "session_of c = (case cl_state c of ClConnecting \<Rightarrow> Waiting | ClChallengeResponse \<Rightarrow> Waiting
     | ClConnected \<Rightarrow> Live | ClDisconnecting \<Rightarrow> Closing | ClDisconnected \<Rightarrow> Over)"

definition client_inv :: "net_client \<Rightarrow> bool" where
  "client_inv c \<longleftrightarrow> sound_conn (cl_connection c) \<and> (session_of c = Waiting \<longrightarrow> \<not> cl_connected_notified c)"

text \<open>The calls of the application, and what the network does between them.\<close>

datatype client_op = CoNetwork os_socket | CoUpdate map_orders instant | CoSend u8 bytes bool
  | CoReconnect instant | CoDisconnect instant | CoShutdown instant

fun client_op_step :: "client_op \<Rightarrow> net_client \<Rightarrow> (net_client \<times> session_label list) option" where
  "client_op_step (CoNetwork s) c = Some (c\<lparr>cl_socket := (cl_socket c)\<lparr>us_socket := s\<rparr>\<rparr>, [])"
| "client_op_step (CoUpdate od now) c = map_option (apsnd (map Notified)) (Client_update od now c)"
| "client_op_step (CoSend ch data reliable) c =
     (case client_send_with_reliability ch data reliable c of (r, c1) \<Rightarrow> Some (c1, [Sent r]))"
| "client_op_step (CoReconnect now) c = Some (reconnect now c, [Reconnected])"
| "client_op_step (CoDisconnect now) c = Some (client_disconnect now c, [Disconnected_by_user])"
| "client_op_step (CoShutdown now) c = Some (client_shutdown now c, [Shut])"

section \<open>The simulation\<close>

text \<open>A step of the client that shows these events.\<close>

definition shows_events :: "net_client \<Rightarrow> net_client \<times> client_event list \<Rightarrow> bool" where
  "shows_events c r \<longleftrightarrow> client_inv (fst r) \<and>
     replay session_step (session_of c) (map Notified (snd r)) = Some (session_of (fst r))"

lemma shows_events_silent: "session_of c' = session_of c \<Longrightarrow> sound_conn (cl_connection c') \<Longrightarrow> cl_connected_notified c' = cl_connected_notified c \<Longrightarrow>
    client_inv c \<Longrightarrow> shows_events c (c', [])"
  by (simp add: shows_events_def client_inv_def)

lemma shows_events_trans: "shows_events c (c1, es) \<Longrightarrow> shows_events c1 (c2, fs) \<Longrightarrow> shows_events c (c2, es @ fs)"
  by (simp add: shows_events_def)

lemma notified_frame [simp]: "cl_connected_notified (client_send_raw now t c) = cl_connected_notified c"
  "cl_connected_notified (on_connection f c) = cl_connected_notified c"
  by (simp_all add: client_send_raw_def on_connection_def)

lemma session_frame [simp]: "session_of (client_send_raw now t c) = session_of c" "session_of (on_connection f c) = session_of c"
  by (simp_all add: session_of_def)

lemma connected_packet_shows:
  assumes "cl_state c = ClConnected" and "client_inv c"
  shows "shows_events c (client_connected_packet od now p c)"
  using assms
  by (cases "pkt_type p") (auto simp: client_connected_packet_def shows_events_def client_inv_def session_of_def sound)

lemma handle_packet_shows:
  assumes "client_inv c"
  shows "shows_events c (client_handle_packet od now p c)"
proof (cases "cl_state c")
  case ClConnected
  then show ?thesis using connected_packet_shows[OF ClConnected assms, of od now p] by (simp add: client_handle_packet_def)
qed (use assms in \<open>cases "pkt_type p"; simp add: client_handle_packet_def shows_events_def client_inv_def session_of_def Let_def sound\<close>)+

lemma datagram_shows:
  assumes "client_inv c"
  shows "shows_events c (client_datagram od now data addr c)"
proof -
  have "shows_events c (client_handle_packet od now p (on_connection (record_bytes_received now len) c))" for p len
    using handle_packet_shows[of "on_connection (record_bytes_received now len) c" od now p] assms
    by (simp add: shows_events_def client_inv_def sound)
  then show ?thesis
    using assms by (auto simp: client_datagram_def shows_events_silent client_inv_def split: option.split prod.split)
qed

lemma receive_loop_shows:
  assumes "client_inv c" and "client_receive_loop od now (c, es) = (c', fs)"
  shows "\<exists>gs. fs = es @ gs \<and> shows_events c (c', gs)"
  using assms
proof (induction od now "(c, es)" arbitrary: c es rule: client_receive_loop.induct)
  case (1 od now c es)
  obtain r u where r: "recv_from now (cl_socket c) = (r, u)" by fastforce
  let ?c = "c\<lparr>cl_socket := u\<rparr>"
  have s: "client_inv ?c" "shows_events c (?c, [])"
    using 1(2) by (auto simp: client_inv_def session_of_def intro: shows_events_silent)
  show ?case
  proof (cases r)
    case (Inl e)
    then show ?thesis using 1(3) r s(2) by (subst (asm) client_receive_loop.simps) simp
  next
    case (Inr x)
    obtain data addr where x: "x = (data, addr)" by fastforce
    obtain c1 gs where d: "client_datagram od now data addr ?c = (c1, gs)" by fastforce
    have g: "shows_events ?c (c1, gs)" using datagram_shows[OF s(1), of od now data addr] d by simp
    have "client_receive_loop od now (c1, es @ gs) = (c', fs)"
      using 1(3) r Inr x d by (subst (asm) client_receive_loop.simps) simp
    from 1(1)[OF r[symmetric] Inr x[symmetric] d[symmetric] _ this] g
    obtain hs where "fs = (es @ gs) @ hs" "shows_events c1 (c', hs)" by (auto simp: shows_events_def)
    with shows_events_trans[OF shows_events_trans[OF s(2) g] this(2)] show ?thesis by simp
  qed
qed

lemma connected_tick_shows:
  assumes "cl_state c = ClConnected" and "client_inv c"
  shows "\<exists>r. client_connected_tick od now c = Some r \<and> shows_events c r"
proof -
  obtain r n where n: "update_tick od now (cl_connection c) = Some (r, n)" "sound_conn n"
    using assms(2) sound_tick_total[of "cl_connection c" od now] sound_tick[of "cl_connection c"] by (auto simp: client_inv_def)
  have "replay session_step Live (map Notified (map (\<lambda>(ch, data). EvMessage ch data) ms)) = Some Live" for ms
    by (induction ms) auto
  moreover obtain n1 u1 where f: "flush_packets now (cl_server_addr c) (n, cl_socket c) = (n1, u1)" by fastforce
  moreover obtain ms n2 where d: "deliver_channels (channel_range n1) n1 = (ms, n2)" by fastforce
  moreover have "sound_conn n2"
    using sound_flush[of "(n, cl_socket c)" now "cl_server_addr c"] sound_deliver[of n1 "channel_range n1"] n(2) f d by simp
  ultimately show ?thesis
    using n assms by (cases r) (simp_all add: client_connected_tick_def shows_events_def client_inv_def session_of_def comp_def)
qed

lemma update_shows:
  assumes "client_inv c"
  shows "\<exists>r. Client_update od now c = Some r \<and> shows_events c r"
proof -
  obtain stop c1 es where d: "client_disconnecting now c = (stop, c1, es)" using prod_cases3 by blast
  have s: "shows_events c (c1, es)"
    using assms d by (auto simp: client_disconnecting_def Let_def shows_events_def client_inv_def session_of_def
        split: if_splits option.splits)
  obtain c2 fs where l: "client_receive_loop od now (c1, es) = (c2, fs)" by fastforce
  then obtain gs where g: "fs = es @ gs" "shows_events c1 (c2, gs)"
    using receive_loop_shows[of c1 od now es c2 fs] s by (auto simp: shows_events_def)
  note sg = shows_events_trans[OF s g(2)]
  show ?thesis
  proof (cases "cl_state c \<in> {ClConnecting, ClChallengeResponse} \<and>
      duration_since now (cl_connect_time c) > nc_connection_timeout (cn_config (cl_connection c))")
    case True
    then have "Client_update od now c = Some (c\<lparr>cl_state := ClDisconnected\<rparr>, [EvDisconnected ReasonTimeout])"
      by (simp add: Client_update_def)
    then show ?thesis using True assms by (auto simp: shows_events_def client_inv_def session_of_def)
  next
    case False
    then have u: "Client_update od now c = (if stop then Some (c1, es) else if cl_state c2 = ClConnected
        then map_option (\<lambda>(c3, hs). (c3, fs @ hs)) (client_connected_tick od now c2) else Some (c2, fs))"
      unfolding Client_update_def if_not_P[OF False] by (cases stop) (simp_all add: d l)
    have "\<exists>r. client_connected_tick od now c2 = Some r \<and> shows_events c2 r" if "cl_state c2 = ClConnected"
      using connected_tick_shows[OF that] g(2) by (simp add: shows_events_def)
    then show ?thesis using u s sg g(1) shows_events_trans[OF sg] by fastforce
  qed
qed

interpretation sessions: simulation "\<lambda>_. True" client_op_step client_inv session_of session_step
proof
  fix op c assume inv: "client_inv c"
  show "\<exists>c' ls. client_op_step op c = Some (c', ls) \<and> client_inv c' \<and> replay session_step (session_of c) ls = Some (session_of c')"
  proof (cases op)
    case (CoNetwork s)
    then show ?thesis using inv by (simp add: client_inv_def session_of_def)
  next
    case (CoUpdate od now)
    then show ?thesis using update_shows[OF inv, of od now] by (auto simp: shows_events_def)
  next
    case (CoSend ch data reliable)
    obtain r n where s: "Connection_send ch data reliable (cl_connection c) = (r, n)" by fastforce
    then have "sound_conn n" using inv sound_send[of "cl_connection c" ch data reliable] by (simp add: client_inv_def)
    with CoSend inv s show ?thesis
      by (cases "cl_state c") (auto simp: client_send_with_reliability_def client_inv_def session_of_def)
  next
    case (CoReconnect now)
    then show ?thesis using inv by (simp add: reconnect_def client_inv_def session_of_def sound)
  next
    case (CoDisconnect now)
    then show ?thesis using inv by (simp add: client_disconnect_def client_inv_def session_of_def)
  next
    case (CoShutdown now)
    then show ?thesis using inv
      by (cases "cl_state c") (simp_all add: client_shutdown_def client_inv_def session_of_def)
  qed
qed

text \<open>A client that has just been made.\<close>

lemma connect_cases:
  assumes "Client_connect enc_new error_text salt now bound local server cfg = Inr c"
  obtains os loc where "bound = Inr os" "local = Inr loc"
    "c = client_send_raw now ConnectionRequest
       \<lparr>cl_socket = \<lparr>us_socket = os, us_stats = SocketStats_default\<rparr>,
        cl_connection = Connection_new enc_new salt now cfg loc server, cl_server_addr = server,
        cl_connected_notified = False, cl_state = ClConnecting, cl_connect_time = now,
        cl_disconnect_time = None, cl_disconnect_retry_count = 0\<rparr>"
  using assms by (auto simp: Client_connect_def UdpSocket_bind_def split: sum.splits)

lemma connected_client_inv:
  assumes "Client_connect enc_new error_text salt now bound local server cfg = Inr c"
    and "\<not> nc_use_cwnd_congestion cfg" and "nc_congestion_recovery_time cfg < 2 ^ 37 * 1000000000"
  shows "client_inv c \<and> session_of c = Waiting"
  using assms(1) by (rule connect_cases) (simp add: client_inv_def session_of_def sound_new[OF assms(2,3)])

section \<open>A silent server\<close>

lemma silent_receive: "os_incoming (us_socket u) = [] \<Longrightarrow> recv_from now u = (Inl (SocketError_from OsWouldBlock), u)"
  by (simp add: recv_from_def os_recv_from_def)

lemma silent_update:
  assumes "cl_state c = ClConnecting" and "os_incoming (us_socket (cl_socket c)) = []"
    and "duration_since now (cl_connect_time c) \<le> nc_connection_timeout (cn_config (cl_connection c))"
  shows "Client_update od now c = Some (c, [])"
proof -
  have "client_receive_loop od now (c, []) = (c, [])"
    by (subst client_receive_loop.simps) (simp add: silent_receive[OF assms(2)])
  then show ?thesis using assms(1,3) by (simp add: Client_update_def client_disconnecting_def)
qed

lemma silent_updates:
  assumes "cl_state c = ClConnecting" and "os_incoming (us_socket (cl_socket c)) = []"
    and "list_all (\<lambda>(od, t). duration_since t (cl_connect_time c) \<le> nc_connection_timeout (cn_config (cl_connection c))) us"
    and "duration_since now (cl_connect_time c) > nc_connection_timeout (cn_config (cl_connection c))"
  shows "trace_run client_op_step (map (\<lambda>(od, t). CoUpdate od t) us @ [CoUpdate od now]) c =
    Some (c\<lparr>cl_state := ClDisconnected\<rparr>, [Notified (EvDisconnected ReasonTimeout)])"
  using assms(3)
proof (induction us)
  case Nil
  then show ?case using assms(1,4) by (simp add: Client_update_def)
next
  case (Cons x us)
  obtain o1 t where x: "x = (o1, t)" by fastforce
  with silent_update[OF assms(1,2), of t o1] Cons show ?case by simp
qed

section \<open>Control packets on the wire\<close>

definition control_packet :: "u32 \<Rightarrow> packet_type \<Rightarrow> packet" where
  "control_packet pid t = Packet_new \<lparr>ph_protocol_id = pid, ph_sequence = 0, ph_ack = 0, ph_ack_bits = 0\<rparr> t"

definition control_datagram :: "u32 \<Rightarrow> packet_type \<Rightarrow> bytes" where
  "control_datagram pid t = append_crc32 (packet_bytes (control_packet pid t))"

lemma control_type [simp]: "pkt_type (control_packet pid t) = t"
  by (simp add: control_packet_def Packet_new_def)

lemma control_sealed: "channel_fits t \<Longrightarrow> seal_packet (control_packet pid t) = Some (control_datagram pid t)"
  by (simp add: seal_packet_def control_datagram_def packet_bytes_ok)

text \<open>What the other side makes of it, whatever the socket does with long datagrams.\<close>

lemma control_opened:
  assumes "channel_fits t"
  shows "open_packet pid (take MAX_UDP_PACKET_SIZE (control_datagram pid t)) =
    Some (control_packet pid t, length (packet_bytes (control_packet pid t)))"
proof -
  from assms have fits: "channel_fits (pkt_type (control_packet pid t))" by simp
  obtain data where "Packet_serialize (control_packet pid t) = Inr data"
    "length data = head_size (pkt_type (control_packet pid t)) + length (pkt_payload (control_packet pid t))"
    using roundtrip[OF fits] by metis
  moreover have "length (enc_PacketType t) \<le> 200" by (cases t) simp_all
  ultimately have "length (packet_bytes (control_packet pid t)) \<le> 100"
    by (simp add: packet_bytes_def head_size_def control_packet_def Packet_new_def)
  then have "take MAX_UDP_PACKET_SIZE (control_datagram pid t) = control_datagram pid t"
    by (simp add: control_datagram_def append_crc32_def MAX_UDP_PACKET_SIZE_def)
  then show ?thesis
    by (simp add: open_packet_def control_datagram_def validate_append packet_bytes_ok(2)[OF fits])
      (simp add: control_packet_def Packet_new_def)
qed

text \<open>Sending one over a socket that reports no error.\<close>

lemma control_sent:
  assumes "os_send_errors (us_socket u) = []" and "channel_fits t"
  shows "us_socket (send_raw_packet now addr pid 0 t u) =
    (us_socket u)\<lparr>os_outgoing := os_outgoing (us_socket u) @ [(control_datagram pid t, addr)]\<rparr>"
  using assms(1) control_sealed[OF assms(2), of pid]
  by (simp add: send_raw_packet_def control_packet_def send_to_def os_send_to_def)

section \<open>Properties\<close>

definition idle_socket :: os_socket where
  "idle_socket = \<lparr>os_incoming = [], os_send_errors = [], os_outgoing = []\<rparr>"

lemma quiet_valid: "NetworkConfig_validate quiet_config = Inr ()"
  using default_valid
  by (simp add: NetworkConfig_validate_def quiet_config_def config_limits is_finite_f32_def NetworkConfig_default_def
      split: if_splits)

definition example_client :: net_client where
  "example_client = client_send_raw 0 ConnectionRequest
     \<lparr>cl_socket = \<lparr>us_socket = idle_socket, us_stats = SocketStats_default\<rparr>, cl_connection = example_conn,
      cl_server_addr = example_addr 2, cl_connected_notified = False, cl_state = ClConnecting, cl_connect_time = 0,
      cl_disconnect_time = None, cl_disconnect_retry_count = 0\<rparr>"

lemma example_client_connect:
  "Client_connect (\<lambda>_. None) (\<lambda>_. ''invalid'') 11 0 (Inr idle_socket) (Inr (example_addr 1)) (example_addr 2) quiet_config =
     Inr example_client"
  by (simp add: Client_connect_def quiet_valid UdpSocket_bind_def example_client_def example_conn_def)

text \<open>C7: the session of a client. Whatever the application calls, in whatever order, and whatever the
  network puts into the socket in between, a client made by \<open>connect\<close>, with the congestion window off
  and a congestion recovery time below \<open>2 ^ 37\<close> seconds, never panics, and the events
  and results it shows are a run of the session automaton, which ends in the phase of the client's
  state: messages come only between a connection and its end, sending works only there, a connection
  is announced once for every attempt, and its end once.\<close>

theorem client_session:
  assumes "Client_connect enc_new error_text salt now bound local server cfg = Inr c"
    and "\<not> nc_use_cwnd_congestion cfg" and "nc_congestion_recovery_time cfg < 2 ^ 37 * 1000000000"
  shows "\<exists>c' ls. trace_run client_op_step ops c = Some (c', ls) \<and> replay session_step Waiting ls = Some (session_of c')"
  using sessions.run_simulates[of ops c] connected_client_inv[OF assms] by (auto simp: list_all_iff)

theorem client_session_witness:
  "\<exists>c' ls. trace_run client_op_step [CoSend 1 [7] True, CoUpdate example_orders 3, CoDisconnect 4, CoShutdown 5, CoReconnect 6]
      example_client = Some (c', ls) \<and> replay session_step Waiting ls = Some (session_of c')"
  by (rule client_session[OF example_client_connect]) (simp_all add: quiet_config_def NetworkConfig_default_def)

text \<open>A client whose server stays silent gives up. However often it is updated before its
  connection timeout, it sends nothing after the one request of \<open>connect\<close>, and the first update after
  the timeout announces the end. The retries of the configuration play no part.\<close>

theorem client_asks_once:
  assumes "Client_connect enc_new error_text salt t0 (Inr s) local server cfg = Inr c"
    and "os_incoming s = []" and "os_send_errors s = []"
    and "list_all (\<lambda>(od, t). duration_since t t0 \<le> nc_connection_timeout cfg) us"
    and "duration_since now t0 > nc_connection_timeout cfg"
  shows "\<exists>c'. trace_run client_op_step (map (\<lambda>(od, t). CoUpdate od t) us @ [CoUpdate od now]) c =
      Some (c', [Notified (EvDisconnected ReasonTimeout)]) \<and> cl_state c' = ClDisconnected \<and>
    os_outgoing (us_socket (cl_socket c')) =
      os_outgoing s @ [(control_datagram (nc_protocol_id cfg) ConnectionRequest, server)]"
  using assms(1)
proof (rule connect_cases)
  fix os loc assume "(Inr s :: os_error + os_socket) = Inr os" and "local = Inr loc"
    and "c = client_send_raw t0 ConnectionRequest
       \<lparr>cl_socket = \<lparr>us_socket = os, us_stats = SocketStats_default\<rparr>,
        cl_connection = Connection_new enc_new salt t0 cfg loc server, cl_server_addr = server,
        cl_connected_notified = False, cl_state = ClConnecting, cl_connect_time = t0,
        cl_disconnect_time = None, cl_disconnect_retry_count = 0\<rparr>"
  with assms(2,3) have c: "cl_state c = ClConnecting" "cl_connect_time c = t0" "cn_config (cl_connection c) = cfg"
    "us_socket (cl_socket c) = s\<lparr>os_outgoing := os_outgoing s @ [(control_datagram (nc_protocol_id cfg) ConnectionRequest, server)]\<rparr>"
    by (simp_all add: client_send_raw_def control_sent channel_fits_def Connection_new_def)
  with silent_updates[of c us now od] assms show ?thesis by simp
qed

theorem client_asks_once_witness:
  "\<exists>c'. trace_run client_op_step [CoUpdate example_orders 400, CoUpdate example_orders 900, CoUpdate example_orders 2000] example_client =
      Some (c', [Notified (EvDisconnected ReasonTimeout)]) \<and> cl_state c' = ClDisconnected \<and>
    os_outgoing (us_socket (cl_socket c')) = [(control_datagram 7 ConnectionRequest, example_addr 2)]"
  using client_asks_once[OF example_client_connect, of "[(example_orders, 400), (example_orders, 900)]" 2000 example_orders]
  by (simp add: idle_socket_def quiet_config_def duration_since_def)

end
