(* ===== verification/Server_Facts.thy ===== *)
theory Server_Facts
  imports Server Client_Facts
begin

text \<open>
  The server's table of clients: its bounds, and the roster its events describe, which the
  application can keep by replaying them. Then the handshake between a client and a server over
  real datagrams, and what a peer that skips parts of it can reach.
\<close>

section \<open>Closing connections stay sound\<close>

lemma sound_disconnect [sound]: "sound_conn n \<Longrightarrow> sound_conn (snd (disconnect now reason n))"
  using sound_queue[of n "Disconnect reason" "[]"] by (auto simp: disconnect_def sound_conn_def)

lemma sound_process_send_queue:
  "sound_conn (fst st) \<Longrightarrow> sound_conn (fst (snd (process_send_queue aead_seal now st)))"
proof (induction aead_seal now st rule: process_send_queue.induct)
  case (1 aead_seal now c u)
  have s: "sound_conn (c\<lparr>cn_send_queue := q\<rparr>)" for q using 1(2) by (simp add: sound_conn_def)
  show ?case
  proof (cases "cn_send_queue c")
    case Nil
    then show ?thesis using 1(2) by (subst process_send_queue.simps) simp
  next
    case (Cons p rest)
    note IH = 1(1)[OF Cons refl]
    show ?thesis
      using s[of rest] Cons IH
      by (subst process_send_queue.simps) (auto simp: Let_def sound_frames split: sum.split prod.split)
  qed
qed

lemma sound_receive_datagram:
  assumes "sound_conn n" and "receive_datagram aead_open od now data addr n = (r, n')"
  shows "sound_conn n'"
  using assms sound_handle_packet[OF sound_frames(1)[OF sound_frames(2)[OF assms(1)]]]
  by (auto simp: receive_datagram_def split: if_splits option.splits sum.splits)

lemma sound_receive_packets:
  "sound_conn (fst st) \<Longrightarrow> sound_conn (fst (snd (receive_packets aead_open od now st)))"
proof (induction aead_open od now st rule: receive_packets.induct)
  case (1 aead_open od now c u)
  then show ?case
    using sound_receive_datagram
    by (subst receive_packets.simps) (fastforce split: sum.split prod.split socket_error.split)
qed

lemma sound_Connection_update:
  assumes "sound_conn n"
  shows "\<exists>r n' u'. Connection_update aead_seal aead_open od now (n, u) = Some (r, n', u') \<and> sound_conn n'"
proof -
  obtain r n1 where t: "update_tick od now n = Some (r, n1)" "sound_conn n1"
    using sound_tick_total[OF assms, of od now] sound_tick[OF assms] by auto
  obtain q n2 u2 where q: "process_send_queue aead_seal now (n1, u) = (q, n2, u2)" using prod_cases3 by blast
  have "sound_conn n2" using sound_process_send_queue[of "(n1, u)" aead_seal now] t(2) q by simp
  from sound_receive_packets[of "(n2, u2)" aead_open od now] this t q show ?thesis
    by (cases r; cases q; cases "receive_packets aead_open od now (n2, u2)") (auto simp: Connection_update_def)
qed

section \<open>The invariant of the server\<close>

definition roster :: "net_server \<Rightarrow> socket_addr set" where
  "roster s = hm_dom (sv_connections s)"

definition all_sound :: "(socket_addr, connection) hash_map \<Rightarrow> bool" where
  "all_sound m \<longleftrightarrow> (\<forall>n \<in> snd ` set m. sound_conn n)"

definition sound_config :: "network_config \<Rightarrow> bool" where
  "sound_config cfg \<longleftrightarrow> \<not> nc_use_cwnd_congestion cfg \<and> nc_congestion_recovery_time cfg < 2 ^ 37 * 1000000000"

text \<open>The tables never outgrow the configuration's two limits taken together.\<close>

definition server_inv :: "network_config \<Rightarrow> net_server \<Rightarrow> bool" where
  "server_inv cfg s \<longleftrightarrow> sv_config s = cfg \<and> sound_config cfg \<and> hm_ok (sv_connections s) \<and> hm_ok (sv_pending s) \<and>
     all_sound (sv_connections s) \<and> all_sound (sv_disconnecting s) \<and>
     hm_len (sv_pending s) \<le> nc_max_pending cfg \<and>
     hm_len (sv_connections s) + hm_len (sv_pending s) < nc_max_clients cfg + nc_max_pending cfg"

lemma all_sound_maps [map_simps]:
  assumes "all_sound m"
  shows "all_sound (hm_remove k m)" and "sound_conn n \<Longrightarrow> all_sound (hm_insert k n m)"
    and "hm_get m k = Some n \<Longrightarrow> sound_conn n"
proof -
  show "all_sound (hm_remove k m)" using assms by (auto simp: all_sound_def set_hm_remove)
  show "all_sound (hm_insert k n m)" if "sound_conn n"
    using assms that by (induction m) (auto simp: all_sound_def hm_insert_def)
  show "sound_conn n" if "hm_get m k = Some n"
    using assms that by (force simp: all_sound_def hm_get_def dest: map_of_SomeD)
qed

section \<open>The roster\<close>

datatype server_label = Announced server_event | Server_sent socket_addr "connection_error + unit"
  | Client_closed socket_addr | Server_shut

fun roster_step :: "socket_addr set \<Rightarrow> server_label \<Rightarrow> socket_addr set option" where
  "roster_step K (Announced (ClientConnected a)) = (if a \<in> K then None else Some (insert a K))"
| "roster_step K (Announced (ClientDisconnected a _)) = (if a \<in> K then Some (K - {a}) else None)"
| "roster_step K (Announced (ServerMessage a _ _)) = (if a \<in> K then Some K else None)"
| "roster_step K (Announced (ClientMigrated a b)) = (if a \<in> K \<and> b \<notin> K then Some (insert b (K - {a})) else None)"
| "roster_step K (Server_sent a r) = (if a \<in> K \<or> r = Inl NotConnected then Some K else None)"
| "roster_step K (Client_closed a) = Some (K - {a})"
| "roster_step K Server_shut = Some {}"

text \<open>A step of the server that announces these events.\<close>

definition announces :: "network_config \<Rightarrow> net_server \<Rightarrow> net_server \<times> server_event list \<Rightarrow> bool" where
  "announces cfg s r \<longleftrightarrow> server_inv cfg (fst r) \<and>
     replay roster_step (roster s) (map Announced (snd r)) = Some (roster (fst r))"

lemma announces_trans: "announces cfg s (s1, es) \<Longrightarrow> announces cfg s1 (s2, fs) \<Longrightarrow> announces cfg s (s2, es @ fs)"
  by (simp add: announces_def)

lemma announces_silent: "server_inv cfg s' \<Longrightarrow> roster s' = roster s \<Longrightarrow> announces cfg s (s', [])"
  by (simp add: announces_def)

lemma server_raw_frame [simp]:
  "sv_connections (server_send_raw now a t s) = sv_connections s" "sv_pending (server_send_raw now a t s) = sv_pending s"
  "sv_disconnecting (server_send_raw now a t s) = sv_disconnecting s" "sv_config (server_send_raw now a t s) = sv_config s"
  "sv_rate_limiter (server_send_raw now a t s) = sv_rate_limiter s"
  "roster (server_send_raw now a t s) = roster s" "server_inv cfg (server_send_raw now a t s) = server_inv cfg s"
  by (simp_all add: server_send_raw_def roster_def server_inv_def)

lemma server_inv_frame [simp]:
  "server_inv cfg (s\<lparr>sv_rate_limiter := rl\<rparr>) = server_inv cfg s" "roster (s\<lparr>sv_rate_limiter := rl\<rparr>) = roster s"
  "server_inv cfg (s\<lparr>sv_socket := u\<rparr>) = server_inv cfg s" "roster (s\<lparr>sv_socket := u\<rparr>) = roster s"
  "server_inv cfg (s\<lparr>sv_migration_cooldowns := m\<rparr>) = server_inv cfg s" "roster (s\<lparr>sv_migration_cooldowns := m\<rparr>) = roster s"
  by (simp_all add: server_inv_def roster_def)

lemma challenge_ok:
  assumes "server_inv cfg s"
  shows "server_inv cfg (challenge_client env rnd a s) \<and> roster (challenge_client env rnd a s) = roster s"
  using assms
  by (auto simp: challenge_client_def Let_def server_inv_def roster_def map_simps hm_get_None_iff split: option.split)

lemma request_ok:
  assumes "server_inv cfg s"
  shows "server_inv cfg (handle_request env rnd a s) \<and> roster (handle_request env rnd a s) = roster s"
    and "server_inv cfg (handle_cookie_request env rnd high low a s) \<and>
      roster (handle_cookie_request env rnd high low a s) = roster s"
  using challenge_ok[of cfg "s\<lparr>sv_rate_limiter := _\<rparr>"] assms
  by (auto simp: handle_request_def handle_cookie_request_def Let_def split: prod.split)

lemma hm_get_domD: "hm_get m k = Some v \<Longrightarrow> k \<in> hm_dom m \<and> (\<exists>l. hm_len m = Suc l)"
  by (cases m) (auto simp: hm_get_def dest: map_of_SomeD intro: rev_image_eqI split: if_splits)

text \<open>Replacing the connection of a known client, adding one and removing one.\<close>

lemma put_known:
  assumes "server_inv cfg s" and "a \<in> roster s" and "sound_conn n"
  shows "server_inv cfg (put_connection a n s) \<and> roster (put_connection a n s) = roster s"
  using assms by (auto simp: put_connection_def server_inv_def roster_def map_simps)

lemma on_client_ok:
  assumes "server_inv cfg s" and "\<And>n. sound_conn n \<Longrightarrow> sound_conn (f n)"
  shows "server_inv cfg (on_client a f s) \<and> roster (on_client a f s) = roster s"
proof (cases "hm_get (sv_connections s) a")
  case (Some n)
  with assms(1) have "sound_conn n" "a \<in> roster s" by (auto simp: server_inv_def roster_def map_simps dest: hm_get_domD)
  with put_known[OF assms(1)] assms(2) Some show ?thesis by (simp add: on_client_def)
qed (use assms in \<open>simp add: on_client_def\<close>)

lemma response_ok:
  assumes "server_inv cfg s"
  shows "announces cfg s (handle_response env rnd salt a s)"
proof -
  have "sound_conn (touch_recv_time now (set_state Connected (Connection_new enc rnd now cfg loc a)))" for now enc loc
    using assms sound_new by (intro sound) (simp add: server_inv_def sound_config_def)
  then show ?thesis
    using assms hm_get_domD[of "sv_pending s" a]
    by (cases "hm_get (sv_pending s) a")
      (auto simp: handle_response_def announces_def Let_def server_inv_def roster_def put_connection_def map_simps
        hm_contains_iff)
qed

lemma migrate_ok:
  assumes "server_inv cfg s" and "a \<notin> roster s" and "try_migrate env a h s = (r, s')"
  shows "announces cfg s (s', case r of None \<Rightarrow> [] | Some old \<Rightarrow> [ClientMigrated old a])"
proof (cases r)
  case None
  then have "s' = s" using assms(3) by (auto simp: try_migrate_def split: if_splits option.splits)
  with None assms(1) show ?thesis by (simp add: announces_silent)
next
  case (Some old)
  then obtain n where n: "hm_get (sv_connections s) old = Some n"
    "s' = s\<lparr>sv_connections := hm_insert a (set_remote_addr a n) (hm_remove old (sv_connections s)),
            sv_migration_cooldowns := hm_insert (migration_token n) (se_now env) (sv_migration_cooldowns s)\<rparr>"
    using assms(3) by (auto simp: try_migrate_def split: if_splits option.splits)
  have "sound_conn n" using n(1) assms(1) by (auto simp: server_inv_def map_simps)
  with n assms(1,2) hm_get_domD[OF n(1)] Some show ?thesis
    by (auto simp: announces_def server_inv_def roster_def map_simps sound)
qed

lemma payload_ok:
  assumes "server_inv cfg s"
  shows "announces cfg s (handle_payload env a ch fragmented p s)"
proof -
  let ?put = "\<lambda>s1. case hm_get (sv_connections s1) a of None \<Rightarrow> s1 | Some n \<Rightarrow>
      if length (pkt_payload p) > cc_max_message_size (nc_default_channel_config (cn_config n)) then s1
      else put_connection a (accept_payload (se_orders env a) (se_now env) ch fragmented p n) s1"
  have put: "server_inv cfg (?put s1) \<and> roster (?put s1) = roster s1" if "server_inv cfg s1" for s1
  proof (cases "hm_get (sv_connections s1) a")
    case (Some n)
    then have "sound_conn n" "a \<in> roster s1" using that hm_get_domD[OF Some] by (auto simp: server_inv_def roster_def map_simps)
    with put_known[OF that this(2)] Some that show ?thesis by (simp add: sound)
  qed (use that in simp)
  show ?thesis
  proof (cases "a \<in> roster s")
    case True
    then have "handle_payload env a ch fragmented p s = (?put s, [])"
      by (simp add: handle_payload_def hm_contains_iff roster_def split: option.split)
    with put[OF assms] show ?thesis by (simp add: announces_silent)
  next
    case False
    obtain r s1 where m: "try_migrate env a (pkt_header p) s = (r, s1)" by fastforce
    let ?es = "case r of None \<Rightarrow> [] | Some old \<Rightarrow> [ClientMigrated old a]"
    have "handle_payload env a ch fragmented p s = (if r = None then s1 else ?put s1, ?es)"
      using False m by (auto simp: handle_payload_def hm_contains_iff roster_def split: option.split)
    moreover have "announces cfg s (s1, ?es)" by (rule migrate_ok[OF assms False m])
    ultimately show ?thesis using put[of s1] by (simp add: announces_def)
  qed
qed

lemma server_packet_ok:
  assumes "server_inv cfg s"
  shows "announces cfg s (handle_server_packet env rnd a p s)"
proof -
  have c: "announces cfg s (on_client a f s, [])" "announces cfg s (server_send_raw now a t (on_client a f s), [])"
    if "\<And>n. sound_conn n \<Longrightarrow> sound_conn (f n)" for f now t
    using on_client_ok[OF assms that] by (simp_all add: announces_silent)
  have r: "announces cfg s (s, [])" "announces cfg s (handle_request env rnd a s, [])"
    "announces cfg s (handle_cookie_request env rnd high low a s, [])" for high low
    using request_ok[OF assms] assms by (simp_all add: announces_silent)
  have "announces cfg s (handle_disconnect env reason a s)" for reason
    using assms by (auto simp: handle_disconnect_def announces_def server_inv_def roster_def map_simps hm_contains_iff)
  with c r response_ok[OF assms] payload_ok[OF assms] show ?thesis
    by (cases "pkt_type p") (simp_all add: handle_server_packet_def Let_def sound)
qed

lemma incoming_ok:
  "server_inv cfg s \<Longrightarrow> announces cfg s (handle_incoming env rnds k ps s)"
proof (induction ps arbitrary: k s)
  case (Cons x ps)
  obtain a p where x: "x = (a, p)" by fastforce
  obtain s1 es where h: "handle_server_packet env (rnds k) a p s = (s1, es)" by fastforce
  have a: "announces cfg s (s1, es)" using server_packet_ok[OF Cons.prems, of env "rnds k" a p] h by simp
  obtain s2 fs where r: "handle_incoming env rnds (k + 1) ps s1 = (s2, fs)" by fastforce
  with Cons.IH[of s1 "k + 1"] a have "announces cfg s1 (s2, fs)" by (simp add: announces_def)
  from announces_trans[OF a this] x h r show ?case by simp
qed (simp add: announces_silent)

section \<open>The update\<close>

lemma server_receive_ok:
  "server_inv cfg s \<Longrightarrow> server_inv cfg (fst (server_receive_loop now (s, ps))) \<and>
     roster (fst (server_receive_loop now (s, ps))) = roster s"
proof (induction now "(s, ps)" arbitrary: s ps rule: server_receive_loop.induct)
  case (1 now s ps)
  obtain r u where r: "recv_from now (sv_socket s) = (r, u)" by fastforce
  let ?s = "s\<lparr>sv_socket := u\<rparr>"
  show ?case
  proof (cases r)
    case (Inl e)
    with r 1(2) show ?thesis by (subst (1 2) server_receive_loop.simps) simp
  next
    case (Inr x)
    obtain data a where x: "x = (data, a)" by fastforce
    obtain s1 qs where d: "server_datagram now data a ?s = (s1, qs)" by fastforce
    then have s1: "server_inv cfg s1 \<and> roster s1 = roster s"
      using 1(2) on_client_ok[of cfg ?s "record_bytes_received now _" a]
      by (auto simp: server_datagram_def sound split: option.splits)
    from 1(1)[OF r[symmetric] Inr x[symmetric] d[symmetric]] s1 r Inr x d show ?thesis
      by (subst (1 2) server_receive_loop.simps) simp
  qed
qed

lemma replay_messages:
  "a \<in> K \<Longrightarrow> replay roster_step K (map Announced (map (\<lambda>(ch, data). ServerMessage a ch data) ms)) = Some K"
  by (induction ms) auto

lemma tick_client_ok:
  assumes "server_inv cfg s"
  shows "\<exists>s' fs gs. tick_client env a (s, es, ds) = Some (s', es @ fs, ds @ gs) \<and> announces cfg s (s', fs) \<and>
    roster s' = roster s \<and> (gs = [] \<or> (\<exists>r. gs = [(a, r)] \<and> a \<in> roster s))"
proof (cases "hm_get (sv_connections s) a")
  case None
  then show ?thesis using assms by (simp add: tick_client_def announces_silent)
next
  case (Some n)
  then have n: "sound_conn n" "a \<in> roster s" using assms hm_get_domD[OF Some] by (auto simp: server_inv_def roster_def map_simps)
  obtain r n1 where t: "update_tick (se_orders env a) (se_now env) n = Some (r, n1)" "sound_conn n1"
    using sound_tick_total[OF n(1), of "se_orders env a" "se_now env"] sound_tick[OF n(1)] by auto
  show ?thesis
  proof (cases r)
    case (Inl e)
    with t n Some put_known[OF assms n(2) t(2)] show ?thesis by (simp add: tick_client_def announces_silent)
  next
    case (Inr _)
    obtain n2 u where f: "flush_packets (se_now env) a (n1, sv_socket s) = (n2, u)" by fastforce
    obtain ms n3 where d: "deliver_channels (channel_range n2) n2 = (ms, n3)" by fastforce
    have "sound_conn n3"
      using sound_flush[of "(n1, sv_socket s)" "se_now env" a] sound_deliver[of n2 "channel_range n2"] t(2) f d by simp
    then have "server_inv cfg (put_connection a n3 (s\<lparr>sv_socket := u\<rparr>))"
      "roster (put_connection a n3 (s\<lparr>sv_socket := u\<rparr>)) = roster s"
      using put_known[of cfg "s\<lparr>sv_socket := u\<rparr>" a n3] assms n(2) by simp_all
    with Inr t Some f d n(2) show ?thesis
      by (simp add: tick_client_def announces_def replay_messages del: map_map)
  qed
qed

lemma tick_clients_ok:
  "server_inv cfg s \<Longrightarrow> distinct as \<Longrightarrow>
   \<exists>s' fs gs. tick_clients env as (s, es, ds) = Some (s', es @ fs, ds @ gs) \<and> announces cfg s (s', fs) \<and>
    roster s' = roster s \<and> distinct (map fst gs) \<and> fst ` set gs \<subseteq> roster s \<inter> set as"
proof (induction "as" arbitrary: s es ds)
  case Nil
  then show ?case by (simp add: announces_silent)
next
  case (Cons a "as")
  obtain s1 fs gs where t: "tick_client env a (s, es, ds) = Some (s1, es @ fs, ds @ gs)" "announces cfg s (s1, fs)"
    "roster s1 = roster s" "gs = [] \<or> (\<exists>r. gs = [(a, r)] \<and> a \<in> roster s)"
    using tick_client_ok[OF Cons.prems(1)] by blast
  have "server_inv cfg s1" "distinct as" using t(2) Cons.prems(2) by (simp_all add: announces_def)
  from Cons.IH[OF this, of "es @ fs" "ds @ gs"] obtain s2 fs2 gs2 where
    r: "tick_clients env as (s1, es @ fs, ds @ gs) = Some (s2, (es @ fs) @ fs2, (ds @ gs) @ gs2)"
    "announces cfg s1 (s2, fs2)" "roster s2 = roster s1" "distinct (map fst gs2)"
    "fst ` set gs2 \<subseteq> roster s1 \<inter> set as" by blast
  from t(4) have "distinct (map fst (gs @ gs2))" "fst ` set (gs @ gs2) \<subseteq> roster s \<inter> set (a # as)"
    using r(4,5) t(3) Cons.prems(2) by auto
  moreover have "tick_clients env (a # as) (s, es, ds) = Some (s2, es @ fs @ fs2, ds @ gs @ gs2)"
    using t(1) r(1) by simp
  ultimately show ?case using announces_trans[OF t(2) r(2)] t(3) r(3) by metis
qed

lemma drops_ok:
  "server_inv cfg s \<Longrightarrow> distinct (map fst gs) \<Longrightarrow> fst ` set gs \<subseteq> roster s \<Longrightarrow>
   \<exists>s' fs. fold drop_client gs (s, es) = (s', es @ fs) \<and> announces cfg s (s', fs)"
proof (induction gs arbitrary: s es)
  case Nil
  then show ?case by (simp add: announces_silent)
next
  case (Cons g gs)
  obtain a r where g: "g = (a, r)" by fastforce
  let ?s = "s\<lparr>sv_connections := hm_remove a (sv_connections s)\<rparr>"
  have a: "announces cfg s (?s, [ClientDisconnected a r])"
    using Cons.prems g by (auto simp: announces_def server_inv_def roster_def map_simps)
  have "server_inv cfg ?s" "fst ` set gs \<subseteq> roster ?s"
    using a Cons.prems g by (auto simp: announces_def roster_def map_simps image_iff)
  from Cons.IH[OF this(1) _ this(2), of "es @ [ClientDisconnected a r]"] Cons.prems(2)
  obtain s' fs where "fold drop_client gs (?s, es @ [ClientDisconnected a r]) = (s', (es @ [ClientDisconnected a r]) @ fs)"
    "announces cfg ?s (s', fs)" by auto
  moreover have "drop_client g (s, es) = (?s, es @ [ClientDisconnected a r])" by (simp add: drop_client_def g)
  ultimately show ?case using announces_trans[OF a] by fastforce
qed

lemma closing_ok:
  assumes "server_inv cfg s"
  shows "\<exists>s' f'. update_closing env a (s, f) = Some (s', f') \<and> server_inv cfg s' \<and> roster s' = roster s"
proof (cases "hm_get (sv_disconnecting s) a")
  case None
  then show ?thesis using assms by (simp add: update_closing_def)
next
  case (Some n)
  then have "sound_conn n" using assms by (auto simp: server_inv_def map_simps)
  from sound_Connection_update[OF this, of "se_seal env" "se_open env" "se_orders env a" "se_now env" "sv_socket s"]
  show ?thesis using Some assms by (auto simp: update_closing_def server_inv_def roster_def map_simps)
qed

lemma all_closing_ok:
  "server_inv cfg s \<Longrightarrow>
   \<exists>s' f'. update_all_closing env as (s, f) = Some (s', f') \<and> server_inv cfg s' \<and> roster s' = roster s"
proof (induction "as" arbitrary: s f)
  case (Cons a "as")
  from closing_ok[OF Cons.prems, of env a f] Cons.IH show ?case by auto metis
qed simp

lemma all_sound_removes: "all_sound m \<Longrightarrow> all_sound (fold hm_remove ks m)"
  by (induction ks arbitrary: m) (simp_all add: map_simps)

text \<open>The update as a whole announces what it does to the table.\<close>

lemma server_update_ok:
  assumes "server_inv cfg s0" and "is_iter_order (se_addr_order env)"
  shows "\<exists>r. Server_update env rnds s0 = Some r \<and> announces cfg s0 r"
proof -
  obtain s1 ps where l: "server_receive_loop (se_now env) (s0, []) = (s1, ps)" by fastforce
  then have s1: "server_inv cfg s1" "roster s1 = roster s0"
    using server_receive_ok[OF assms(1), of "se_now env" "[]"] by simp_all
  obtain s2 es where i: "handle_incoming env rnds 0 ps s1 = (s2, es)" by fastforce
  with incoming_ok[OF s1(1), of env rnds 0 ps] s1(2) have a2: "announces cfg s0 (s2, es)" by (simp add: announces_def)
  then have s2: "server_inv cfg s2" by (simp add: announces_def)
  then have "distinct (hm_keys (se_addr_order env) (sv_connections s2))"
    by (intro distinct_hm_keys[OF assms(2)]) (simp add: server_inv_def)
  from tick_clients_ok[OF s2 this, of env es "[]"] obtain s3 fs gs where
    t: "tick_clients env (hm_keys (se_addr_order env) (sv_connections s2)) (s2, es, []) = Some (s3, es @ fs, gs)"
    "announces cfg s2 (s3, fs)" "roster s3 = roster s2" "distinct (map fst gs)" "fst ` set gs \<subseteq> roster s2"
    by (auto simp del: append_Nil)
  then have "server_inv cfg s3" by (simp add: announces_def)
  from drops_ok[OF this t(4), of "es @ fs"] t(3,5) obtain s4 hs where
    d: "fold drop_client gs (s3, es @ fs) = (s4, (es @ fs) @ hs)" "announces cfg s3 (s4, hs)" by auto
  have a4: "announces cfg s0 (s4, (es @ fs) @ hs)" by (rule announces_trans[OF announces_trans[OF a2 t(2)] d(2)])
  then have "server_inv cfg s4" by (simp add: announces_def)
  from all_closing_ok[OF this, of env "hm_keys (se_addr_order env) (sv_disconnecting s4)" "[]"] obtain s5 f where
    c: "update_all_closing env (hm_keys (se_addr_order env) (sv_disconnecting s4)) (s4, []) = Some (s5, f)"
    "server_inv cfg s5" "roster s5 = roster s4" by blast
  let ?s = "expire_server (se_now env) (s5\<lparr>sv_disconnecting := fold hm_remove f (sv_disconnecting s5)\<rparr>)"
  have "server_inv cfg ?s" "roster ?s = roster s5"
    using c(2) hm_len_retain_le[of _ "sv_pending s5"] order_trans[OF hm_len_retain_le[of _ "sv_pending s5"]]
    by (auto simp: expire_server_def server_inv_def roster_def all_sound_removes map_simps intro: add_left_mono le_less_trans)
  with a4 c(3) have "announces cfg s0 (?s, (es @ fs) @ hs)" by (simp add: announces_def)
  moreover have "Server_update env rnds s0 = Some (?s, (es @ fs) @ hs)"
    by (simp add: Server_update_def l i t(1) d(1) c(1))
  ultimately show ?thesis by blast
qed

section \<open>Operations and the network\<close>

datatype server_op = SoNetwork os_socket | SoUpdate server_env "nat \<Rightarrow> u64" | SoSend socket_addr u8 bytes bool
  | SoBroadcast "socket_addr iter_order" u8 bytes "socket_addr option" | SoDisconnect server_env socket_addr u8
  | SoShutdown server_env

fun server_op_ok :: "server_op \<Rightarrow> bool" where
  "server_op_ok (SoUpdate env rnds) = is_iter_order (se_addr_order env)"
| "server_op_ok (SoShutdown env) = is_iter_order (se_addr_order env)"
| "server_op_ok _ = True"

fun server_op_step :: "server_op \<Rightarrow> net_server \<Rightarrow> (net_server \<times> server_label list) option" where
  "server_op_step (SoNetwork s1) s = Some (s\<lparr>sv_socket := (sv_socket s)\<lparr>us_socket := s1\<rparr>\<rparr>, [])"
| "server_op_step (SoUpdate env rnds) s = map_option (apsnd (map Announced)) (Server_update env rnds s)"
| "server_op_step (SoSend a ch data reliable) s =
     (case server_send_with_reliability a ch data reliable s of (r, s1) \<Rightarrow> Some (s1, [Server_sent a r]))"
| "server_op_step (SoBroadcast it ch data except) s = Some (broadcast it ch data except s, [])"
| "server_op_step (SoDisconnect env a reason) s = map_option (\<lambda>s1. (s1, [Client_closed a])) (server_disconnect env a reason s)"
| "server_op_step (SoShutdown env) s = map_option (\<lambda>s1. (s1, [Server_shut])) (server_shutdown env s)"

lemma send_ok:
  assumes "server_inv cfg s" and "server_send_with_reliability a ch data reliable s = (r, s')"
  shows "server_inv cfg s' \<and> roster s' = roster s \<and> (a \<in> roster s \<or> r = Inl NotConnected)"
proof (cases "hm_get (sv_connections s) a")
  case (Some n)
  then have n: "sound_conn n" "a \<in> roster s" using assms(1) hm_get_domD[OF Some] by (auto simp: server_inv_def roster_def map_simps)
  with put_known[OF assms(1) n(2) sound_send[OF n(1)], of ch data reliable] Some assms(2) show ?thesis
    by (auto simp: server_send_with_reliability_def split: prod.splits)
qed (use assms in \<open>simp add: server_send_with_reliability_def\<close>)

lemma broadcast_ok:
  assumes "server_inv cfg s"
  shows "server_inv cfg (broadcast it ch data except s) \<and> roster (broadcast it ch data except s) = roster s"
proof -
  have f: "server_inv cfg (fold f as t) \<and> roster (fold f as t) = roster t" if "server_inv cfg t"
    "\<And>a u. server_inv cfg u \<Longrightarrow> server_inv cfg (f a u) \<and> roster (f a u) = roster u" for f "as" t
    using that(1) by (induction "as" arbitrary: t) (simp_all add: that(2))
  have "server_inv cfg (snd (server_send a ch data u)) \<and> roster (snd (server_send a ch data u)) = roster u"
    if "server_inv cfg u" for a u
    using send_ok[OF that prod.collapse[symmetric], of a ch data True] by (simp add: server_send_def)
  then show ?thesis unfolding broadcast_def by (intro f assms) simp
qed

lemma server_disconnect_ok:
  assumes "server_inv cfg s"
  shows "\<exists>s'. server_disconnect env a reason s = Some s' \<and> server_inv cfg s' \<and> roster s' = roster s - {a}"
proof (cases "hm_get (sv_connections s) a")
  case None
  then have "a \<notin> roster s" by (simp add: roster_def hm_get_None_iff)
  with None assms show ?thesis by (simp add: server_disconnect_def)
next
  case (Some n)
  then have n: "sound_conn n" using assms by (auto simp: server_inv_def map_simps)
  from sound_Connection_update[OF sound_disconnect[OF n], of "se_seal env" "se_open env" "se_orders env a" "se_now env"
      "se_now env" reason "sv_socket s"]
  show ?thesis using Some assms by (auto simp: server_disconnect_def server_inv_def roster_def map_simps)
qed

lemma disconnect_all_ok:
  "server_inv cfg s \<Longrightarrow>
   \<exists>s'. disconnect_all env reason as s = Some s' \<and> server_inv cfg s' \<and> roster s' = roster s - set as"
proof (induction "as" arbitrary: s)
  case (Cons a "as")
  from server_disconnect_ok[OF Cons.prems, of env a reason] Cons.IH show ?case by auto (metis Diff_insert2)
qed simp

interpretation rosters: simulation server_op_ok server_op_step "server_inv cfg" roster roster_step for cfg
proof
  fix op s assume ok: "server_op_ok op" and inv: "server_inv cfg s"
  show "\<exists>s' ls. server_op_step op s = Some (s', ls) \<and> server_inv cfg s' \<and> replay roster_step (roster s) ls = Some (roster s')"
  proof (cases op)
    case (SoNetwork s1)
    then show ?thesis using inv by simp
  next
    case (SoUpdate env rnds)
    then show ?thesis using server_update_ok[OF inv, of env rnds] ok by (auto simp: announces_def)
  next
    case (SoSend a ch data reliable)
    obtain r s1 where s: "server_send_with_reliability a ch data reliable s = (r, s1)" by fastforce
    from send_ok[OF inv this] SoSend s show ?thesis by auto
  next
    case (SoBroadcast it ch data except)
    then show ?thesis using broadcast_ok[OF inv] by simp
  next
    case (SoDisconnect env a reason)
    then show ?thesis using server_disconnect_ok[OF inv, of env a reason] by auto
  next
    case (SoShutdown env)
    then have "set (hm_keys (se_addr_order env) (sv_connections s)) = roster s"
      using ok by (simp add: set_hm_keys roster_def)
    with SoShutdown disconnect_all_ok[OF inv, of env DISCONNECT_REQUESTED "hm_keys (se_addr_order env) (sv_connections s)"]
    show ?thesis by (auto simp: server_shutdown_def)
  qed
qed

lemma bind_cases:
  assumes "Server_bind error_text rnd bound cfg = Inr s"
  obtains os where "bound = Inr os" "NetworkConfig_validate cfg = Inr ()"
    "s = \<lparr>sv_socket = \<lparr>us_socket = os, us_stats = SocketStats_default\<rparr>, sv_connections = [], sv_pending = [],
          sv_disconnecting = [], sv_config = cfg, sv_rate_limiter = ConnectionRateLimiter_new (nc_rate_limit_per_second cfg),
          sv_cookie_secret = cookie_secret_of rnd, sv_migration_cooldowns = []\<rparr>"
  using assms by (auto simp: Server_bind_def UdpSocket_bind_def split: sum.splits)

lemma bound_inv:
  assumes "Server_bind error_text rnd bound cfg = Inr s" and "sound_config cfg"
  shows "server_inv cfg s \<and> roster s = {}"
  using assms(1)
proof (rule bind_cases)
  assume "NetworkConfig_validate cfg = Inr ()"
  then have "nc_max_clients cfg \<noteq> 0" by (auto simp: NetworkConfig_validate_def split: if_splits)
  then show ?thesis if "s = \<lparr>sv_socket = \<lparr>us_socket = os, us_stats = SocketStats_default\<rparr>, sv_connections = [], sv_pending = [],
          sv_disconnecting = [], sv_config = cfg, sv_rate_limiter = ConnectionRateLimiter_new (nc_rate_limit_per_second cfg),
          sv_cookie_secret = cookie_secret_of rnd, sv_migration_cooldowns = []\<rparr>" for os
    unfolding that using assms(2) by (simp add: server_inv_def roster_def all_sound_def)
qed

section \<open>Properties of the table\<close>

definition example_env :: "instant \<Rightarrow> server_env" where
  "example_env t = \<lparr>se_now = t, se_unix_secs = 0, se_local_addr = Inr (example_addr 2), se_addr_order = id,
     se_orders = (\<lambda>_. example_orders), se_enc_new = (\<lambda>_. None), se_seal = (\<lambda>_ _. None), se_open = (\<lambda>_ _. None)\<rparr>"

definition server_config :: "nat \<Rightarrow> network_config" where
  "server_config clients = quiet_config\<lparr>nc_max_clients := clients, nc_max_pending := 4, nc_rate_limit_per_second := 3,
     nc_enable_stateless_cookie := False, nc_enable_connection_migration := True\<rparr>"

definition quiet_server :: "network_config \<Rightarrow> net_server" where
  "quiet_server cfg = \<lparr>sv_socket = \<lparr>us_socket = idle_socket, us_stats = SocketStats_default\<rparr>, sv_connections = [],
     sv_pending = [], sv_disconnecting = [], sv_config = cfg,
     sv_rate_limiter = ConnectionRateLimiter_new (nc_rate_limit_per_second cfg),
     sv_cookie_secret = cookie_secret_of [], sv_migration_cooldowns = []\<rparr>"

lemma quiet_server_bind:
  assumes "NetworkConfig_validate cfg = Inr ()"
  shows "Server_bind (\<lambda>_. ''invalid'') [] (Inr idle_socket) cfg = Inr (quiet_server cfg)"
  using assms by (simp add: Server_bind_def UdpSocket_bind_def quiet_server_def)

lemma server_config_valid: "0 < k \<Longrightarrow> NetworkConfig_validate (server_config k) = Inr ()"
  using quiet_valid by (simp add: server_config_def NetworkConfig_validate_def split: if_splits)

lemma sound_quiet: "sound_config (server_config k)" "sound_config quiet_config"
  by (simp_all add: sound_config_def server_config_def quiet_config_def NetworkConfig_default_def)

text \<open>C8: the roster of a server. Whatever the application calls and whatever arrives, a server never
  panics without the optional congestion window and with a congestion recovery time below \<open>2 ^ 37\<close>
  seconds, and its events are an exact log of its table: an
  application that adds, removes and moves clients as the events say, and removes those it
  disconnects, holds the table's set of addresses, no client is announced twice, and every message
  and every successful send belongs to a client of the table.\<close>

theorem server_roster:
  assumes "Server_bind error_text rnd bound cfg = Inr s" and "sound_config cfg" and "list_all server_op_ok ops"
  shows "\<exists>s' ls. trace_run server_op_step ops s = Some (s', ls) \<and> replay roster_step {} ls = Some (roster s')"
  using rosters.run_simulates[OF assms(3), of cfg s] bound_inv[OF assms(1,2)] by auto

theorem server_roster_witness:
  "\<exists>s' ls. trace_run server_op_step [SoSend (example_addr 3) 1 [7] True, SoUpdate (example_env 5) (\<lambda>_. 4), SoShutdown (example_env 6)]
      (quiet_server (server_config 3)) = Some (s', ls) \<and> replay roster_step {} ls = Some (roster s')"
  by (rule server_roster[OF quiet_server_bind[OF server_config_valid] sound_quiet(1)]) (simp_all add: example_env_def iter_order_id[folded id_def])

text \<open>C20: the tables of a server are bounded: in every run the pending handshakes stay within their
  limit, and the clients and the pending handshakes together stay below the sum of both limits.\<close>

theorem server_bounded:
  assumes "Server_bind error_text rnd bound cfg = Inr s" and "sound_config cfg" and "list_all server_op_ok ops"
    and "trace_run server_op_step ops s = Some (s', ls)"
  shows "hm_len (sv_pending s') \<le> nc_max_pending cfg \<and>
    hm_len (sv_connections s') + hm_len (sv_pending s') < nc_max_clients cfg + nc_max_pending cfg"
  using rosters.run_observed(1)[OF assms(3) _ assms(4)] bound_inv[OF assms(1,2)] by (simp add: server_inv_def)

theorem server_bounded_witness:
  "\<exists>s' ls. trace_run server_op_step [SoUpdate (example_env 5) (\<lambda>_. 4), SoShutdown (example_env 6)] (quiet_server (server_config 3)) =
      Some (s', ls) \<and> hm_len (sv_connections s') + hm_len (sv_pending s') < 7"
proof -
  let ?s = "quiet_server (server_config 3)" and ?ops = "[SoUpdate (example_env 5) (\<lambda>_. 4), SoShutdown (example_env 6)]"
  have b: "Server_bind (\<lambda>_. ''invalid'') [] (Inr idle_socket) (server_config 3) = Inr ?s"
    by (rule quiet_server_bind[OF server_config_valid]) simp
  have ok: "list_all server_op_ok ?ops" by (simp add: example_env_def iter_order_id[folded id_def])
  from rosters.run_simulates[OF ok, of "server_config 3" ?s] bound_inv[OF b sound_quiet(1)] obtain s' ls
    where t: "trace_run server_op_step ?ops ?s = Some (s', ls)" by blast
  with server_bounded[OF b sound_quiet(1) ok t] show ?thesis by (simp add: server_config_def)
qed

text \<open>C32: the handshake proves nothing. Where stateless cookies are switched off (they are on by default), an
  address the server does not know is connected, below the limits of the server and of the rate, by a
  request and a response with any salt but zero and the server's own, so without the challenge ever having
  been seen; and the response is accepted however many clients the server has by then, so the limit on
  clients holds for requests only.\<close>

theorem blind_handshake:
  assumes "fst (allow (se_now env) a (sv_rate_limiter s))" and "\<not> nc_enable_stateless_cookie (sv_config s)"
    and "a \<notin> roster s" and "hm_get (sv_pending s) a = None"
    and "hm_len (sv_pending s) < nc_max_pending (sv_config s)" and "hm_len (sv_connections s) < nc_max_clients (sv_config s)"
    and "pkt_type p = ConnectionRequest" and "handle_server_packet env rnd a p s = (s1, es)"
    and "a \<notin> roster t" and "hm_get (sv_pending t) a = hm_get (sv_pending s1) a"
    and "pkt_type q = ConnectionResponse salt" and "salt \<notin> {0, rnd}"
  shows "\<exists>t1. handle_server_packet env1 rnd1 a q t = (t1, [ClientConnected a]) \<and> roster t1 = insert a (roster t)"
proof -
  obtain rl where "allow (se_now env) a (sv_rate_limiter s) = (True, rl)" using assms(1) by (cases "allow (se_now env) a (sv_rate_limiter s)") auto
  with assms have "hm_get (sv_pending s1) a = Some \<lparr>pc_server_salt = rnd, pc_created_at = se_now env\<rparr>"
    by (auto simp: handle_server_packet_def handle_request_def challenge_client_def Let_def hm_contains_iff roster_def map_simps)
  with assms(9-12) show ?thesis
    by (auto simp: handle_server_packet_def handle_response_def Let_def hm_contains_iff roster_def put_connection_def map_simps)
qed

definition overfull :: net_server where
  "overfull = (fst (handle_server_packet (example_env 6) 9 (example_addr 3) (control_packet 7 ConnectionRequest)
     (quiet_server (server_config 1))))\<lparr>sv_connections := [(example_addr 4, shaken)]\<rparr>"

theorem blind_handshake_witness:
  "\<exists>t1. handle_server_packet (example_env 8) 2 (example_addr 3) (control_packet 7 (ConnectionResponse 77)) overfull =
      (t1, [ClientConnected (example_addr 3)]) \<and> roster t1 = {example_addr 3, example_addr 4}"
proof -
  let ?s = "quiet_server (server_config 1)"
  have r: "fst (allow 6 (example_addr 3) (sv_rate_limiter ?s))" "\<not> nc_enable_stateless_cookie (sv_config ?s)"
    by (simp_all add: allow_def quiet_server_def ConnectionRateLimiter_new_def stamps_of_def recent_def server_config_def)
  have n: "example_addr 4 \<noteq> example_addr 3" by (simp add: example_addr_def)
  show ?thesis
    using blind_handshake[of "example_env 6" "example_addr 3" ?s "control_packet 7 ConnectionRequest" 9 _ _ overfull
        "control_packet 7 (ConnectionResponse 77)" 77 "example_env 8" 2, OF _ _ _ _ _ _ _ prod.collapse[symmetric]] r n
    by (auto simp: overfull_def roster_def example_env_def quiet_server_def server_config_def)
qed

text \<open>Where migration is enabled (it is not by default), it asks for no proof of identity. With a sequence distance of at least 32768, which
  every pair of numbers keeps, a payload packet with any header and any content from an address the
  server does not know takes over a connection: the server announces the migration, answers the new
  address from then on, and the old one has lost its entry.\<close>

theorem migration_unauthenticated:
  assumes "server_inv cfg s" and "is_iter_order (se_addr_order env)" and "nc_enable_connection_migration cfg"
    and "hm_get (sv_connections s) b = Some n" and "cn_state n = Connected"
    and "nc_max_sequence_distance (cn_config n) \<ge> 32768" and "hm_get (sv_migration_cooldowns s) (migration_token n) = None"
    and "a \<notin> roster s" and "pkt_type p = Payload ch fragmented"
  shows "\<exists>s1 old. handle_server_packet env rnd a p s = (s1, [ClientMigrated old a]) \<and> old \<in> roster s \<and>
    roster s1 = insert a (roster s - {old})"
proof -
  have "\<bar>sequence_diff (ph_sequence h) (cn_remote_sequence n)\<bar> \<le> uint (nc_max_sequence_distance (cn_config n))" for h
    using sequence_diff_bounds[of "ph_sequence h" "cn_remote_sequence n"] assms(6) by (simp add: word_le_def)
  then have "may_migrate (se_now env) (pkt_header p) (sv_migration_cooldowns s) n"
    using assms(5,7) by (simp add: may_migrate_def)
  moreover have "b \<in> set (hm_keys (se_addr_order env) (sv_connections s))"
    using hm_get_domD[OF assms(4)] set_hm_keys[OF assms(2), of "sv_connections s"] by simp
  ultimately have "migration_source env (pkt_header p) s \<noteq> None"
    using assms(4) unfolding migration_source_def find_None_iff by auto
  then obtain old where "migration_source env (pkt_header p) s = Some old" by blast
  moreover from this obtain m where "hm_get (sv_connections s) old = Some m"
    unfolding migration_source_def find_Some_iff by (auto split: option.splits)
  ultimately have "snd (handle_payload env a ch fragmented p s) = [ClientMigrated old a]"
    using assms(1,3,8) by (auto simp: handle_payload_def try_migrate_def hm_contains_iff roster_def server_inv_def map_simps)
  moreover have "announces cfg s (handle_payload env a ch fragmented p s)" by (rule payload_ok[OF assms(1)])
  ultimately show ?thesis
    using assms(9) by (cases "handle_payload env a ch fragmented p s") (auto simp: announces_def handle_server_packet_def split: if_splits)
qed

definition served :: net_server where
  "served = (quiet_server (server_config 3))\<lparr>sv_connections := [(example_addr 2, shaken)]\<rparr>"

theorem migration_unauthenticated_witness:
  "\<exists>s1 old. handle_server_packet (example_env 5) 0 (example_addr 66)
      ((control_packet 7 (Payload 0 False))\<lparr>pkt_payload := [1, 2, 3]\<rparr>) served = (s1, [ClientMigrated old (example_addr 66)]) \<and>
    roster s1 = {example_addr 66}"
proof -
  have r: "roster served = {example_addr 2}" by (simp add: served_def roster_def)
  have i: "server_inv (server_config 3) served"
    using bound_inv[OF quiet_server_bind[OF server_config_valid, of 3] sound_quiet(1)] shaken_sound
    by (simp add: served_def server_inv_def all_sound_def quiet_server_def hm_ok_def) (simp add: server_config_def)
  have c: "nc_enable_connection_migration (server_config 3)" "nc_max_sequence_distance (cn_config shaken) \<ge> 32768"
    by (simp_all add: server_config_def shaken_config quiet_config_def NetworkConfig_default_def DEFAULT_MAX_SEQUENCE_DISTANCE_def)
  have "hm_get (sv_connections served) (example_addr 2) = Some shaken" "hm_get (sv_migration_cooldowns served) (migration_token shaken) = None"
    by (simp_all add: served_def hm_get_def quiet_server_def)
  from migration_unauthenticated[OF i _ c(1) this(1) shaken_state c(2) this(2), of "example_env 5" "example_addr 66"
      "(control_packet 7 (Payload 0 False))\<lparr>pkt_payload := [1, 2, 3]\<rparr>" 0 False 0]
  show ?thesis by (auto simp: r example_env_def example_addr_def iter_order_id[folded id_def] control_packet_def Packet_new_def)
qed

end
