(* ===== verification/Exchange.thy ===== *)
theory Exchange
  imports Server_Facts
begin

text \<open>
  A client and a server over datagrams: one update of either that hears one control packet, the
  whole handshake with the default stateless cookies, and the datagrams a closing connection takes
  from the server's socket.
\<close>

section \<open>Hearing one datagram\<close>

definition server_hears :: "bytes \<Rightarrow> socket_addr \<Rightarrow> net_server \<Rightarrow> net_server" where
  "server_hears d a s = s\<lparr>sv_socket := (sv_socket s)\<lparr>us_socket := (us_socket (sv_socket s))\<lparr>os_incoming := [Inr (d, a)]\<rparr>\<rparr>\<rparr>"

definition client_hears :: "bytes \<Rightarrow> net_client \<Rightarrow> net_client" where
  "client_hears d c = c\<lparr>cl_socket := (cl_socket c)\<lparr>us_socket := (us_socket (cl_socket c))\<lparr>os_incoming := [Inr (d, cl_server_addr c)]\<rparr>\<rparr>\<rparr>"

abbreviation server_out :: "net_server \<Rightarrow> (bytes \<times> socket_addr) list" where
  "server_out s \<equiv> os_outgoing (us_socket (sv_socket s))"

abbreviation client_out :: "net_client \<Rightarrow> (bytes \<times> socket_addr) list" where
  "client_out c \<equiv> os_outgoing (us_socket (cl_socket c))"

text \<open>The socket after its one datagram has been taken, with the statistics counted up.\<close>

definition after_datagram :: "instant \<Rightarrow> bytes \<Rightarrow> udp_socket \<Rightarrow> udp_socket" where
  "after_datagram now d u = u\<lparr>us_socket := (us_socket u)\<lparr>os_incoming := []\<rparr>, us_stats := (us_stats u)
     \<lparr>ss_bytes_received := ss_bytes_received (us_stats u) + length (take MAX_UDP_PACKET_SIZE d),
      ss_packets_received := ss_packets_received (us_stats u) + 1, ss_last_receive_time := Some now\<rparr>\<rparr>"

lemma after_frame [simp]: "os_outgoing (us_socket (after_datagram now d u)) = os_outgoing (us_socket u)"
  "os_send_errors (us_socket (after_datagram now d u)) = os_send_errors (us_socket u)"
  "os_incoming (us_socket (after_datagram now d u)) = []"
  by (simp_all add: after_datagram_def)

lemma take_one:
  assumes "os_incoming (us_socket u) = [Inr (d, a)]"
  shows "recv_from now u = (Inr (take MAX_UDP_PACKET_SIZE d, a), after_datagram now d u)"
  using assms by (simp add: recv_from_def os_recv_from_def after_datagram_def)

lemma server_takes:
  assumes "channel_fits t" and "nc_protocol_id (sv_config s) = pid" and "sv_connections s = []"
  shows "server_receive_loop now (server_hears (control_datagram pid t) a s, []) =
    (s\<lparr>sv_socket := after_datagram now (control_datagram pid t) (sv_socket s)\<rparr>, [(a, control_packet pid t)])"
proof -
  let ?d = "control_datagram pid t"
  let ?s = "server_hears ?d a s" and ?t = "s\<lparr>sv_socket := after_datagram now ?d (sv_socket s)\<rparr>"
  have r: "recv_from now (sv_socket ?s) = (Inr (take MAX_UDP_PACKET_SIZE ?d, a), after_datagram now ?d (sv_socket ?s))"
    by (rule take_one) (simp add: server_hears_def)
  have s: "?s\<lparr>sv_socket := after_datagram now ?d (sv_socket ?s)\<rparr> = ?t" by (simp add: server_hears_def after_datagram_def)
  have e: "server_receive_loop now (?t, [(a, control_packet pid t)]) = (?t, [(a, control_packet pid t)])"
    by (subst server_receive_loop.simps) (simp add: silent_receive)
  have "server_datagram now (take MAX_UDP_PACKET_SIZE ?d) a ?t = (?t, [(a, control_packet pid t)])"
    using assms(2,3) by (simp add: server_datagram_def control_opened[OF assms(1)] on_client_def)
  then show ?thesis
    by (subst server_receive_loop.simps, unfold r) (simp only: prod.case sum.case s append_Nil e)
qed

lemma client_takes:
  assumes "channel_fits t" and "nc_protocol_id (cn_config (cl_connection c)) = pid"
  shows "client_receive_loop od now (client_hears (control_datagram pid t) c, es) =
    (case client_handle_packet od now (control_packet pid t) (on_connection
         (record_bytes_received now (length (packet_bytes (control_packet pid t))))
         (c\<lparr>cl_socket := after_datagram now (control_datagram pid t) (cl_socket c)\<rparr>)) of
       (c1, fs) \<Rightarrow> client_receive_loop od now (c1, es @ fs))"
proof -
  let ?d = "control_datagram pid t"
  let ?c = "client_hears ?d c" and ?t = "c\<lparr>cl_socket := after_datagram now ?d (cl_socket c)\<rparr>"
  have r: "recv_from now (cl_socket ?c) = (Inr (take MAX_UDP_PACKET_SIZE ?d, cl_server_addr c), after_datagram now ?d (cl_socket ?c))"
    by (rule take_one) (simp add: client_hears_def)
  have s: "?c\<lparr>cl_socket := after_datagram now ?d (cl_socket ?c)\<rparr> = ?t" by (simp add: client_hears_def after_datagram_def)
  have "client_datagram od now (take MAX_UDP_PACKET_SIZE ?d) (cl_server_addr c) ?t = client_handle_packet od now (control_packet pid t)
      (on_connection (record_bytes_received now (length (packet_bytes (control_packet pid t)))) ?t)"
    using assms(2) by (simp add: client_datagram_def control_opened[OF assms(1)])
  then show ?thesis
    by (subst client_receive_loop.simps, unfold r) (simp only: prod.case sum.case s)
qed

lemma client_takes_none:
  "os_incoming (us_socket (cl_socket c)) = [] \<Longrightarrow> client_receive_loop od now (c, es) = (c, es)"
  by (subst client_receive_loop.simps) (simp add: silent_receive)

text \<open>One update that hears one control packet.\<close>

lemma client_hop:
  assumes "channel_fits t" and "nc_protocol_id (cn_config (cl_connection c)) = pid"
    and "cl_state c \<in> {ClConnecting, ClChallengeResponse}"
    and "duration_since now (cl_connect_time c) \<le> nc_connection_timeout (cn_config (cl_connection c))"
    and "client_handle_packet od now (control_packet pid t) (on_connection
         (record_bytes_received now (length (packet_bytes (control_packet pid t))))
         (c\<lparr>cl_socket := after_datagram now (control_datagram pid t) (cl_socket c)\<rparr>)) = (c1, fs)"
  shows "Client_update od now (client_hears (control_datagram pid t) c) =
    (if cl_state c1 = ClConnected then map_option (\<lambda>(c2, gs). (c2, fs @ gs)) (client_connected_tick od now c1)
     else Some (c1, fs))"
proof -
  let ?d = "control_datagram pid t"
  let ?t = "on_connection (record_bytes_received now (length (packet_bytes (control_packet pid t))))
      (c\<lparr>cl_socket := after_datagram now ?d (cl_socket c)\<rparr>)"
  have "pending_receives (cl_socket c1) = 0"
    using handle_packet_receives[of od now "control_packet pid t" ?t] assms(5) by (simp add: pending_receives_def)
  then have "client_receive_loop od now (client_hears ?d c, []) = (c1, fs)"
    unfolding client_takes[OF assms(1,2)] using client_takes_none[of c1 od now] assms(5) by (simp add: pending_receives_def)
  moreover have "client_disconnecting now (client_hears ?d c) = (False, client_hears ?d c, [])"
    using assms(3) by (auto simp: client_disconnecting_def client_hears_def)
  ultimately show ?thesis
    using assms(3,4) by (auto simp: Client_update_def client_hears_def[of _ c])
qed

lemma server_hop:
  assumes "channel_fits t" and "nc_protocol_id (sv_config s) = pid" and "sv_connections s = []"
    and "handle_server_packet env (rnds 0) a (control_packet pid t)
        (s\<lparr>sv_socket := after_datagram (se_now env) (control_datagram pid t) (sv_socket s)\<rparr>) = (s1, es)"
    and "sv_connections s1 = []" and "sv_disconnecting s1 = []" and "is_iter_order (se_addr_order env)"
  shows "Server_update env rnds (server_hears (control_datagram pid t) a s) = Some (expire_server (se_now env) s1, es)"
proof -
  have "hm_keys (se_addr_order env) ([] :: (socket_addr, connection) hash_map) = []"
    using length_hm_keys[OF assms(7), of "[] :: (socket_addr, connection) hash_map"] by simp
  moreover have "expire_server (se_now env) (s1\<lparr>sv_disconnecting := []\<rparr>) = expire_server (se_now env) s1"
    using assms(6) by (cases s1) simp
  ultimately show ?thesis
    using assms(4-6) by (simp add: Server_update_def server_takes[OF assms(1-3)])
qed

section \<open>The steps of the handshake\<close>

definition asking_client :: "network_config \<Rightarrow> u64 \<Rightarrow> instant \<Rightarrow> socket_addr \<Rightarrow> client_state \<Rightarrow> (bytes \<times> socket_addr) list \<Rightarrow>
    net_client \<Rightarrow> bool" where
  "asking_client cfg salt t0 sa st outs c \<longleftrightarrow> cl_state c = st \<and> client_inv c \<and> cn_config (cl_connection c) = cfg \<and>
     cn_client_salt (cl_connection c) = salt \<and> cl_connect_time c = t0 \<and> cl_server_addr c = sa \<and>
     os_send_errors (us_socket (cl_socket c)) = [] \<and> client_out c = outs"

definition lone_server :: "network_config \<Rightarrow> bytes \<Rightarrow> rate_limiter \<Rightarrow> (socket_addr, pending_connection) hash_map \<Rightarrow>
    (bytes \<times> socket_addr) list \<Rightarrow> net_server \<Rightarrow> bool" where
  "lone_server cfg secret rl pend outs s \<longleftrightarrow> sv_connections s = [] \<and> sv_disconnecting s = [] \<and> sv_config s = cfg \<and>
     sv_cookie_secret s = secret \<and> sv_rate_limiter s = rl \<and> sv_pending s = pend \<and>
     os_send_errors (us_socket (sv_socket s)) = [] \<and> server_out s = outs"

lemma received_bytes_frame [simp]: "cn_config (record_bytes_received now len n) = cn_config n"
  "cn_client_salt (record_bytes_received now len n) = cn_client_salt n"
  by (simp_all add: record_bytes_received_def)

lemma connect_time_frame [simp]: "cl_connect_time (on_connection f c) = cl_connect_time c"
  "cl_connect_time (client_send_raw now t c) = cl_connect_time c"
  by (simp_all add: on_connection_def client_send_raw_def)

lemma client_raw_socket:
  assumes "os_send_errors (us_socket (cl_socket c)) = []" and "channel_fits t"
  shows "client_out (client_send_raw now t c) =
      client_out c @ [(control_datagram (nc_protocol_id (cn_config (cl_connection c))) t, cl_server_addr c)] \<and>
    os_send_errors (us_socket (cl_socket (client_send_raw now t c))) = []"
  using control_sent[OF assms] assms(1) by (simp add: client_send_raw_def)

lemma server_raw_socket:
  assumes "os_send_errors (us_socket (sv_socket s)) = []" and "channel_fits t"
  shows "server_out (server_send_raw now a t s) = server_out s @ [(control_datagram (nc_protocol_id (sv_config s)) t, a)] \<and>
    os_send_errors (us_socket (sv_socket (server_send_raw now a t s))) = []"
  using control_sent[OF assms] assms(1) by (simp add: server_send_raw_def)

lemma client_echoes:
  assumes "asking_client cfg salt t0 sa ClConnecting outs c" and "duration_since now t0 \<le> nc_connection_timeout cfg"
  shows "\<exists>c1. Client_update od now (client_hears (control_datagram (nc_protocol_id cfg) (ConnectionCookie h l)) c) = Some (c1, []) \<and>
    asking_client cfg salt t0 sa ClConnecting
      (outs @ [(control_datagram (nc_protocol_id cfg) (ConnectionRequestWithCookie h l), sa)]) c1"
proof -
  let ?p = "nc_protocol_id cfg"
  let ?t = "on_connection (record_bytes_received now (length (packet_bytes (control_packet ?p (ConnectionCookie h l)))))
      (c\<lparr>cl_socket := after_datagram now (control_datagram ?p (ConnectionCookie h l)) (cl_socket c)\<rparr>)"
  have "asking_client cfg salt t0 sa ClConnecting outs ?t"
    using assms(1) by (simp add: asking_client_def client_inv_def session_of_def sound)
  then have "asking_client cfg salt t0 sa ClConnecting (outs @ [(control_datagram ?p (ConnectionRequestWithCookie h l), sa)])
      (client_send_raw now (ConnectionRequestWithCookie h l) ?t)"
    using client_raw_socket[of ?t "ConnectionRequestWithCookie h l" now]
    by (simp add: asking_client_def client_inv_def channel_fits_def client_send_raw_def session_of_def)
  moreover have "client_handle_packet od now (control_packet ?p (ConnectionCookie h l)) ?t =
      (client_send_raw now (ConnectionRequestWithCookie h l) ?t, [])"
    using assms(1) by (simp add: client_handle_packet_def asking_client_def)
  ultimately show ?thesis
    using client_hop[of "ConnectionCookie h l" c ?p now od] assms
    by (simp add: asking_client_def channel_fits_def)
qed

lemma client_answers:
  assumes "asking_client cfg salt t0 sa ClConnecting outs c" and "duration_since now t0 \<le> nc_connection_timeout cfg"
  shows "\<exists>c1. Client_update od now (client_hears (control_datagram (nc_protocol_id cfg) (ConnectionChallenge k)) c) = Some (c1, []) \<and>
    asking_client cfg salt t0 sa ClChallengeResponse
      (outs @ [(control_datagram (nc_protocol_id cfg) (ConnectionResponse salt), sa)]) c1"
proof -
  let ?p = "nc_protocol_id cfg"
  let ?t = "on_connection (record_bytes_received now (length (packet_bytes (control_packet ?p (ConnectionChallenge k)))))
      (c\<lparr>cl_socket := after_datagram now (control_datagram ?p (ConnectionChallenge k)) (cl_socket c)\<rparr>)"
  let ?u = "(on_connection (set_server_salt k) ?t)\<lparr>cl_state := ClChallengeResponse\<rparr>"
  have "asking_client cfg salt t0 sa ClChallengeResponse outs ?u"
    using assms(1) by (simp add: asking_client_def client_inv_def session_of_def sound) (simp add: set_server_salt_def)
  then have "asking_client cfg salt t0 sa ClChallengeResponse (outs @ [(control_datagram ?p (ConnectionResponse salt), sa)])
      (client_send_raw now (ConnectionResponse salt) ?u)"
    using client_raw_socket[of ?u "ConnectionResponse salt" now]
    by (simp add: asking_client_def client_inv_def channel_fits_def client_send_raw_def session_of_def)
  moreover have "client_handle_packet od now (control_packet ?p (ConnectionChallenge k)) ?t =
      (client_send_raw now (ConnectionResponse salt) ?u, [])"
    using assms(1) by (simp add: client_handle_packet_def asking_client_def)
  ultimately show ?thesis
    using client_hop[of "ConnectionChallenge k" c ?p now od] assms
    by (simp add: asking_client_def channel_fits_def)
qed

lemma client_connects:
  assumes "asking_client cfg salt t0 sa ClChallengeResponse outs c" and "duration_since now t0 \<le> nc_connection_timeout cfg"
  shows "\<exists>c1 es. Client_update od now (client_hears (control_datagram (nc_protocol_id cfg) ConnectionAccept) c) =
      Some (c1, EvConnected # es) \<and> cl_state c1 = ClConnected"
proof -
  let ?p = "nc_protocol_id cfg"
  let ?t = "on_connection (record_bytes_received now (length (packet_bytes (control_packet ?p ConnectionAccept))))
      (c\<lparr>cl_socket := after_datagram now (control_datagram ?p ConnectionAccept) (cl_socket c)\<rparr>)"
  let ?u = "(on_connection (\<lambda>n. touch_recv_time now (set_state Connected n)) (?t\<lparr>cl_state := ClConnected\<rparr>))\<lparr>cl_connected_notified := True\<rparr>"
  have n: "\<not> cl_connected_notified ?t" "sound_conn (cl_connection ?u)"
    using assms(1) by (auto simp: asking_client_def client_inv_def session_of_def sound)
  have "client_handle_packet od now (control_packet ?p ConnectionAccept) ?t = (?u, [EvConnected])"
    using assms(1) n(1) by (simp add: client_handle_packet_def asking_client_def Let_def)
  from client_hop[OF _ _ _ _ this] assms
  have "Client_update od now (client_hears (control_datagram ?p ConnectionAccept) c) =
      map_option (\<lambda>(c2, gs). (c2, EvConnected # gs)) (client_connected_tick od now ?u)"
    by (simp add: asking_client_def channel_fits_def)
  moreover obtain n1 where "update_tick od now (cl_connection ?u) = Some (Inr (), n1)"
    using connected_tick[OF n(2), of now od] by (auto simp: touch_recv_time_def set_state_def duration_since_def)
  ultimately show ?thesis by (simp add: client_connected_tick_def split: prod.split)
qed

text \<open>The limiter's stamps of one address after its first request.\<close>

lemma limiter_first:
  assumes "max_requests_per_second rl = n" and "rate_limiter.requests rl = []" and "0 < n"
  shows "allow now a rl = (True, rl\<lparr>requests := [(sa_ip a, [now])]\<rparr>)"
  using assms by (simp add: allow_def stamps_of_def recent_def hm_insert_def)

lemma limiter_second:
  assumes "rate_limiter.requests rl = [(sa_ip a, [t])]" and "1 < max_requests_per_second rl"
  shows "fst (allow now a (limiter_cleanup t1 rl))"
proof -
  have "rate_limiter.requests (limiter_cleanup t1 rl) = [(sa_ip a, [t])] \<or> rate_limiter.requests (limiter_cleanup t1 rl) = []"
    using assms(1) by (simp add: limiter_cleanup_def recent_def hm_retain_def)
  then have "length (stamps_of (limiter_cleanup t1 rl) (sa_ip a)) \<le> 1" by (auto simp: stamps_of_def hm_get_def)
  then have "length (recent now (limiter_cleanup t1 rl) (stamps_of (limiter_cleanup t1 rl) (sa_ip a))) < max_requests_per_second rl"
    using assms(2) length_filter_le le_less_trans unfolding recent_def by (metis (no_types, lifting))
  moreover have "max_requests_per_second (limiter_cleanup t1 rl) = max_requests_per_second rl" by (simp add: limiter_cleanup_def)
  ultimately show ?thesis by (simp add: allow_def Let_def)
qed

lemma server_offers_cookie:
  assumes "lone_server cfg secret rl [] outs s" and "allow (se_now env) a rl = (True, rl1)" and "nc_enable_stateless_cookie cfg"
    and "is_iter_order (se_addr_order env)"
    and "cookie_to_u64_pair (generate_cookie a (se_unix_secs env div DEFAULT_COOKIE_WINDOW_SECS) secret) = (h, l)"
  shows "\<exists>s1. Server_update env rnds (server_hears (control_datagram (nc_protocol_id cfg) ConnectionRequest) a s) = Some (s1, []) \<and>
    lone_server cfg secret (limiter_cleanup (se_now env) rl1) []
      (outs @ [(control_datagram (nc_protocol_id cfg) (ConnectionCookie h l), a)]) s1"
proof -
  let ?d = "control_datagram (nc_protocol_id cfg) ConnectionRequest"
  let ?t = "s\<lparr>sv_socket := after_datagram (se_now env) ?d (sv_socket s)\<rparr>"
  let ?u = "server_send_raw (se_now env) a (ConnectionCookie h l) (?t\<lparr>sv_rate_limiter := rl1\<rparr>)"
  have h: "handle_server_packet env (rnds 0) a (control_packet (nc_protocol_id cfg) ConnectionRequest) ?t = (?u, [])"
    using assms by (simp add: handle_server_packet_def handle_request_def lone_server_def hm_contains_iff Let_def)
  have "lone_server cfg secret (limiter_cleanup (se_now env) rl1) []
      (outs @ [(control_datagram (nc_protocol_id cfg) (ConnectionCookie h l), a)]) (expire_server (se_now env) ?u)"
    using assms(1) server_raw_socket[of "?t\<lparr>sv_rate_limiter := rl1\<rparr>" "ConnectionCookie h l" "se_now env" a]
    by (simp add: lone_server_def expire_server_def channel_fits_def hm_retain_def) (simp add: server_send_raw_def)
  with server_hop[where rnds = rnds, OF _ _ _ h] assms(1,4) show ?thesis by (simp add: lone_server_def channel_fits_def)
qed

lemma server_challenges:
  assumes "lone_server cfg secret rl [] outs s" and "allow (se_now env) a rl = (True, rl1)"
    and "is_iter_order (se_addr_order env)"
    and "validate_cookie (cookie_from_u64_pair h l) a (se_unix_secs env) secret DEFAULT_COOKIE_WINDOW_SECS = Some True"
    and "0 < nc_max_pending cfg" and "0 < nc_max_clients cfg" and "0 < nc_connection_request_timeout cfg"
  shows "\<exists>s1 rl2. Server_update env rnds
      (server_hears (control_datagram (nc_protocol_id cfg) (ConnectionRequestWithCookie h l)) a s) = Some (s1, []) \<and>
    lone_server cfg secret rl2 [(a, \<lparr>pc_server_salt = rnds 0, pc_created_at = se_now env\<rparr>)]
      (outs @ [(control_datagram (nc_protocol_id cfg) (ConnectionChallenge (rnds 0)), a)]) s1"
proof -
  let ?d = "control_datagram (nc_protocol_id cfg) (ConnectionRequestWithCookie h l)"
  let ?t = "s\<lparr>sv_socket := after_datagram (se_now env) ?d (sv_socket s)\<rparr>"
  let ?v = "server_send_raw (se_now env) a (ConnectionChallenge (rnds 0)) (?t\<lparr>sv_rate_limiter := rl1\<rparr>)"
  let ?u = "?v\<lparr>sv_pending := [(a, \<lparr>pc_server_salt = rnds 0, pc_created_at = se_now env\<rparr>)]\<rparr>"
  have h: "handle_server_packet env (rnds 0) a (control_packet (nc_protocol_id cfg) (ConnectionRequestWithCookie h l)) ?t = (?u, [])"
    using assms
    by (simp add: handle_server_packet_def handle_cookie_request_def challenge_client_def lone_server_def hm_contains_iff
        hm_insert_def Let_def)
  have "lone_server cfg secret (limiter_cleanup (se_now env) rl1) [(a, \<lparr>pc_server_salt = rnds 0, pc_created_at = se_now env\<rparr>)]
      (outs @ [(control_datagram (nc_protocol_id cfg) (ConnectionChallenge (rnds 0)), a)]) (expire_server (se_now env) ?u)"
    using assms(1,7) server_raw_socket[of "?t\<lparr>sv_rate_limiter := rl1\<rparr>" "ConnectionChallenge (rnds 0)" "se_now env" a]
    by (simp add: lone_server_def expire_server_def channel_fits_def hm_retain_def duration_since_def) (simp add: server_send_raw_def)
  with server_hop[where rnds = rnds, OF _ _ _ h] assms(1,3) show ?thesis by (auto simp: lone_server_def channel_fits_def)
qed

lemma flush_appends:
  "\<exists>rest. os_outgoing (us_socket (snd (flush_packets now a st))) = os_outgoing (us_socket (snd st)) @ rest"
proof -
  have s: "\<exists>rest. os_outgoing (us_socket (snd (send_to now d a u))) = os_outgoing (us_socket u) @ rest" for d u
    by (auto simp: send_to_def os_send_to_def split: list.split option.split)
  have p: "\<exists>rest. os_outgoing (us_socket (snd (flush_packet now a p st))) = os_outgoing (us_socket (snd st)) @ rest" for p st
    using s[of _ "snd st"] by (auto simp: flush_packet_def split: option.split prod.split sum.split) (metis snd_conv)+
  have "\<exists>rest. os_outgoing (us_socket (snd (fold (flush_packet now a) ps st))) = os_outgoing (us_socket (snd st)) @ rest" for ps st
  proof (induction ps arbitrary: st)
    case (Cons q ps)
    from p[of q st] Cons.IH[of "flush_packet now a q st"] show ?case by auto
  qed simp
  from this[of "cn_send_queue (fst st)" "((fst st)\<lparr>cn_send_queue := []\<rparr>, snd st)"] show ?thesis
    by (simp add: flush_packets_def drain_send_queue_def)
qed

lemma server_accepts:
  assumes "lone_server cfg secret rl [(a, \<lparr>pc_server_salt = k, pc_created_at = t0\<rparr>)] outs s" and "salt \<notin> {0, k}"
    and "sound_config cfg" and "is_iter_order (se_addr_order env)"
  shows "\<exists>s1 es rest. Server_update env rnds
      (server_hears (control_datagram (nc_protocol_id cfg) (ConnectionResponse salt)) a s) = Some (s1, ClientConnected a # es) \<and>
    roster s1 = {a} \<and> server_out s1 = outs @ (control_datagram (nc_protocol_id cfg) ConnectionAccept, a) # rest"
proof -
  let ?d = "control_datagram (nc_protocol_id cfg) (ConnectionResponse salt)"
  let ?t = "s\<lparr>sv_socket := after_datagram (se_now env) ?d (sv_socket s)\<rparr>"
  let ?v = "server_send_raw (se_now env) a ConnectionAccept (?t\<lparr>sv_pending := []\<rparr>)"
  define n where "n = touch_recv_time (se_now env) (set_state Connected
      (Connection_new (se_enc_new env) (rnds 0) (se_now env) cfg (unwrap_or (se_local_addr env) a) a))"
  have n: "sound_conn n" "cn_state n = Connected" "cn_last_packet_recv_time n = se_now env"
    using assms(3) unfolding n_def sound_config_def
    by (auto intro!: sound sound_new) (simp_all add: touch_recv_time_def set_state_def)
  have h: "handle_server_packet env (rnds 0) a (control_packet (nc_protocol_id cfg) (ConnectionResponse salt)) ?t =
      (put_connection a n ?v, [ClientConnected a])"
    using assms(1,2)
    by (simp add: handle_server_packet_def handle_response_def lone_server_def hm_contains_iff hm_get_def hm_remove_def Let_def n_def)
  have it: "hm_keys (se_addr_order env) [(a, x)] = [a]" "hm_keys (se_addr_order env) ([] :: (socket_addr, connection) hash_map) = []" for x :: connection
    using length_hm_keys[OF assms(4), of "[(a, x)]"] set_hm_keys[OF assms(4), of "[(a, x)]"]
      length_hm_keys[OF assms(4), of "[] :: (socket_addr, connection) hash_map"] by (auto simp: length_Suc_conv)
  obtain n1 where t: "update_tick (se_orders env a) (se_now env) n = Some (Inr (), n1)"
    using connected_tick[OF n(1,2), of "se_now env" "se_orders env a"] n(3) by (auto simp: duration_since_def)
  obtain n2 u where f: "flush_packets (se_now env) a (n1, sv_socket ?v) = (n2, u)" by fastforce
  obtain ms n3 where d: "deliver_channels (channel_range n2) n2 = (ms, n3)" by fastforce
  obtain rest where "os_outgoing (us_socket u) = server_out ?v @ rest"
    using flush_appends[of "se_now env" a "(n1, sv_socket ?v)"] f by auto
  moreover have "server_out ?v = outs @ [(control_datagram (nc_protocol_id cfg) ConnectionAccept, a)]"
    using server_raw_socket[of "?t\<lparr>sv_pending := []\<rparr>" ConnectionAccept] assms(1) by (simp add: lone_server_def channel_fits_def)
  moreover have "sv_connections (put_connection a n ?v) = [(a, n)]" "sv_disconnecting (put_connection a n ?v) = []"
    "hm_get [(a, n)] a = Some n"
    using assms(1) by (simp_all add: put_connection_def lone_server_def hm_insert_def hm_get_def)
  ultimately show ?thesis
    using assms(1) t f d
    by (simp add: Server_update_def server_takes lone_server_def channel_fits_def h it tick_client_def put_connection_def
        expire_server_def roster_def hm_insert_def)
qed

text \<open>The first states, and the cookie that comes back.\<close>

lemma new_client:
  assumes "Client_connect enc_new text salt t0 (Inr idle_socket) local sa cfg = Inr c" and "sound_config cfg"
  shows "asking_client cfg salt t0 sa ClConnecting [(control_datagram (nc_protocol_id cfg) ConnectionRequest, sa)] c"
  using assms(1)
proof (rule connect_cases)
  fix os loc
  let ?c = "\<lparr>cl_socket = \<lparr>us_socket = os, us_stats = SocketStats_default\<rparr>,
        cl_connection = Connection_new enc_new salt t0 cfg loc sa, cl_server_addr = sa,
        cl_connected_notified = False, cl_state = ClConnecting, cl_connect_time = t0,
        cl_disconnect_time = None, cl_disconnect_retry_count = 0\<rparr>"
  assume os: "(Inr idle_socket :: os_error + os_socket) = Inr os" and "local = Inr loc" and c: "c = client_send_raw t0 ConnectionRequest ?c"
  have "asking_client cfg salt t0 sa ClConnecting [] ?c"
    using os sound_new assms(2) by (auto simp: asking_client_def client_inv_def session_of_def idle_socket_def sound_config_def Connection_new_def)
  then show ?thesis
    using client_raw_socket[of ?c ConnectionRequest t0]
    by (simp add: c asking_client_def channel_fits_def client_inv_def)
qed

lemma new_server:
  assumes "Server_bind text rnd (Inr idle_socket) cfg = Inr s"
  shows "lone_server cfg (cookie_secret_of rnd) (ConnectionRateLimiter_new (nc_rate_limit_per_second cfg)) [] [] s"
    and "0 < nc_max_clients cfg"
  using assms by (auto elim!: bind_cases simp: lone_server_def idle_socket_def validate_OkD)

lemma issued_cookie_valid:
  assumes "cookie_to_u64_pair (generate_cookie a (t div DEFAULT_COOKIE_WINDOW_SECS) secret) = (h, l)"
    and "t1 div DEFAULT_COOKIE_WINDOW_SECS = t div DEFAULT_COOKIE_WINDOW_SECS"
  shows "validate_cookie (cookie_from_u64_pair h l) a t1 secret DEFAULT_COOKIE_WINDOW_SECS = Some True"
proof -
  have "cookie_from_u64_pair h l = generate_cookie a (t div DEFAULT_COOKIE_WINDOW_SECS) secret"
    using cookie_pair_roundtrip(1)[of "generate_cookie a (t div DEFAULT_COOKIE_WINDOW_SECS) secret"] assms(1)
    by (simp add: COOKIE_SIZE_def)
  with assms(2) show ?thesis by (auto simp: validate_cookie_def Let_def DEFAULT_COOKIE_WINDOW_SECS_def)
qed

section \<open>The handshake\<close>

text \<open>C9: the handshake with stateless cookies completes. A new client and a new server that speak the
  same protocol and whose datagrams arrive need three exchanges: the server answers the request with
  a cookie for the client's address, the echoed cookie with a challenge, and the response with the
  acceptance; then the server has announced the client and the client its connection.\<close>

theorem cookie_handshake:
  assumes "Client_connect enc_new text salt t0 (Inr idle_socket) local sa cfg = Inr c0"
    and "Server_bind text1 rnd (Inr idle_socket) scfg = Inr s0"
    and "sound_config cfg" and "sound_config scfg" and "nc_protocol_id cfg = nc_protocol_id scfg"
    and "nc_enable_stateless_cookie scfg" and "1 < nc_rate_limit_per_second scfg" and "0 < nc_max_pending scfg"
    and "0 < nc_connection_request_timeout scfg"
    and "is_iter_order (se_addr_order env1)" and "is_iter_order (se_addr_order env2)" and "is_iter_order (se_addr_order env3)"
    and "se_unix_secs env2 div DEFAULT_COOKIE_WINDOW_SECS = se_unix_secs env1 div DEFAULT_COOKIE_WINDOW_SECS"
    and "salt \<notin> {0, r2 0}"
    and "\<forall>t \<in> {t1, t2, t3}. duration_since t t0 \<le> nc_connection_timeout cfg"
  shows "\<exists>s1 s2 s3 c1 c2 c3 h l es fs rest. let dg = control_datagram (nc_protocol_id scfg) in
    client_out c0 = [(dg ConnectionRequest, sa)] \<and>
    Server_update env1 r1 (server_hears (dg ConnectionRequest) a s0) = Some (s1, []) \<and>
    server_out s1 = [(dg (ConnectionCookie h l), a)] \<and>
    Client_update od1 t1 (client_hears (dg (ConnectionCookie h l)) c0) = Some (c1, []) \<and>
    client_out c1 = client_out c0 @ [(dg (ConnectionRequestWithCookie h l), sa)] \<and>
    Server_update env2 r2 (server_hears (dg (ConnectionRequestWithCookie h l)) a s1) = Some (s2, []) \<and>
    server_out s2 = server_out s1 @ [(dg (ConnectionChallenge (r2 0)), a)] \<and>
    Client_update od2 t2 (client_hears (dg (ConnectionChallenge (r2 0))) c1) = Some (c2, []) \<and>
    client_out c2 = client_out c1 @ [(dg (ConnectionResponse salt), sa)] \<and>
    Server_update env3 r3 (server_hears (dg (ConnectionResponse salt)) a s2) = Some (s3, ClientConnected a # es) \<and>
    server_out s3 = server_out s2 @ (dg ConnectionAccept, a) # rest \<and> roster s3 = {a} \<and>
    Client_update od3 t3 (client_hears (dg ConnectionAccept) c2) = Some (c3, EvConnected # fs) \<and>
    cl_state c3 = ClConnected"
proof -
  let ?dg = "control_datagram (nc_protocol_id scfg)"
  have pid: "nc_protocol_id cfg = nc_protocol_id scfg" by (rule assms(5))
  have c0: "asking_client cfg salt t0 sa ClConnecting [(?dg ConnectionRequest, sa)] c0"
    using new_client[OF assms(1,3)] by (simp add: pid)
  have s0: "lone_server scfg (cookie_secret_of rnd) (ConnectionRateLimiter_new (nc_rate_limit_per_second scfg)) [] [] s0"
    "0 < nc_max_clients scfg" by (rule new_server[OF assms(2)])+
  let ?rl = "ConnectionRateLimiter_new (nc_rate_limit_per_second scfg)"
  let ?rl1 = "?rl\<lparr>rate_limiter.requests := [(sa_ip a, [se_now env1])]\<rparr>"
  obtain h l where hl: "cookie_to_u64_pair (generate_cookie a (se_unix_secs env1 div DEFAULT_COOKIE_WINDOW_SECS) (cookie_secret_of rnd)) = (h, l)"
    by fastforce
  have "allow (se_now env1) a ?rl = (True, ?rl1)" using limiter_first[of ?rl] assms(7) by (simp add: ConnectionRateLimiter_new_def)
  from server_offers_cookie[OF s0(1) this assms(6,10) hl, of r1] obtain s1 where
    s1: "Server_update env1 r1 (server_hears (?dg ConnectionRequest) a s0) = Some (s1, [])"
      "lone_server scfg (cookie_secret_of rnd) (limiter_cleanup (se_now env1) ?rl1) [] [(?dg (ConnectionCookie h l), a)] s1" by auto
  obtain c1 where c1: "Client_update od1 t1 (client_hears (?dg (ConnectionCookie h l)) c0) = Some (c1, [])"
    "asking_client cfg salt t0 sa ClConnecting [(?dg ConnectionRequest, sa), (?dg (ConnectionRequestWithCookie h l), sa)] c1"
    using client_echoes[OF c0, of t1 od1 h l] assms(15) by (auto simp: pid)
  obtain rl2 where "allow (se_now env2) a (limiter_cleanup (se_now env1) ?rl1) = (True, rl2)"
    using limiter_second[of ?rl1 a "se_now env1" "se_now env2" "se_now env1"] assms(7)
    by (cases "allow (se_now env2) a (limiter_cleanup (se_now env1) ?rl1)") (simp add: ConnectionRateLimiter_new_def)
  moreover have "validate_cookie (cookie_from_u64_pair h l) a (se_unix_secs env2) (cookie_secret_of rnd) DEFAULT_COOKIE_WINDOW_SECS = Some True"
    using issued_cookie_valid[OF hl, of "se_unix_secs env2"] assms(13) by simp
  ultimately obtain s2 rl3 where
    s2: "Server_update env2 r2 (server_hears (?dg (ConnectionRequestWithCookie h l)) a s1) = Some (s2, [])"
      "lone_server scfg (cookie_secret_of rnd) rl3 [(a, \<lparr>pc_server_salt = r2 0, pc_created_at = se_now env2\<rparr>)]
        [(?dg (ConnectionCookie h l), a), (?dg (ConnectionChallenge (r2 0)), a)] s2"
    using server_challenges[OF s1(2) _ assms(11) _ assms(8) s0(2) assms(9), where rnds = r2] by fastforce
  obtain c2 where c2: "Client_update od2 t2 (client_hears (?dg (ConnectionChallenge (r2 0))) c1) = Some (c2, [])"
    "asking_client cfg salt t0 sa ClChallengeResponse [(?dg ConnectionRequest, sa), (?dg (ConnectionRequestWithCookie h l), sa),
      (?dg (ConnectionResponse salt), sa)] c2"
    using client_answers[OF c1(2), of t2 od2 "r2 0"] assms(15) by (auto simp: pid)
  obtain s3 es rest where s3: "Server_update env3 r3 (server_hears (?dg (ConnectionResponse salt)) a s2) = Some (s3, ClientConnected a # es)"
    "roster s3 = {a}" "server_out s3 = [(?dg (ConnectionCookie h l), a), (?dg (ConnectionChallenge (r2 0)), a)] @ (?dg ConnectionAccept, a) # rest"
    using server_accepts[OF s2(2) assms(14,4,12), of r3] by auto
  obtain c3 fs where "Client_update od3 t3 (client_hears (?dg ConnectionAccept) c2) = Some (c3, EvConnected # fs)" "cl_state c3 = ClConnected"
    using client_connects[OF c2(2), of t3 od3] assms(15) by (auto simp: pid)
  with c0 s1 c1 s2 c2 s3 show ?thesis
    unfolding Let_def asking_client_def lone_server_def by (intro exI[of _ h] exI) auto
qed

theorem cookie_handshake_witness:
  "\<exists>s2 s3 c2 c3 es fs rest.
    Server_update (example_env 8) (\<lambda>_. 3) (server_hears (control_datagram 7 (ConnectionResponse 11)) (example_addr 1) s2) =
      Some (s3, ClientConnected (example_addr 1) # es) \<and> roster s3 = {example_addr 1} \<and>
    server_out s3 = server_out s2 @ (control_datagram 7 ConnectionAccept, example_addr 1) # rest \<and>
    Client_update example_orders 9 (client_hears (control_datagram 7 ConnectionAccept) c2) = Some (c3, EvConnected # fs) \<and>
    cl_state c3 = ClConnected"
proof -
  have q: "nc_enable_stateless_cookie quiet_config" "1 < nc_rate_limit_per_second quiet_config" "0 < nc_max_pending quiet_config"
    "nc_connection_request_timeout quiet_config = 5" "nc_connection_timeout quiet_config = 1000" "nc_protocol_id quiet_config = 7"
    by (simp_all add: quiet_config_def NetworkConfig_default_def config_defaults DEFAULT_RATE_LIMIT_PER_SECOND_def DEFAULT_MAX_PENDING_def)
  have it: "is_iter_order (se_addr_order (example_env t))" for t by (simp add: example_env_def iter_order_id[folded id_def])
  have t: "\<forall>t \<in> {3, 5, 9}. duration_since t 0 \<le> nc_connection_timeout quiet_config" by (simp add: q duration_since_def)
  have u: "se_unix_secs (example_env 7) div DEFAULT_COOKIE_WINDOW_SECS = se_unix_secs (example_env 6) div DEFAULT_COOKIE_WINDOW_SECS"
    by (simp add: example_env_def)
  from cookie_handshake[where ?env1.0 = "example_env 6" and ?env2.0 = "example_env 7" and ?env3.0 = "example_env 8"
      and ?r1.0 = "\<lambda>_. 1" and ?r2.0 = "\<lambda>_. 9" and ?r3.0 = "\<lambda>_. 3" and ?od1.0 = example_orders and ?od2.0 = example_orders
      and ?od3.0 = example_orders and a = "example_addr 1",
      OF example_client_connect quiet_server_bind[OF quiet_valid] sound_quiet(2) sound_quiet(2) refl q(1-3) _ it it it u _ t] q(4)
  show ?thesis unfolding Let_def q by simp (elim exE conjE, intro exI conjI, assumption+)
qed

section \<open>Closing a connection over the shared socket\<close>

lemma send_keeps_incoming: "os_incoming (us_socket (snd (send_to now d a u))) = os_incoming (us_socket u)"
  by (auto simp: send_to_def os_send_to_def split: list.split option.split)

lemma process_send_queue_frame:
  "os_incoming (us_socket (snd (snd (process_send_queue aead_seal now st)))) = os_incoming (us_socket (snd st)) \<and>
   cn_remote_addr (fst (snd (process_send_queue aead_seal now st))) = cn_remote_addr (fst st)"
proof (induction aead_seal now st rule: process_send_queue.induct)
  case (1 aead_seal now c u)
  show ?case
  proof (cases "cn_send_queue c")
    case (Cons p rest)
    note IH = 1[OF Cons refl]
    have "os_incoming (us_socket u1) = os_incoming (us_socket u)" if "send_to now d a u = (r, u1)" for d a r u1
      using send_keeps_incoming[of now d a u] that by simp
    with Cons IH show ?thesis
      by (subst (1 2) process_send_queue.simps) (auto simp: Let_def record_bytes_sent_def split: sum.split prod.split)
  qed (subst (1 2) process_send_queue.simps, simp)
qed

lemma receive_foreign:
  assumes "list_all (\<lambda>x. case x of Inl _ \<Rightarrow> False | Inr (d, a) \<Rightarrow> a \<noteq> cn_remote_addr n) (os_incoming (us_socket u))"
  shows "\<exists>u1. receive_packets aead_open od now (n, u) = (Inr (), n, u1) \<and> os_incoming (us_socket u1) = [] \<and>
    os_outgoing (us_socket u1) = os_outgoing (us_socket u)"
  using assms
proof (induction "os_incoming (us_socket u)" arbitrary: u)
  case Nil
  then show ?case by (simp add: receive_packets.simps[of _ _ _ n] silent_receive SocketError_from_def)
next
  case (Cons x xs)
  note q = Cons.hyps(2)[symmetric]
  obtain d a where x: "x = Inr (d, a)" "a \<noteq> cn_remote_addr n" using Cons.prems by (auto simp: q split: sum.splits)
  obtain u1 where u: "recv_from now u = (Inr (take MAX_UDP_PACKET_SIZE d, a), u1)" "os_incoming (us_socket u1) = xs"
    "os_outgoing (us_socket u1) = os_outgoing (us_socket u)"
    by (simp add: recv_from_def os_recv_from_def q x)
  have "receive_packets aead_open od now (n, u) = receive_packets aead_open od now (n, u1)"
    using x(2) by (simp add: receive_packets.simps[of _ _ _ n u] u(1) receive_datagram_def)
  with Cons.hyps(1)[of u1] Cons.prems u(2,3) show ?case by (simp add: q)
qed

text \<open>C33: to disconnect a client the server runs the closing connection's own input loop on the socket
  it shares with all clients. Every datagram waiting there from another client is taken and dropped;
  nothing of it reaches that client's connection, which is left as it was, and no event is announced.\<close>

theorem disconnect_drops_datagrams:
  assumes "hm_get (sv_connections s) a = Some n" and "cn_state n = Connected" and "cn_remote_addr n = a"
    and "list_all (\<lambda>p. channel_fits (pkt_type p)) (cn_send_queue n)" and "os_send_errors (us_socket (sv_socket s)) = []"
    and "list_all (\<lambda>x. case x of Inl _ \<Rightarrow> False | Inr (d, b) \<Rightarrow> b \<noteq> a) (os_incoming (us_socket (sv_socket s)))"
  shows "\<exists>s1. server_disconnect env a reason s = Some s1 \<and> os_incoming (us_socket (sv_socket s1)) = [] \<and>
    sv_connections s1 = hm_remove a (sv_connections s)"
proof -
  let ?n = "snd (disconnect (se_now env) reason n)"
  obtain n1 where t: "update_tick (se_orders env a) (se_now env) ?n = Some (Inr (), n1)" "cn_remote_addr n1 = a"
    "list_all (\<lambda>p. channel_fits (pkt_type p)) (cn_send_queue n1)"
    using assms(2-4)
    by (auto simp: update_tick_def update_state_def update_disconnecting_def disconnect_def queue_packet_def create_header_def
        push_packet_def with_payload_def Packet_new_def channel_fits_def duration_since_def update_stats_def Let_def split: prod.split)
  obtain n2 u2 where q: "process_send_queue (se_seal env) (se_now env) (n1, sv_socket s) = (Inr (), n2, u2)"
    using process_send_queue_ok[OF t(3) assms(5)] by blast
  with process_send_queue_frame[of "se_seal env" "se_now env" "(n1, sv_socket s)"] t(2)
  have f: "os_incoming (us_socket u2) = os_incoming (us_socket (sv_socket s))" "cn_remote_addr n2 = a" by simp_all
  have "list_all (\<lambda>x. case x of Inl _ \<Rightarrow> False | Inr (d, b) \<Rightarrow> b \<noteq> cn_remote_addr n2) (os_incoming (us_socket u2))"
    unfolding f by (rule assms(6))
  from receive_foreign[OF this] obtain u3 where
    "receive_packets (se_open env) (se_orders env a) (se_now env) (n2, u2) = (Inr (), n2, u3)" "os_incoming (us_socket u3) = []" by blast
  with assms(1) t(1) q show ?thesis by (simp add: server_disconnect_def Connection_update_def)
qed

definition two_clients :: net_server where
  "two_clients = (quiet_server (server_config 3))\<lparr>sv_connections := [(example_addr 2, shaken), (example_addr 4, shaken)],
     sv_socket := \<lparr>us_socket = idle_socket\<lparr>os_incoming := [Inr ([1, 2, 3], example_addr 4)]\<rparr>, us_stats = SocketStats_default\<rparr>\<rparr>"

theorem disconnect_drops_datagrams_witness:
  "os_incoming (us_socket (sv_socket two_clients)) = [Inr ([1, 2, 3], example_addr 4)] \<and>
   (\<exists>s1. server_disconnect (example_env 5) (example_addr 2) 0 two_clients = Some s1 \<and>
     os_incoming (us_socket (sv_socket s1)) = [] \<and> hm_get (sv_connections s1) (example_addr 4) = Some shaken)"
proof -
  have n: "example_addr 4 \<noteq> example_addr 2" "cn_remote_addr shaken = example_addr 2"
    "list_all (\<lambda>p. channel_fits (pkt_type p)) (cn_send_queue shaken)"
    by (simp_all add: example_addr_def shaken_def connect_def example_conn_state send_connection_request_def push_packet_def
        handle_packet_def Packet_new_def queue_packet_def create_header_alt example_conn_def Connection_new_def channel_fits_def
        with_payload_def)
  have "hm_get (sv_connections two_clients) (example_addr 2) = Some shaken" by (simp add: two_clients_def hm_get_def)
  from disconnect_drops_datagrams[OF this shaken_state n(2,3), of "example_env 5" 0] n(1)
  show ?thesis by (auto simp: two_clients_def idle_socket_def map_simps hm_get_def hm_remove_def)
qed

end
