(* ===== verification/Delta.thy ===== *)
theory Delta
  imports Derive Rust_Std Config Sequence
begin

text \<open>
  Delta compression: what \<open>#[derive(NetworkDelta)]\<close> generates (\<open>gbnet_macros/src/delta.rs\<close>), the
  sender's tracker of baselines and the receiver's store of snapshots (\<open>gbnet/src/delta.rs\<close>).

  A struct is the list of its fields' values; the macro's input is the list of its fields, each with
  its writer, its reader and its \<open>PartialEq\<close>. The trait \<open>NetworkDelta\<close> is a record of functions, which
  the tracker takes as an argument where the code is generic.
\<close>

section \<open>The generated code\<close>

record 'v delta_field =
  df_ser :: "'v \<Rightarrow> unit bio"
  df_des :: "'v bio"
  df_ne :: "'v \<Rightarrow> 'v \<Rightarrow> bool"

text \<open>A field with \<open>#[bits = b]\<close>: \<open>val as u64\<close> on the way out, \<open>as T\<close> on the way in.\<close>

definition bits_ser :: "prim_type \<Rightarrow> nat \<Rightarrow> u64 \<Rightarrow> unit bio" where
  "bits_ser t b v = write_bits (prim_as_u64 t v) b"

definition bits_des :: "prim_type \<Rightarrow> nat \<Rightarrow> u64 bio" where
  "bits_des t b = bio_bind (read_bits b) (\<lambda>v. bio_return (prim_from_u64 t v))"

text \<open>\<open>diff\<close> and \<open>apply\<close>, field by field.\<close>

fun delta_diff :: "'v delta_field list \<Rightarrow> 'v list \<Rightarrow> 'v list \<Rightarrow> 'v option list" where
  "delta_diff (f # fs) (x # xs) (y # ys) = (if df_ne f x y then Some x else None) # delta_diff fs xs ys"
| "delta_diff _ _ _ = []"

fun delta_apply :: "'v list \<Rightarrow> 'v option list \<Rightarrow> 'v list" where
  "delta_apply (y # ys) (d # ds) = (case d of Some x \<Rightarrow> x | None \<Rightarrow> y) # delta_apply ys ds"
| "delta_apply ys _ = ys"

text \<open>The presence mask: \<open>bitmask |= 1u64 << i\<close> for every field \<open>i\<close> that changed.\<close>

definition delta_mask :: "'v option list \<Rightarrow> u64" where
  "delta_mask ds = foldl (\<lambda>m (i, d). if d \<noteq> None then m OR push_bit i 1 else m) 0 (enumerate 0 ds)"

fun delta_ser_fields :: "'v delta_field list \<Rightarrow> 'v option list \<Rightarrow> unit bio" where
  "delta_ser_fields (f # fs) (d # ds) =
     bio_then (case d of Some x \<Rightarrow> df_ser f x | None \<Rightarrow> bio_return ()) (delta_ser_fields fs ds)"
| "delta_ser_fields _ _ = bio_return ()"

definition delta_ser :: "'v delta_field list \<Rightarrow> 'v option list \<Rightarrow> unit bio" where
  "delta_ser fs ds = bio_then (write_bits (delta_mask ds) (length fs)) (delta_ser_fields fs ds)"

fun delta_des_fields :: "'v delta_field list \<Rightarrow> nat \<Rightarrow> u64 \<Rightarrow> 'v option list bio" where
  "delta_des_fields [] i m = bio_return []"
| "delta_des_fields (f # fs) i m =
     bio_bind (if m AND push_bit i 1 \<noteq> 0 then bio_bind (df_des f) (\<lambda>x. bio_return (Some x)) else bio_return None)
       (\<lambda>d. bio_bind (delta_des_fields fs (i + 1) m) (\<lambda>ds. bio_return (d # ds)))"

definition delta_des :: "'v delta_field list \<Rightarrow> 'v option list bio" where
  "delta_des fs = bio_bind (read_bits (length fs)) (delta_des_fields fs 0)"

section \<open>The trait and the two sides\<close>

record ('t, 'd) network_delta =
  nd_diff :: "'t \<Rightarrow> 't \<Rightarrow> 'd"
  nd_apply :: "'t \<Rightarrow> 'd \<Rightarrow> 't"
  nd_ser :: "'t \<Rightarrow> unit bio"
  nd_des :: "'t bio"
  nd_ser_delta :: "'d \<Rightarrow> unit bio"
  nd_des_delta :: "'d bio"

text \<open>The derived implementation, next to the struct's own \<open>BitSerialize\<close> and \<open>BitDeserialize\<close>.\<close>

definition derived_delta :: "'v delta_field list \<Rightarrow> ('v list \<Rightarrow> unit bio) \<Rightarrow> 'v list bio \<Rightarrow> ('v list, 'v option list) network_delta" where
  "derived_delta fs ser des = \<lparr>nd_diff = delta_diff fs, nd_apply = delta_apply, nd_ser = ser, nd_des = des,
     nd_ser_delta = delta_ser fs, nd_des_delta = delta_des fs\<rparr>"

definition NO_BASELINE :: u16 where
  "NO_BASELINE = 65535"

definition BASELINE_SEQ_BITS :: nat where
  "BASELINE_SEQ_BITS = 16"

record 't delta_tracker =
  dt_pending :: "(u16 \<times> 't) list"
  dt_confirmed_baseline :: "(u16 \<times> 't) option"
  dt_max_pending :: nat

definition DeltaTracker_new :: "nat \<Rightarrow> 't delta_tracker" where
  "DeltaTracker_new max_pending = \<lparr>dt_pending = [], dt_confirmed_baseline = None, dt_max_pending = max_pending\<rparr>"

definition DeltaTracker_from_config :: "network_config \<Rightarrow> 't delta_tracker" where
  "DeltaTracker_from_config config = DeltaTracker_new (nc_max_baseline_snapshots config)"

definition baseline_ser :: "('t, 'd) network_delta \<Rightarrow> (u16 \<times> 't) option \<Rightarrow> 't \<Rightarrow> unit bio" where
  "baseline_ser nd baseline current =
     (case baseline of
        Some (base_seq, base) \<Rightarrow>
          bio_then (write_bits (ucast base_seq) BASELINE_SEQ_BITS) (nd_ser_delta nd (nd_diff nd current base))
      | None \<Rightarrow> bio_then (write_bits (ucast NO_BASELINE) BASELINE_SEQ_BITS) (nd_ser nd current))"

definition push_pending :: "u16 \<Rightarrow> 't \<Rightarrow> 't delta_tracker \<Rightarrow> 't delta_tracker" where
  "push_pending seq current t =
     (let kept = if length (dt_pending t) \<ge> dt_max_pending t then tl (dt_pending t) else dt_pending t
      in t\<lparr>dt_pending := kept @ [(seq, current)]\<rparr>)"

definition delta_encode :: "('t, 'd) network_delta \<Rightarrow> u16 \<Rightarrow> 't \<Rightarrow> 't delta_tracker \<Rightarrow>
    (io_error + bytes) \<times> 't delta_tracker" where
  "delta_encode nd seq current t =
     (case baseline_ser nd (dt_confirmed_baseline t) current BitBuffer_new of
        (Inl e, _) \<Rightarrow> (Inl e, t)
      | (Inr _, buf) \<Rightarrow> (into_bytes True buf, push_pending seq current t))"

definition delta_on_ack :: "u16 \<Rightarrow> 't delta_tracker \<Rightarrow> 't delta_tracker" where
  "delta_on_ack seq t =
     (case List.extract (\<lambda>(s, _). s = seq) (dt_pending t) of
        None \<Rightarrow> t
      | Some (before, (ack_seq, snapshot), after) \<Rightarrow>
          t\<lparr>dt_confirmed_baseline := Some (ack_seq, snapshot),
            dt_pending := dropWhile (\<lambda>(s, _). sequence_diff s ack_seq < 0) (before @ after)\<rparr>)"

definition tracker_reset :: "'t delta_tracker \<Rightarrow> 't delta_tracker" where
  "tracker_reset t = t\<lparr>dt_pending := [], dt_confirmed_baseline := None\<rparr>"

definition confirmed_seq :: "'t delta_tracker \<Rightarrow> u16 option" where
  "confirmed_seq t = map_option fst (dt_confirmed_baseline t)"

record 't baseline_manager =
  bm_snapshots :: "(u16 \<times> 't \<times> instant) list"
  bm_max_snapshots :: nat
  bm_timeout :: duration

definition BaselineManager_new :: "nat \<Rightarrow> duration \<Rightarrow> 't baseline_manager" where
  "BaselineManager_new max_snapshots timeout = \<lparr>bm_snapshots = [], bm_max_snapshots = max_snapshots, bm_timeout = timeout\<rparr>"

definition BaselineManager_from_config :: "network_config \<Rightarrow> 't baseline_manager" where
  "BaselineManager_from_config config =
     BaselineManager_new (nc_max_baseline_snapshots config) (nc_delta_baseline_timeout config)"

definition push_snapshot :: "instant \<Rightarrow> u16 \<Rightarrow> 't \<Rightarrow> 't baseline_manager \<Rightarrow> 't baseline_manager" where
  "push_snapshot now seq state m =
     (let fresh = dropWhile (\<lambda>(_, _, ts). duration_since now ts > bm_timeout m) (bm_snapshots m);
          kept = if length fresh \<ge> bm_max_snapshots m then tl fresh else fresh
      in m\<lparr>bm_snapshots := kept @ [(seq, state, now)]\<rparr>)"

definition get_baseline :: "u16 \<Rightarrow> 't baseline_manager \<Rightarrow> 't option" where
  "get_baseline seq m = map_option (\<lambda>(_, state, _). state) (List.find (\<lambda>(s, _, _). s = seq) (rev (bm_snapshots m)))"

definition manager_reset :: "'t baseline_manager \<Rightarrow> 't baseline_manager" where
  "manager_reset m = m\<lparr>bm_snapshots := []\<rparr>"

definition delta_read :: "('t, 'd) network_delta \<Rightarrow> 't baseline_manager \<Rightarrow> 't bio" where
  "delta_read nd baselines =
     bio_bind (read_bits BASELINE_SEQ_BITS) (\<lambda>v.
       let base_seq = ucast v :: u16
       in if base_seq = NO_BASELINE then nd_des nd
          else case get_baseline base_seq baselines of
                 None \<Rightarrow> bio_fail InvalidData
               | Some base \<Rightarrow> bio_bind (nd_des_delta nd) (\<lambda>delta. bio_return (nd_apply nd base delta)))"

definition delta_decode :: "('t, 'd) network_delta \<Rightarrow> bytes \<Rightarrow> 't baseline_manager \<Rightarrow> io_error + 't" where
  "delta_decode nd data baselines = fst (delta_read nd baselines (BitBuffer_from_bytes data))"

section \<open>The generated code is a codec and a patch\<close>

text \<open>
  A field described: the field, the bits its writer appends and the values it carries. A described
  field is sound when its writer and reader are a codec and its \<open>PartialEq\<close> is equality.
\<close>

type_synonym 'v described = "'v delta_field \<times> ('v \<Rightarrow> bool list) \<times> ('v \<Rightarrow> bool)"

definition field_ok :: "'v described \<Rightarrow> bool" where
  "field_ok c = (case c of (f, enc, valid) \<Rightarrow> bit_codec (df_ser f) (df_des f) enc valid \<and> (\<forall>x y. df_ne f x y \<longleftrightarrow> x \<noteq> y))"

definition struct_valid :: "'v described list \<Rightarrow> 'v list \<Rightarrow> bool" where
  "struct_valid cs xs = list_all2 (\<lambda>(f, enc, valid) x. valid x) cs xs"

definition delta_valid :: "'v described list \<Rightarrow> 'v option list \<Rightarrow> bool" where
  "delta_valid cs ds = list_all2 (\<lambda>(f, enc, valid) d. \<forall>x. d = Some x \<longrightarrow> valid x) cs ds"

fun delta_enc_fields :: "'v described list \<Rightarrow> 'v option list \<Rightarrow> bool list" where
  "delta_enc_fields ((f, enc, valid) # cs) (d # ds) = (case d of Some x \<Rightarrow> enc x | None \<Rightarrow> []) @ delta_enc_fields cs ds"
| "delta_enc_fields _ _ = []"

definition delta_enc :: "'v described list \<Rightarrow> 'v option list \<Rightarrow> bool list" where
  "delta_enc cs ds = msb_bits (length cs) (delta_mask ds) @ delta_enc_fields cs ds"

lemma bit_delta_mask:
  "bit (foldl (\<lambda>m (i, d). if d \<noteq> None then m OR push_bit i 1 else m) (m :: u64) (enumerate k ds)) j \<longleftrightarrow>
     bit m j \<or> (k \<le> j \<and> j < k + length ds \<and> j < 64 \<and> ds ! (j - k) \<noteq> None)"
proof (induction ds arbitrary: k m)
  case (Cons d ds)
  have "bit (if d \<noteq> None then m OR push_bit k 1 else m) j \<longleftrightarrow> bit m j \<or> (j = k \<and> j < 64 \<and> d \<noteq> None)"
    unfolding bit_or_iff bit_push_bit_iff bit_1_iff if_distrib[of "\<lambda>w. bit w j"] by auto
  moreover have "(k \<le> j \<and> j < k + length (d # ds) \<and> j < 64 \<and> (d # ds) ! (j - k) \<noteq> None) \<longleftrightarrow>
      (j = k \<and> j < 64 \<and> d \<noteq> None) \<or> (Suc k \<le> j \<and> j < Suc k + length ds \<and> j < 64 \<and> ds ! (j - Suc k) \<noteq> None)"
    by (cases "j = k") (auto simp: nth_Cons' simp del: not_None_eq)
  ultimately show ?case using Cons.IH[where k = "Suc k"] by (simp only: enumerate_simps foldl_Cons prod.case) blast
qed auto

lemma delta_mask_bit: "bit (delta_mask ds) j \<longleftrightarrow> j < length ds \<and> j < 64 \<and> ds ! j \<noteq> None"
  by (auto simp: delta_mask_def bit_delta_mask simp del: not_None_eq)

lemma mask_fits: "length ds \<le> n \<Longrightarrow> take_bit n (delta_mask ds) = delta_mask ds"
  by (rule bit_word_eqI) (auto simp: bit_take_bit_iff delta_mask_bit)

lemma fields_write:
  "list_all field_ok cs \<Longrightarrow> delta_valid cs ds \<Longrightarrow> writes (delta_ser_fields (map fst cs) ds) (delta_enc_fields cs ds)"
proof (induction cs ds rule: delta_enc_fields.induct)
  case (1 f enc valid cs d ds)
  then have "writes (case d of Some x \<Rightarrow> df_ser f x | None \<Rightarrow> bio_return ()) (case d of Some x \<Rightarrow> enc x | None \<Rightarrow> [])"
    by (auto simp: field_ok_def delta_valid_def bit_codec_iff intro: writes_return split: option.split)
  from writes_then[OF this] 1 show ?case by (simp add: delta_valid_def)
qed (simp_all add: delta_valid_def writes_return)

lemma fields_read:
  "list_all field_ok cs \<Longrightarrow> delta_valid cs ds \<Longrightarrow> \<forall>j < length ds. bit m (i + j) \<longleftrightarrow> ds ! j \<noteq> None \<Longrightarrow>
   reads (delta_des_fields (map fst cs) i m) (delta_enc_fields cs ds) ds"
proof (induction cs ds arbitrary: i rule: delta_enc_fields.induct)
  case (1 f enc valid cs d ds)
  have b: "bit m i \<longleftrightarrow> d \<noteq> None" "\<forall>j < length ds. bit m (i + 1 + j) \<longleftrightarrow> ds ! j \<noteq> None"
    using spec[OF 1(4), of 0] 1(4) by (auto simp: All_less_Suc2 simp del: not_None_eq)
  have "reads (if m AND push_bit i 1 \<noteq> 0 then bio_bind (df_des f) (\<lambda>x. bio_return (Some x)) else bio_return None)
      (case d of Some x \<Rightarrow> enc x | None \<Rightarrow> []) d"
    using 1(2,3) b(1) unfolding and_push_bit_1
    by (cases d) (auto simp: field_ok_def delta_valid_def bit_codec_iff intro: reads_map reads_return)
  moreover have "reads (delta_des_fields (map fst cs) (i + 1) m) (delta_enc_fields cs ds) ds"
    using 1(2,3) b(2) by (intro 1(1)) (simp_all add: delta_valid_def)
  ultimately show ?case
    unfolding delta_des_fields.simps delta_enc_fields.simps list.map fst_conv by (rule reads_bind[OF _ reads_map])
qed (auto simp: delta_valid_def reads_return)

lemma delta_codec:
  assumes "list_all field_ok cs" and "length cs \<le> 64"
  shows "bit_codec (delta_ser (map fst cs)) (delta_des (map fst cs)) (delta_enc cs) (delta_valid cs)"
  unfolding bit_codec_iff
proof (intro allI impI conjI)
  fix ds assume v: "delta_valid cs ds"
  then have l: "length ds = length cs" by (simp add: delta_valid_def list_all2_lengthD)
  show "writes (delta_ser (map fst cs) ds) (delta_enc cs ds)"
    unfolding delta_ser_def delta_enc_def length_map by (intro writes_then writes_bits fields_write assms v)
  have "reads (delta_des_fields (map fst cs) 0 (take_bit (length cs) (delta_mask ds))) (delta_enc_fields cs ds) ds"
    using l assms(2) by (intro fields_read assms(1) v) (auto simp: bit_take_bit_iff delta_mask_bit)
  then show "reads (delta_des (map fst cs)) (delta_enc cs ds) ds"
    unfolding delta_des_def delta_enc_def length_map by (rule reads_bind[OF reads_bits[OF assms(2)]])
qed

lemma diff_valid:
  "list_all field_ok cs \<Longrightarrow> struct_valid cs xs \<Longrightarrow> struct_valid cs ys \<Longrightarrow>
   delta_valid cs (delta_diff (map fst cs) xs ys) \<and> delta_apply ys (delta_diff (map fst cs) xs ys) = xs"
proof (induction "map fst cs" xs ys arbitrary: cs rule: delta_diff.induct)
  case (1 f fs x xs y ys)
  then obtain c cs1 where cs: "cs = c # cs1" "f = fst c" "fs = map fst cs1" by (cases cs) auto
  from 1(1)[OF cs(3)] 1(3-5) show ?case
    unfolding cs by (cases c) (auto simp: struct_valid_def delta_valid_def field_ok_def)
qed (auto simp: struct_valid_def delta_valid_def)

text \<open>The bits of the fields that differ from the baseline, in the order of the declaration.\<close>

fun changed_bits :: "'v described list \<Rightarrow> 'v list \<Rightarrow> 'v list \<Rightarrow> bool list" where
  "changed_bits ((f, enc, valid) # cs) (x # xs) (y # ys) = (if x = y then [] else enc x) @ changed_bits cs xs ys"
| "changed_bits _ _ _ = []"

lemma diff_bits: "list_all field_ok cs \<Longrightarrow> delta_enc_fields cs (delta_diff (map fst cs) xs ys) = changed_bits cs xs ys"
  by (induction cs xs ys rule: changed_bits.induct) (auto simp: field_ok_def)

lemma diff_nth:
  "list_all field_ok cs \<Longrightarrow> struct_valid cs xs \<Longrightarrow> struct_valid cs ys \<Longrightarrow>
   length (delta_diff (map fst cs) xs ys) = length cs \<and>
   (\<forall>j < length cs. delta_diff (map fst cs) xs ys ! j = (if xs ! j = ys ! j then None else Some (xs ! j)))"
proof (induction cs xs ys rule: changed_bits.induct)
  case (1 f enc valid cs x xs y ys)
  then show ?case by (auto simp: field_ok_def struct_valid_def nth_Cons' less_Suc_eq_0_disj)
qed (auto simp: struct_valid_def)

section \<open>The contract of the trait\<close>

locale delta_contract =
  fixes nd :: "('t, 'd) network_delta"
    and enc :: "'t \<Rightarrow> bool list" and enc_delta :: "'d \<Rightarrow> bool list"
    and valid :: "'t \<Rightarrow> bool" and valid_delta :: "'d \<Rightarrow> bool"
  assumes state_codec: "bit_codec (nd_ser nd) (nd_des nd) enc valid"
    and patch_codec: "bit_codec (nd_ser_delta nd) (nd_des_delta nd) enc_delta valid_delta"
    and diff_ok: "valid x \<Longrightarrow> valid y \<Longrightarrow> valid_delta (nd_diff nd x y)"
    and apply_diff: "valid x \<Longrightarrow> valid y \<Longrightarrow> nd_apply nd y (nd_diff nd x y) = x"
begin

definition sound_baseline :: "(u16 \<times> 't) option \<Rightarrow> bool" where
  "sound_baseline base = (\<forall>s b. base = Some (s, b) \<longrightarrow> s \<noteq> NO_BASELINE \<and> valid b)"

definition base_enc :: "(u16 \<times> 't) option \<Rightarrow> 't \<Rightarrow> bool list" where
  "base_enc base x = (case base of
      None \<Rightarrow> msb_bits BASELINE_SEQ_BITS (ucast NO_BASELINE) @ enc x
    | Some (s, b) \<Rightarrow> msb_bits BASELINE_SEQ_BITS (ucast s) @ enc_delta (nd_diff nd x b))"

text \<open>What decoding yields: the state, or that the baseline is missing.\<close>

definition decodes :: "(u16 \<times> 't) option \<Rightarrow> 't \<Rightarrow> bytes \<Rightarrow> bool" where
  "decodes base x data \<longleftrightarrow> (\<forall>bm. case base of
      None \<Rightarrow> delta_decode nd data bm = Inr x
    | Some (s, b) \<Rightarrow> (case get_baseline s bm of
        None \<Rightarrow> delta_decode nd data bm = Inl InvalidData
      | Some b1 \<Rightarrow> b1 = b \<longrightarrow> delta_decode nd data bm = Inr x))"

lemma writes_baseline:
  assumes "valid x" and "sound_baseline base"
  shows "writes (baseline_ser nd base x) (base_enc base x)"
proof (cases base)
  case None
  then show ?thesis using assms(1) bit_codec_writes[OF state_codec]
    by (auto simp: baseline_ser_def base_enc_def BASELINE_SEQ_BITS_def intro!: writes_then writes_bits)
next
  case (Some sb)
  then show ?thesis using assms bit_codec_writes[OF patch_codec] diff_ok
    by (cases sb) (auto simp: baseline_ser_def base_enc_def sound_baseline_def BASELINE_SEQ_BITS_def intro!: writes_then writes_bits)
qed

lemma ucast_seq: "ucast (take_bit BASELINE_SEQ_BITS (ucast (s :: u16) :: u64)) = s"
  by (rule bit_word_eqI) (auto simp: BASELINE_SEQ_BITS_def bit_take_bit_iff bit_ucast_iff)

lemma decode_encode:
  assumes "valid x" and "sound_baseline (dt_confirmed_baseline t)"
  shows "\<exists>data. delta_encode nd seq x t = (Inr data, push_pending seq x t) \<and> decodes (dt_confirmed_baseline t) x data \<and>
    bytes_bits data = base_enc (dt_confirmed_baseline t) x @ replicate (pad_bits (length (base_enc (dt_confirmed_baseline t) x))) False"
proof -
  let ?base = "dt_confirmed_baseline t"
  obtain b where b: "baseline_ser nd ?base x BitBuffer_new = (Inr (), b)" "writer_rep b ([] @ base_enc ?base x)"
    using writesD[OF writes_baseline[OF assms] writer_rep_new] .
  obtain data where d: "into_bytes True b = Inr data"
    "bytes_bits data = base_enc ?base x @ replicate (pad_bits (length (base_enc ?base x))) False"
    using into_bytes_rep[OF b(2)] by auto
  note bits = reads_bits[of BASELINE_SEQ_BITS, unfolded BASELINE_SEQ_BITS_def, simplified, folded BASELINE_SEQ_BITS_def]
  have read: "delta_decode nd data bm = r"
    if "reads (delta_read nd bm) (base_enc ?base x) y" "r = Inr y" for bm y r
    using readsD[OF that(1)] reader_rep_from_bytes[of data] d(2) that(2) unfolding delta_decode_def by (metis fst_conv)
  have none: "reads (delta_read nd bm) (base_enc None x) x" for bm
    unfolding delta_read_def base_enc_def option.case
    by (rule reads_bind[OF bits]) (simp add: ucast_seq Let_def bit_codec_reads[OF state_codec assms(1)])
  have some: "reads (delta_read nd bm) (base_enc (Some (s, c)) x) x" if "?base = Some (s, c)" "get_baseline s bm = Some c" for s c bm
  proof -
    have v: "valid c" "s \<noteq> NO_BASELINE" using assms(2) that(1) by (auto simp: sound_baseline_def)
    have "reads (bio_bind (nd_des_delta nd) (\<lambda>delta. bio_return (nd_apply nd c delta))) (enc_delta (nd_diff nd x c)) x"
      using reads_map[OF bit_codec_reads[OF patch_codec diff_ok[OF assms(1) v(1)]], of "nd_apply nd c"] apply_diff[OF assms(1) v(1)] by simp
    then show ?thesis
      unfolding delta_read_def base_enc_def option.case prod.case
      by (intro reads_bind[OF bits]) (simp add: ucast_seq Let_def that v(2))
  qed
  have missing: "delta_decode nd data bm = Inl InvalidData" if "?base = Some (s, c)" "get_baseline s bm = None" for s c bm
  proof -
    have v: "s \<noteq> NO_BASELINE" using assms(2) that(1) by (auto simp: sound_baseline_def)
    have e: "bytes_bits data = msb_bits BASELINE_SEQ_BITS (ucast s) @ enc_delta (nd_diff nd x c) @
        replicate (pad_bits (length (base_enc ?base x))) False"
      using d(2) that(1) by (simp add: base_enc_def)
    obtain b1 where "read_bits BASELINE_SEQ_BITS (BitBuffer_from_bytes data) = (Inr (take_bit BASELINE_SEQ_BITS (ucast s)), b1)"
      using readsD[OF bits] reader_rep_from_bytes[of data] unfolding e by metis
    with v that(2) show ?thesis by (simp add: delta_decode_def delta_read_def ucast_seq bio_fail_def)
  qed
  have "decodes ?base x data"
    unfolding decodes_def using read none some missing by (cases ?base) (auto split: option.split)
  with b(1) d show ?thesis by (simp add: delta_encode_def)
qed

end

section \<open>A stream of states\<close>

text \<open>
  Sender and receiver over a network that loses, repeats, delays and reorders datagrams, with
  acknowledgements that may be lost, late or wrong, and resets of either side at any time. The log
  keeps what was sent, the trace what the receiver decoded.
\<close>

record 't delta_link =
  dl_tracker :: "'t delta_tracker"
  dl_manager :: "'t baseline_manager"
  dl_sent :: "(u16 \<times> 't \<times> bytes) list"
  dl_got :: "(u16 \<times> 't) list"

datatype 't delta_op = DeltaSend u16 't | DeltaDeliver instant nat | DeltaAck u16 | DeltaResetSender | DeltaResetReceiver

fun delta_op_step :: "('t, 'd) network_delta \<Rightarrow> 't delta_op \<Rightarrow> 't delta_link \<Rightarrow> 't delta_link" where
  "delta_op_step nd (DeltaSend seq x) l =
     (case delta_encode nd seq x (dl_tracker l) of
        (Inl e, t) \<Rightarrow> l\<lparr>dl_tracker := t\<rparr>
      | (Inr data, t) \<Rightarrow> l\<lparr>dl_tracker := t, dl_sent := dl_sent l @ [(seq, x, data)]\<rparr>)"
| "delta_op_step nd (DeltaDeliver now i) l =
     (if i < length (dl_sent l)
      then case dl_sent l ! i of (seq, x, data) \<Rightarrow>
             (case delta_decode nd data (dl_manager l) of
                Inl e \<Rightarrow> l
              | Inr y \<Rightarrow> l\<lparr>dl_manager := push_snapshot now seq y (dl_manager l), dl_got := dl_got l @ [(seq, y)]\<rparr>)
      else l)"
| "delta_op_step nd (DeltaAck seq) l = l\<lparr>dl_tracker := delta_on_ack seq (dl_tracker l)\<rparr>"
| "delta_op_step nd DeltaResetSender l = l\<lparr>dl_tracker := tracker_reset (dl_tracker l)\<rparr>"
| "delta_op_step nd DeltaResetReceiver l = l\<lparr>dl_manager := manager_reset (dl_manager l)\<rparr>"

definition delta_link_new :: "nat \<Rightarrow> nat \<Rightarrow> duration \<Rightarrow> 't delta_link" where
  "delta_link_new max_pending max_snapshots timeout =
     \<lparr>dl_tracker = DeltaTracker_new max_pending, dl_manager = BaselineManager_new max_snapshots timeout, dl_sent = [], dl_got = []\<rparr>"

text \<open>The states of a run, by their sequence numbers.\<close>

fun sends_of :: "'t delta_op list \<Rightarrow> (u16 \<times> 't) list" where
  "sends_of [] = []"
| "sends_of (DeltaSend seq x # ops) = (seq, x) # sends_of ops"
| "sends_of (_ # ops) = sends_of ops"

lemma get_baseline_in: "get_baseline s m = Some y \<Longrightarrow> \<exists>ts. (s, y, ts) \<in> set (bm_snapshots m)"
  by (auto simp: get_baseline_def find_Some_iff) (metis length_rev nth_mem set_rev)

lemma set_tl: "set (tl xs) \<subseteq> set xs"
  by (cases xs) auto

lemma push_snapshot_set: "set (bm_snapshots (push_snapshot now s y m)) \<subseteq> insert (s, y, now) (set (bm_snapshots m))"
  using set_tl[of "dropWhile (\<lambda>(_, _, ts). duration_since now ts > bm_timeout m) (bm_snapshots m)"]
  by (auto simp: push_snapshot_def Let_def dest: set_dropWhileD)

lemma push_pending_set: "set (dt_pending (push_pending s x t)) \<subseteq> insert (s, x) (set (dt_pending t))"
  using set_tl[of "dt_pending t"] by (auto simp: push_pending_def Let_def)

lemma on_ack_cases:
  "delta_on_ack seq t = t \<or> (\<exists>x. (seq, x) \<in> set (dt_pending t) \<and> dt_confirmed_baseline (delta_on_ack seq t) = Some (seq, x) \<and>
     set (dt_pending (delta_on_ack seq t)) \<subseteq> set (dt_pending t))"
  by (auto simp: delta_on_ack_def extract_Some_iff dest!: set_dropWhileD split: option.split)

context delta_contract begin

definition link_inv :: "(u16 \<times> 't) set \<Rightarrow> 't delta_link \<Rightarrow> bool" where
  "link_inv W l \<longleftrightarrow>
     set (dt_pending (dl_tracker l)) \<subseteq> W \<and> set_option (dt_confirmed_baseline (dl_tracker l)) \<subseteq> W \<and>
     (\<forall>(s, y, ts) \<in> set (bm_snapshots (dl_manager l)). (s, y) \<in> W) \<and>
     (\<forall>s x data. (s, x, data) \<in> set (dl_sent l) \<longrightarrow> (s, x) \<in> W \<and> (\<exists>base. set_option base \<subseteq> W \<and> decodes base x data)) \<and>
     set (dl_got l) \<subseteq> W"

text \<open>A set of states by number, every number once.\<close>

definition numbered_states :: "(u16 \<times> 't) set \<Rightarrow> bool" where
  "numbered_states W \<longleftrightarrow> (\<forall>s x y. (s, x) \<in> W \<longrightarrow> (s, y) \<in> W \<longrightarrow> x = y) \<and> (\<forall>s x. (s, x) \<in> W \<longrightarrow> s \<noteq> NO_BASELINE \<and> valid x)"

lemma decoded_state:
  assumes "numbered_states W" and "set_option base \<subseteq> W" and "decodes base x data"
    and "\<And>s y ts. (s, y, ts) \<in> set (bm_snapshots m) \<Longrightarrow> (s, y) \<in> W" and "delta_decode nd data m = Inr y"
  shows "y = x"
proof -
  note d = spec[OF assms(3)[unfolded decodes_def], of m]
  show ?thesis
  proof (cases base)
    case None
    with d assms(5) show ?thesis by simp
  next
    case (Some rc)
    obtain r c where rc: "base = Some (r, c)" using Some by (cases rc) simp
    show ?thesis
    proof (cases "get_baseline r m")
      case None
      with d assms(5) rc show ?thesis by simp
    next
      case (Some c1)
      then have "(r, c1) \<in> W" by (auto dest!: get_baseline_in intro: assms(4))
      then have "c1 = c" using assms(1,2) rc by (auto simp: numbered_states_def)
      with Some d assms(5) rc show ?thesis by simp
    qed
  qed
qed

lemma link_step:
  assumes W: "numbered_states W" and inv: "link_inv W l" and op: "set (sends_of [op]) \<subseteq> W"
  shows "link_inv W (delta_op_step nd op l)"
proof (cases op)
  case (DeltaSend s x)
  have x: "(s, x) \<in> W" "valid x" using op DeltaSend W by (auto simp: numbered_states_def)
  have "sound_baseline (dt_confirmed_baseline (dl_tracker l))"
  proof -
    have "(s, b) \<in> W" if "dt_confirmed_baseline (dl_tracker l) = Some (s, b)" for s b
      using inv that unfolding link_inv_def by (metis elem_set subsetD)
    with W show ?thesis unfolding sound_baseline_def numbered_states_def by blast
  qed
  from decode_encode[OF x(2) this, of s] obtain data where d:
    "delta_encode nd s x (dl_tracker l) = (Inr data, push_pending s x (dl_tracker l))"
    "decodes (dt_confirmed_baseline (dl_tracker l)) x data" by blast
  have "\<exists>base. set_option base \<subseteq> W \<and> decodes base x data" using d(2) inv by (auto simp: link_inv_def)
  moreover have "dt_confirmed_baseline (push_pending s x (dl_tracker l)) = dt_confirmed_baseline (dl_tracker l)"
    by (simp add: push_pending_def Let_def)
  ultimately show ?thesis
    using inv x(1) d(1) DeltaSend push_pending_set[of s x "dl_tracker l"] by (auto simp: link_inv_def)
next
  case (DeltaDeliver now i)
  show ?thesis
  proof (cases "i < length (dl_sent l)")
    case True
    obtain s x data where m: "dl_sent l ! i = (s, x, data)" by (rule prod_cases3)
    then have "(s, x, data) \<in> set (dl_sent l)" using True by (metis nth_mem)
    then obtain base where b: "(s, x) \<in> W" "set_option base \<subseteq> W" "decodes base x data"
      using inv unfolding link_inv_def by blast
    have "y = x" if "delta_decode nd data (dl_manager l) = Inr y" for y
      by (rule decoded_state[OF W b(2,3) _ that]) (use inv in \<open>unfold link_inv_def, blast\<close>)
    moreover have "\<forall>e \<in> set (bm_snapshots (push_snapshot now s x (dl_manager l))). case e of (r, y, ts) \<Rightarrow> (r, y) \<in> W"
      using subsetD[OF push_snapshot_set[of now s x "dl_manager l"]] inv b(1) unfolding link_inv_def by blast
    ultimately show ?thesis
      using DeltaDeliver True m inv b(1) by (auto simp: link_inv_def split: sum.split)
  qed (use DeltaDeliver inv in simp)
next
  case (DeltaAck s)
  from on_ack_cases[of s "dl_tracker l"] show ?thesis
    using inv DeltaAck unfolding link_inv_def by auto
qed (use inv in \<open>auto simp: link_inv_def tracker_reset_def manager_reset_def\<close>)

lemma link_run:
  "numbered_states W \<Longrightarrow> set (sends_of ops) \<subseteq> W \<Longrightarrow> link_inv W l \<Longrightarrow> link_inv W (fold (delta_op_step nd) ops l)"
proof (induction ops arbitrary: l)
  case (Cons op ops)
  have "set (sends_of (op # ops)) = set (sends_of [op]) \<union> set (sends_of ops)" by (cases op) auto
  with Cons link_step[OF Cons.prems(1,3)] show ?case by simp
qed simp

text \<open>Whatever is decoded under a number is the state that was sent under it.\<close>

lemma stream_sound:
  assumes "distinct (map fst (sends_of ops))" and "list_all (\<lambda>(s, x). s \<noteq> NO_BASELINE \<and> valid x) (sends_of ops)"
  shows "set (dl_got (fold (delta_op_step nd) ops (delta_link_new p n timeout))) \<subseteq> set (sends_of ops)"
proof -
  have "numbered_states (set (sends_of ops))"
    using assms eq_key_imp_eq_value by (fastforce simp: numbered_states_def list_all_iff)
  from link_run[OF this order_refl, of "delta_link_new p n timeout"] show ?thesis
    by (simp add: link_inv_def delta_link_new_def DeltaTracker_new_def BaselineManager_new_def)
qed

end

section \<open>The derived implementation\<close>

lemma derived_contract:
  assumes "list_all field_ok cs" and "length cs \<le> 64" and "bit_codec ser des enc (struct_valid cs)"
  shows "delta_contract (derived_delta (map fst cs) ser des) enc (delta_enc cs) (struct_valid cs) (delta_valid cs)"
proof (rule delta_contract.intro)
  show "bit_codec (nd_ser (derived_delta (map fst cs) ser des)) (nd_des (derived_delta (map fst cs) ser des)) enc (struct_valid cs)"
    using assms(3) by (simp add: derived_delta_def)
  show "bit_codec (nd_ser_delta (derived_delta (map fst cs) ser des)) (nd_des_delta (derived_delta (map fst cs) ser des))
      (delta_enc cs) (delta_valid cs)"
    using delta_codec[OF assms(1,2)] by (simp add: derived_delta_def)
qed (simp_all add: derived_delta_def diff_valid[OF assms(1)])

text \<open>A struct of two bytes, as the macros expand it.\<close>

definition byte_field :: "u8 delta_field" where
  "byte_field = \<lparr>df_ser = ser_uint 8, df_des = des_uint 8, df_ne = (\<noteq>)\<rparr>"

definition two_bytes :: "u8 described list" where
  "two_bytes = [(byte_field, enc_uint 8, \<lambda>_. True), (byte_field, enc_uint 8, \<lambda>_. True)]"

definition two_bytes_delta :: "(u8 list, u8 option list) network_delta" where
  "two_bytes_delta = derived_delta (map fst two_bytes) (ser_array (ser_uint 8)) (des_array (des_uint 8) 2)"

lemma two_bytes_ok: "list_all field_ok two_bytes" "length two_bytes \<le> 64"
  "bit_codec (ser_array (ser_uint 8)) (des_array (des_uint 8) 2) (\<lambda>xs. concat (map (enc_uint 8) xs)) (struct_valid two_bytes)"
proof -
  have "(\<lambda>xs. length xs = 2 \<and> (\<forall>x\<in>set xs. True)) = struct_valid two_bytes"
    by (rule ext) (auto simp: struct_valid_def two_bytes_def numeral_2_eq_2 length_Suc_conv list_all2_Cons1)
  with array_codec[OF u8.bit_codec_axioms, of 2]
  show "bit_codec (ser_array (ser_uint 8)) (des_array (des_uint 8) 2) (\<lambda>xs. concat (map (enc_uint 8) xs)) (struct_valid two_bytes)"
    by simp
qed (use u8.bit_codec_axioms in \<open>auto simp: two_bytes_def field_ok_def byte_field_def\<close>)

interpretation two_bytes: delta_contract two_bytes_delta "\<lambda>xs. concat (map (enc_uint 8) xs)" "delta_enc two_bytes"
  "struct_valid two_bytes" "delta_valid two_bytes"
  unfolding two_bytes_delta_def by (rule derived_contract[OF two_bytes_ok])

lemma two_bytes_valid: "struct_valid two_bytes [x, y]"
  by (simp add: struct_valid_def two_bytes_def)

section \<open>Properties\<close>

text \<open>C34: delta compression is exact. Whatever the network loses, repeats and reorders, whatever is
  acknowledged, rightly or not, and whenever a side resets: as long as no number is used twice and
  none is 65535, and the states are ones that the field codecs carry, of at most 64 fields, every
  state the receiver decodes under a number is the one that was sent under it.
  A baseline it has not got makes it fail, never guess.\<close>

theorem delta_stream_exact:
  assumes "list_all field_ok cs" and "length cs \<le> 64" and "bit_codec ser des enc (struct_valid cs)"
    and "distinct (map fst (sends_of ops))"
    and "list_all (\<lambda>(s, x). s \<noteq> NO_BASELINE \<and> struct_valid cs x) (sends_of ops)"
  shows "set (dl_got (fold (delta_op_step (derived_delta (map fst cs) ser des)) ops (delta_link_new p n timeout))) \<subseteq> set (sends_of ops)"
  by (rule delta_contract.stream_sound[OF derived_contract[OF assms(1-3)] assms(4,5)])

theorem delta_stream_exact_witness:
  "set (dl_got (fold (delta_op_step two_bytes_delta)
      [DeltaSend 4 [1, 2], DeltaDeliver 0 0, DeltaAck 4, DeltaSend 5 [1, 7], DeltaDeliver 1 1, DeltaDeliver 2 1] (delta_link_new 4 4 100)))
    \<subseteq> {(4, [1, 2]), (5, [1, 7])}"
  unfolding two_bytes_delta_def
  using delta_stream_exact[OF two_bytes_ok, of "[DeltaSend 4 [1, 2], DeltaDeliver 0 0, DeltaAck 4, DeltaSend 5 [1, 7], DeltaDeliver 1 1, DeltaDeliver 2 1]"]
  by (simp add: NO_BASELINE_def two_bytes_valid)

text \<open>C35: a delta is decoded back to the state, and it is a delta. For a struct of at most 64 fields
  whose field codecs round-trip: encoding succeeds for every valid state; the receiver that holds the
  confirmed baseline (or, without one, any receiver) decodes exactly that state; and against a baseline
  the datagram consists of the baseline's number, a mask with exactly the bits of the fields that
  differ, and the encodings of exactly those fields.\<close>

theorem delta_roundtrip:
  assumes "list_all field_ok cs" and "length cs \<le> 64" and "bit_codec ser des enc (struct_valid cs)"
    and "struct_valid cs x"
    and "\<forall>s b. dt_confirmed_baseline t = Some (s, b) \<longrightarrow> s \<noteq> NO_BASELINE \<and> struct_valid cs b \<and> get_baseline s bm = Some b"
  shows "\<exists>data. delta_encode (derived_delta (map fst cs) ser des) seq x t = (Inr data, push_pending seq x t) \<and>
    delta_decode (derived_delta (map fst cs) ser des) data bm = Inr x \<and>
    (\<forall>s b. dt_confirmed_baseline t = Some (s, b) \<longrightarrow> (\<exists>mask pad.
       bytes_bits data = msb_bits BASELINE_SEQ_BITS (ucast s) @ msb_bits (length cs) mask @ changed_bits cs x b @
         replicate pad False \<and> pad < 8 \<and> (\<forall>j < length cs. bit mask j \<longleftrightarrow> x ! j \<noteq> b ! j)))"
proof -
  note contract = derived_contract[OF assms(1-3)]
  have "delta_contract.sound_baseline (struct_valid cs) (dt_confirmed_baseline t)"
    using assms(5) by (simp add: delta_contract.sound_baseline_def[OF contract])
  from delta_contract.decode_encode[OF contract assms(4) this, of seq] obtain data where
    data: "delta_encode (derived_delta (map fst cs) ser des) seq x t = (Inr data, push_pending seq x t)"
    "delta_contract.decodes (derived_delta (map fst cs) ser des) (dt_confirmed_baseline t) x data"
    "bytes_bits data = delta_contract.base_enc (derived_delta (map fst cs) ser des) enc (delta_enc cs) (dt_confirmed_baseline t) x @
       replicate (pad_bits (length (delta_contract.base_enc (derived_delta (map fst cs) ser des) enc (delta_enc cs)
         (dt_confirmed_baseline t) x))) False" by blast
  have "delta_decode (derived_delta (map fst cs) ser des) data bm = Inr x"
    using data(2) assms(5)
    by (cases "dt_confirmed_baseline t") (auto simp: delta_contract.decodes_def[OF contract] split: option.splits)
  moreover have "\<exists>mask pad.
       bytes_bits data = msb_bits BASELINE_SEQ_BITS (ucast s) @ msb_bits (length cs) mask @ changed_bits cs x b @
         replicate pad False \<and> pad < 8 \<and> (\<forall>j < length cs. bit mask j \<longleftrightarrow> x ! j \<noteq> b ! j)"
    if base: "dt_confirmed_baseline t = Some (s, b)" for s b
  proof -
    let ?ds = "delta_diff (map fst cs) x b"
    have n: "length ?ds = length cs" "\<forall>j < length cs. ?ds ! j = (if x ! j = b ! j then None else Some (x ! j))"
      using diff_nth[OF assms(1,4), of b] assms(5) base by simp_all
    have "delta_contract.base_enc (derived_delta (map fst cs) ser des) enc (delta_enc cs) (Some (s, b)) x =
        msb_bits BASELINE_SEQ_BITS (ucast s) @ msb_bits (length cs) (delta_mask ?ds) @ changed_bits cs x b"
      unfolding delta_contract.base_enc_def[OF contract]
      by (simp add: derived_delta_def delta_enc_def diff_bits[OF assms(1)])
    moreover have "\<forall>j < length cs. bit (delta_mask ?ds) j \<longleftrightarrow> x ! j \<noteq> b ! j"
      using n assms(2) by (simp add: delta_mask_bit)
    moreover have "pad_bits k < 8" for k by (simp add: pad_bits_def)
    ultimately show ?thesis using data(3) base by (metis append.assoc)
  qed
  ultimately show ?thesis using data(1) by blast
qed

theorem delta_roundtrip_witness:
  "\<exists>data. delta_encode two_bytes_delta 5 [1, 3] \<lparr>dt_pending = [], dt_confirmed_baseline = Some (4, [1, 2]), dt_max_pending = 4\<rparr> =
      (Inr data, push_pending 5 [1, 3] \<lparr>dt_pending = [], dt_confirmed_baseline = Some (4, [1, 2]), dt_max_pending = 4\<rparr>) \<and>
    delta_decode two_bytes_delta data \<lparr>bm_snapshots = [(4, [1, 2], 9)], bm_max_snapshots = 2, bm_timeout = 7\<rparr> = Inr [1, 3]"
  using delta_roundtrip[OF two_bytes_ok two_bytes_valid, of
      "\<lparr>dt_pending = [], dt_confirmed_baseline = Some (4, [1, 2]), dt_max_pending = 4\<rparr>"
      "\<lparr>bm_snapshots = [(4, [1, 2], 9)], bm_max_snapshots = 2, bm_timeout = 7\<rparr>" 5 1 3]
  unfolding two_bytes_delta_def by (auto simp: two_bytes_valid NO_BASELINE_def get_baseline_def)

text \<open>Number 65535 is a number like any other for the sender but means \<open>no baseline\<close> on the wire: once
  its snapshot is acknowledged, the receiver takes every delta against it for a whole state and
  decodes a state nobody sent.\<close>

definition sentinel_run :: "u8 list delta_link" where
  "sentinel_run = fold (delta_op_step two_bytes_delta)
     [DeltaSend 65535 [1, 2], DeltaDeliver 0 0, DeltaAck 65535, DeltaSend 0 [1, 3], DeltaDeliver 1 1] (delta_link_new 4 4 100)"

theorem sentinel_collision:
  "map (\<lambda>(seq, x, data). (seq, x)) (dl_sent sentinel_run) = [(65535, [1, 2]), (0, [1, 3])] \<and>
   dl_got sentinel_run = [(65535, [1, 2]), (0, [128, 192])]"
  by code_simp

end
