(* ===== verification/Replication.thy ===== *)
theory Replication
  imports Floats Rust_Std "HOL-Library.Sublist"
begin

text \<open>
  What a game does on top of the transport: the priority accumulator (\<open>gbnet/src/priority.rs\<close>),
  interest management (\<open>interest.rs\<close>) and the snapshot buffer (\<open>interpolation.rs\<close>).
\<close>

section \<open>Priorities\<close>

record priority_entry =
  pe_base :: fl
  pe_accumulated :: fl

record 'id priority_accumulator =
  pa_entries :: "('id, priority_entry) hash_map"

definition PriorityAccumulator_new :: "'id priority_accumulator" where
  "PriorityAccumulator_new = \<lparr>pa_entries = []\<rparr>"

definition register :: "'id \<Rightarrow> fl \<Rightarrow> 'id priority_accumulator \<Rightarrow> 'id priority_accumulator" where
  "register i base_priority p =
     p\<lparr>pa_entries := hm_insert i \<lparr>pe_base = base_priority, pe_accumulated = Fin 0\<rparr> (pa_entries p)\<rparr>"

definition unregister :: "'id \<Rightarrow> 'id priority_accumulator \<Rightarrow> 'id priority_accumulator" where
  "unregister i p = p\<lparr>pa_entries := hm_remove i (pa_entries p)\<rparr>"

definition accumulate_entry :: "fl \<Rightarrow> priority_entry \<Rightarrow> priority_entry" where
  "accumulate_entry dt e = e\<lparr>pe_accumulated := fl_add f32 (pe_accumulated e) (fl_mul f32 (pe_base e) dt)\<rparr>"

definition accumulate :: "fl \<Rightarrow> 'id priority_accumulator \<Rightarrow> 'id priority_accumulator" where
  "accumulate dt p = p\<lparr>pa_entries := map (\<lambda>(i, e). (i, accumulate_entry dt e)) (pa_entries p)\<rparr>"

definition apply_modifier :: "'id \<Rightarrow> fl \<Rightarrow> 'id priority_accumulator \<Rightarrow> 'id priority_accumulator" where
  "apply_modifier i modifier p =
     (case hm_get (pa_entries p) i of
        None \<Rightarrow> p
      | Some e \<Rightarrow> p\<lparr>pa_entries := hm_insert i (e\<lparr>pe_accumulated := fl_mul f32 (pe_accumulated e) modifier\<rparr>) (pa_entries p)\<rparr>)"

text \<open>
  \<open>sort_by\<close> with \<open>b.partial_cmp(a)\<close>, a stable sort into descending order. On numbers the order is
  total and the result is the one of this insertion sort; with a NaN among them the comparison is no
  order and the library leaves the result open.
\<close>

fun insert_desc :: "'id \<times> fl \<Rightarrow> ('id \<times> fl) list \<Rightarrow> ('id \<times> fl) list" where
  "insert_desc x [] = [x]"
| "insert_desc x (y # ys) = (if fl_lt (snd x) (snd y) then y # insert_desc x ys else x # y # ys)"

definition sort_desc :: "('id \<times> fl) list \<Rightarrow> ('id \<times> fl) list" where
  "sort_desc xs = foldr insert_desc xs []"

fun select_fitting :: "('id \<Rightarrow> nat) \<Rightarrow> nat \<Rightarrow> ('id \<times> fl) list \<Rightarrow> 'id list" where
  "select_fitting size_fn remaining [] = []"
| "select_fitting size_fn remaining ((i, prio) # xs) =
     (if size_fn i > remaining then select_fitting size_fn remaining xs
      else i # select_fitting size_fn (remaining - size_fn i) xs)"

definition reset_priority :: "'id \<Rightarrow> ('id, priority_entry) hash_map \<Rightarrow> ('id, priority_entry) hash_map" where
  "reset_priority i m = (case hm_get m i of None \<Rightarrow> m | Some e \<Rightarrow> hm_insert i (e\<lparr>pe_accumulated := Fin 0\<rparr>) m)"

definition drain_top :: "'id iter_order \<Rightarrow> nat \<Rightarrow> ('id \<Rightarrow> nat) \<Rightarrow> 'id priority_accumulator \<Rightarrow> 'id list \<times> 'id priority_accumulator" where
  "drain_top it budget_bytes size_fn p =
     (let sorted = sort_desc (map (\<lambda>(i, e). (i, pe_accumulated e)) (hm_iter it (pa_entries p)));
          selected = select_fitting size_fn budget_bytes sorted
      in (selected, p\<lparr>pa_entries := fold reset_priority selected (pa_entries p)\<rparr>))"

definition get_priority :: "'id \<Rightarrow> 'id priority_accumulator \<Rightarrow> fl option" where
  "get_priority i p = map_option pe_accumulated (hm_get (pa_entries p) i)"

section \<open>Interest\<close>

type_synonym position = "fl \<times> fl \<times> fl"

definition dist_sq :: "position \<Rightarrow> position \<Rightarrow> fl" where
  "dist_sq e o1 =
     (case (e, o1) of ((ex, ey, ez), (ox, oy, oz)) \<Rightarrow>
        let dx = fl_sub f32 ex ox; dy = fl_sub f32 ey oy; dz = fl_sub f32 ez oz
        in fl_add f32 (fl_add f32 (fl_mul f32 dx dx) (fl_mul f32 dy dy)) (fl_mul f32 dz dz))"

record radius_interest =
  ri_radius :: fl
  ri_radius_sq :: fl

definition RadiusInterest_new :: "fl \<Rightarrow> radius_interest" where
  "RadiusInterest_new radius = \<lparr>ri_radius = radius, ri_radius_sq = fl_mul f32 radius radius\<rparr>"

definition radius_relevant :: "radius_interest \<Rightarrow> position \<Rightarrow> position \<Rightarrow> bool" where
  "radius_relevant r e o1 \<longleftrightarrow> fl_le (dist_sq e o1) (ri_radius_sq r)"

text \<open>The square root, rounded as every operation: the integer root of the scaled number, then to even.\<close>

function int_sqrt :: "int \<Rightarrow> int" where
  "int_sqrt n = (if n \<le> 0 then 0 else let r = 2 * int_sqrt (n div 4) in if (r + 1) * (r + 1) \<le> n then r + 1 else r)"
  by auto
termination by (relation "measure nat") auto

declare int_sqrt.simps [simp del]

definition round_sqrt :: "rat \<Rightarrow> int" where
  "round_sqrt m =
     (let f = int_sqrt \<lfloor>m\<rfloor>; half = of_int f + 1 / 2
      in if m < half * half then f else if m > half * half then f + 1 else if even f then f else f + 1)"

fun fl_sqrt :: "float_format \<Rightarrow> fl \<Rightarrow> fl" where
  "fl_sqrt ff NaN = NaN"
| "fl_sqrt ff (Inf s) = (if s then Inf True else NaN)"
| "fl_sqrt ff (Fin q) =
     (if q < 0 then NaN
      else if q = 0 then Fin 0
      else let e = max (ilog2 q div 2 - int (ff_prec ff) + 1) (ff_emin ff)
           in fl_round ff (of_int (round_sqrt (q / pow2 (2 * e))) * pow2 e))"

definition radius_priority_mod :: "radius_interest \<Rightarrow> position \<Rightarrow> position \<Rightarrow> fl" where
  "radius_priority_mod r e o1 =
     (let d = dist_sq e o1
      in if fl_le (ri_radius_sq r) d then Fin 0
         else fl_sub f32 (Fin 1) (fl_sqrt f32 (fl_div f32 d (ri_radius_sq r))))"

text \<open>\<open>as i32\<close>: towards zero, saturating, \<open>NaN\<close> to 0. The subtraction and \<open>abs\<close> wrap in a release build.\<close>

type_synonym i32 = "32 word"

fun fl_to_i32 :: "fl \<Rightarrow> i32" where
  "fl_to_i32 NaN = 0"
| "fl_to_i32 (Inf s) = (if s then word_of_int (2 ^ 31 - 1) else word_of_int (- (2 ^ 31)))"
| "fl_to_i32 (Fin q) =
     (let i = (if q \<ge> 0 then \<lfloor>q\<rfloor> else \<lceil>q\<rceil>) in word_of_int (max (- (2 ^ 31)) (min i (2 ^ 31 - 1))))"

definition i32_abs :: "i32 \<Rightarrow> i32" where
  "i32_abs d = (if sint d < 0 then - d else d)"

record grid_cell =
  gc_x :: i32
  gc_y :: i32
  gc_z :: i32

record grid_interest =
  gi_cell_size :: fl
  gi_inv_cell_size :: fl

definition GridInterest_new :: "fl \<Rightarrow> grid_interest" where
  "GridInterest_new cell_size = \<lparr>gi_cell_size = cell_size, gi_inv_cell_size = fl_div f32 (Fin 1) cell_size\<rparr>"

definition to_cell :: "grid_interest \<Rightarrow> position \<Rightarrow> grid_cell" where
  "to_cell g pos =
     (case pos of (x, y, z) \<Rightarrow>
        \<lparr>gc_x = fl_to_i32 (fl_floor (fl_mul f32 x (gi_inv_cell_size g))),
         gc_y = fl_to_i32 (fl_floor (fl_mul f32 y (gi_inv_cell_size g))),
         gc_z = fl_to_i32 (fl_floor (fl_mul f32 z (gi_inv_cell_size g)))\<rparr>)"

definition near :: "i32 \<Rightarrow> i32 \<Rightarrow> bool" where
  "near a b \<longleftrightarrow> sint (i32_abs (a - b)) \<le> 1"

definition grid_relevant :: "grid_interest \<Rightarrow> position \<Rightarrow> position \<Rightarrow> bool" where
  "grid_relevant g e o1 \<longleftrightarrow>
     (let ec = to_cell g e; oc = to_cell g o1
      in near (gc_x ec) (gc_x oc) \<and> near (gc_y ec) (gc_y oc) \<and> near (gc_z ec) (gc_z oc))"

section \<open>Interpolation\<close>

definition DEFAULT_BUFFER_DEPTH :: nat where
  "DEFAULT_BUFFER_DEPTH = 3"

definition DEFAULT_PLAYBACK_DELAY_MS :: fl where
  "DEFAULT_PLAYBACK_DELAY_MS = Fin 100"

record 't snapshot_buffer =
  sb_snapshots :: "(fl \<times> 't) list"
  sb_buffer_depth :: nat
  sb_playback_delay_ms :: fl

definition snapshot_with_config :: "nat \<Rightarrow> fl \<Rightarrow> 't snapshot_buffer" where
  "snapshot_with_config buffer_depth playback_delay_ms =
     \<lparr>sb_snapshots = [], sb_buffer_depth = buffer_depth, sb_playback_delay_ms = playback_delay_ms\<rparr>"

definition SnapshotBuffer_new :: "'t snapshot_buffer" where
  "SnapshotBuffer_new = \<lparr>sb_snapshots = [], sb_buffer_depth = DEFAULT_BUFFER_DEPTH, sb_playback_delay_ms = DEFAULT_PLAYBACK_DELAY_MS\<rparr>"

definition snapshot_push :: "fl \<Rightarrow> 't \<Rightarrow> 't snapshot_buffer \<Rightarrow> 't snapshot_buffer" where
  "snapshot_push timestamp state b =
     (if sb_snapshots b \<noteq> [] \<and> fl_le timestamp (fst (List.last (sb_snapshots b))) then b
      else let xs = sb_snapshots b @ [(timestamp, state)]
           in b\<lparr>sb_snapshots := drop (length xs - sb_buffer_depth b * 2) xs\<rparr>)"

fun find_bracket :: "('t \<Rightarrow> 't \<Rightarrow> fl \<Rightarrow> 't) \<Rightarrow> fl \<Rightarrow> (fl \<times> 't) list \<Rightarrow> 't option" where
  "find_bracket lerp target ((ta, a) # (tb, b) # rest) =
     (if fl_le ta target \<and> fl_le target tb
      then let duration = fl_sub f64 tb ta
           in if fl_le duration (Fin 0) then Some a
              else Some (lerp a b (fl_clamp (fl_cast f32 (fl_div f64 (fl_sub f64 target ta) duration)) (Fin 0) (Fin 1)))
      else find_bracket lerp target ((tb, b) # rest))"
| "find_bracket lerp target _ = None"

definition snapshot_sample :: "('t \<Rightarrow> 't \<Rightarrow> fl \<Rightarrow> 't) \<Rightarrow> fl \<Rightarrow> 't snapshot_buffer \<Rightarrow> 't option" where
  "snapshot_sample lerp render_time b =
     (let target = fl_sub f64 render_time (sb_playback_delay_ms b); xs = sb_snapshots b
      in if length xs < 2 then None
         else case find_bracket lerp target xs of
                Some s \<Rightarrow> Some s
              | None \<Rightarrow> if fl_lt (fst (List.last xs)) target then Some (snd (List.last xs)) else Some (snd (hd xs)))"

definition snapshot_ready :: "'t snapshot_buffer \<Rightarrow> bool" where
  "snapshot_ready b \<longleftrightarrow> length (sb_snapshots b) \<ge> sb_buffer_depth b"

definition snapshot_reset :: "'t snapshot_buffer \<Rightarrow> 't snapshot_buffer" where
  "snapshot_reset b = b\<lparr>sb_snapshots := []\<rparr>"

definition set_playback_delay_ms :: "fl \<Rightarrow> 't snapshot_buffer \<Rightarrow> 't snapshot_buffer" where
  "set_playback_delay_ms delay b = b\<lparr>sb_playback_delay_ms := delay\<rparr>"

section \<open>Draining\<close>

lemma not_lt_trans: "\<not> fl_lt x y \<Longrightarrow> \<not> fl_lt y z \<Longrightarrow> y \<noteq> NaN \<Longrightarrow> x \<noteq> NaN \<Longrightarrow> z \<noteq> NaN \<Longrightarrow> \<not> fl_lt x z"
  by (cases x; cases y; cases z) auto

lemma lt_not_lt: "fl_lt x y \<Longrightarrow> \<not> fl_lt y x"
  by (cases x; cases y) auto

abbreviation no_nan :: "('id \<times> fl) list \<Rightarrow> bool" where
  "no_nan xs \<equiv> list_all (\<lambda>x. snd x \<noteq> NaN) xs"

abbreviation descending :: "('id \<times> fl) list \<Rightarrow> bool" where
  "descending \<equiv> sorted_wrt (\<lambda>x y. \<not> fl_lt (snd x) (snd y))"

lemma insert_desc_set [simp]: "set (insert_desc x ys) = insert x (set ys)" "length (insert_desc x ys) = Suc (length ys)"
  by (induction ys) auto

lemma insert_desc_sorted:
  "descending ys \<Longrightarrow> no_nan ys \<Longrightarrow> snd x \<noteq> NaN \<Longrightarrow> descending (insert_desc x ys)"
proof (induction ys)
  case (Cons y ys)
  have "\<not> fl_lt (snd x) (snd z)" if "\<not> fl_lt (snd x) (snd y)" "z \<in> set ys" for z
    using not_lt_trans[OF that(1), of "snd z"] Cons.prems that(2) by (auto simp: list_all_iff)
  with Cons show ?case by (auto dest: lt_not_lt)
qed simp

lemma sort_desc_facts:
  "set (sort_desc xs) = set xs" "length (sort_desc xs) = length xs" "no_nan xs \<Longrightarrow> descending (sort_desc xs)"
proof -
  show s: "set (sort_desc xs) = set xs" for xs :: "('a \<times> fl) list" by (induction xs) (simp_all add: sort_desc_def)
  show "length (sort_desc xs) = length xs" by (induction xs) (simp_all add: sort_desc_def)
  show "no_nan xs \<Longrightarrow> descending (sort_desc xs)"
  proof (induction xs)
    case (Cons x xs)
    then have "descending (sort_desc xs)" "no_nan (sort_desc xs)" by (simp_all add: list_all_iff s)
    from insert_desc_sorted[OF this, of x] Cons.prems show ?case by (simp add: sort_desc_def)
  qed (simp add: sort_desc_def)
qed

lemma sort_desc_distinct: "distinct (map fst xs) \<Longrightarrow> distinct (map fst (sort_desc xs))"
proof -
  assume d: "distinct (map fst xs)"
  then have "card (fst ` set (sort_desc xs)) = length (sort_desc xs)"
    using distinct_card[OF d] by (simp add: sort_desc_facts)
  then show ?thesis using card_distinct[of "map fst (sort_desc xs)"] by simp
qed

lemma select_fitting_facts:
  "sum_list (map size_fn (select_fitting size_fn r xs)) \<le> r"
  "subseq (select_fitting size_fn r xs) (map fst xs)"
  "i \<in> set (map fst xs) - set (select_fitting size_fn r xs) \<Longrightarrow>
    size_fn i > r - sum_list (map size_fn (select_fitting size_fn r xs))"
proof -
  show "sum_list (map size_fn (select_fitting size_fn r xs)) \<le> r"
  proof (induction size_fn r xs rule: select_fitting.induct)
    case (2 size_fn r i prio xs)
    then show ?case by (cases "size_fn i > r") auto
  qed simp
  show "subseq (select_fitting size_fn r xs) (map fst xs)"
    by (induction size_fn r xs rule: select_fitting.induct) auto
  show "i \<in> set (map fst xs) - set (select_fitting size_fn r xs) \<Longrightarrow>
    size_fn i > r - sum_list (map size_fn (select_fitting size_fn r xs))"
  proof (induction size_fn r xs rule: select_fitting.induct)
    case (2 size_fn r j prio xs)
    then show ?case by (cases "size_fn j > r") (auto split: if_splits)
  qed simp
qed

lemma reset_get: "hm_get (fold reset_priority is m) j =
    (if j \<in> set is then map_option (\<lambda>e. e\<lparr>pe_accumulated := Fin 0\<rparr>) (hm_get m j) else hm_get m j)"
proof (induction "is" arbitrary: m)
  case (Cons i "is")
  have "hm_get (reset_priority i m) k = (if k = i then map_option (\<lambda>e. e\<lparr>pe_accumulated := Fin 0\<rparr>) (hm_get m k) else hm_get m k)" for k
    by (simp add: reset_priority_def map_simps split: option.split)
  with Cons.IH[of "reset_priority i m"] show ?case by (auto simp: option.map_comp comp_def)
qed simp

lemma subseq_keeps: "subseq xs ys \<Longrightarrow> set xs \<subseteq> set ys \<and> (distinct ys \<longrightarrow> distinct xs) \<and> (sorted_wrt P ys \<longrightarrow> sorted_wrt P xs)"
  by (induction rule: list_emb.induct) auto

definition entry_priority :: "'id priority_accumulator \<Rightarrow> 'id \<Rightarrow> fl" where
  "entry_priority p i = the (get_priority i p)"

text \<open>C37: draining fills the budget greedily. The selected entities are tracked and distinct, come in
  descending priority and fit the budget together; any entity left out is too large for what is left
  of the budget. The selected ones start again from 0, the others keep their priority.\<close>

theorem drain_greedy:
  assumes "is_iter_order it" and "hm_ok (pa_entries p)" and "\<forall>i e. hm_get (pa_entries p) i = Some e \<longrightarrow> pe_accumulated e \<noteq> NaN"
    and "drain_top it budget size_fn p = (selected, p')"
  shows "distinct selected \<and> set selected \<subseteq> hm_dom (pa_entries p) \<and> sum_list (map size_fn selected) \<le> budget \<and>
    (\<forall>i \<in> hm_dom (pa_entries p) - set selected. size_fn i > budget - sum_list (map size_fn selected)) \<and>
    sorted_wrt (\<lambda>i j. \<not> fl_lt (entry_priority p i) (entry_priority p j)) selected \<and>
    (\<forall>i. get_priority i p' = (if i \<in> set selected then Some (Fin 0) else get_priority i p))"
proof -
  let ?m = "pa_entries p"
  let ?xs = "map (\<lambda>(i, e). (i, pe_accumulated e)) (hm_iter it ?m)"
  let ?s = "sort_desc ?xs"
  have sel: "selected = select_fitting size_fn budget ?s" "pa_entries p' = fold reset_priority selected ?m"
    using assms(4) by (auto simp: drain_top_def Let_def)
  have keys: "map fst ?xs = hm_keys it ?m" by (simp add: hm_iter_def comp_def)
  have prio: "snd x = entry_priority p (fst x) \<and> snd x \<noteq> NaN" if x: "x \<in> set ?xs" for x
  proof -
    obtain i e where e: "x = (i, pe_accumulated e)" "(i, e) \<in> set ?m"
      using x set_hm_iter[OF assms(1,2)] by auto
    then have "hm_get ?m i = Some e" using hm_get_iff[OF assms(2)] by simp
    with e(1) assms(3) show ?thesis by (simp add: entry_priority_def get_priority_def)
  qed
  have dom: "set (map fst ?s) = hm_dom ?m" 
  proof -
    have "set (map fst ?s) = fst ` set ?xs" by (simp only: set_map sort_desc_facts(1))
    also have "\<dots> = set (hm_keys it ?m)" unfolding keys[symmetric] by (simp only: set_map)
    finally show ?thesis by (simp add: set_hm_keys[OF assms(1)])
  qed
  have d: "distinct (map fst ?s)" using sort_desc_distinct keys distinct_hm_keys[OF assms(1,2)] by metis
  have "no_nan ?xs" unfolding list_all_iff using prio by blast
  then have "descending ?s" by (rule sort_desc_facts(3))
  moreover have "\<not> fl_lt (entry_priority p (fst x)) (entry_priority p (fst y))"
    if "x \<in> set ?s" "y \<in> set ?s" "\<not> fl_lt (snd x) (snd y)" for x y
    using that prio[of x] prio[of y] unfolding sort_desc_facts(1) by metis
  ultimately have "sorted_wrt (\<lambda>x y. \<not> fl_lt (entry_priority p (fst x)) (entry_priority p (fst y))) ?s"
    by (rule sorted_wrt_mono_rel[rotated])
  then have "sorted_wrt (\<lambda>i j. \<not> fl_lt (entry_priority p i) (entry_priority p j)) (map fst ?s)" unfolding sorted_wrt_map .
  moreover have sub: "subseq selected (map fst ?s)" unfolding sel(1) by (rule select_fitting_facts(2))
  ultimately have k: "set selected \<subseteq> hm_dom ?m" "distinct selected"
    "sorted_wrt (\<lambda>i j. \<not> fl_lt (entry_priority p i) (entry_priority p j)) selected"
    using subseq_keeps[OF sub] d dom by blast+
  have "size_fn i > budget - sum_list (map size_fn selected)" if "i \<in> hm_dom ?m - set selected" for i
    using select_fitting_facts(3)[of i ?s size_fn budget] that dom unfolding sel(1) by blast
  moreover have "get_priority i p' = (if i \<in> set selected then Some (Fin 0) else get_priority i p)" for i
    using k(1) hm_get_None_iff[of ?m i] by (auto simp: sel(2) get_priority_def reset_get)
  ultimately show ?thesis using k select_fitting_facts(1)[of size_fn budget ?s] unfolding sel(1) by blast
qed

definition three_entities :: "nat priority_accumulator" where
  "three_entities = accumulate (Fin 1) (register 6 (Fin 1) (register 7 (Fin 3) (register 3 (Fin 2) PriorityAccumulator_new)))"

theorem drain_greedy_witness:
  "\<exists>p'. drain_top (\<lambda>ks. ks) 10 (\<lambda>i. i) three_entities = ([7, 3], p') \<and> sum_list [7, 3 :: nat] \<le> 10 \<and>
     get_priority 7 p' = Some (Fin 0) \<and> get_priority 6 p' = Some (Fin 1)"
proof -
  have e: "pa_entries three_entities = [(3, \<lparr>pe_base = Fin 2, pe_accumulated = Fin 2\<rparr>), (7, \<lparr>pe_base = Fin 3, pe_accumulated = Fin 3\<rparr>),
      (6, \<lparr>pe_base = Fin 1, pe_accumulated = Fin 1\<rparr>)]" by code_simp
  have s: "fst (drain_top (\<lambda>ks. ks) 10 (\<lambda>i. i) three_entities) = [7, 3]" "get_priority 6 three_entities = Some (Fin 1)" by code_simp+
  then obtain p' where d: "drain_top (\<lambda>ks. ks) 10 (\<lambda>i. i) three_entities = ([7, 3], p')" by (metis prod.collapse)
  have "hm_ok (pa_entries three_entities)" "\<forall>i e. hm_get (pa_entries three_entities) i = Some e \<longrightarrow> pe_accumulated e \<noteq> NaN"
    unfolding e by (auto simp: hm_ok_def hm_get_def)
  from drain_greedy[OF iter_order_id this d] have
    "sum_list (map (\<lambda>i. i) [7, 3]) \<le> (10 :: nat)" "\<forall>i. get_priority i p' = (if i \<in> set [7, 3] then Some (Fin 0) else get_priority i three_entities)"
    by blast+
  with s(2) d show ?thesis by simp
qed

section \<open>Sampling\<close>

text \<open>Timestamps that are numbers, in strictly ascending order.\<close>

definition ascending :: "(fl \<times> 't) list \<Rightarrow> bool" where
  "ascending xs \<longleftrightarrow> list_all (\<lambda>x. fst x \<noteq> NaN) xs \<and> sorted_wrt (\<lambda>x y. fl_lt (fst x) (fst y)) xs"

lemma fl_lt_NaN [simp]: "\<not> fl_lt x NaN" "\<not> fl_le x NaN" "\<not> fl_le NaN x"
  by (cases x; simp add: fl_le_def fl_eq_def)+

lemma fl_lt_trans: "fl_lt x y \<Longrightarrow> fl_lt y z \<Longrightarrow> fl_lt x z"
  by (cases x; cases y; cases z) auto

lemma fl_not_le: "x \<noteq> NaN \<Longrightarrow> y \<noteq> NaN \<Longrightarrow> \<not> fl_le x y \<longleftrightarrow> fl_lt y x"
  by (cases x; cases y) (auto simp: fl_le_def fl_eq_def)

lemma fl_le_lt_trans: "fl_le x y \<Longrightarrow> fl_lt y z \<Longrightarrow> fl_lt x z"
  by (cases x; cases y; cases z) (auto simp: fl_le_def fl_eq_def)

lemma ascending_last: "ascending xs \<Longrightarrow> x \<in> set xs \<Longrightarrow> fl_le (fst x) (fst (List.last xs))"
proof (induction xs)
  case (Cons y ys)
  show ?case
  proof (cases "ys = []")
    case True
    then show ?thesis using Cons.prems by (cases "fst y") (auto simp: fl_le_def fl_eq_def ascending_def)
  next
    case False
    then have "fl_lt (fst y) (fst (List.last ys))" using Cons.prems(1) by (simp add: ascending_def)
    with False Cons show ?thesis by (auto simp: ascending_def fl_le_def)
  qed
qed simp

lemma ascending_push:
  assumes "ascending (sb_snapshots b)" and "t \<noteq> NaN"
  shows "ascending (sb_snapshots (snapshot_push t s b))"
proof (cases "sb_snapshots b \<noteq> [] \<and> fl_le t (fst (List.last (sb_snapshots b)))")
  case False
  let ?xs = "sb_snapshots b"
  have "fl_lt (fst x) t" if "x \<in> set ?xs" for x
  proof -
    have "?xs \<noteq> []" using that by auto
    then have "fl_lt (fst (List.last ?xs)) t"
      using False assms fl_not_le[of t "fst (List.last ?xs)"] last_in_set[of ?xs] by (auto simp: ascending_def list_all_iff)
    with fl_le_lt_trans[OF ascending_last[OF assms(1) that]] show ?thesis .
  qed
  then have "ascending (?xs @ [(t, s)])" using assms by (auto simp: ascending_def sorted_wrt_append)
  moreover have "ascending (drop n ys)" if "ascending ys" for n and ys :: "(fl \<times> 'a) list"
    using that sorted_wrt_drop by (auto simp: ascending_def list_all_iff dest: in_set_dropD)
  ultimately show ?thesis using False by (auto simp: snapshot_push_def Let_def simp del: drop_append)
qed (use assms in \<open>simp add: snapshot_push_def\<close>)

text \<open>The snapshot buffer stays in order and bounded: whatever arrives in whatever order, as long as
  timestamps are numbers, the snapshots kept have strictly ascending timestamps, and there are at
  most twice the buffer depth of them.\<close>

theorem snapshots_ascending:
  assumes "list_all (\<lambda>(t, s). t \<noteq> NaN) arrivals"
  shows "ascending (sb_snapshots (fold (\<lambda>(t, s). snapshot_push t s) arrivals (snapshot_with_config depth delay))) \<and>
    length (sb_snapshots (fold (\<lambda>(t, s). snapshot_push t s) arrivals (snapshot_with_config depth delay))) \<le> 2 * depth"
proof -
  have "ascending (sb_snapshots (fold (\<lambda>(t, s). snapshot_push t s) as b)) \<and>
    length (sb_snapshots (fold (\<lambda>(t, s). snapshot_push t s) as b)) \<le> 2 * depth"
    if "list_all (\<lambda>(t, s). t \<noteq> NaN) as" "ascending (sb_snapshots b)" "sb_buffer_depth b = depth" "length (sb_snapshots b) \<le> 2 * depth"
    for "as" and b :: "'a snapshot_buffer"
    using that
  proof (induction "as" arbitrary: b)
    case (Cons a "as")
    obtain t s where a: "a = (t, s)" by fastforce
    have "sb_buffer_depth (snapshot_push t s b) = depth" "length (sb_snapshots (snapshot_push t s b)) \<le> 2 * depth"
      using Cons.prems(3,4) by (auto simp: snapshot_push_def Let_def)
    with Cons.IH[of "snapshot_push t s b"] Cons.prems a ascending_push[of b t s] show ?case by simp
  qed simp
  from this[OF assms, of "snapshot_with_config depth delay"] show ?thesis by (simp add: snapshot_with_config_def ascending_def)
qed

theorem snapshots_ascending_witness:
  "ascending (sb_snapshots (fold (\<lambda>(t, s). snapshot_push t s) [(Fin 1, True), (Fin 5, False), (Fin 3, True), (Inf True, True)] (snapshot_with_config 1 (Fin 0))))"
  using snapshots_ascending[of "[(Fin 1, True), (Fin 5, False), (Fin 3, True), (Inf True, True)]" 1 "Fin 0"] by simp

text \<open>The bracket of a target between the first and the last snapshot.\<close>

lemma bracket_found:
  "ascending ((t0, s0) # xs) \<Longrightarrow> xs \<noteq> [] \<Longrightarrow> fl_le t0 target \<Longrightarrow> fl_le target (fst (List.last xs)) \<Longrightarrow>
   \<exists>ys ta a tb b zs. (t0, s0) # xs = ys @ (ta, a) # (tb, b) # zs \<and> fl_le ta target \<and> fl_le target tb \<and>
     find_bracket lerp target ((t0, s0) # xs) =
       (let duration = fl_sub f64 tb ta in if fl_le duration (Fin 0) then Some a
        else Some (lerp a b (fl_clamp (fl_cast f32 (fl_div f64 (fl_sub f64 target ta) duration)) (Fin 0) (Fin 1))))"
proof (induction xs arbitrary: t0 s0)
  case (Cons x xs)
  obtain t1 s1 where x: "x = (t1, s1)" by fastforce
  show ?case
  proof (cases "fl_le target t1")
    case True
    then show ?thesis using Cons.prems(3) x
      by (intro exI[of _ "[]"] exI[of _ t0] exI[of _ s0] exI[of _ t1] exI[of _ s1] exI[of _ xs]) (simp add: Let_def)
  next
    case False
    have n: "target \<noteq> NaN" "t1 \<noteq> NaN" using Cons.prems(1,3) x by (auto simp: ascending_def)
    then have "fl_lt t1 target" using False fl_not_le by blast
    moreover have "xs \<noteq> []" using False Cons.prems(4) x by auto
    moreover have "ascending ((t1, s1) # xs)" using Cons.prems(1) x by (simp add: ascending_def)
    ultimately obtain ys ta a tb b zs where "(t1, s1) # xs = ys @ (ta, a) # (tb, b) # zs" "fl_le ta target" "fl_le target tb"
      "find_bracket lerp target ((t1, s1) # xs) =
       (let duration = fl_sub f64 tb ta in if fl_le duration (Fin 0) then Some a
        else Some (lerp a b (fl_clamp (fl_cast f32 (fl_div f64 (fl_sub f64 target ta) duration)) (Fin 0) (Fin 1))))"
      using Cons.IH[of t1 s1] Cons.prems(4) x by (auto simp: fl_le_def)
    moreover have "find_bracket lerp target ((t0, s0) # x # xs) = find_bracket lerp target ((t1, s1) # xs)"
      using False x by simp
    moreover from calculation(1) have "(t0, s0) # x # xs = ((t0, s0) # ys) @ (ta, a) # (tb, b) # zs" using x by simp
    ultimately show ?thesis by metis
  qed
qed simp

lemma no_bracket:
  "(\<forall>x \<in> set xs. fl_lt target (fst x)) \<or> (\<forall>x \<in> set xs. fl_lt (fst x) target) \<Longrightarrow> find_bracket lerp target xs = None"
proof (induction lerp target xs rule: find_bracket.induct)
  case (1 lerp target ta a tb c rest)
  have "\<not> (fl_lt x y \<and> fl_le y x)" for x y by (cases x; cases y) (auto simp: fl_le_def fl_eq_def)
  then have "\<not> (fl_le ta target \<and> fl_le target tb)" using 1(2) by auto
  with 1 show ?case by auto
qed simp_all

text \<open>The factor of an interpolation between two timestamps of moderate size.\<close>

lemma factor_in_unit:
  assumes "fl_le (Fin qa) (Fin u)" and "qa < qb" and "\<bar>qa\<bar> \<le> 2 ^ 199" and "\<bar>qb\<bar> \<le> 2 ^ 199"
  shows "fl_le (fl_sub f64 (Fin qb) (Fin qa)) (Fin 0) \<or>
    (\<exists>t. 0 \<le> t \<and> t \<le> 1 \<and> fl_clamp (fl_cast f32 (fl_div f64 (fl_sub f64 (Fin u) (Fin qa)) (fl_sub f64 (Fin qb) (Fin qa)))) (Fin 0) (Fin 1) = Fin t)"
proof -
  have "qb - qa \<le> 2 ^ 200" using assms(3,4) by simp
  then obtain d where "fl_round f64 (qb - qa) = Fin d" "0 \<le> d"
    using assms(2) by (elim f64_round_finite[rotated]) auto
  then have d: "fl_sub f64 (Fin qb) (Fin qa) = Fin d" "0 \<le> d" by (simp_all add: fl_sub_def)
  have "fl_nonneg (fl_sub f64 (Fin u) (Fin qa))"
    using assms(1) fl_round_nonneg[of "u - qa" f64] by (auto simp: fl_sub_def fl_le_def fl_eq_def)
  then have "fl_cast f32 (fl_div f64 (fl_sub f64 (Fin u) (Fin qa)) (Fin d)) \<noteq> NaN" if "d \<noteq> 0"
    using that d(2) fl_round_nonneg[of _ f64] fl_round_nonneg[of _ f32]
    by (elim fl_nonneg_cases) (auto simp: fl_round_def Let_def split: if_splits)
  then show ?thesis
    using d by (cases "d = 0") (auto simp: fl_le_def fl_eq_def elim: fl_clamp_bounds[of _ 0 1])
qed

text \<open>C38: sampling interpolates. With timestamps of moderate size in ascending order, a render time whose
  target lies before the first snapshot gets the first state, one after the last gets the last
  state, and any other the interpolation of two neighbouring snapshots around the target with a
  factor between 0 and 1 (or the earlier of the two, when their distance rounds to nothing).\<close>

theorem sample_interpolates:
  assumes "ascending (sb_snapshots b)" and "list_all (\<lambda>x. \<exists>q. fst x = Fin q \<and> \<bar>q\<bar> \<le> 2 ^ 199) (sb_snapshots b)"
    and "length (sb_snapshots b) \<ge> 2" and "fl_sub f64 now (sb_playback_delay_ms b) = Fin u"
  shows "if fl_lt (Fin u) (fst (hd (sb_snapshots b))) then snapshot_sample lerp now b = Some (snd (hd (sb_snapshots b)))
    else if fl_lt (fst (List.last (sb_snapshots b))) (Fin u) then snapshot_sample lerp now b = Some (snd (List.last (sb_snapshots b)))
    else \<exists>ys ta a tb c zs. sb_snapshots b = ys @ (ta, a) # (tb, c) # zs \<and> fl_le ta (Fin u) \<and> fl_le (Fin u) tb \<and>
      (fl_le (fl_sub f64 tb ta) (Fin 0) \<and> snapshot_sample lerp now b = Some a \<or>
       (\<exists>t. 0 \<le> t \<and> t \<le> 1 \<and> snapshot_sample lerp now b = Some (lerp a c (Fin t))))"
proof -
  obtain t0 s0 x xs where xs: "sb_snapshots b = (t0, s0) # x # xs"
    using assms(3) by (cases "sb_snapshots b" rule: remdups_adj.cases; fastforce)
  let ?xs = "sb_snapshots b"
  have sample: "snapshot_sample lerp now b = (case find_bracket lerp (Fin u) ?xs of Some s \<Rightarrow> Some s
      | None \<Rightarrow> if fl_lt (fst (List.last ?xs)) (Fin u) then Some (snd (List.last ?xs)) else Some (snd (hd ?xs)))"
    using assms(3,4) by (simp add: snapshot_sample_def Let_def)
  have first: "x \<in> set ?xs \<Longrightarrow> fl_le t0 (fst x)" for x
    using assms(1) xs fl_not_le[of t0 "fst x"] by (auto simp: ascending_def fl_le_def fl_eq_def)
  consider "fl_lt (Fin u) t0" | "\<not> fl_lt (Fin u) t0" "fl_lt (fst (List.last ?xs)) (Fin u)" | "\<not> fl_lt (Fin u) t0" "\<not> fl_lt (fst (List.last ?xs)) (Fin u)" by blast
  then show ?thesis
  proof cases
    case 1
    then have "\<forall>x \<in> set ?xs. fl_lt (Fin u) (fst x)" using first by (metis fl_le_def fl_lt_trans fl_eq_def)
    moreover have "\<not> fl_lt (fst (List.last ?xs)) (Fin u)" using calculation xs by (metis last_in_set list.distinct(1) lt_not_lt)
    ultimately show ?thesis using 1 no_bracket[of ?xs] xs sample by simp
  next
    case 2
    then have "\<forall>x \<in> set ?xs. fl_lt (fst x) (Fin u)" using ascending_last[OF assms(1)] fl_le_lt_trans by blast
    then show ?thesis using 2 no_bracket[of ?xs] xs sample by simp
  next
    case 3
    have n: "t0 \<noteq> NaN" "fst (List.last ?xs) \<noteq> NaN" using assms(1) xs last_in_set[of ?xs] by (auto simp: ascending_def list_all_iff)
    then have "fl_le t0 (Fin u)" "fl_le (Fin u) (fst (List.last (x # xs)))" using 3 fl_not_le[of t0 "Fin u"] fl_not_le[of "Fin u" "fst (List.last ?xs)"] xs by (metis fl.distinct(3), simp)
    from bracket_found[OF _ _ this, of s0 lerp] assms(1) obtain ys ta a tb c zs where b: "?xs = ys @ (ta, a) # (tb, c) # zs"
      "fl_le ta (Fin u)" "fl_le (Fin u) tb" "find_bracket lerp (Fin u) ?xs =
       (let duration = fl_sub f64 tb ta in if fl_le duration (Fin 0) then Some a
        else Some (lerp a c (fl_clamp (fl_cast f32 (fl_div f64 (fl_sub f64 (Fin u) ta) duration)) (Fin 0) (Fin 1))))"
      unfolding xs by auto
    obtain qa qb where q: "ta = Fin qa" "tb = Fin qb" "\<bar>qa\<bar> \<le> 2 ^ 199" "\<bar>qb\<bar> \<le> 2 ^ 199" using assms(2) b(1) by auto
    moreover have "qa < qb" using assms(1) b(1) q(1,2) by (simp add: ascending_def sorted_wrt_append)
    ultimately have "fl_le (fl_sub f64 tb ta) (Fin 0) \<and> snapshot_sample lerp now b = Some a \<or>
        (\<exists>t. 0 \<le> t \<and> t \<le> 1 \<and> snapshot_sample lerp now b = Some (lerp a c (Fin t)))"
      using factor_in_unit[of qa u qb] b(2,4) sample by (auto simp: Let_def)
    with b(1-3) have "\<exists>ys ta a tb c zs. ?xs = ys @ (ta, a) # (tb, c) # zs \<and> fl_le ta (Fin u) \<and> fl_le (Fin u) tb \<and>
        (fl_le (fl_sub f64 tb ta) (Fin 0) \<and> snapshot_sample lerp now b = Some a \<or>
         (\<exists>t. 0 \<le> t \<and> t \<le> 1 \<and> snapshot_sample lerp now b = Some (lerp a c (Fin t))))" by blast
    moreover have "\<not> fl_lt (Fin u) (fst (hd ?xs))" using 3(1) xs by simp
    ultimately show ?thesis using 3(2) by presburger
  qed
qed

definition two_snapshots :: "fl list snapshot_buffer" where
  "two_snapshots = snapshot_push (Fin 50) [Fin 4] (snapshot_push (Fin 0) [] SnapshotBuffer_new)"

theorem sample_interpolates_witness:
  "\<exists>t. 0 \<le> t \<and> t \<le> 1 \<and> snapshot_sample (\<lambda>a c t. t # a @ c) (Fin 125) two_snapshots = Some [Fin t, Fin 4]"
proof -
  have xs: "sb_snapshots two_snapshots = [(Fin 0, []), (Fin 50, [Fin 4])]" and d: "sb_playback_delay_ms two_snapshots = Fin 100"
    by (simp_all add: two_snapshots_def snapshot_push_def SnapshotBuffer_new_def DEFAULT_BUFFER_DEPTH_def
      DEFAULT_PLAYBACK_DELAY_MS_def fl_le_def fl_eq_def)
  have "fl_sub f64 (Fin 125) (Fin 100) = Fin 25" "\<not> fl_le (fl_sub f64 (Fin 50) (Fin 0)) (Fin 0)" by code_simp+
  then show ?thesis
    using sample_interpolates[of two_snapshots "Fin 125" 25 "\<lambda>a c t. t # a @ c"]
    by (simp add: xs d ascending_def fl_le_def fl_eq_def Cons_eq_append_conv) blast
qed

section \<open>The grid\<close>

text \<open>Entities at opposite ends of the world can be neighbours: cells saturate at the ends of \<open>i32\<close> and
  the difference of two cells wraps, so an entity 6 billion units away counts as relevant, while one
  two cells away does not.\<close>

theorem grid_wraps:
  "grid_relevant (GridInterest_new (Fin 1)) (Fin 3000000000, Fin 0, Fin 0) (Fin (- 3000000000), Fin 0, Fin 0) \<and>
   \<not> grid_relevant (GridInterest_new (Fin 1)) (Fin 2, Fin 0, Fin 0) (Fin 0, Fin 0, Fin 0)"
  by code_simp

text \<open>The interest radius is inclusive for relevance, but the priority at the radius is 0: such an entity
  is relevant and never gains priority.\<close>

lemma edge_of_interest:
  assumes "fl_le (dist_sq e o1) (ri_radius_sq r)" and "fl_le (ri_radius_sq r) (dist_sq e o1)"
  shows "radius_relevant r e o1 \<and> radius_priority_mod r e o1 = Fin 0"
  using assms by (simp add: radius_relevant_def radius_priority_mod_def)

definition cell_fits :: "grid_cell \<Rightarrow> bool" where
  "cell_fits c \<longleftrightarrow> \<bar>sint (gc_x c)\<bar> < 2 ^ 30 \<and> \<bar>sint (gc_y c)\<bar> < 2 ^ 30 \<and> \<bar>sint (gc_z c)\<bar> < 2 ^ 30"

lemma near_iff:
  fixes a b :: i32
  assumes "\<bar>sint a\<bar> < 2 ^ 30" and "\<bar>sint b\<bar> < 2 ^ 30"
  shows "near a b \<longleftrightarrow> \<bar>sint a - sint b\<bar> \<le> 1"
proof -
  have s: "sint (x - y) = sint x - sint y" if "\<bar>sint x\<bar> < 2 ^ 30" "\<bar>sint y\<bar> < 2 ^ 30" for x y :: i32
    using that by (simp add: sint_word_ariths signed_take_bit_int_eq_self)
  show ?thesis using s[OF assms] s[OF assms(2,1)] by (auto simp: near_def i32_abs_def)
qed

text \<open>Within the range of \<open>i32\<close> the grid means what it says: two positions whose cells are numbers
  of at most 30 bits are relevant to each other exactly when their cells differ by at most one along
  each axis, saturation and wrap-around playing no part.\<close>

theorem grid_neighbours:
  assumes "cell_fits (to_cell g e)" and "cell_fits (to_cell g o1)"
  shows "grid_relevant g e o1 \<longleftrightarrow>
    \<bar>sint (gc_x (to_cell g e)) - sint (gc_x (to_cell g o1))\<bar> \<le> 1 \<and>
    \<bar>sint (gc_y (to_cell g e)) - sint (gc_y (to_cell g o1))\<bar> \<le> 1 \<and>
    \<bar>sint (gc_z (to_cell g e)) - sint (gc_z (to_cell g o1))\<bar> \<le> 1"
  using assms by (simp add: grid_relevant_def Let_def cell_fits_def near_iff)

theorem grid_neighbours_witness:
  "grid_relevant (GridInterest_new (Fin 10)) (Fin 19, Fin 0, Fin 5) (Fin 2, Fin 0, Fin (- 3))"
proof -
  let ?a = "to_cell (GridInterest_new (Fin 10)) (Fin 19, Fin 0, Fin 5)" and ?b = "to_cell (GridInterest_new (Fin 10)) (Fin 2, Fin 0, Fin (- 3))"
  have "cell_fits ?a" "cell_fits ?b" "\<bar>sint (gc_x ?a) - sint (gc_x ?b)\<bar> \<le> 1" "\<bar>sint (gc_y ?a) - sint (gc_y ?b)\<bar> \<le> 1"
    "\<bar>sint (gc_z ?a) - sint (gc_z ?b)\<bar> \<le> 1"
    by code_simp+
  then show ?thesis using grid_neighbours by blast
qed

end
