(* ===== verification/Simulator.thy ===== *)
theory Simulator
  imports Config "HOL-Library.Sublist"
begin

text \<open>
  The network simulator (\<open>gbnet/src/simulator.rs\<close>): packet loss, a token bucket for the bandwidth,
  delays and duplicates. A random draw is an argument of the operation that makes it, one field of
  \<open>draws\<close> per call of the generator, in the order of the code; the ranges of the generator are the
  hypotheses of the lemmas (\<open>draws_ok\<close>). The clock is read once per operation. Addresses are of any
  type.
\<close>

section \<open>State and operations\<close>

record 'addr delayed_packet =
  dp_data :: bytes
  dp_addr :: 'addr
  dp_deliver_at :: instant

record 'addr network_simulator =
  sim_config :: simulation_config
  sim_delayed_packets :: "'addr delayed_packet list"
  sim_token_bucket_tokens :: fl
  sim_last_token_refill :: instant

record draws =
  draw_loss :: fl
  draw_jitter :: fl
  draw_order :: fl
  draw_extra :: fl
  draw_duplicate :: fl
  draw_duplicate_delay :: fl

definition NetworkSimulator_new :: "instant \<Rightarrow> simulation_config \<Rightarrow> 'addr network_simulator" where
  "NetworkSimulator_new now c =
     \<lparr>sim_config = c, sim_delayed_packets = [], sim_token_bucket_tokens = Fin 0, sim_last_token_refill = now\<rparr>"

definition refill_tokens :: "instant \<Rightarrow> 'addr network_simulator \<Rightarrow> 'addr network_simulator" where
  "refill_tokens now s =
     (let elapsed = as_secs_f64 (duration_since now (sim_last_token_refill s));
          maximum = fl_of_nat f64 (sc_bandwidth_limit_bytes_per_sec (sim_config s));
          tokens = fl_add f64 (sim_token_bucket_tokens s) (fl_mul f64 elapsed maximum)
      in s\<lparr>sim_last_token_refill := now, sim_token_bucket_tokens := (if fl_lt maximum tokens then maximum else tokens)\<rparr>)"

text \<open>The bandwidth check: the state after it, and whether the packet passes.\<close>

definition spend_tokens :: "instant \<Rightarrow> nat \<Rightarrow> 'addr network_simulator \<Rightarrow> 'addr network_simulator \<times> bool" where
  "spend_tokens now len s =
     (if sc_bandwidth_limit_bytes_per_sec (sim_config s) > 0
      then let s1 = refill_tokens now s
           in if fl_lt (sim_token_bucket_tokens s1) (fl_of_nat f64 len) then (s1, False)
              else (s1\<lparr>sim_token_bucket_tokens := fl_sub f64 (sim_token_bucket_tokens s1) (fl_of_nat f64 len)\<rparr>, True)
      else (s, True))"

definition base_delay :: "draws \<Rightarrow> simulation_config \<Rightarrow> fl" where
  "base_delay r c = fl_add f64 (fl_of_nat f64 (sc_latency_ms c)) (if sc_jitter_ms c > 0 then draw_jitter r else Fin 0)"

definition extra_delay :: "draws \<Rightarrow> simulation_config \<Rightarrow> fl" where
  "extra_delay r c =
     (if fl_lt (Fin 0) (sc_out_of_order_chance c) \<and> fl_lt (draw_order r) (sc_out_of_order_chance c) then draw_extra r else Fin 0)"

definition push_delayed :: "instant \<Rightarrow> bytes \<Rightarrow> 'addr \<Rightarrow> duration \<Rightarrow> 'addr network_simulator \<Rightarrow> 'addr network_simulator" where
  "push_delayed now data addr delay s =
     s\<lparr>sim_delayed_packets := sim_delayed_packets s @ [\<lparr>dp_data = data, dp_addr = addr, dp_deliver_at = now + int delay\<rparr>]\<rparr>"

definition process_send ::
  "instant \<Rightarrow> draws \<Rightarrow> bytes \<Rightarrow> 'addr \<Rightarrow> 'addr network_simulator \<Rightarrow> (bytes \<times> 'addr) list \<times> 'addr network_simulator" where
  "process_send now r data addr s =
     (let c = sim_config s in
      if fl_lt (Fin 0) (sc_packet_loss c) \<and> fl_lt (draw_loss r) (sc_packet_loss c) then ([], s)
      else case spend_tokens now (length data) s of
        (s1, False) \<Rightarrow> ([], s1)
      | (s1, True) \<Rightarrow>
          let delay_ms = base_delay r c;
              total_delay = from_millis (fl_to_nat 64 (fl_add f64 delay_ms (extra_delay r c)));
              (result, s2) = (if total_delay = 0 then ([(data, addr)], s1) else ([], push_delayed now data addr total_delay s1));
              s3 = (if fl_lt (Fin 0) (sc_duplicate_chance c) \<and> fl_lt (draw_duplicate r) (sc_duplicate_chance c)
                    then push_delayed now data addr (from_millis (fl_to_nat 64 (fl_add f64 delay_ms (draw_duplicate_delay r)))) s2
                    else s2)
          in (result, s3))"

fun take_due :: "instant \<Rightarrow> 'addr delayed_packet list \<Rightarrow> 'addr delayed_packet list \<times> 'addr delayed_packet list" where
  "take_due now [] = ([], [])"
| "take_due now (p # ps) =
     (if dp_deliver_at p \<le> now then let (due, rest) = take_due now ps in (p # due, rest) else ([], p # ps))"

definition receive_ready :: "instant \<Rightarrow> 'addr network_simulator \<Rightarrow> (bytes \<times> 'addr) list \<times> 'addr network_simulator" where
  "receive_ready now s =
     (let (due, rest) = take_due now (sim_delayed_packets s)
      in (map (\<lambda>p. (dp_data p, dp_addr p)) due, s\<lparr>sim_delayed_packets := rest\<rparr>))"

definition pending_count :: "'addr network_simulator \<Rightarrow> nat" where
  "pending_count s = length (sim_delayed_packets s)"

section \<open>Runs\<close>

text \<open>The operations of a test, and the deliveries they make: the immediate ones of a send, then those polled.\<close>

datatype 'addr sim_op =
    SimSend instant draws bytes 'addr
  | SimPoll instant

fun sim_step :: "'addr sim_op \<Rightarrow> 'addr network_simulator \<Rightarrow> (bytes \<times> 'addr) list \<times> 'addr network_simulator" where
  "sim_step (SimSend now r data addr) s = process_send now r data addr s"
| "sim_step (SimPoll now) s = receive_ready now s"

fun sim_run :: "'addr sim_op list \<Rightarrow> 'addr network_simulator \<Rightarrow> (bytes \<times> 'addr) list \<times> 'addr network_simulator" where
  "sim_run [] s = ([], s)"
| "sim_run (x # xs) s = (let (out1, s1) = sim_step x s; (out2, s2) = sim_run xs s1 in (out1 @ out2, s2))"

fun sent :: "'addr sim_op list \<Rightarrow> (bytes \<times> 'addr) list" where
  "sent [] = []"
| "sent (SimSend now r data addr # xs) = (data, addr) # sent xs"
| "sent (SimPoll now # xs) = sent xs"

definition pending :: "'addr network_simulator \<Rightarrow> (bytes \<times> 'addr) list" where
  "pending s = map (\<lambda>p. (dp_data p, dp_addr p)) (sim_delayed_packets s)"

text \<open>What the generator promises: \<open>random_range\<close> draws from a range that starts at 0.\<close>

definition draws_ok :: "draws \<Rightarrow> bool" where
  "draws_ok r \<longleftrightarrow> fl_nonneg (draw_jitter r) \<and> fl_nonneg (draw_extra r) \<and> fl_nonneg (draw_duplicate_delay r)"

fun op_ok :: "'addr sim_op \<Rightarrow> bool" where
  "op_ok (SimSend now r data addr) = draws_ok r"
| "op_ok (SimPoll now) = True"

section \<open>Queueing\<close>

lemma take_due_split: "take_due now ps = (due, rest) \<Longrightarrow> ps = due @ rest"
  by (induction ps arbitrary: due rest) (auto split: if_splits prod.splits)

lemma take_due_all: "(\<forall>p \<in> set ps. dp_deliver_at p \<le> now) \<Longrightarrow> take_due now ps = (ps, [])"
  by (induction ps) simp_all

lemma poll_keeps:
  "receive_ready now s = (out, s') \<Longrightarrow> out @ pending s' = pending s \<and> sim_config s' = sim_config s"
  by (auto simp: receive_ready_def pending_def split: prod.splits dest!: take_due_split)

lemma spend_keeps:
  "spend_tokens now n s = (s', passed) \<Longrightarrow> pending s' = pending s \<and> sim_config s' = sim_config s \<and>
    (sc_bandwidth_limit_bytes_per_sec (sim_config s) = 0 \<longrightarrow> passed)"
  by (auto simp: spend_tokens_def refill_tokens_def Let_def pending_def split: if_splits)

lemma push_pending [simp]:
  "pending (push_delayed now data addr d s) = pending s @ [(data, addr)]" "sim_config (push_delayed now data addr d s) = sim_config s"
  by (simp_all add: push_delayed_def pending_def)

lemma fl_to_nat_ge1: "fl_ge1 x \<Longrightarrow> fl_to_nat 64 x \<ge> 1"
  by (cases x) (auto simp: fl_ge1_def le_nat_iff le_floor_iff)

text \<open>With at least a millisecond of latency no packet is delivered at once.\<close>

lemma delay_positive:
  assumes "sc_latency_ms c \<ge> 1" and "draws_ok r"
  shows "from_millis (fl_to_nat 64 (fl_add f64 (base_delay r c) (extra_delay r c))) > 0"
proof -
  have "fl_ge1 (fl_of_nat f64 (sc_latency_ms c))" using assms(1) by (simp add: fl_of_nat_def fl_round_ge1)
  then have "fl_ge1 (base_delay r c)" using assms(2) by (auto simp: base_delay_def draws_ok_def intro!: fl_add_ge1)
  then have "fl_ge1 (fl_add f64 (base_delay r c) (extra_delay r c))"
    using assms(2) by (auto simp: extra_delay_def draws_ok_def intro!: fl_add_ge1)
  from fl_to_nat_ge1[OF this] show ?thesis by (simp add: from_millis_def)
qed

lemma send_queues:
  assumes "sc_latency_ms (sim_config s) \<ge> 1" and "\<not> fl_lt (Fin 0) (sc_duplicate_chance (sim_config s))" and "draws_ok r"
    and "process_send now r data addr s = (out, s')"
  shows "out = [] \<and> sim_config s' = sim_config s \<and> (pending s' = pending s @ [(data, addr)] \<or>
    pending s' = pending s \<and> (fl_lt (Fin 0) (sc_packet_loss (sim_config s)) \<or> sc_bandwidth_limit_bytes_per_sec (sim_config s) > 0))"
proof -
  obtain s1 passed where sp: "spend_tokens now (length data) s = (s1, passed)" by fastforce
  show ?thesis
    using assms spend_keeps[OF sp] delay_positive[OF assms(1,3)]
    by (cases passed) (auto simp: process_send_def Let_def sp split: if_splits)
qed

lemma step_queues:
  assumes "sc_latency_ms (sim_config s) \<ge> 1" and "\<not> fl_lt (Fin 0) (sc_duplicate_chance (sim_config s))" and "op_ok x"
    and "sim_step x s = (out, s')"
  shows "sim_config s' = sim_config s \<and> (out @ pending s' = pending s @ sent [x] \<or>
    out @ pending s' = pending s \<and> (fl_lt (Fin 0) (sc_packet_loss (sim_config s)) \<or> sc_bandwidth_limit_bytes_per_sec (sim_config s) > 0))"
proof (cases x)
  case (SimSend now r data addr)
  with assms send_queues[OF assms(1,2), of r now data addr out s'] show ?thesis by auto
next
  case (SimPoll now)
  with assms(4) poll_keeps[of now s out s'] show ?thesis by simp
qed

lemma run_queues:
  assumes "sc_latency_ms (sim_config s) \<ge> 1" and "\<not> fl_lt (Fin 0) (sc_duplicate_chance (sim_config s))" and "list_all op_ok xs"
    and "sim_run xs s = (out, s')"
  shows "subseq (out @ pending s') (pending s @ sent xs) \<and>
    (\<not> fl_lt (Fin 0) (sc_packet_loss (sim_config s)) \<and> sc_bandwidth_limit_bytes_per_sec (sim_config s) = 0 \<longrightarrow> out @ pending s' = pending s @ sent xs)"
  using assms
proof (induction xs arbitrary: s out)
  case (Cons x xs)
  obtain out1 s1 out2 where r: "sim_step x s = (out1, s1)" "sim_run xs s1 = (out2, s')" "out = out1 @ out2"
    using Cons.prems(4) by (auto split: prod.splits)
  note st = step_queues[OF Cons.prems(1,2) _ r(1)]
  have c: "sim_config s1 = sim_config s" using st Cons.prems(3) by simp
  have s: "sent (x # xs) = sent [x] @ sent xs" by (cases x) simp_all
  note ih = Cons.IH[OF _ _ _ r(2)]
  have "subseq (out1 @ out2 @ pending s') (out1 @ pending s1 @ sent xs)" using ih c Cons.prems(1-3) by (simp add: list_emb_append_mono)
  moreover have "subseq (out1 @ pending s1 @ sent xs) (pending s @ sent [x] @ sent xs)"
    using st Cons.prems(3) by (auto simp: subseq_append' simp flip: append_assoc)
  ultimately have "subseq (out @ pending s') (pending s @ sent (x # xs))"
    using s r(3) subseq_order.order_trans by fastforce
  then show ?case using ih c Cons.prems st s r(3) by auto
qed simp

text \<open>C36: the simulator never reorders. When nothing is duplicated and there is at least a
  millisecond of latency, what is delivered and what is still queued are together a subsequence of
  the datagrams sent, in the order they were sent, whatever the random draws, the chance of packets
  out of order included; without loss and bandwidth limit they are all of them; and a poll after the
  last delivery time hands out everything.\<close>

theorem simulator_fifo:
  assumes "sc_latency_ms c \<ge> 1" and "\<not> fl_lt (Fin 0) (sc_duplicate_chance c)" and "list_all op_ok xs"
    and "sim_run xs (NetworkSimulator_new now c) = (out, s)"
  shows "subseq (out @ pending s) (sent xs) \<and>
    (\<not> fl_lt (Fin 0) (sc_packet_loss c) \<and> sc_bandwidth_limit_bytes_per_sec c = 0 \<longrightarrow> out @ pending s = sent xs) \<and>
    (\<forall>t. (\<forall>p \<in> set (sim_delayed_packets s). dp_deliver_at p \<le> t) \<longrightarrow> fst (receive_ready t s) = pending s)"
  using run_queues[of "NetworkSimulator_new now c" xs out s] assms
  by (simp add: NetworkSimulator_new_def pending_def receive_ready_def take_due_all)

definition always_reorder :: simulation_config where
  "always_reorder = SimulationConfig_default\<lparr>sc_latency_ms := 10, sc_out_of_order_chance := Fin 1\<rparr>"

definition early_draws :: draws where
  "early_draws = \<lparr>draw_loss = Fin 0, draw_jitter = Fin 0, draw_order = Fin 0, draw_extra = Fin 49, draw_duplicate = Fin 0, draw_duplicate_delay = Fin 0\<rparr>"

definition late_draws :: draws where
  "late_draws = early_draws\<lparr>draw_extra := Fin 0\<rparr>"

definition overtaking :: "bool sim_op list" where
  "overtaking = [SimSend 0 early_draws [1] True, SimSend 1 late_draws [2] False, SimPoll 20000000, SimPoll 60000000]"

theorem simulator_fifo_witness:
  "fst (sim_run overtaking (NetworkSimulator_new 0 always_reorder)) @ pending (snd (sim_run overtaking (NetworkSimulator_new 0 always_reorder))) =
     [([1], True), ([2], False)]"
proof -
  obtain out s where r: "sim_run overtaking (NetworkSimulator_new 0 always_reorder) = (out, s)" by fastforce
  have "list_all op_ok overtaking" by (simp add: overtaking_def draws_ok_def early_draws_def late_draws_def)
  moreover have "sent overtaking = [([1], True), ([2], False)]" by (simp add: overtaking_def)
  ultimately show ?thesis
    using simulator_fifo[of always_reorder overtaking 0 out s] r by (simp add: always_reorder_def SimulationConfig_default_def)
qed

section \<open>Head of line and an empty bucket\<close>

text \<open>A packet that is due waits behind one that is not.\<close>

lemma head_blocks:
  assumes "sim_delayed_packets s = p # ps" and "dp_deliver_at p > now"
  shows "receive_ready now s = ([], s)"
  using assms by (simp add: receive_ready_def)

text \<open>The token bucket starts empty: under a bandwidth limit a first packet sent at once is dropped.\<close>

lemma bucket_starts_empty:
  fixes s :: "'addr network_simulator"
  assumes "s = NetworkSimulator_new now c" and "sc_bandwidth_limit_bytes_per_sec c > 0" and "sc_bandwidth_limit_bytes_per_sec c < 2 ^ 64" and "data \<noteq> []"
  shows "snd (spend_tokens now (length data) s) = False"
proof -
  let ?limit = "sc_bandwidth_limit_bytes_per_sec c"
  have "rat_of_nat ?limit \<le> of_nat (2 ^ 64)" using assms(3) by (simp only: of_nat_le_iff)
  also have "\<dots> \<le> 2 ^ 200" by simp
  finally obtain m where m: "fl_of_nat f64 ?limit = Fin m" "0 \<le> m"
    by (elim f64_round_finite[rotated]) (auto simp: fl_of_nat_def)
  have "fl_ge1 (fl_of_nat f64 (length data))" using assms(4) by (simp add: fl_of_nat_def fl_round_ge1 Suc_le_eq)
  then have one: "fl_lt (Fin 0) (fl_of_nat f64 (length data))" by (cases "fl_of_nat f64 (length data)") (auto simp: fl_ge1_def)
  have "as_secs_f64 0 = Fin 0"
    by (simp add: as_secs_f64_def fl_of_nat_def[of f64 0])
  then have "refill_tokens now s = s"
    using m assms(1) by (simp add: refill_tokens_def NetworkSimulator_new_def duration_since_def)
  moreover have "sim_config s = c" "sim_token_bucket_tokens s = Fin 0"
    using assms(1) by (simp_all add: NetworkSimulator_new_def)
  ultimately show ?thesis using one assms(2) by (simp add: spend_tokens_def Let_def)
qed

end
