(* ===== verification/Schema.thy ===== *)
theory Schema
  imports Packet
begin

text \<open>
  The derive macro itself (\<open>gbnet_macros/src/lib.rs\<close>), in bit mode: its input is a syntax tree, its
  output a program. The tree is modelled as the data below, with the attributes as they are written;
  the emitted program as what it does, a writer and a reader of values. \<open>None\<close> stands for a type the
  macro refuses (a panic at compile time) or for emitted code the compiler refuses.

  What the compiler and the user supply is the argument \<open>rust_env\<close>: the implementations of the
  serialization traits by type, \<open>Default\<close>, the modules named by \<open>#[with]\<close>, and the values of the
  expressions of \<open>#[skip_if]\<close> (which may mention all fields).
\<close>

section \<open>Syntax\<close>

datatype meta = MetaPath | MetaInt nat | MetaStr string | MetaList "(string \<times> meta) list" | MetaOther

type_synonym attribute = "string \<times> meta"

text \<open>A path is its segments with their type arguments; an array has a literal length or another one.\<close>

datatype syn_type = PathType "(string \<times> syn_type list) list" | ArrayType syn_type "nat option" | OtherType

record syn_field =
  sf_attrs :: "attribute list"
  sf_ty :: syn_type

datatype syn_fields = NamedFields "syn_field list" | UnnamedFields "syn_field list" | UnitFields

record syn_variant =
  vr_attrs :: "attribute list"
  vr_fields :: syn_fields

datatype syn_data = StructData syn_fields | EnumData "syn_variant list" | UnionData

record derive_input =
  di_attrs :: "attribute list"
  di_data :: syn_data

section \<open>Attributes\<close>

definition parse_lit_int :: "meta \<Rightarrow> nat option" where
  "parse_lit_int m = (case m of MetaInt n \<Rightarrow> if int n < 2 ^ 64 then Some n else None | _ \<Rightarrow> None)"

definition find_int :: "string \<Rightarrow> attribute list \<Rightarrow> nat option" where
  "find_int name attrs =
     (case List.find (\<lambda>a. fst a = name) attrs of None \<Rightarrow> None | Some a \<Rightarrow> parse_lit_int (snd a))"

fun find_map :: "('a \<Rightarrow> 'b option) \<Rightarrow> 'a list \<Rightarrow> 'b option" where
  "find_map f [] = None"
| "find_map f (x # xs) = (case f x of Some y \<Rightarrow> Some y | None \<Rightarrow> find_map f xs)"

definition should_serialize_field :: "syn_field \<Rightarrow> bool" where
  "should_serialize_field f \<longleftrightarrow> \<not> list_ex (\<lambda>a. fst a = ''no_serialize'') (sf_attrs f)"

definition get_field_bits :: "syn_field \<Rightarrow> nat option" where
  "get_field_bits f = find_int ''bits'' (sf_attrs f)"

definition get_max_len :: "syn_field \<Rightarrow> derive_input \<Rightarrow> nat option" where
  "get_max_len f input =
     (case find_int ''max_len'' (sf_attrs f) of Some n \<Rightarrow> Some n | None \<Rightarrow> find_int ''default_max_len'' (di_attrs input))"

text \<open>\<open>#[with = "path"]\<close> and \<open>#[skip_if = "expr"]\<close>: the first attribute whose string parses.\<close>

definition find_str :: "string \<Rightarrow> (string \<Rightarrow> 'b option) \<Rightarrow> attribute list \<Rightarrow> 'b option" where
  "find_str name parse = find_map (\<lambda>a. if fst a \<noteq> name then None else case snd a of MetaStr s \<Rightarrow> parse s | _ \<Rightarrow> None)"

definition get_with_path :: "(string \<Rightarrow> 'b option) \<Rightarrow> syn_field \<Rightarrow> 'b option" where
  "get_with_path parse f = find_str ''with'' parse (sf_attrs f)"

definition get_skip_if :: "(string \<Rightarrow> 'b option) \<Rightarrow> syn_field \<Rightarrow> 'b option" where
  "get_skip_if parse f = find_str ''skip_if'' parse (sf_attrs f)"

definition get_variant_id :: "syn_variant \<Rightarrow> nat option" where
  "get_variant_id v = find_map (\<lambda>a. if fst a \<noteq> ''variant_id'' then None else parse_lit_int (snd a)) (vr_attrs v)"

definition is_byte_aligned :: "syn_field \<Rightarrow> bool" where
  "is_byte_aligned f \<longleftrightarrow> list_ex (\<lambda>a. fst a = ''byte_align'') (sf_attrs f)"

definition get_default_bits :: "derive_input \<Rightarrow> (string \<times> nat) list" where
  "get_default_bits input =
     concat (map (\<lambda>a. case snd a of
         MetaList ms \<Rightarrow> List.map_filter (\<lambda>(name, m). map_option (Pair name) (parse_lit_int m)) ms
       | _ \<Rightarrow> []) (filter (\<lambda>a. fst a = ''default_bits'') (di_attrs input)))"

definition get_enum_bits :: "derive_input \<Rightarrow> nat option" where
  "get_enum_bits input = find_int ''bits'' (di_attrs input)"

section \<open>Types\<close>

definition type_ident_name :: "syn_type \<Rightarrow> string option" where
  "type_ident_name ty = (case ty of PathType [(s, [])] \<Rightarrow> Some s | _ \<Rightarrow> None)"

definition path_mentions :: "string \<Rightarrow> syn_type \<Rightarrow> bool" where
  "path_mentions name ty \<longleftrightarrow> (case ty of PathType segs \<Rightarrow> list_ex (\<lambda>s. fst s = name) segs | _ \<Rightarrow> False)"

definition is_vec_type :: "syn_type \<Rightarrow> bool" where "is_vec_type = path_mentions ''Vec''"
definition is_string_type :: "syn_type \<Rightarrow> bool" where "is_string_type = path_mentions ''String''"
definition is_option_type :: "syn_type \<Rightarrow> bool" where "is_option_type = path_mentions ''Option''"

definition is_array_type :: "syn_type \<Rightarrow> bool" where
  "is_array_type ty \<longleftrightarrow> (case ty of ArrayType _ _ \<Rightarrow> True | _ \<Rightarrow> False)"

definition get_array_length :: "syn_type \<Rightarrow> nat option" where
  "get_array_length ty = (case ty of ArrayType _ n \<Rightarrow> n | _ \<Rightarrow> None)"

text \<open>The type of the items of a vector or an array, which the compiler infers.\<close>

definition item_type :: "syn_type \<Rightarrow> syn_type" where
  "item_type ty = (case ty of ArrayType t _ \<Rightarrow> t
     | PathType segs \<Rightarrow> (case segs = [] of True \<Rightarrow> OtherType | False \<Rightarrow> (case snd (last segs) of t # _ \<Rightarrow> t | [] \<Rightarrow> OtherType))
     | OtherType \<Rightarrow> OtherType)"

text \<open>The primitive types by name.\<close>

definition prim_named :: "string \<Rightarrow> prim_type option" where
  "prim_named = map_of [(''bool'', PBool), (''u8'', PUnsigned 8), (''u16'', PUnsigned 16), (''u32'', PUnsigned 32),
     (''u64'', PUnsigned 64), (''usize'', PUnsigned 64), (''i8'', PSigned 8), (''i16'', PSigned 16), (''i32'', PSigned 32),
     (''i64'', PSigned 64), (''isize'', PSigned 64), (''f32'', PF32), (''f64'', PF64)]"

definition prim_of :: "syn_type \<Rightarrow> prim_type option" where
  "prim_of ty = (case type_ident_name ty of Some n \<Rightarrow> prim_named n | None \<Rightarrow> None)"

definition primitive_bit_capacity :: "syn_type \<Rightarrow> nat option" where
  "primitive_bit_capacity ty =
     (case type_ident_name ty of
        Some n \<Rightarrow> map_of [(''bool'', 1), (''u8'', 8), (''i8'', 8), (''u16'', 16), (''i16'', 16), (''u32'', 32), (''i32'', 32),
          (''f32'', 32), (''u64'', 64), (''i64'', 64), (''f64'', 64)] n
      | None \<Rightarrow> None)"

definition is_bool_type :: "syn_type \<Rightarrow> bool" where
  "is_bool_type ty \<longleftrightarrow> type_ident_name ty = Some ''bool''"

definition validate_field_bits :: "syn_type \<Rightarrow> nat \<Rightarrow> bool" where
  "validate_field_bits ty bits \<longleftrightarrow>
     bits \<le> MAX_BIT_WIDTH \<and>
     (case primitive_bit_capacity ty of
        Some capacity \<Rightarrow> \<not> (is_bool_type ty \<and> bits \<noteq> 1) \<and> bits \<le> capacity
      | None \<Rightarrow> True)"

definition validated :: "syn_type \<Rightarrow> nat \<Rightarrow> nat option" where
  "validated ty bits = (if validate_field_bits ty bits then Some bits else None)"

definition get_field_bit_width :: "syn_field \<Rightarrow> (string \<times> nat) list \<Rightarrow> nat option" where
  "get_field_bit_width f defaults =
     (case get_field_bits f of
        Some bits \<Rightarrow> validated (sf_ty f) bits
      | None \<Rightarrow>
          (case Option.bind (type_ident_name (sf_ty f)) (\<lambda>name. List.find (\<lambda>d. fst d = name) defaults) of
             Some d \<Rightarrow> validated (sf_ty f) (snd d)
           | None \<Rightarrow> Some (case primitive_bit_capacity (sf_ty f) of Some n \<Rightarrow> n | None \<Rightarrow> 0)))"

section \<open>Values and environment\<close>

text \<open>Values of the types: a primitive is its bit pattern, a string its bytes.\<close>

datatype val = Prim u64 | Str bytes | Items "val list" | Opt "val option" | Struct "val list" | Variant nat "val list"

fun prim_val :: "val \<Rightarrow> u64" where
  "prim_val (Prim w) = w"
| "prim_val _ = 0"

fun str_val :: "val \<Rightarrow> bytes" where
  "str_val (Str s) = s"
| "str_val _ = []"

fun items_val :: "val \<Rightarrow> val list" where
  "items_val (Items vs) = vs"
| "items_val _ = []"

record rust_env =
  env_ser :: "syn_type \<Rightarrow> val \<Rightarrow> unit bio"
  env_des :: "syn_type \<Rightarrow> val bio"
  env_default :: "syn_type \<Rightarrow> val"
  env_with :: "string \<Rightarrow> ((val \<Rightarrow> unit bio) \<times> val bio) option"
  env_expr :: "string \<Rightarrow> (val list \<Rightarrow> bool) option"

section \<open>One field\<close>

definition gen_ser_prim :: "prim_type \<Rightarrow> nat \<Rightarrow> u64 \<Rightarrow> unit bio" where
  "gen_ser_prim t bits w =
     (if t = PF32 \<or> t = PF64 then write_bits w bits
      else if bits < MAX_BIT_WIDTH \<and> prim_as_u64 t w > push_bit bits 1 - 1 then bio_fail InvalidData
      else write_bits (prim_as_u64 t w) bits)"

definition gen_des_prim :: "prim_type \<Rightarrow> nat \<Rightarrow> u64 bio" where
  "gen_des_prim t bits = bio_bind (read_bits bits) (\<lambda>v. bio_return (prim_from_u64 t v))"

definition gen_bit_serialize_field ::
  "rust_env \<Rightarrow> syn_field \<Rightarrow> (string \<times> nat) list \<Rightarrow> derive_input \<Rightarrow> (val \<Rightarrow> unit bio) option" where
  "gen_bit_serialize_field env f defaults input =
     (let ty = sf_ty f; max_len = get_max_len f input in
      case get_with_path (env_with env) f of
        Some w \<Rightarrow> Some (fst w)
      | None \<Rightarrow>
          (case get_field_bit_width f defaults of
             None \<Rightarrow> None
           | Some bits \<Rightarrow>
               if bits > 0 then map_option (\<lambda>t v. gen_ser_prim t bits (prim_val v)) (prim_of ty)
               else if is_option_type ty then Some (env_ser env ty)
               else if is_vec_type ty then Some (\<lambda>v. gen_ser_vec max_len (env_ser env (item_type ty)) (items_val v))
               else if is_string_type ty then Some (\<lambda>v. gen_ser_vec max_len (\<lambda>byte. write_bits (ucast byte) 8) (str_val v))
               else if is_array_type ty then Some (\<lambda>v. ser_items (env_ser env (item_type ty)) (items_val v))
               else Some (env_ser env ty)))"

definition gen_des_string :: "nat option \<Rightarrow> bytes bio" where
  "gen_des_string max_len =
     bio_bind (gen_des_vec max_len (bio_bind (read_bits 8) (\<lambda>w. bio_return (ucast w))))
       (\<lambda>bs. if utf8_valid bs then bio_return bs else bio_fail InvalidData)"

definition gen_bit_deserialize_field ::
  "rust_env \<Rightarrow> syn_field \<Rightarrow> (string \<times> nat) list \<Rightarrow> derive_input \<Rightarrow> val bio option" where
  "gen_bit_deserialize_field env f defaults input =
     (let ty = sf_ty f; max_len = get_max_len f input in
      case get_with_path (env_with env) f of
        Some w \<Rightarrow> Some (snd w)
      | None \<Rightarrow>
          (case get_field_bit_width f defaults of
             None \<Rightarrow> None
           | Some bits \<Rightarrow>
               if bits > 0 then map_option (\<lambda>t. bio_bind (gen_des_prim t bits) (\<lambda>w. bio_return (Prim w))) (prim_of ty)
               else if is_option_type ty then Some (env_des env ty)
               else if is_vec_type ty then Some (bio_bind (gen_des_vec max_len (env_des env (item_type ty))) (\<lambda>vs. bio_return (Items vs)))
               else if is_string_type ty then Some (bio_bind (gen_des_string max_len) (\<lambda>s. bio_return (Str s)))
               else if is_array_type ty then
                 (case get_array_length ty of
                    Some n \<Rightarrow> Some (bio_bind (des_items (env_des env (item_type ty)) n) (\<lambda>vs. bio_return (Items vs)))
                  | None \<Rightarrow> Some (env_des env ty))
               else Some (env_des env ty)))"

text \<open>The loop before a field with \<open>#[byte_align]\<close>; writing a bit does not fail.\<close>

definition align_write :: "unit bio" where
  "align_write b = (Inr (), flush_loop b)"

definition wrap_byte_align_write :: "bool \<Rightarrow> (val \<Rightarrow> unit bio) \<Rightarrow> val \<Rightarrow> unit bio" where
  "wrap_byte_align_write ba inner v = (if ba then bio_then align_write (inner v) else inner v)"

definition wrap_byte_align_read :: "bool \<Rightarrow> val bio \<Rightarrow> val bio" where
  "wrap_byte_align_read ba inner = (if ba then bio_then align_read inner else inner)"

text \<open>The first argument of the emitted writer holds the values of all fields, for \<open>skip_if\<close>.\<close>

type_synonym field_writer = "val list \<Rightarrow> val \<Rightarrow> unit bio"

definition gen_field_serialize ::
  "rust_env \<Rightarrow> (string \<times> nat) list \<Rightarrow> derive_input \<Rightarrow> syn_field \<Rightarrow> field_writer option" where
  "gen_field_serialize env defaults input f =
     map_option (\<lambda>ser all v.
         let code = wrap_byte_align_write (is_byte_aligned f) ser v
         in case get_skip_if (env_expr env) f of
              Some skip \<Rightarrow> if \<not> skip all then bio_then (write_bit True) code else write_bit False
            | None \<Rightarrow> code)
       (gen_bit_serialize_field env f defaults input)"

definition gen_field_deserialize ::
  "rust_env \<Rightarrow> (string \<times> nat) list \<Rightarrow> derive_input \<Rightarrow> syn_field \<Rightarrow> val bio option" where
  "gen_field_deserialize env defaults input f =
     map_option (\<lambda>des.
         let code = wrap_byte_align_read (is_byte_aligned f) des
         in case get_skip_if (env_expr env) f of
              Some _ \<Rightarrow> bio_bind read_bit (\<lambda>present. if present then code else bio_return (env_default env (sf_ty f)))
            | None \<Rightarrow> code)
       (gen_bit_deserialize_field env f defaults input)"

section \<open>All fields\<close>

text \<open>The statements of the fields, nothing for a field with \<open>#[no_serialize]\<close>.\<close>

fun all_present :: "'a option list \<Rightarrow> 'a list option" where
  "all_present [] = Some []"
| "all_present (x # xs) = (case (x, all_present xs) of (Some y, Some ys) \<Rightarrow> Some (y # ys) | _ \<Rightarrow> None)"

definition statements :: "(syn_field \<Rightarrow> 'a option) \<Rightarrow> syn_field list \<Rightarrow> 'a option list option" where
  "statements gen fs =
     all_present (map (\<lambda>f. if should_serialize_field f then map_option Some (gen f) else Some None) fs)"

fun run_writers :: "field_writer option list \<Rightarrow> val list \<Rightarrow> val list \<Rightarrow> unit bio" where
  "run_writers (s # ss) all (v # vs) =
     (case s of Some ser \<Rightarrow> bio_then (ser all v) (run_writers ss all vs) | None \<Rightarrow> run_writers ss all vs)"
| "run_writers _ _ _ = bio_return ()"

definition gen_fields_serialize :: "rust_env \<Rightarrow> derive_input \<Rightarrow> syn_fields \<Rightarrow> (val list \<Rightarrow> unit bio) option" where
  "gen_fields_serialize env input flds =
     (case flds of
        NamedFields fs \<Rightarrow>
          map_option (\<lambda>ss vs. run_writers ss vs vs) (statements (gen_field_serialize env (get_default_bits input) input) fs)
      | UnnamedFields fs \<Rightarrow>
          map_option (\<lambda>ss vs. run_writers ss vs vs) (statements (gen_field_serialize env (get_default_bits input) input) fs)
      | UnitFields \<Rightarrow> Some (\<lambda>_. bio_return ()))"

text \<open>The values read, in the order of the fields.\<close>

fun run_readers :: "'a bio list \<Rightarrow> 'a list bio" where
  "run_readers [] = bio_return []"
| "run_readers (d # ds) = bio_bind d (\<lambda>v. bio_bind (run_readers ds) (\<lambda>vs. bio_return (v # vs)))"

text \<open>
  \<open>Self { read fields, default fields }\<close> puts every value at its name. \<open>Self(read fields, default
  fields)\<close> has only positions: the values read come first, the defaults last, wherever the fields
  with \<open>#[no_serialize]\<close> stand. The compiler accepts that where the types agree; where they differ
  the model gives \<open>None\<close>.
\<close>

fun place_named :: "rust_env \<Rightarrow> syn_field list \<Rightarrow> val list \<Rightarrow> val list" where
  "place_named env [] vs = []"
| "place_named env (f # fs) vs =
     (if should_serialize_field f then hd vs # place_named env fs (tl vs)
      else env_default env (sf_ty f) # place_named env fs vs)"

definition place_unnamed :: "rust_env \<Rightarrow> syn_field list \<Rightarrow> val list \<Rightarrow> val list" where
  "place_unnamed env fs vs = vs @ map (\<lambda>f. env_default env (sf_ty f)) (drop (length vs) fs)"

definition positions_agree :: "syn_field list \<Rightarrow> bool" where
  "positions_agree fs \<longleftrightarrow>
     (let read = filter should_serialize_field fs in map sf_ty read = map sf_ty (take (length read) fs))"

definition gen_fields_deserialize :: "rust_env \<Rightarrow> derive_input \<Rightarrow> syn_fields \<Rightarrow> val list bio option" where
  "gen_fields_deserialize env input flds =
     (case flds of
        NamedFields fs \<Rightarrow>
          map_option (\<lambda>ds. bio_bind (run_readers ds) (\<lambda>vs. bio_return (place_named env fs vs)))
            (all_present (map (gen_field_deserialize env (get_default_bits input) input) (filter should_serialize_field fs)))
      | UnnamedFields fs \<Rightarrow>
          if positions_agree fs
          then map_option (\<lambda>ds. bio_bind (run_readers ds) (\<lambda>vs. bio_return (place_unnamed env fs vs)))
            (all_present (map (gen_field_deserialize env (get_default_bits input) input) (filter should_serialize_field fs)))
          else None
      | UnitFields \<Rightarrow> Some (bio_return []))"

section \<open>Structs and enums\<close>

definition variant_index :: "nat \<Rightarrow> syn_variant \<Rightarrow> nat" where
  "variant_index i v = (case get_variant_id v of Some n \<Rightarrow> n | None \<Rightarrow> i)"

text \<open>The checks of \<open>gen_enum_serialize\<close>: no id twice, and every id fits.\<close>

definition pinned_ids_ok :: "nat \<Rightarrow> syn_variant list \<Rightarrow> bool" where
  "pinned_ids_ok bits variants \<longleftrightarrow>
     (let ids = List.map_filter get_variant_id variants
      in distinct ids \<and> list_all (\<lambda>n. int n \<le> (if bits \<ge> 64 then 2 ^ 64 - 1 else 2 ^ bits - 1)) ids)"

definition gen_enum_serialize :: "rust_env \<Rightarrow> derive_input \<Rightarrow> syn_variant list \<Rightarrow> (val \<Rightarrow> unit bio) option" where
  "gen_enum_serialize env input variants =
     (case enum_variant_bits (length variants) (get_enum_bits input) of
        None \<Rightarrow> None
      | Some bits \<Rightarrow>
          if \<not> pinned_ids_ok bits variants then None
          else map_option (\<lambda>arms v. case v of
                 Variant i vs \<Rightarrow> bio_then (write_bits (of_nat (fst (arms ! i))) bits) (snd (arms ! i) vs)
               | _ \<Rightarrow> bio_return ())
             (all_present (map (\<lambda>(i, v). map_option (Pair (variant_index i v)) (gen_fields_serialize env input (vr_fields v)))
               (enumerate 0 variants))))"

fun match_arms :: "nat \<Rightarrow> (nat \<times> val list bio) list \<Rightarrow> nat \<Rightarrow> val bio" where
  "match_arms i [] n = bio_fail InvalidData"
| "match_arms i ((n', des) # arms) n =
     (if n = n' then bio_bind des (\<lambda>vs. bio_return (Variant i vs)) else match_arms (i + 1) arms n)"

definition gen_enum_deserialize :: "rust_env \<Rightarrow> derive_input \<Rightarrow> syn_variant list \<Rightarrow> val bio option" where
  "gen_enum_deserialize env input variants =
     (case enum_variant_bits (length variants) (get_enum_bits input) of
        None \<Rightarrow> None
      | Some bits \<Rightarrow>
          map_option (\<lambda>arms. bio_bind (read_bits bits) (\<lambda>n. match_arms 0 arms (unat n)))
            (all_present (map (\<lambda>(i, v). map_option (Pair (variant_index i v)) (gen_fields_deserialize env input (vr_fields v)))
              (enumerate 0 variants))))"

definition struct_val :: "val \<Rightarrow> val list" where
  "struct_val v = (case v of Struct vs \<Rightarrow> vs | _ \<Rightarrow> [])"

definition derive_serialize :: "rust_env \<Rightarrow> derive_input \<Rightarrow> (val \<Rightarrow> unit bio) option" where
  "derive_serialize env input =
     (case di_data input of
        StructData flds \<Rightarrow> map_option (\<lambda>ser v. ser (struct_val v)) (gen_fields_serialize env input flds)
      | EnumData variants \<Rightarrow> gen_enum_serialize env input variants
      | UnionData \<Rightarrow> None)"

definition derive_deserialize :: "rust_env \<Rightarrow> derive_input \<Rightarrow> val bio option" where
  "derive_deserialize env input =
     (case di_data input of
        StructData flds \<Rightarrow> map_option (\<lambda>des. bio_bind des (\<lambda>vs. bio_return (Struct vs))) (gen_fields_deserialize env input flds)
      | EnumData variants \<Rightarrow> gen_enum_deserialize env input variants
      | UnionData \<Rightarrow> None)"

end
