(* ===== verification/Schema_Facts.thy ===== *)
theory Schema_Facts
  imports Schema
begin

text \<open>
  What the derive macro generates is correct. The contract between a writer and a reader of one value
  is \<open>carries\<close>: at every bit position (alignment depends on it) the writer appends some bits that the
  reader turns into the value again. It composes along \<open>bio_then\<close> and \<open>bio_bind\<close>, so a field's
  lemma gives the struct's and the enum's. The locale \<open>derive_env\<close> is the interface between the
  generated code and the trait implementations it calls; it is interpreted on those of the library.
\<close>

section \<open>Carrying a value\<close>

definition writes_at :: "nat \<Rightarrow> unit bio \<Rightarrow> bool list \<Rightarrow> bool" where
  "writes_at p m e \<longleftrightarrow> (\<forall>b bits. writer_rep b bits \<longrightarrow> length bits mod 8 = p mod 8 \<longrightarrow>
     (\<exists>b'. m b = (Inr (), b') \<and> writer_rep b' (bits @ e)))"

definition reads_at :: "nat \<Rightarrow> 'a bio \<Rightarrow> bool list \<Rightarrow> 'a \<Rightarrow> bool" where
  "reads_at p m e x \<longleftrightarrow> (\<forall>b rest. reader_rep b (e @ rest) \<longrightarrow> bb_read_pos b mod 8 = p mod 8 \<longrightarrow>
     (\<exists>b'. m b = (Inr x, b') \<and> reader_rep b' rest \<and> bb_read_pos b' = bb_read_pos b + length e))"

definition carries :: "unit bio \<Rightarrow> 'a bio \<Rightarrow> 'a \<Rightarrow> bool" where
  "carries m d x \<longleftrightarrow> (\<forall>p. \<exists>e. writes_at p m e \<and> reads_at p d e x)"

lemma writes_at_then:
  assumes "writes_at p m e" and "writes_at (p + length e) k f"
  shows "writes_at p (bio_then m k) (e @ f)"
  unfolding writes_at_def
proof (intro allI impI)
  fix b bits
  assume w: "writer_rep b bits" "length bits mod 8 = p mod 8"
  then obtain b1 where b1: "m b = (Inr (), b1)" "writer_rep b1 (bits @ e)" using assms(1) unfolding writes_at_def by blast
  have "length (bits @ e) mod 8 = (p + length e) mod 8" using w(2) by (metis length_append mod_add_left_eq)
  with assms(2) b1(2) obtain b2 where "k b1 = (Inr (), b2)" "writer_rep b2 ((bits @ e) @ f)" unfolding writes_at_def by blast
  with b1 show "\<exists>b'. bio_then m k b = (Inr (), b') \<and> writer_rep b' (bits @ e @ f)" by simp
qed

lemma reads_at_bind:
  assumes "reads_at p m e x" and "reads_at (p + length e) (f x) g y"
  shows "reads_at p (bio_bind m f) (e @ g) y"
  unfolding reads_at_def
proof (intro allI impI)
  fix b rest
  assume r: "reader_rep b ((e @ g) @ rest)" "bb_read_pos b mod 8 = p mod 8"
  then obtain b1 where b1: "m b = (Inr x, b1)" "reader_rep b1 (g @ rest)" "bb_read_pos b1 = bb_read_pos b + length e"
    using assms(1) unfolding reads_at_def by (metis append_assoc)
  have "bb_read_pos b1 mod 8 = (p + length e) mod 8" using r(2) b1(3) by (metis mod_add_left_eq)
  with assms(2) b1(2) obtain b2 where "f x b1 = (Inr y, b2)" "reader_rep b2 rest" "bb_read_pos b2 = bb_read_pos b1 + length g"
    unfolding reads_at_def by blast
  with b1 show "\<exists>b'. bio_bind m f b = (Inr y, b') \<and> reader_rep b' rest \<and> bb_read_pos b' = bb_read_pos b + length (e @ g)" by simp
qed

lemma carriesE:
  assumes "carries m d x"
  obtains e where "writes_at p m e" and "reads_at p d e x"
  using assms unfolding carries_def by blast

lemma carries_then:
  assumes "carries m d x" and "carries k (f x) y"
  shows "carries (bio_then m k) (bio_bind d f) y"
  unfolding carries_def
proof
  fix p
  from assms(1) obtain e where e: "writes_at p m e" "reads_at p d e x" by (rule carriesE)
  from assms(2) obtain g where "writes_at (p + length e) k g" "reads_at (p + length e) (f x) g y" by (rule carriesE)
  with e show "\<exists>e. writes_at p (bio_then m k) e \<and> reads_at p (bio_bind d f) e y"
    by (intro exI[of _ "e @ g"] conjI writes_at_then reads_at_bind)
qed

lemma carries_return: "carries (bio_return ()) (bio_return x) x"
  by (auto simp: carries_def writes_at_def reads_at_def bio_return_def intro!: exI[of _ "[]"])

lemma bio_then_return [simp]: "bio_then m (bio_return ()) = m"
  by (rule ext) (auto simp: bio_defs split: prod.splits sum.splits)

lemma carries_map: "carries m d x \<Longrightarrow> carries m (bio_bind d (\<lambda>a. bio_return (f a))) (f x)"
  using carries_then[OF _ carries_return, of m d x "\<lambda>a. bio_return (f a)"] carries_then[of m d x "bio_return ()" "\<lambda>a. bio_return (f a)" "f x"]
  by (simp add: carries_return)

lemma carries_ignore: "carries m d u \<Longrightarrow> carries k d' y \<Longrightarrow> carries (bio_then m k) (bio_then d d') y"
  using carries_then[of m d u k "\<lambda>_. d'" y] by (simp add: bio_then_def)

lemma reads_atI:
  assumes "\<And>b rest. reader_rep b (e @ rest) \<Longrightarrow> m b = (Inr x, advance (length e) b)"
  shows "reads_at p m e x"
  unfolding reads_at_def
proof (intro allI impI)
  fix b rest
  assume r: "reader_rep b (e @ rest)"
  from reader_rep_advance[OF r, of "length e"] assms[OF r]
  show "\<exists>b'. m b = (Inr x, b') \<and> reader_rep b' rest \<and> bb_read_pos b' = bb_read_pos b + length e" by simp
qed

lemma carries_bits: "n \<le> 64 \<Longrightarrow> carries (write_bits v n) (read_bits n) (take_bit n v)"
  unfolding carries_def
  by (auto simp: writes_at_def write_bits_rep read_bits_msb(1) intro!: exI[of _ "msb_bits n v"] reads_atI)

lemma carries_bit: "carries (write_bit v) read_bit v"
  unfolding carries_def
  by (auto simp: writes_at_def write_bit_rep read_bit_rep(1) intro!: exI[of _ "[v]"] reads_atI)

lemma align_read_skips:
  "reader_rep b (replicate k False @ rest) \<Longrightarrow> k < 8 \<Longrightarrow> (bb_read_pos b + k) mod 8 = 0 \<Longrightarrow>
   align_read b = (Inr (), advance k b)"
proof (induction k arbitrary: b)
  case 0
  then show ?case by (simp add: align_read.simps)
next
  case (Suc k)
  then have r: "read_bit b = (Inr False, advance 1 b)" "reader_rep (advance 1 b) (replicate k False @ rest)"
    using read_bit_rep[of b False] by simp_all
  have "bb_read_pos b mod 8 \<noteq> 0" using Suc.prems(2,3) by presburger
  moreover have "align_read (advance 1 b) = (Inr (), advance k (advance 1 b))"
    using Suc.IH[OF r(2)] Suc.prems(2,3) by simp
  ultimately show ?case using r(1) by (simp add: align_read.simps[of b])
qed

lemma carries_align: "carries align_write align_read ()"
  unfolding carries_def
proof
  fix p :: nat
  define k where "k = pad_bits p"
  have "k < 8" by (simp add: k_def pad_bits_def)
  moreover have "(p mod 8 + k) mod 8 = 0" by (cases "p mod 8 = 0") (simp_all add: k_def pad_bits_def)
  ultimately have k: "k < 8" "(p + k) mod 8 = 0" by (simp_all add: mod_add_left_eq)
  have "writes_at p align_write (replicate k False)"
    unfolding writes_at_def
  proof (intro allI impI)
    fix b bits
    assume "writer_rep b bits" and p: "length bits mod 8 = p mod 8"
    from flush_loop_rep[OF this(1)] obtain j where j: "writer_rep (flush_loop b) (bits @ replicate j False)" "(length bits + j) mod 8 = 0" "j < 8"
      by (elim exE conjE)
    have "j = pad_bits (length bits)" using j(3,2) by (rule pad_bits_unique)
    then have "j = k" unfolding k_def pad_bits_def p .
    with j(1) show "\<exists>b'. align_write b = (Inr (), b') \<and> writer_rep b' (bits @ replicate k False)" by (simp add: align_write_def)
  qed
  moreover have "reads_at p align_read (replicate k False) ()"
    unfolding reads_at_def
  proof (intro allI impI)
    fix b rest
    assume r: "reader_rep b (replicate k False @ rest)" and p: "bb_read_pos b mod 8 = p mod 8"
    have "(bb_read_pos b + k) mod 8 = 0" using p k(2) by (metis mod_add_left_eq)
    with align_read_skips[OF r k(1)] reader_rep_advance[OF r, of k]
    show "\<exists>b'. align_read b = (Inr (), b') \<and> reader_rep b' rest \<and> bb_read_pos b' = bb_read_pos b + length (replicate k False)"
      by simp
  qed
  ultimately show "\<exists>e. writes_at p align_write e \<and> reads_at p align_read e ()" by blast
qed

text \<open>What is carried survives the trip through bytes.\<close>

lemma carries_bytes:
  assumes "carries m d x"
  obtains b bs where "m BitBuffer_new = (Inr (), b)" and "into_bytes True b = Inr bs" and "fst (d (BitBuffer_from_bytes bs)) = Inr x"
proof -
  from assms obtain e where e: "writes_at 0 m e" "reads_at 0 d e x" by (rule carriesE)
  obtain b where b: "m BitBuffer_new = (Inr (), b)" "writer_rep b e"
    using e(1) writer_rep_new unfolding writes_at_def by fastforce
  obtain bs where bs: "into_bytes True b = Inr bs" "bytes_bits bs = e @ replicate (pad_bits (length e)) False"
    using into_bytes_rep[OF b(2)] .
  have "reader_rep (BitBuffer_from_bytes bs) (e @ replicate (pad_bits (length e)) False)"
    using reader_rep_from_bytes[of bs] bs(2) by simp
  then obtain b' where "d (BitBuffer_from_bytes bs) = (Inr x, b')"
    using e(2) unfolding reads_at_def by (fastforce simp: BitBuffer_from_bytes_def)
  then show ?thesis by (intro that[OF b(1) bs(1)]) simp
qed

section \<open>Items, vectors, strings\<close>

lemma carries_items:
  "(\<And>v. v \<in> set vs \<Longrightarrow> carries (ser v) des v) \<Longrightarrow> carries (ser_items ser vs) (des_items des (length vs)) vs"
proof (induction vs)
  case Nil
  then show ?case by (simp add: carries_return)
next
  case (Cons v vs)
  then show ?case by (auto intro!: carries_then[of "ser v"] carries_map)
qed

lemma carries_vec:
  assumes "length vs \<le> snd (len_prefix max_len)" and "snd (len_prefix max_len) < 2 ^ 64" and "\<And>v. v \<in> set vs \<Longrightarrow> carries (ser v) des v"
  shows "carries (gen_ser_vec max_len ser vs) (gen_des_vec max_len des) vs"
proof -
  obtain n k where nk: "len_prefix max_len = (n, k)" by fastforce
  have n: "n \<le> 64" and k: "k < 2 ^ n"
    using nk assms(2) significant_bits_le[of k 64] significant_bits_less[of k]
    by (auto simp: len_prefix_def split: option.splits if_splits)
  have "length vs < 2 ^ n" "length vs < 2 ^ 64" using assms(1,2) k nk by (auto intro: le_less_trans)
  then have len: "unat (take_bit n (of_nat (length vs) :: u64)) = length vs"
    by (simp only: unsigned_take_bit_eq unat_of_nat) (simp add: take_bit_nat_eq_self)
  have "carries (bio_then (write_bits (of_nat (length vs)) n) (ser_items ser vs))
    (bio_bind (read_bits n) (\<lambda>v. if unat v > k then bio_fail InvalidData else des_items des (unat v))) vs"
    by (rule carries_then[OF carries_bits[OF n]]) (use assms len nk carries_items[of vs ser des] in auto)
  then show ?thesis using assms(1) nk by (simp add: gen_ser_vec_def gen_des_vec_def)
qed

lemma carries_byte: "carries (write_bits (ucast byte) 8) (bio_bind (read_bits 8) (\<lambda>w. bio_return (ucast w))) (byte :: u8)"
proof -
  have "ucast (take_bit 8 (ucast byte :: u64)) = byte" by (rule bit_word_eqI) (auto simp: bit_simps)
  with carries_map[OF carries_bits[of 8 "ucast byte"], of "ucast :: u64 \<Rightarrow> u8"] show ?thesis by simp
qed

lemma carries_string:
  assumes "utf8_valid s" and "length s \<le> snd (len_prefix max_len)" and "snd (len_prefix max_len) < 2 ^ 64"
  shows "carries (gen_ser_vec max_len (\<lambda>byte. write_bits (ucast byte) 8) s) (gen_des_string max_len) s"
proof -
  have "carries (bio_then (gen_ser_vec max_len (\<lambda>byte. write_bits (ucast byte) 8) s) (bio_return ())) (gen_des_string max_len) s"
    unfolding gen_des_string_def
    by (rule carries_then[OF carries_vec[OF assms(2,3) carries_byte]]) (simp add: assms(1) carries_return)
  then show ?thesis by simp
qed

section \<open>Primitives\<close>

text \<open>The patterns of a primitive that fit a number of bits.\<close>

fun prim_fits :: "prim_type \<Rightarrow> nat \<Rightarrow> u64 \<Rightarrow> bool" where
  "prim_fits PBool bits w \<longleftrightarrow> bits \<ge> 1 \<and> (w = 0 \<or> w = 1)"
| "prim_fits (PUnsigned k) bits w \<longleftrightarrow> take_bit k w = w \<and> take_bit bits w = w"
| "prim_fits (PSigned k) bits w \<longleftrightarrow> take_bit k w = w \<and>
     (if bits = 64 then True else take_bit (k - 1) w = w \<and> take_bit bits w = w)"
| "prim_fits PF32 bits w \<longleftrightarrow> take_bit 32 w = w \<and> take_bit bits w = w"
| "prim_fits PF64 bits w \<longleftrightarrow> take_bit bits w = w"

lemma not_greater_mask: "bits < 64 \<Longrightarrow> take_bit bits (w :: u64) = w \<Longrightarrow> \<not> w > push_bit bits 1 - 1"
proof -
  assume b: "bits < 64" and w: "take_bit bits w = w"
  have "w AND mask bits = w" using w by (simp add: take_bit_eq_mask)
  then have "w \<le> mask bits" using word_and_le1[of w "mask bits"] by metis
  then show ?thesis by (simp add: mask_eq_exp_minus_1 push_bit_eq_mult not_less)
qed

lemma greater_mask: "bits < 64 \<Longrightarrow> (w :: u64) > push_bit bits 1 - 1 \<or> take_bit bits w = w"
proof -
  assume b: "bits < 64"
  then show ?thesis
    using gen_ser_bits_check[of bits w] take_bit_less[of w bits] by (cases "2 ^ bits \<le> unat w") simp_all
qed

lemma signed_nonneg: "take_bit (k - 1) (w :: u64) = w \<Longrightarrow> signed_take_bit (k - 1) w = w"
proof (rule bit_word_eqI)
  fix n
  assume "take_bit (k - 1) w = w"
  then have "\<not> bit w i" if "k - 1 \<le> i" for i using that by (metis bit_take_bit_iff not_less)
  then show "n < LENGTH(64) \<Longrightarrow> bit (signed_take_bit (k - 1) w) n = bit w n"
    by (auto simp: bit_signed_take_bit_iff min_def)
qed

lemma carries_prim:
  assumes "prim_fits t bits w" and "bits \<le> 64"
  shows "carries (gen_ser_prim t bits w) (gen_des_prim t bits) w"
proof -
  let ?x = "if t = PF32 \<or> t = PF64 then w else prim_as_u64 t w"
  have fits: "take_bit bits ?x = ?x \<or> bits = 64"
    using assms signed_nonneg by (cases t) (auto simp: take_bit_Suc_0 split: if_splits)
  then have "gen_ser_prim t bits w = write_bits ?x bits"
    using not_greater_mask[of bits ?x] by (auto simp: gen_ser_prim_def MAX_BIT_WIDTH_def split: if_splits)
  moreover have "prim_from_u64 t (take_bit bits ?x) = w"
    using assms(1) fits signed_nonneg
    by (cases t) (auto simp: take_bit_signed_take_bit take_bit_word_eq_self simp del: take_bit_take_bit split: if_splits)
  ultimately show ?thesis
    using carries_map[OF carries_bits[OF assms(2), of ?x], of "prim_from_u64 t"] by (simp add: gen_des_prim_def)
qed

section \<open>One field\<close>

text \<open>
  The interface between the generated code and the trait implementations and modules it calls: on the
  values \<open>ok\<close> and \<open>okw\<close> admit, they carry.
\<close>

locale derive_env =
  fixes env :: rust_env
    and ok :: "syn_type \<Rightarrow> val \<Rightarrow> bool"
    and okw :: "(val \<Rightarrow> unit bio) \<times> val bio \<Rightarrow> val \<Rightarrow> bool"
  assumes trait_carries: "ok ty v \<Longrightarrow> carries (env_ser env ty v) (env_des env ty) v"
    and module_carries: "okw w v \<Longrightarrow> carries (fst w v) (snd w) v"

text \<open>The values a field can carry.\<close>

definition len_ok :: "nat option \<Rightarrow> nat \<Rightarrow> bool" where
  "len_ok max_len n \<longleftrightarrow> n \<le> snd (len_prefix max_len)"

definition field_fits ::
  "rust_env \<Rightarrow> (syn_type \<Rightarrow> val \<Rightarrow> bool) \<Rightarrow> ((val \<Rightarrow> unit bio) \<times> val bio \<Rightarrow> val \<Rightarrow> bool) \<Rightarrow> derive_input \<Rightarrow> syn_field \<Rightarrow> val \<Rightarrow> bool" where
  "field_fits env ok okw input f v =
     (let ty = sf_ty f; max_len = get_max_len f input in
      case get_with_path (env_with env) f of
        Some w \<Rightarrow> okw w v
      | None \<Rightarrow>
          (case get_field_bit_width f (get_default_bits input) of
             None \<Rightarrow> False
           | Some bits \<Rightarrow>
               if bits > 0 then (case (prim_of ty, v) of (Some t, Prim w) \<Rightarrow> prim_fits t bits w | _ \<Rightarrow> False)
               else if is_option_type ty then ok ty v
               else if is_vec_type ty then
                 (case v of Items vs \<Rightarrow> len_ok max_len (length vs) \<and> list_all (ok (item_type ty)) vs | _ \<Rightarrow> False)
               else if is_string_type ty then (case v of Str s \<Rightarrow> len_ok max_len (length s) \<and> utf8_valid s | _ \<Rightarrow> False)
               else if is_array_type ty then
                 (case v of Items vs \<Rightarrow> get_array_length ty = Some (length vs) \<and> list_all (ok (item_type ty)) vs | _ \<Rightarrow> False)
               else ok ty v))"

lemma parse_lit_int_small: "parse_lit_int m = Some n \<Longrightarrow> n < 2 ^ 64"
  by (auto simp: parse_lit_int_def split: meta.splits if_splits)

lemma max_len_small: "snd (len_prefix (get_max_len f input)) < 2 ^ 64"
  by (auto simp: len_prefix_def get_max_len_def find_int_def split: option.splits dest!: parse_lit_int_small)

lemma width_small: "get_field_bit_width f defaults = Some bits \<Longrightarrow> bits \<le> 64"
proof -
  have cap: "primitive_bit_capacity ty = Some n \<Longrightarrow> n \<le> 64" for ty n
    by (auto simp: primitive_bit_capacity_def split: option.splits if_splits)
  show "get_field_bit_width f defaults = Some bits \<Longrightarrow> bits \<le> 64"
    by (auto simp: get_field_bit_width_def validated_def validate_field_bits_def MAX_BIT_WIDTH_def
        split: option.splits if_splits dest!: cap)
qed

context derive_env
begin

lemma field_carries:
  assumes "gen_bit_serialize_field env f (get_default_bits input) input = Some ser"
    and "gen_bit_deserialize_field env f (get_default_bits input) input = Some des"
    and "field_fits env ok okw input f v"
  shows "carries (ser v) des v"
proof (cases "get_with_path (env_with env) f")
  case (Some w)
  then show ?thesis using assms module_carries
    by (auto simp: gen_bit_serialize_field_def gen_bit_deserialize_field_def field_fits_def Let_def)
next
  case None
  obtain bits where bits: "get_field_bit_width f (get_default_bits input) = Some bits"
    using assms(3) None by (auto simp: field_fits_def Let_def split: option.splits)
  note defs = gen_bit_serialize_field_def gen_bit_deserialize_field_def field_fits_def Let_def None bits
  have items: "carries (gen_ser_vec (get_max_len f input) (env_ser env ty) vs)
      (bio_bind (gen_des_vec (get_max_len f input) (env_des env ty)) (\<lambda>vs. bio_return (Items vs))) (Items vs)"
    if "len_ok (get_max_len f input) (length vs)" "list_all (ok ty) vs" for ty vs
    using that carries_map[OF carries_vec[OF _ max_len_small, of vs f input "env_ser env ty" "env_des env ty"], of Items] trait_carries
    by (auto simp: len_ok_def list_all_iff)
  have array: "carries (ser_items (env_ser env ty) vs) (bio_bind (des_items (env_des env ty) (length vs)) (\<lambda>vs. bio_return (Items vs))) (Items vs)"
    if "list_all (ok ty) vs" for ty vs
    using that carries_map[OF carries_items[of vs "env_ser env ty" "env_des env ty"], of Items] trait_carries by (auto simp: list_all_iff)
  have str: "carries (gen_ser_vec (get_max_len f input) (\<lambda>byte. write_bits (ucast byte) 8) s)
      (bio_bind (gen_des_string (get_max_len f input)) (\<lambda>s. bio_return (Str s))) (Str s)"
    if "len_ok (get_max_len f input) (length s)" "utf8_valid s" for s
    using that carries_map[OF carries_string[OF _ _ max_len_small, of s f input], of Str] by (auto simp: len_ok_def)
  show ?thesis
  proof (cases "bits > 0")
    case True
    obtain t w where "prim_of (sf_ty f) = Some t" "v = Prim w" "prim_fits t bits w"
      using assms(3) True by (auto simp: defs split: option.splits val.splits)
    then show ?thesis
      using assms(1,2) True carries_map[OF carries_prim[OF _ width_small[OF bits]], of t w Prim] by (auto simp: defs)
  next
    case False
    then show ?thesis
      using assms trait_carries items array str by (auto simp: defs split: if_splits val.splits option.splits)
  qed
qed

end

text \<open>With \<open>#[skip_if]\<close> a skipped value must be the default, which is what the reader puts there.\<close>

definition slot_fits ::
  "rust_env \<Rightarrow> (syn_type \<Rightarrow> val \<Rightarrow> bool) \<Rightarrow> ((val \<Rightarrow> unit bio) \<times> val bio \<Rightarrow> val \<Rightarrow> bool) \<Rightarrow> derive_input \<Rightarrow> val list \<Rightarrow> syn_field \<Rightarrow> val \<Rightarrow> bool" where
  "slot_fits env ok okw input all f v \<longleftrightarrow>
     (if \<not> should_serialize_field f then v = env_default env (sf_ty f)
      else case get_skip_if (env_expr env) f of
             Some skip \<Rightarrow> (if skip all then v = env_default env (sf_ty f) else field_fits env ok okw input f v)
           | None \<Rightarrow> field_fits env ok okw input f v)"

context derive_env
begin

lemma gen_field_carries:
  assumes "gen_field_serialize env (get_default_bits input) input f = Some ser"
    and "gen_field_deserialize env (get_default_bits input) input f = Some des"
    and "should_serialize_field f" and "slot_fits env ok okw input all f v"
  shows "carries (ser all v) des v"
proof -
  obtain ser0 where s: "gen_bit_serialize_field env f (get_default_bits input) input = Some ser0"
    using assms(1) by (auto simp: gen_field_serialize_def)
  obtain des0 where d: "gen_bit_deserialize_field env f (get_default_bits input) input = Some des0"
    using assms(2) by (auto simp: gen_field_deserialize_def)
  have code: "carries (wrap_byte_align_write (is_byte_aligned f) ser0 v) (wrap_byte_align_read (is_byte_aligned f) des0) v"
    if "field_fits env ok okw input f v"
    using field_carries[OF s d that] by (auto simp: wrap_byte_align_write_def wrap_byte_align_read_def intro: carries_ignore[OF carries_align])
  show ?thesis
  proof (cases "get_skip_if (env_expr env) f")
    case None
    with assms s d code show ?thesis
      by (auto simp: gen_field_serialize_def gen_field_deserialize_def slot_fits_def Let_def)
  next
    case (Some skip)
    show ?thesis
    proof (cases "skip all")
      case True
      have "carries (bio_then (write_bit False) (bio_return ())) (bio_bind read_bit (\<lambda>present. if present then e else bio_return v)) v" for e
        by (rule carries_then[OF carries_bit]) (simp add: carries_return)
      then show ?thesis
        using assms Some True s d by (auto simp: gen_field_serialize_def gen_field_deserialize_def slot_fits_def Let_def)
    next
      case False
      with assms Some s d code show ?thesis
        by (auto simp: gen_field_serialize_def gen_field_deserialize_def slot_fits_def Let_def intro!: carries_then[OF carries_bit])
    qed
  qed
qed

end

section \<open>All fields\<close>

lemma all_present_Some: "all_present xs = Some ys \<longleftrightarrow> xs = map Some ys"
proof
  show "all_present xs = Some ys \<Longrightarrow> xs = map Some ys" by (induction xs arbitrary: ys) (auto split: option.splits)
  show "xs = map Some ys \<Longrightarrow> all_present xs = Some ys" by (induction ys arbitrary: xs) auto
qed

definition read_values :: "syn_field list \<Rightarrow> val list \<Rightarrow> val list" where
  "read_values fs vs = map snd (filter (\<lambda>x. should_serialize_field (fst x)) (zip fs vs))"

definition slots_fit ::
  "rust_env \<Rightarrow> (syn_type \<Rightarrow> val \<Rightarrow> bool) \<Rightarrow> ((val \<Rightarrow> unit bio) \<times> val bio \<Rightarrow> val \<Rightarrow> bool) \<Rightarrow> derive_input \<Rightarrow> syn_field list \<Rightarrow> val list \<Rightarrow> bool" where
  "slots_fit env ok okw input fs vs \<longleftrightarrow> list_all2 (slot_fits env ok okw input vs) fs vs"

text \<open>Fields that are not serialized hold their default.\<close>

definition left_out_default :: "rust_env \<Rightarrow> syn_field \<Rightarrow> val \<Rightarrow> bool" where
  "left_out_default env f v \<longleftrightarrow> should_serialize_field f \<or> v = env_default env (sf_ty f)"

lemma slot_fits_left_out: "list_all2 (slot_fits env ok okw input all) fs vs \<Longrightarrow> list_all2 (left_out_default env) fs vs"
  by (erule list_all2_mono) (simp add: slot_fits_def left_out_default_def split: if_splits)

lemma place_named_read: "list_all2 (left_out_default env) fs vs \<Longrightarrow> place_named env fs (read_values fs vs) = vs"
  by (induction rule: list_all2_induct) (auto simp: read_values_def left_out_default_def)

lemma place_unnamed_read:
  "list_all2 (left_out_default env) fs vs \<Longrightarrow> filter should_serialize_field fs = take n fs \<Longrightarrow>
   place_unnamed env fs (read_values fs vs) = vs"
proof (induction arbitrary: n rule: list_all2_induct)
  case Nil
  then show ?case by (simp add: place_unnamed_def read_values_def)
next
  case (Cons f fs v vs)
  show ?case
  proof (cases "should_serialize_field f")
    case True
    then obtain m where "n = Suc m" "filter should_serialize_field fs = take m fs" using Cons.prems by (cases n) auto
    with Cons.IH[of m] True show ?thesis by (simp add: place_unnamed_def read_values_def)
  next
    case False
    then have none: "filter should_serialize_field fs = []" using Cons.prems by (cases n) (auto simp: filter_eq_Cons_iff)
    then have "filter (\<lambda>x. should_serialize_field (fst x)) (zip fs vs) = []"
      by (auto simp: filter_empty_conv dest: set_zip_leftD)
    moreover have "map (\<lambda>f. env_default env (sf_ty f)) fs = vs"
      using Cons.hyps(2) none by (induction rule: list_all2_induct) (auto simp: left_out_default_def split: if_splits)
    ultimately show ?thesis using False Cons.hyps(1) by (simp add: place_unnamed_def read_values_def left_out_default_def)
  qed
qed

context derive_env
begin

lemma run_carries:
  assumes "list_all2 (slot_fits env ok okw input all) fs vs"
    and "map (\<lambda>f. if should_serialize_field f then map_option Some (gen_field_serialize env (get_default_bits input) input f) else Some None) fs = map Some ss"
    and "map (gen_field_deserialize env (get_default_bits input) input) (filter should_serialize_field fs) = map Some ds"
  shows "carries (run_writers ss all vs) (run_readers ds) (read_values fs vs)"
  using assms
proof (induction arbitrary: ss ds rule: list_all2_induct)
  case Nil
  then show ?case by (simp add: read_values_def carries_return)
next
  case (Cons f fs v vs)
  show ?case
  proof (cases "should_serialize_field f")
    case True
    then obtain ser ss' des ds' where g: "ss = Some ser # ss'" "ds = des # ds'"
      "gen_field_serialize env (get_default_bits input) input f = Some ser" "gen_field_deserialize env (get_default_bits input) input f = Some des"
      using Cons.prems by (auto simp: Cons_eq_map_conv)
    have "carries (ser all v) des v" using gen_field_carries[OF g(3,4) True] Cons.hyps(1) by blast
    moreover have "carries (run_writers ss' all vs) (run_readers ds') (read_values fs vs)"
      using Cons.IH Cons.prems True g by simp
    ultimately show ?thesis
      using g True by (auto simp: read_values_def intro!: carries_then[of "ser all v"] carries_map)
  next
    case False
    then obtain ss' where "ss = None # ss'" using Cons.prems(1) by (auto simp: Cons_eq_map_conv)
    with Cons False show ?thesis by (simp add: read_values_def)
  qed
qed

end

text \<open>Fields of a tuple that are not serialized must come last.\<close>

definition fields_fit ::
  "rust_env \<Rightarrow> (syn_type \<Rightarrow> val \<Rightarrow> bool) \<Rightarrow> ((val \<Rightarrow> unit bio) \<times> val bio \<Rightarrow> val \<Rightarrow> bool) \<Rightarrow> derive_input \<Rightarrow> syn_fields \<Rightarrow> val list \<Rightarrow> bool" where
  "fields_fit env ok okw input flds vs \<longleftrightarrow>
     (case flds of
        NamedFields fs \<Rightarrow> slots_fit env ok okw input fs vs
      | UnnamedFields fs \<Rightarrow> slots_fit env ok okw input fs vs \<and>
          filter should_serialize_field fs = takeWhile should_serialize_field fs
      | UnitFields \<Rightarrow> vs = [])"

context derive_env
begin

lemma fields_carry:
  assumes "gen_fields_serialize env input flds = Some ser" and "gen_fields_deserialize env input flds = Some des"
    and "fields_fit env ok okw input flds vs"
  shows "carries (ser vs) des vs"
proof -
  have take: "takeWhile P xs = take (length (takeWhile P xs)) xs" for P :: "syn_field \<Rightarrow> bool" and xs
    by (metis takeWhile_eq_take)
  show ?thesis
  proof (cases flds)
    case (NamedFields fs)
    obtain ss ds where "statements (gen_field_serialize env (get_default_bits input) input) fs = Some ss" "ser = (\<lambda>vs. run_writers ss vs vs)"
      "all_present (map (gen_field_deserialize env (get_default_bits input) input) (filter should_serialize_field fs)) = Some ds"
      "des = bio_bind (run_readers ds) (\<lambda>vs. bio_return (place_named env fs vs))"
      using assms(1,2) NamedFields by (auto simp: gen_fields_serialize_def gen_fields_deserialize_def)
    then show ?thesis
      using carries_map[OF run_carries[of input vs fs vs ss ds], of "place_named env fs"] assms(3) NamedFields
      by (simp add: statements_def all_present_Some fields_fit_def slots_fit_def place_named_read slot_fits_left_out)
  next
    case (UnnamedFields fs)
    obtain ss ds where "statements (gen_field_serialize env (get_default_bits input) input) fs = Some ss" "ser = (\<lambda>vs. run_writers ss vs vs)"
      "all_present (map (gen_field_deserialize env (get_default_bits input) input) (filter should_serialize_field fs)) = Some ds"
      "des = bio_bind (run_readers ds) (\<lambda>vs. bio_return (place_unnamed env fs vs))"
      using assms(1,2) UnnamedFields by (auto simp: gen_fields_serialize_def gen_fields_deserialize_def split: if_splits)
    moreover have "place_unnamed env fs (read_values fs vs) = vs"
      using assms(3) UnnamedFields take[of should_serialize_field fs]
      by (intro place_unnamed_read[where n = "length (takeWhile should_serialize_field fs)"]) (auto simp: fields_fit_def slots_fit_def intro: slot_fits_left_out)
    ultimately show ?thesis
      using carries_map[OF run_carries[of input vs fs vs ss ds], of "place_unnamed env fs"] assms(3) UnnamedFields
      by (simp add: statements_def all_present_Some fields_fit_def slots_fit_def)
  next
    case UnitFields
    with assms show ?thesis by (auto simp: gen_fields_serialize_def gen_fields_deserialize_def fields_fit_def intro: carries_return)
  qed
qed

end

section \<open>Structs and enums\<close>

definition indices_distinct :: "syn_variant list \<Rightarrow> bool" where
  "indices_distinct variants \<longleftrightarrow> distinct (map (\<lambda>(i, v). variant_index i v) (enumerate 0 variants))"

definition value_fits ::
  "rust_env \<Rightarrow> (syn_type \<Rightarrow> val \<Rightarrow> bool) \<Rightarrow> ((val \<Rightarrow> unit bio) \<times> val bio \<Rightarrow> val \<Rightarrow> bool) \<Rightarrow> derive_input \<Rightarrow> val \<Rightarrow> bool" where
  "value_fits env ok okw input v \<longleftrightarrow>
     (case (di_data input, v) of
        (StructData flds, Struct vs) \<Rightarrow> fields_fit env ok okw input flds vs
      | (EnumData variants, Variant i vs) \<Rightarrow> i < length variants \<and> indices_distinct variants \<and>
          fields_fit env ok okw input (vr_fields (variants ! i)) vs
      | _ \<Rightarrow> False)"

lemma match_arms_nth:
  "i < length arms \<Longrightarrow> distinct (map fst arms) \<Longrightarrow>
   match_arms j arms (fst (arms ! i)) = bio_bind (snd (arms ! i)) (\<lambda>vs. bio_return (Variant (j + i) vs))"
proof (induction arms arbitrary: i j)
  case (Cons arm arms)
  show ?case
  proof (cases i)
    case 0
    then show ?thesis by (cases arm) simp
  next
    case (Suc k)
    with Cons.prems have "arms ! k \<in> set arms" by simp
    with Cons.prems(2) have "fst (arms ! k) \<noteq> fst arm" by (metis distinct.simps(2) image_eqI list.set_map list.simps(9))
    then show ?thesis using Cons.IH[of k "j + 1"] Cons.prems Suc by (cases arm) simp
  qed
qed simp

text \<open>The arms of the two generated matches, variant by variant.\<close>

lemma arms_nth:
  assumes "map (\<lambda>(i, v). map_option (Pair (variant_index i v)) (gen v)) (enumerate 0 variants) = map Some arms"
  shows "length arms = length variants" and "map fst arms = map (\<lambda>(i, v). variant_index i v) (enumerate 0 variants)"
    and "i < length variants \<Longrightarrow> gen (variants ! i) = Some (snd (arms ! i)) \<and> fst (arms ! i) = variant_index i (variants ! i)"
proof -
  show l: "length arms = length variants" using arg_cong[OF assms, of length] by simp
  have n: "gen (variants ! i) = Some (snd (arms ! i)) \<and> fst (arms ! i) = variant_index i (variants ! i)" if "i < length variants" for i
    using arg_cong[OF assms, of "\<lambda>xs. xs ! i"] that l by (auto simp: nth_enumerate_eq eq_commute[of _ "arms ! i"])
  show "i < length variants \<Longrightarrow> gen (variants ! i) = Some (snd (arms ! i)) \<and> fst (arms ! i) = variant_index i (variants ! i)"
    by (rule n)
  show "map fst arms = map (\<lambda>(i, v). variant_index i v) (enumerate 0 variants)"
    using l n by (intro nth_equalityI) (auto simp: nth_enumerate_eq)
qed

lemma variant_index_fits:
  assumes "enum_variant_bits (length variants) attr = Some bits" and "pinned_ids_ok bits variants" and "i < length variants"
  shows "variant_index i (variants ! i) < 2 ^ bits"
proof (cases "get_variant_id (variants ! i)")
  case None
  then show ?thesis using enum_variant_bits_fit[OF assms(1,3)] by (simp add: variant_index_def)
next
  case (Some n)
  then have "n \<in> set (List.map_filter get_variant_id variants)"
    using assms(3) by (force simp: List.map_filter_def)
  then have "int n \<le> (if bits \<ge> 64 then 2 ^ 64 - 1 else 2 ^ bits - 1)"
    using assms(2) by (simp add: pinned_ids_ok_def Let_def list_all_iff)
  moreover have "bits \<le> 64" using enum_variant_bits_fit(2)[OF assms(1,3)] .
  ultimately have "int n < int (2 ^ bits)" by (cases "bits = 64") (auto split: if_splits)
  then have "n < 2 ^ bits" by (simp only: of_nat_less_iff)
  then show ?thesis using Some by (simp add: variant_index_def)
qed

context derive_env
begin

lemma enum_carries:
  assumes "gen_enum_serialize env input variants = Some ser" and "gen_enum_deserialize env input variants = Some des"
    and "i < length variants" and "indices_distinct variants" and "fields_fit env ok okw input (vr_fields (variants ! i)) vs"
  shows "carries (ser (Variant i vs)) des (Variant i vs)"
proof -
  obtain bits where bits: "enum_variant_bits (length variants) (get_enum_bits input) = Some bits" "pinned_ids_ok bits variants"
    using assms(1) by (auto simp: gen_enum_serialize_def split: option.splits if_splits)
  obtain arms where a: "map (\<lambda>(i, v). map_option (Pair (variant_index i v)) (gen_fields_serialize env input (vr_fields v))) (enumerate 0 variants) = map Some arms"
    "ser (Variant i vs) = bio_then (write_bits (of_nat (fst (arms ! i))) bits) (snd (arms ! i) vs)"
    using assms(1) bits by (auto simp: gen_enum_serialize_def all_present_Some)
  obtain arms' where a': "map (\<lambda>(i, v). map_option (Pair (variant_index i v)) (gen_fields_deserialize env input (vr_fields v))) (enumerate 0 variants) = map Some arms'"
    "des = bio_bind (read_bits bits) (\<lambda>n. match_arms 0 arms' (unat n))"
    using assms(2) bits by (auto simp: gen_enum_deserialize_def all_present_Some)
  note s = arms_nth[OF a(1)] and d = arms_nth[OF a'(1)]
  let ?n = "variant_index i (variants ! i)"
  have b64: "bits \<le> 64" using enum_variant_bits_fit(2)[OF bits(1) assms(3)] .
  have n: "?n < 2 ^ bits" using variant_index_fits[OF bits assms(3)] .
  moreover have "?n < 2 ^ 64" using n b64 by (meson less_le_trans one_le_numeral power_increasing)
  ultimately have u: "unat (take_bit bits (of_nat ?n :: u64)) = ?n"
    by (simp only: unsigned_take_bit_eq unat_of_nat) (simp add: take_bit_nat_eq_self)
  have "match_arms 0 arms' ?n = bio_bind (snd (arms' ! i)) (\<lambda>vs. bio_return (Variant i vs))"
    using match_arms_nth[of i arms' 0] d assms(3,4) by (simp add: indices_distinct_def)
  moreover have "carries (snd (arms ! i) vs) (snd (arms' ! i)) vs"
    using fields_carry[OF _ _ assms(5)] s(3)[OF assms(3)] d(3)[OF assms(3)] by blast
  ultimately have "carries (bio_then (write_bits (of_nat ?n) bits) (snd (arms ! i) vs)) des (Variant i vs)"
    unfolding a'(2) by (intro carries_then[OF carries_bits[OF b64]]) (simp add: u carries_map)
  then show ?thesis using a(2) s(3)[OF assms(3)] by simp
qed

lemma derive_carries:
  assumes "derive_serialize env input = Some ser" and "derive_deserialize env input = Some des" and "value_fits env ok okw input v"
  shows "carries (ser v) des v"
proof (cases "di_data input")
  case (StructData flds)
  then obtain vs where "v = Struct vs" "fields_fit env ok okw input flds vs"
    using assms(3) by (auto simp: value_fits_def split: val.splits)
  with StructData assms(1,2) show ?thesis
    using fields_carry[of input flds _ _ vs]
    by (auto simp: derive_serialize_def derive_deserialize_def struct_val_def intro!: carries_map)
next
  case (EnumData variants)
  then obtain i vs where "v = Variant i vs" "i < length variants" "indices_distinct variants"
    "fields_fit env ok okw input (vr_fields (variants ! i)) vs"
    using assms(3) by (auto simp: value_fits_def split: val.splits)
  with EnumData assms(1,2) show ?thesis
    using enum_carries[of input variants ser des i vs] by (simp add: derive_serialize_def derive_deserialize_def)
next
  case UnionData
  with assms(1) show ?thesis by (simp add: derive_serialize_def)
qed

end

section \<open>The implementations of the library\<close>

text \<open>
  \<open>library_env\<close> resolves the traits for the types the crate implements them for (\<open>serialize/\<close>), and
  for the user's types by name; the expressions and defaults are the user's.
\<close>

definition prim_width :: "prim_type \<Rightarrow> nat" where
  "prim_width t = (case t of PBool \<Rightarrow> 1 | PUnsigned k \<Rightarrow> k | PSigned k \<Rightarrow> k | PF32 \<Rightarrow> 32 | PF64 \<Rightarrow> 64)"

definition impl_named :: "string \<Rightarrow> prim_type option" where
  "impl_named name = (if name = ''usize'' \<or> name = ''isize'' then None else prim_named name)"

definition array_sizes :: "nat list" where
  "array_sizes = [1..<17] @ [20, 24, 32, 48, 64, 96, 128, 256, 512, 1024]"

definition opt_val :: "val \<Rightarrow> val option" where
  "opt_val v = (case v of Opt x \<Rightarrow> x | _ \<Rightarrow> None)"

type_synonym user_types = "string \<Rightarrow> ((val \<Rightarrow> unit bio) \<times> val bio) option"

fun library_ser :: "user_types \<Rightarrow> syn_type \<Rightarrow> val \<Rightarrow> unit bio" where
  "library_ser user (PathType [(name, [])]) v =
     (case impl_named name of
        Some t \<Rightarrow> write_bits (prim_as_u64 t (prim_val v)) (prim_width t)
      | None \<Rightarrow> if name = ''String'' then ser_string (str_val v)
               else case user name of Some w \<Rightarrow> fst w v | None \<Rightarrow> bio_fail InvalidInput)"
| "library_ser user (PathType [(name, [t])]) v =
     (if name = ''Vec'' then ser_vec (library_ser user t) (items_val v)
      else if name = ''Option'' then ser_option (library_ser user t) (opt_val v)
      else bio_fail InvalidInput)"
| "library_ser user (ArrayType t (Some n)) v =
     (if n \<in> set array_sizes then ser_array (library_ser user t) (items_val v) else bio_fail InvalidInput)"
| "library_ser user _ v = bio_fail InvalidInput"

fun library_des :: "user_types \<Rightarrow> syn_type \<Rightarrow> val bio" where
  "library_des user (PathType [(name, [])]) =
     (case impl_named name of
        Some t \<Rightarrow> bio_bind (read_bits (prim_width t)) (\<lambda>w. bio_return (Prim (prim_from_u64 t w)))
      | None \<Rightarrow> if name = ''String'' then bio_bind des_string (\<lambda>s. bio_return (Str s))
               else case user name of Some w \<Rightarrow> snd w | None \<Rightarrow> bio_fail InvalidInput)"
| "library_des user (PathType [(name, [t])]) =
     (if name = ''Vec'' then bio_bind (des_vec (library_des user t)) (\<lambda>vs. bio_return (Items vs))
      else if name = ''Option'' then bio_bind (des_option (library_des user t)) (\<lambda>v. bio_return (Opt v))
      else bio_fail InvalidInput)"
| "library_des user (ArrayType t (Some n)) =
     (if n \<in> set array_sizes then bio_bind (des_array (library_des user t) n) (\<lambda>vs. bio_return (Items vs)) else bio_fail InvalidInput)"
| "library_des user _ = bio_fail InvalidInput"

fun library_ok :: "syn_type \<Rightarrow> val \<Rightarrow> bool" where
  "library_ok (PathType [(name, [])]) v =
     (case (impl_named name, v) of
        (Some t, Prim w) \<Rightarrow> (if t = PBool then w = 0 \<or> w = 1 else take_bit (prim_width t) w = w)
      | (None, Str s) \<Rightarrow> name = ''String'' \<and> utf8_valid s \<and> length s \<le> DEFAULT_MAX_LEN
      | _ \<Rightarrow> False)"
| "library_ok (PathType [(name, [t])]) v =
     (case v of
        Items vs \<Rightarrow> name = ''Vec'' \<and> length vs \<le> DEFAULT_MAX_LEN \<and> list_all (library_ok t) vs
      | Opt x \<Rightarrow> name = ''Option'' \<and> (case x of None \<Rightarrow> True | Some y \<Rightarrow> library_ok t y)
      | _ \<Rightarrow> False)"
| "library_ok (ArrayType t (Some n)) v =
     (case v of Items vs \<Rightarrow> n \<in> set array_sizes \<and> length vs = n \<and> list_all (library_ok t) vs | _ \<Rightarrow> False)"
| "library_ok _ v = False"

definition library_env :: "user_types \<Rightarrow> (syn_type \<Rightarrow> val) \<Rightarrow> user_types \<Rightarrow> (string \<Rightarrow> (val list \<Rightarrow> bool) option) \<Rightarrow> rust_env" where
  "library_env user defaults modules exprs =
     \<lparr>env_ser = library_ser user, env_des = library_des user, env_default = defaults, env_with = modules, env_expr = exprs\<rparr>"

lemma bio_bind_assoc: "bio_bind (bio_bind m f) g = bio_bind m (\<lambda>x. bio_bind (f x) g)"
  by (rule ext) (auto simp: bio_bind_def split: prod.splits sum.splits)

lemma bio_bind_return [simp]: "bio_bind (bio_return x) f = f x"
  by (rule ext) (simp add: bio_bind_def bio_return_def)

lemma bio_bind_fail [simp]: "bio_bind (bio_fail e) f = bio_fail e"
  by (rule ext) (simp add: bio_bind_def bio_fail_def)

lemma library_is_generated:
  "ser_vec ser = gen_ser_vec None ser" "des_vec des = gen_des_vec None des"
  "ser_string = gen_ser_vec None (\<lambda>byte. write_bits (ucast byte) 8)" "des_string = gen_des_string None"
  using len_bits_default
  by (auto simp: fun_eq_iff ser_vec_def des_vec_def gen_ser_vec_def gen_des_vec_def len_prefix_def DEFAULT_MAX_LEN_def
      ser_string_def des_string_def gen_des_string_def bio_bind_assoc if_distrib[of "\<lambda>m. bio_bind m _"] cong: if_cong)

lemma carries_impl:
  assumes "if t = PBool then w = 0 \<or> w = 1 else take_bit (prim_width t) w = w" and "impl_named name = Some t"
  shows "carries (write_bits (prim_as_u64 t w) (prim_width t)) (bio_bind (read_bits (prim_width t)) (\<lambda>w. bio_return (Prim (prim_from_u64 t w)))) (Prim w)"
proof -
  have width: "prim_width t \<le> 64" "t = PSigned k \<Longrightarrow> 0 < k" for k
    using assms(2) by (auto simp: impl_named_def prim_named_def prim_width_def split: if_splits)
  have "prim_from_u64 t (take_bit (prim_width t) (prim_as_u64 t w)) = w"
    using assms(1) width(2) by (cases t) (auto simp: prim_width_def take_bit_signed_take_bit take_bit_Suc_0 split: if_splits)
  with carries_map[OF carries_bits[OF width(1), of "prim_as_u64 t w"], of "\<lambda>w. Prim (prim_from_u64 t w)"] show ?thesis by simp
qed

lemma carries_option:
  "(\<And>y. x = Some y \<Longrightarrow> carries (ser y) des y) \<Longrightarrow> carries (ser_option ser x) (des_option des) x"
proof (cases x)
  case None
  have "carries (bio_then (write_bit False) (bio_return ())) (des_option des) None"
    unfolding des_option_def by (rule carries_then[OF carries_bit]) (simp add: carries_return)
  then show ?thesis using None by (simp add: ser_option_def)
next
  case (Some y)
  moreover assume "\<And>y. x = Some y \<Longrightarrow> carries (ser y) des y"
  ultimately show ?thesis by (auto simp: ser_option_def des_option_def intro!: carries_then[OF carries_bit] carries_map)
qed

lemma library_carries: "library_ok ty v \<Longrightarrow> carries (library_ser user ty v) (library_des user ty) v"
proof (induction user ty v rule: library_ser.induct)
  case (1 user name v)
  then show ?case
    using carries_impl[of _ _ name] carries_map[OF carries_string[of _ None], of _ Str]
    by (auto simp: library_is_generated len_prefix_def DEFAULT_MAX_LEN_def split: option.splits val.splits)
next
  case (2 user name t v)
  have "carries (ser_option (library_ser user t) x) (bio_bind (des_option (library_des user t)) (\<lambda>v. bio_return (Opt v))) (Opt x)"
    if "name = ''Option''" "case x of None \<Rightarrow> True | Some y \<Rightarrow> library_ok t y" "name \<noteq> ''Vec''" for x
    using that 2(2) by (intro carries_map carries_option) auto
  with 2 show ?case
    using carries_map[OF carries_vec[of _ None "library_ser user t" "library_des user t"], of _ Items]
    by (auto simp: library_is_generated len_prefix_def DEFAULT_MAX_LEN_def opt_val_def list_all_iff split: val.splits)
next
  case (3 user t n v)
  then show ?case
    using carries_map[OF carries_items[of _ "library_ser user t" "library_des user t"], of _ Items]
    by (auto simp: ser_array_def des_array_def list_all_iff split: val.splits)
qed simp_all

interpretation library: derive_env "library_env user defaults modules exprs" library_ok "\<lambda>_ _. False"
  by unfold_locales (simp_all add: library_env_def library_carries)


section \<open>What the macro accepts\<close>

definition field_accepted :: "rust_env \<Rightarrow> derive_input \<Rightarrow> syn_field \<Rightarrow> bool" where
  "field_accepted env input f \<longleftrightarrow> (if get_with_path (env_with env) f \<noteq> None then True
     else case get_field_bit_width f (get_default_bits input) of
            None \<Rightarrow> False
          | Some bits \<Rightarrow> (if bits > 0 then prim_of (sf_ty f) \<noteq> None else True))"

definition fields_accepted :: "rust_env \<Rightarrow> derive_input \<Rightarrow> syn_fields \<Rightarrow> bool" where
  "fields_accepted env input flds \<longleftrightarrow>
     (case flds of
        NamedFields fs \<Rightarrow> list_all (field_accepted env input) (filter should_serialize_field fs)
      | UnnamedFields fs \<Rightarrow> list_all (field_accepted env input) (filter should_serialize_field fs) \<and> positions_agree fs
      | UnitFields \<Rightarrow> True)"

definition input_accepted :: "rust_env \<Rightarrow> derive_input \<Rightarrow> bool" where
  "input_accepted env input \<longleftrightarrow>
     (case di_data input of
        StructData flds \<Rightarrow> fields_accepted env input flds
      | EnumData variants \<Rightarrow>
          (case enum_variant_bits (length variants) (get_enum_bits input) of
             None \<Rightarrow> False
           | Some bits \<Rightarrow> pinned_ids_ok bits variants \<and> list_all (\<lambda>v. fields_accepted env input (vr_fields v)) variants)
      | UnionData \<Rightarrow> False)"

lemma all_present_None: "all_present xs \<noteq> None \<longleftrightarrow> None \<notin> set xs"
  by (induction xs) (auto split: option.splits)

lemma field_gen_iff:
  "gen_field_serialize env (get_default_bits input) input f \<noteq> None \<longleftrightarrow> field_accepted env input f"
  "gen_field_deserialize env (get_default_bits input) input f \<noteq> None \<longleftrightarrow> field_accepted env input f"
  by (auto simp: gen_field_serialize_def gen_field_deserialize_def gen_bit_serialize_field_def gen_bit_deserialize_field_def
      field_accepted_def Let_def split: option.splits if_splits)

lemma fields_gen_accepted:
  assumes "fields_accepted env input flds"
  shows "gen_fields_serialize env input flds \<noteq> None" and "gen_fields_deserialize env input flds \<noteq> None"
proof -
  have s: "statements (gen_field_serialize env (get_default_bits input) input) fs \<noteq> None"
    if "list_all (field_accepted env input) (filter should_serialize_field fs)" for fs
    unfolding statements_def all_present_None
    using that field_gen_iff(1)[of env input] by (auto simp: list_all_iff split: if_splits) (metis option.distinct(1))
  show "gen_fields_serialize env input flds \<noteq> None"
    using assms s by (auto simp: fields_accepted_def gen_fields_serialize_def split: syn_fields.splits)
  have d: "all_present (map (gen_field_deserialize env (get_default_bits input) input) (filter should_serialize_field fs)) \<noteq> None"
    if "list_all (field_accepted env input) (filter should_serialize_field fs)" for fs
    unfolding all_present_None
    using that field_gen_iff(2)[of env input] by (auto simp: list_all_iff image_iff) (metis option.distinct(1))+
  show "gen_fields_deserialize env input flds \<noteq> None"
    using assms d by (auto simp: fields_accepted_def gen_fields_deserialize_def split: syn_fields.splits)
qed

lemma accepted_generates:
  assumes "input_accepted env input"
  obtains ser des where "derive_serialize env input = Some ser" and "derive_deserialize env input = Some des"
proof -
  have "derive_serialize env input \<noteq> None \<and> derive_deserialize env input \<noteq> None"
  proof (cases "di_data input")
    case (EnumData variants)
    then obtain bits where bits: "enum_variant_bits (length variants) (get_enum_bits input) = Some bits" "pinned_ids_ok bits variants"
      and a: "\<forall>v \<in> set variants. fields_accepted env input (vr_fields v)"
      using assms by (auto simp: input_accepted_def list_all_iff split: option.splits)
    have c: "all_present (map (\<lambda>(i, v). map_option (Pair (variant_index i v)) (gen v)) (enumerate 0 variants)) \<noteq> None"
      if "\<And>v. v \<in> set variants \<Longrightarrow> gen v \<noteq> None" for gen :: "syn_variant \<Rightarrow> 'x option"
      unfolding all_present_None using that by (auto simp: in_set_enumerate_eq) (metis nth_mem option.distinct(1))
    have "gen_enum_serialize env input variants \<noteq> None"
      using bits c[of "\<lambda>v. gen_fields_serialize env input (vr_fields v)"] a fields_gen_accepted(1) by (simp add: gen_enum_serialize_def)
    moreover have "gen_enum_deserialize env input variants \<noteq> None"
      using bits c[of "\<lambda>v. gen_fields_deserialize env input (vr_fields v)"] a fields_gen_accepted(2) by (simp add: gen_enum_deserialize_def)
    ultimately show ?thesis using EnumData by (simp add: derive_serialize_def derive_deserialize_def)
  next
    case (StructData flds)
    then show ?thesis
      using assms fields_gen_accepted[of env input flds] by (simp add: input_accepted_def derive_serialize_def derive_deserialize_def)
  next
    case UnionData
    with assms show ?thesis by (simp add: input_accepted_def)
  qed
  then show ?thesis using that by blast
qed

section \<open>The macro is correct\<close>

text \<open>C4: derived code round-trips. For every struct and every enum the macro accepts, whatever
  attributes it has, writing a value into a fresh buffer, taking the bytes and reading them back gives
  the value: provided the implementations the code calls carry their values, the value fits the widths
  and lengths asked for (no negative number in a signed field below 64 bits, no float cut short), fields that are skipped hold their default, the fields of a tuple left out
  come last and no two variants have the same index.\<close>

theorem derive_roundtrip:
  assumes "\<forall>ty v. ok ty v \<longrightarrow> carries (env_ser env ty v) (env_des env ty) v"
    and "\<forall>w v. okw w v \<longrightarrow> carries (fst w v) (snd w) v"
    and "input_accepted env input" and "value_fits env ok okw input v"
  shows "\<exists>ser des b bs. derive_serialize env input = Some ser \<and> derive_deserialize env input = Some des \<and>
    ser v BitBuffer_new = (Inr (), b) \<and> into_bytes True b = Inr bs \<and> fst (des (BitBuffer_from_bytes bs)) = Inr v"
proof -
  have env: "derive_env env ok okw" using assms(1,2) by (intro derive_env.intro) simp_all
  obtain ser des where sd: "derive_serialize env input = Some ser" "derive_deserialize env input = Some des"
    using assms(3) by (rule accepted_generates)
  from env sd assms(4) have "carries (ser v) des v" by (rule derive_env.derive_carries)
  then show ?thesis using sd by (elim carries_bytes) blast
qed

abbreviation prim_field :: "string \<Rightarrow> attribute list \<Rightarrow> syn_field" where
  "prim_field name attrs \<equiv> \<lparr>sf_attrs = attrs, sf_ty = PathType [(name, [])]\<rparr>"

definition player_input :: derive_input where
  "player_input = \<lparr>di_attrs = [(''default_bits'', MetaList [(''u16'', MetaInt 12)])], di_data = StructData (NamedFields
     [prim_field ''u8'' [(''bits'', MetaInt 6)], prim_field ''u16'' [], prim_field ''String'' [(''max_len'', MetaInt 4), (''byte_align'', MetaPath)],
      prim_field ''u32'' [(''no_serialize'', MetaPath)], prim_field ''i32'' [(''skip_if'', MetaStr ''self.4 == 0'')],
      \<lparr>sf_attrs = [(''max_len'', MetaInt 8)], sf_ty = PathType [(''Vec'', [PathType [(''bool'', [])]])]\<rparr>])\<rparr>"

definition player_exprs :: "string \<Rightarrow> (val list \<Rightarrow> bool) option" where
  "player_exprs s = (if s = ''self.4 == 0'' then Some (\<lambda>vs. prim_val (vs ! 4) = 0) else None)"

definition player_env :: rust_env where
  "player_env = library_env (\<lambda>_. None) (\<lambda>_. Prim 0) (\<lambda>_. None) player_exprs"

definition player :: val where
  "player = Struct [Prim 42, Prim 4095, Str [0x68, 0x69], Prim 0, Prim 7, Items [Prim 1, Prim 0]]"

lemmas player_simps = player_input_def player_env_def player_exprs_def library_env_def find_int_def
  parse_lit_int_def get_default_bits_def List.map_filter_def type_ident_name_def primitive_bit_capacity_def
  get_field_bits_def get_field_bit_width_def validated_def validate_field_bits_def MAX_BIT_WIDTH_def is_bool_type_def
  find_str_def get_with_path_def get_skip_if_def should_serialize_field_def is_byte_aligned_def get_max_len_def

lemmas derive_defs = derive_serialize_def derive_deserialize_def gen_fields_serialize_def gen_fields_deserialize_def
  gen_enum_serialize_def gen_enum_deserialize_def statements_def gen_field_serialize_def gen_field_deserialize_def
  gen_bit_serialize_field_def gen_bit_deserialize_field_def prim_of_def prim_named_def is_option_type_def is_vec_type_def
  is_string_type_def is_array_type_def path_mentions_def item_type_def Let_def

theorem derive_roundtrip_witness:
  "\<exists>ser des b bs. derive_serialize player_env player_input = Some ser \<and> derive_deserialize player_env player_input = Some des \<and>
     ser player BitBuffer_new = (Inr (), b) \<and> into_bytes True b = Inr bs \<and> fst (des (BitBuffer_from_bytes bs)) = Inr player"
proof -
  have lib: "\<forall>ty v. library_ok ty v \<longrightarrow> carries (env_ser player_env ty v) (env_des player_env ty) v"
    by (simp add: player_env_def library_env_def library_carries)
  have "input_accepted player_env player_input" "value_fits player_env library_ok (\<lambda>_ _. False) player_input player"
    by code_simp+
  with lib show ?thesis by (intro derive_roundtrip) simp_all
qed

section \<open>What the macro gets wrong\<close>

text \<open>C39: negative integers cannot be sent. In derived code the range check compares \<open>value as u64\<close>, which
  extends the sign, so every negative value of a signed field narrower than 64 bits is rejected as
  invalid, with or without a \<open>#[bits]\<close> attribute, while the reader could represent it.\<close>

theorem negative_integer_rejected:
  assumes "gen_bit_serialize_field env f defaults input = Some ser" and "get_with_path (env_with env) f = None"
    and "get_field_bit_width f defaults = Some bits" and "0 < bits" and "bits < 64"
    and "prim_of (sf_ty f) = Some (PSigned k)" and "0 < k" and "k \<le> 64" and "bit w (k - 1)"
  shows "ser (Prim w) b = (Inl InvalidData, b)"
proof -
  let ?x = "signed_take_bit (k - 1) w"
  have "bit ?x 63" using assms(7-9) by (auto simp: bit_signed_take_bit_iff min_def)
  have "take_bit bits ?x \<noteq> ?x"
  proof
    assume "take_bit bits ?x = ?x"
    with \<open>bit ?x 63\<close> have "bit (take_bit bits ?x) 63" by simp
    with assms(5) show False by (simp add: bit_take_bit_iff)
  qed
  then have "?x > push_bit bits 1 - 1" using greater_mask[OF assms(5), of ?x] by blast
  moreover have "ser (Prim w) = gen_ser_prim (PSigned k) bits w"
    using assms(1-4,6) by (auto simp: gen_bit_serialize_field_def Let_def)
  ultimately show ?thesis using assms(5) by (simp add: gen_ser_prim_def MAX_BIT_WIDTH_def bio_fail_def)
qed

theorem negative_integer_rejected_witness:
  "\<exists>ser. gen_bit_serialize_field player_env (prim_field ''i32'' []) [] player_input = Some ser \<and>
     ser (Prim 0xFFFFFFFF) BitBuffer_new = (Inl InvalidData, BitBuffer_new)"
proof -
  have "gen_bit_serialize_field player_env (prim_field ''i32'' []) [] player_input \<noteq> None" by code_simp
  then obtain ser where ser: "gen_bit_serialize_field player_env (prim_field ''i32'' []) [] player_input = Some ser" by blast
  moreover have "get_with_path (env_with player_env) (prim_field ''i32'' []) = None" "get_field_bit_width (prim_field ''i32'' []) [] = Some 32"
    "prim_of (PathType [(''i32'', [])]) = Some (PSigned 32)" "bit (0xFFFFFFFF :: u64) (32 - 1)"
    by code_simp+
  ultimately show ?thesis
    using negative_integer_rejected[of player_env "prim_field ''i32'' []" "[]" player_input ser 32 32 "0xFFFFFFFF" BitBuffer_new] by simp
qed

text \<open>Two inputs the macro accepts and gets wrong.\<close>

definition swapped_input :: derive_input where
  "swapped_input = \<lparr>di_attrs = [], di_data = StructData (UnnamedFields [prim_field ''u8'' [(''no_serialize'', MetaPath)], prim_field ''u8'' []])\<rparr>"

definition colliding_input :: derive_input where
  "colliding_input = \<lparr>di_attrs = [], di_data = EnumData
     [\<lparr>vr_attrs = [], vr_fields = UnitFields\<rparr>, \<lparr>vr_attrs = [(''variant_id'', MetaInt 0)], vr_fields = UnitFields\<rparr>]\<rparr>"

definition derived_trip :: "derive_input \<Rightarrow> val \<Rightarrow> (io_error + val) option" where
  "derived_trip input v =
     (case (derive_serialize player_env input, derive_deserialize player_env input) of
        (Some ser, Some des) \<Rightarrow>
          (case ser v BitBuffer_new of
             (Inr _, b) \<Rightarrow> (case into_bytes True b of Inr bs \<Rightarrow> Some (fst (des (BitBuffer_from_bytes bs))) | Inl e \<Rightarrow> Some (Inl e))
           | (Inl e, _) \<Rightarrow> Some (Inl e))
      | _ \<Rightarrow> None)"

lemma derived_tripI:
  assumes "derive_serialize player_env input = Some ser" and "derive_deserialize player_env input = Some des" and "carries (ser v) des x"
  shows "derived_trip input v = Some (Inr x)"
proof -
  obtain b bs where "ser v BitBuffer_new = (Inr (), b)" "into_bytes True b = Inr bs" "fst (des (BitBuffer_from_bytes bs)) = Inr x"
    using assms(3) by (rule carries_bytes)
  with assms(1,2) show ?thesis by (simp add: derived_trip_def)
qed

lemma swapped_trip: "derived_trip swapped_input (Struct [Prim 0, Prim 9]) = Some (Inr (Struct [Prim 9, Prim 0]))"
proof (rule derived_tripI)
  let ?des = "bio_bind (bio_bind (gen_des_prim (PUnsigned 8) 8) (\<lambda>w. bio_return (Prim w))) (\<lambda>v. bio_return [v])"
  have pos: "positions_agree [prim_field ''u8'' [(''no_serialize'', MetaPath)], prim_field ''u8'' []]" by code_simp
  show "derive_serialize player_env swapped_input = Some (\<lambda>v. run_writers [None, Some (\<lambda>all v. gen_ser_prim (PUnsigned 8) 8 (prim_val v))] (struct_val v) (struct_val v))"
    by (simp add: swapped_input_def player_simps derive_defs wrap_byte_align_write_def)
  show "derive_deserialize player_env swapped_input =
      Some (bio_bind (bio_bind (run_readers [bio_bind (gen_des_prim (PUnsigned 8) 8) (\<lambda>w. bio_return (Prim w))])
        (\<lambda>vs. bio_return (place_unnamed player_env [prim_field ''u8'' [(''no_serialize'', MetaPath)], prim_field ''u8'' []] vs))) (\<lambda>vs. bio_return (Struct vs)))"
    using pos by (simp add: swapped_input_def player_simps derive_defs wrap_byte_align_read_def)
  have "carries (bio_then (gen_ser_prim (PUnsigned 8) 8 9) (bio_return ())) (run_readers [bio_bind (gen_des_prim (PUnsigned 8) 8) (\<lambda>w. bio_return (Prim w))]) [Prim 9]"
    using carries_map[OF carries_prim[of "PUnsigned 8" 8 9], of "\<lambda>w. [Prim w]"] by (simp add: bio_bind_assoc)
  from carries_map[OF this, of "\<lambda>vs. Struct (place_unnamed player_env [prim_field ''u8'' [(''no_serialize'', MetaPath)], prim_field ''u8'' []] vs)"]
  show "carries (run_writers [None, Some (\<lambda>all v. gen_ser_prim (PUnsigned 8) 8 (prim_val v))] (struct_val (Struct [Prim 0, Prim 9])) (struct_val (Struct [Prim 0, Prim 9])))
      (bio_bind (bio_bind (run_readers [bio_bind (gen_des_prim (PUnsigned 8) 8) (\<lambda>w. bio_return (Prim w))])
        (\<lambda>vs. bio_return (place_unnamed player_env [prim_field ''u8'' [(''no_serialize'', MetaPath)], prim_field ''u8'' []] vs))) (\<lambda>vs. bio_return (Struct vs)))
      (Struct [Prim 9, Prim 0])"
    by (simp add: struct_val_def place_unnamed_def player_env_def library_env_def bio_bind_assoc)
qed

lemma colliding_trip: "derived_trip colliding_input (Variant 1 []) = Some (Inr (Variant 0 []))"
proof (rule derived_tripI)
  let ?ser = "\<lambda>v. case v of Variant i vs \<Rightarrow> bio_then (write_bits (of_nat (fst ([(0 :: nat, \<lambda>_ :: val list. bio_return ()), (0, \<lambda>_. bio_return ())] ! i))) (Suc 0))
      (snd ([(0 :: nat, \<lambda>_. bio_return ()), (0, \<lambda>_. bio_return ())] ! i) vs) | _ \<Rightarrow> bio_return ()"
  let ?des = "bio_bind (read_bits 1) (\<lambda>n. match_arms 0 [(0, bio_return []), (0, bio_return [])] (unat n))"
  have bits: "enum_variant_bits 2 None = Some 1" by code_simp
  show "derive_serialize player_env colliding_input = Some ?ser"
    using bits by (simp add: colliding_input_def player_simps derive_defs get_enum_bits_def pinned_ids_ok_def get_variant_id_def variant_index_def numeral_2_eq_2)
  show "derive_deserialize player_env colliding_input = Some ?des"
    using bits by (simp add: colliding_input_def player_simps derive_defs get_enum_bits_def get_variant_id_def variant_index_def numeral_2_eq_2)
  have "carries (bio_then (write_bits 0 1) (bio_return ())) ?des (Variant 0 [])"
    by (rule carries_then[OF carries_bits]) (simp_all add: carries_return)
  then show "carries (?ser (Variant 1 [])) ?des (Variant 0 [])" by simp
qed

text \<open>Two inputs the macro accepts and gets wrong. A tuple struct whose first field is left out comes
  back with the second field in the place of the first; an enum that pins \<open>#[variant_id = 0]\<close> on its
  second variant comes back as its first.\<close>

theorem derive_misplaces:
  "derived_trip swapped_input (Struct [Prim 0, Prim 9]) = Some (Inr (Struct [Prim 9, Prim 0])) \<and>
   derived_trip colliding_input (Variant 1 []) = Some (Inr (Variant 0 []))"
  by (simp only: swapped_trip colliding_trip)

text \<open>A float with fewer bits than its pattern keeps the low bits.\<close>

lemma float_truncated: "w < 2 ^ 32 \<Longrightarrow> bits \<le> 32 \<Longrightarrow> carries (gen_ser_prim PF32 bits w) (gen_des_prim PF32 bits) (take_bit bits w)"
  using carries_map[OF carries_bits[of bits w], of "prim_from_u64 PF32"] by (simp add: gen_ser_prim_def gen_des_prim_def min_def)

end
