(* ===== verification/Schema_Packets.thy ===== *)
theory Schema_Packets
  imports Schema_Facts
begin

text \<open>
  The packets of \<open>gbnet/src/packet.rs\<close> are derived types: the syntax of the two declarations, and the
  proof that the codecs of \<open>Packet\<close> are what the macro generates from it.
\<close>

definition packet_header_input :: derive_input where
  "packet_header_input = \<lparr>di_attrs = [], di_data = StructData (NamedFields
     [prim_field ''u32'' [(''bits'', MetaInt 32)], prim_field ''u16'' [(''bits'', MetaInt 16)],
      prim_field ''u16'' [(''bits'', MetaInt 16)], prim_field ''u64'' [(''bits'', MetaInt 64)]])\<rparr>"

definition packet_variant :: "syn_field list \<Rightarrow> syn_variant" where
  "packet_variant fs = \<lparr>vr_attrs = [], vr_fields = (if fs = [] then UnitFields else NamedFields fs)\<rparr>"

text \<open>The fields of the variants, in the order of the declaration.\<close>

definition packet_variants :: "syn_field list list" where
  "packet_variants =
     [[],
      [prim_field ''u64'' [(''bits'', MetaInt 64)]],
      [prim_field ''u64'' [(''bits'', MetaInt 64)]],
      [],
      [prim_field ''u8'' [(''bits'', MetaInt 8)]],
      [prim_field ''u8'' [(''bits'', MetaInt 8)]],
      [],
      [prim_field ''u8'' [(''bits'', MetaInt 3)], prim_field ''bool'' [(''bits'', MetaInt 1)]],
      [prim_field ''u8'' [(''bits'', MetaInt 3)]],
      [prim_field ''u16'' [(''bits'', MetaInt 16)]],
      [prim_field ''u16'' [(''bits'', MetaInt 16)]],
      [],
      [prim_field ''u64'' [(''bits'', MetaInt 64)], prim_field ''u64'' [(''bits'', MetaInt 64)]],
      [prim_field ''u64'' [(''bits'', MetaInt 64)], prim_field ''u64'' [(''bits'', MetaInt 64)]]]"

definition packet_type_input :: derive_input where
  "packet_type_input = \<lparr>di_attrs = [(''bits'', MetaInt 4)], di_data = EnumData (map packet_variant packet_variants)\<rparr>"

text \<open>The values of the two types.\<close>

definition header_val :: "packet_header \<Rightarrow> val" where
  "header_val h = Struct [Prim (ucast (ph_protocol_id h)), Prim (ucast (ph_sequence h)), Prim (ucast (ph_ack h)), Prim (ph_ack_bits h)]"

fun type_val :: "packet_type \<Rightarrow> val" where
  "type_val ConnectionRequest = Variant 0 []"
| "type_val (ConnectionChallenge s) = Variant 1 [Prim s]"
| "type_val (ConnectionResponse s) = Variant 2 [Prim s]"
| "type_val ConnectionAccept = Variant 3 []"
| "type_val (ConnectionDeny r) = Variant 4 [Prim (ucast r)]"
| "type_val (Disconnect r) = Variant 5 [Prim (ucast r)]"
| "type_val KeepAlive = Variant 6 []"
| "type_val (Payload c f) = Variant 7 [Prim (ucast c), Prim (of_bool f)]"
| "type_val (BatchedPayload c) = Variant 8 [Prim (ucast c)]"
| "type_val (MtuProbe n) = Variant 9 [Prim (ucast n)]"
| "type_val (MtuProbeAck n) = Variant 10 [Prim (ucast n)]"
| "type_val AckOnly = Variant 11 []"
| "type_val (ConnectionCookie h l) = Variant 12 [Prim h, Prim l]"
| "type_val (ConnectionRequestWithCookie h l) = Variant 13 [Prim h, Prim l]"

lemma gen_prim_unsigned: "gen_ser_prim (PUnsigned k) bits (ucast x) = gen_ser_bits bits x"
  by (simp add: gen_ser_prim_def gen_ser_bits_def)

lemma gen_prim_bool: "gen_ser_prim PBool bits (of_bool x) = gen_ser_bool bits x"
  by (simp add: gen_ser_prim_def gen_ser_bool_def)

text \<open>A field of the packets as the macro writes and reads it.\<close>

lemma packet_field:
  assumes "prim_named name = Some t" and "0 < bits" and "int bits < 2 ^ 64" and "validate_field_bits (PathType [(name, [])]) bits"
  shows "gen_field_serialize env d input (prim_field name [(''bits'', MetaInt bits)]) = Some (\<lambda>all v. gen_ser_prim t bits (prim_val v))"
    and "gen_field_deserialize env d input (prim_field name [(''bits'', MetaInt bits)]) = Some (bio_bind (gen_des_prim t bits) (\<lambda>w. bio_return (Prim w)))"
    and "should_serialize_field (prim_field name [(''bits'', MetaInt bits)])"
  using assms
  by (simp_all add: gen_field_serialize_def gen_field_deserialize_def gen_bit_serialize_field_def gen_bit_deserialize_field_def
      get_with_path_def get_skip_if_def find_str_def get_field_bit_width_def get_field_bits_def find_int_def parse_lit_int_def validated_def
      prim_of_def type_ident_name_def is_byte_aligned_def wrap_byte_align_write_def wrap_byte_align_read_def should_serialize_field_def Let_def)

lemma packet_widths:
  "validate_field_bits (PathType [(''u8'', [])]) 3" "validate_field_bits (PathType [(''u8'', [])]) 8"
  "validate_field_bits (PathType [(''u16'', [])]) 16" "validate_field_bits (PathType [(''u32'', [])]) 32"
  "validate_field_bits (PathType [(''u64'', [])]) 64" "validate_field_bits (PathType [(''bool'', [])]) (Suc 0)"
  by (simp_all add: validate_field_bits_def primitive_bit_capacity_def type_ident_name_def is_bool_type_def MAX_BIT_WIDTH_def)

lemma packet_prims:
  "prim_named ''u8'' = Some (PUnsigned 8)" "prim_named ''u16'' = Some (PUnsigned 16)" "prim_named ''u32'' = Some (PUnsigned 32)"
  "prim_named ''u64'' = Some (PUnsigned 64)" "prim_named ''bool'' = Some PBool"
  by (simp_all add: prim_named_def)

lemmas packet_fields = packet_field[OF packet_prims(1) _ _ packet_widths(1), simplified] packet_field[OF packet_prims(1) _ _ packet_widths(2), simplified]
  packet_field[OF packet_prims(2) _ _ packet_widths(3), simplified] packet_field[OF packet_prims(3) _ _ packet_widths(4), simplified]
  packet_field[OF packet_prims(4) _ _ packet_widths(5), simplified] packet_field[OF packet_prims(5) _ _ packet_widths(6), simplified]

lemma narrow_widen:
  "ucast (ucast v :: u8) = take_bit 8 (v :: u64)" "ucast (ucast v :: u16) = take_bit 16 (v :: u64)" "ucast (ucast v :: u32) = take_bit 32 (v :: u64)"
  by (rule bit_word_eqI; auto simp: bit_simps)+

lemma gen_des_prim_word:
  "bio_bind (gen_des_prim (PUnsigned 8) n) f = bio_bind (gen_des_bits n) (\<lambda>x :: u8. f (ucast x))"
  "bio_bind (gen_des_prim (PUnsigned 16) n) f = bio_bind (gen_des_bits n) (\<lambda>x :: u16. f (ucast x))"
  "bio_bind (gen_des_prim (PUnsigned 32) n) f = bio_bind (gen_des_bits n) (\<lambda>x :: u32. f (ucast x))"
  "bio_bind (gen_des_prim (PUnsigned 64) n) f = bio_bind (gen_des_bits n) (\<lambda>x :: u64. f x)"
  "bio_bind (gen_des_prim PBool n) f = bio_bind (gen_des_bool n) (\<lambda>x. f (of_bool x))"
  by (auto simp: gen_des_prim_def gen_des_bits_def gen_des_bool_def bio_bind_assoc narrow_widen take_bit_word_eq_self intro!: arg_cong[of _ _ "bio_bind _"])

lemma gen_ser_bits_64: "gen_ser_prim (PUnsigned 64) 64 x = gen_ser_bits 64 x"
  using gen_prim_unsigned[of 64 64 x] by simp

lemma header_serialize: "\<exists>ser. derive_serialize env packet_header_input = Some ser \<and> (\<forall>h. ser (header_val h) = ser_PacketHeader h)"
  by (simp add: derive_serialize_def gen_fields_serialize_def packet_header_input_def statements_def packet_fields header_val_def
      struct_val_def ser_PacketHeader_def gen_prim_unsigned gen_ser_bits_64)

lemma header_deserialize: "derive_deserialize env packet_header_input = Some (bio_bind des_PacketHeader (\<lambda>h. bio_return (header_val h)))"
  by (simp add: derive_deserialize_def gen_fields_deserialize_def packet_header_input_def packet_fields header_val_def
      des_PacketHeader_def bio_bind_assoc gen_des_prim_word)

lemma packet_type_bits: "enum_variant_bits 14 (Some 4) = Some 4" by code_simp

lemma no_ids: "get_variant_id (packet_variant fs) = None" "variant_index i (packet_variant fs) = i"
  by (simp_all add: get_variant_id_def packet_variant_def variant_index_def)

lemma packet_arms:
  "gen_fields_serialize env input (vr_fields (packet_variant fs)) =
     map_option (\<lambda>ss vs. run_writers ss vs vs) (statements (gen_field_serialize env (get_default_bits input) input) fs)"
  "gen_fields_deserialize env input (vr_fields (packet_variant fs)) =
     map_option (\<lambda>ds. bio_bind (run_readers ds) (\<lambda>vs. bio_return (place_named env fs vs)))
       (all_present (map (gen_field_deserialize env (get_default_bits input) input) (filter should_serialize_field fs)))"
  by (auto simp: packet_variant_def gen_fields_serialize_def gen_fields_deserialize_def statements_def fun_eq_iff)

lemma unat_is: "k < 2 ^ 64 \<Longrightarrow> unat (n :: u64) = k \<longleftrightarrow> n = of_nat k"
  by (simp add: word_unat_eq_iff unat_of_nat take_bit_nat_eq_self)

lemma type_input:
  "get_enum_bits packet_type_input = Some 4" "pinned_ids_ok 4 (map packet_variant packet_variants)"
  "di_data packet_type_input = EnumData (map packet_variant packet_variants)" "length packet_variants = 14"
  by (simp_all add: get_enum_bits_def find_int_def packet_type_input_def parse_lit_int_def pinned_ids_ok_def
      List.map_filter_def no_ids comp_def packet_variants_def)

lemmas type_gen_simps = type_input packet_type_bits packet_arms no_ids statements_def packet_fields packet_variants_def

lemma type_serialize: "\<exists>ser. derive_serialize env packet_type_input = Some ser \<and> (\<forall>t. ser (type_val t) = ser_PacketType t)"
  apply (simp add: derive_serialize_def gen_enum_serialize_def type_input packet_type_bits)
  apply (simp add: type_gen_simps)
  apply (rule allI, rule packet_type.induct)
  apply (simp_all add: gen_prim_unsigned gen_prim_bool gen_ser_bits_64)
  done

lemma type_deserialize: "derive_deserialize env packet_type_input = Some (bio_bind des_PacketType (\<lambda>t. bio_return (type_val t)))"
  apply (simp add: derive_deserialize_def gen_enum_deserialize_def type_input packet_type_bits)
  apply (simp add: type_gen_simps)
  apply (simp add: des_PacketType_def bio_bind_assoc)
  apply (rule arg_cong[of _ _ "bio_bind _"], rule ext)
  apply (simp add: des_variant_def unat_is bio_bind_assoc gen_des_prim_word)
  apply (simp add: eval_nat_numeral)
  done

text \<open>C17: the codecs of packets are the derived ones. From the two declarations the macro generates, in any
  environment, exactly the writers and the readers that model \<open>packet.rs\<close>, on the values of the types.\<close>

theorem packet_codecs_derived:
  "(\<exists>ser. derive_serialize env packet_header_input = Some ser \<and> (\<forall>h. ser (header_val h) = ser_PacketHeader h)) \<and>
   derive_deserialize env packet_header_input = Some (bio_bind des_PacketHeader (\<lambda>h. bio_return (header_val h))) \<and>
   (\<exists>ser. derive_serialize env packet_type_input = Some ser \<and> (\<forall>t. ser (type_val t) = ser_PacketType t)) \<and>
   derive_deserialize env packet_type_input = Some (bio_bind des_PacketType (\<lambda>t. bio_return (type_val t)))"
  by (intro conjI header_serialize header_deserialize type_serialize type_deserialize)

end
