(* ===== verification/Byte_Codec.thy ===== *)
theory Byte_Codec
  imports Schema_Facts
begin

text \<open>
  The byte-aligned traits: \<open>ByteAlignedSerialize\<close> and \<open>ByteAlignedDeserialize\<close> of the primitives and the
  collections (\<open>serialize/primitives.rs\<close>, \<open>collections.rs\<close>), the tuples of both modes, and the
  byte-mode code of the derive macro (\<open>gbnet_macros/src/lib.rs\<close>).

  A writer is a function on the bytes written so far, a reader on the bytes left; where a read fails
  the position after it is of no concern, since the code gives up. The little-endian conversions of the
  crate \<open>byteorder\<close> are an argument, \<open>byte_order\<close>, with their documented laws in the locale \<open>byteorder\<close>.
\<close>

section \<open>Streams of bytes\<close>

type_synonym 'a byio = "bytes \<Rightarrow> (io_error + 'a) \<times> bytes"

definition by_return :: "'a \<Rightarrow> 'a byio" where
  "by_return x s = (Inr x, s)"

definition by_fail :: "io_error \<Rightarrow> 'a byio" where
  "by_fail e s = (Inl e, s)"

definition by_bind :: "'a byio \<Rightarrow> ('a \<Rightarrow> 'b byio) \<Rightarrow> 'b byio" where
  "by_bind m f s = (case m s of (Inl e, s') \<Rightarrow> (Inl e, s') | (Inr a, s') \<Rightarrow> f a s')"

definition by_then :: "'a byio \<Rightarrow> 'b byio \<Rightarrow> 'b byio" where
  "by_then m k = by_bind m (\<lambda>_. k)"

record byte_order =
  bo_put :: "nat \<Rightarrow> u64 \<Rightarrow> bytes"
  bo_get :: "nat \<Rightarrow> bytes \<Rightarrow> u64"

definition write_all :: "bytes \<Rightarrow> unit byio" where
  "write_all bs out = (Inr (), out @ bs)"

definition read_exact :: "nat \<Rightarrow> bytes byio" where
  "read_exact n inp = (if length inp < n then (Inl UnexpectedEof, inp) else (Inr (take n inp), drop n inp))"

definition write_u8 :: "u8 \<Rightarrow> unit byio" where
  "write_u8 x = write_all [x]"

definition read_u8 :: "u8 byio" where
  "read_u8 = by_bind (read_exact 1) (\<lambda>bs. by_return (hd bs))"

definition write_uint :: "byte_order \<Rightarrow> nat \<Rightarrow> u64 \<Rightarrow> unit byio" where
  "write_uint bo n x = write_all (bo_put bo n x)"

definition read_uint :: "byte_order \<Rightarrow> nat \<Rightarrow> u64 byio" where
  "read_uint bo n = by_bind (read_exact n) (\<lambda>bs. by_return (bo_get bo n bs))"

section \<open>Primitives and collections\<close>

definition byte_width :: "prim_type \<Rightarrow> nat" where
  "byte_width t = (case t of PBool \<Rightarrow> 1 | PUnsigned k \<Rightarrow> k div 8 | PSigned k \<Rightarrow> k div 8 | PF32 \<Rightarrow> 4 | PF64 \<Rightarrow> 8)"

text \<open>One byte, several bytes, and \<open>bool\<close>; the floats are written as their bit patterns.\<close>

definition byte_ser_bool :: "u64 \<Rightarrow> unit byio" where
  "byte_ser_bool w = write_u8 (if w \<noteq> 0 then 1 else 0)"

definition byte_des_bool :: "u64 byio" where
  "byte_des_bool = by_bind read_u8 (\<lambda>v. by_return (if v \<noteq> 0 then 1 else 0))"

definition byte_ser_single :: "u64 \<Rightarrow> unit byio" where
  "byte_ser_single w = write_u8 (ucast w)"

definition byte_des_single :: "u64 byio" where
  "byte_des_single = by_bind read_u8 (\<lambda>v. by_return (ucast v))"

definition byte_ser_multi :: "byte_order \<Rightarrow> nat \<Rightarrow> u64 \<Rightarrow> unit byio" where
  "byte_ser_multi bo n w = write_uint bo n w"

definition byte_des_multi :: "byte_order \<Rightarrow> nat \<Rightarrow> u64 byio" where
  "byte_des_multi bo n = read_uint bo n"

definition byte_ser_prim :: "byte_order \<Rightarrow> prim_type \<Rightarrow> u64 \<Rightarrow> unit byio" where
  "byte_ser_prim bo t w =
     (if t = PBool then byte_ser_bool w else if byte_width t = 1 then byte_ser_single w else byte_ser_multi bo (byte_width t) w)"

definition byte_des_prim :: "byte_order \<Rightarrow> prim_type \<Rightarrow> u64 byio" where
  "byte_des_prim bo t =
     (if t = PBool then byte_des_bool else if byte_width t = 1 then byte_des_single else byte_des_multi bo (byte_width t))"

lemmas byte_prim_defs = byte_ser_prim_def byte_des_prim_def byte_ser_bool_def byte_des_bool_def byte_ser_single_def
  byte_des_single_def byte_ser_multi_def byte_des_multi_def

definition MAX_DESERIALIZE_LENGTH :: nat where
  "MAX_DESERIALIZE_LENGTH = 1048576"

fun byte_ser_items :: "('a \<Rightarrow> unit byio) \<Rightarrow> 'a list \<Rightarrow> unit byio" where
  "byte_ser_items ser [] = by_return ()"
| "byte_ser_items ser (x # xs) = by_then (ser x) (byte_ser_items ser xs)"

fun byte_des_items :: "'a byio \<Rightarrow> nat \<Rightarrow> 'a list byio" where
  "byte_des_items des 0 = by_return []"
| "byte_des_items des (Suc n) = by_bind des (\<lambda>x. by_bind (byte_des_items des n) (\<lambda>xs. by_return (x # xs)))"

text \<open>\<open>self.len() as u32\<close>: the conversion to four bytes keeps the low 32 bits.\<close>

definition byte_ser_string :: "byte_order \<Rightarrow> bytes \<Rightarrow> unit byio" where
  "byte_ser_string bo s = by_then (write_uint bo 4 (of_nat (length s))) (write_all s)"

definition byte_des_string :: "byte_order \<Rightarrow> bytes byio" where
  "byte_des_string bo =
     by_bind (read_uint bo 4) (\<lambda>n.
       if unat n > MAX_DESERIALIZE_LENGTH then by_fail InvalidData
       else by_bind (read_exact (unat n)) (\<lambda>bs. if utf8_valid bs then by_return bs else by_fail InvalidData))"

definition byte_ser_vec :: "byte_order \<Rightarrow> ('a \<Rightarrow> unit byio) \<Rightarrow> 'a list \<Rightarrow> unit byio" where
  "byte_ser_vec bo ser xs = by_then (write_uint bo 4 (of_nat (length xs))) (byte_ser_items ser xs)"

definition byte_des_vec :: "byte_order \<Rightarrow> 'a byio \<Rightarrow> 'a list byio" where
  "byte_des_vec bo des =
     by_bind (read_uint bo 4) (\<lambda>n.
       if unat n > MAX_DESERIALIZE_LENGTH then by_fail InvalidData else byte_des_items des (unat n))"

definition byte_ser_option :: "('a \<Rightarrow> unit byio) \<Rightarrow> 'a option \<Rightarrow> unit byio" where
  "byte_ser_option ser x = (case x of Some v \<Rightarrow> by_then (write_u8 1) (ser v) | None \<Rightarrow> write_u8 0)"

definition byte_des_option :: "'a byio \<Rightarrow> 'a option byio" where
  "byte_des_option des =
     by_bind read_u8 (\<lambda>has. if has \<noteq> 0 then by_bind des (\<lambda>v. by_return (Some v)) else by_return None)"

definition byte_ser_array :: "('a \<Rightarrow> unit byio) \<Rightarrow> 'a list \<Rightarrow> unit byio" where
  "byte_ser_array ser xs = byte_ser_items ser xs"

definition byte_des_array :: "'a byio \<Rightarrow> nat \<Rightarrow> 'a list byio" where
  "byte_des_array des n = byte_des_items des n"

definition byte_ser_pair :: "('a \<Rightarrow> unit byio) \<Rightarrow> ('b \<Rightarrow> unit byio) \<Rightarrow> 'a \<times> 'b \<Rightarrow> unit byio" where
  "byte_ser_pair s t p = by_then (s (fst p)) (t (snd p))"

definition byte_des_pair :: "'a byio \<Rightarrow> 'b byio \<Rightarrow> ('a \<times> 'b) byio" where
  "byte_des_pair d e = by_bind d (\<lambda>x. by_bind e (\<lambda>y. by_return (x, y)))"

definition byte_ser_triple ::
  "('a \<Rightarrow> unit byio) \<Rightarrow> ('b \<Rightarrow> unit byio) \<Rightarrow> ('c \<Rightarrow> unit byio) \<Rightarrow> 'a \<times> 'b \<times> 'c \<Rightarrow> unit byio" where
  "byte_ser_triple s t u p = (case p of (x, y, z) \<Rightarrow> by_then (s x) (by_then (t y) (u z)))"

definition byte_des_triple :: "'a byio \<Rightarrow> 'b byio \<Rightarrow> 'c byio \<Rightarrow> ('a \<times> 'b \<times> 'c) byio" where
  "byte_des_triple d e f = by_bind d (\<lambda>x. by_bind e (\<lambda>y. by_bind f (\<lambda>z. by_return (x, y, z))))"

definition byte_ser_quad ::
  "('a \<Rightarrow> unit byio) \<Rightarrow> ('b \<Rightarrow> unit byio) \<Rightarrow> ('c \<Rightarrow> unit byio) \<Rightarrow> ('d \<Rightarrow> unit byio) \<Rightarrow> 'a \<times> 'b \<times> 'c \<times> 'd \<Rightarrow> unit byio" where
  "byte_ser_quad s t u v p = (case p of (w, x, y, z) \<Rightarrow> by_then (s w) (by_then (t x) (by_then (u y) (v z))))"

definition byte_des_quad :: "'a byio \<Rightarrow> 'b byio \<Rightarrow> 'c byio \<Rightarrow> 'd byio \<Rightarrow> ('a \<times> 'b \<times> 'c \<times> 'd) byio" where
  "byte_des_quad d e f g =
     by_bind d (\<lambda>w. by_bind e (\<lambda>x. by_bind f (\<lambda>y. by_bind g (\<lambda>z. by_return (w, x, y, z)))))"

text \<open>The tuples of the bit mode.\<close>

definition ser_triple ::
  "('a \<Rightarrow> unit bio) \<Rightarrow> ('b \<Rightarrow> unit bio) \<Rightarrow> ('c \<Rightarrow> unit bio) \<Rightarrow> 'a \<times> 'b \<times> 'c \<Rightarrow> unit bio" where
  "ser_triple s t u p = (case p of (x, y, z) \<Rightarrow> bio_then (s x) (bio_then (t y) (u z)))"

definition des_triple :: "'a bio \<Rightarrow> 'b bio \<Rightarrow> 'c bio \<Rightarrow> ('a \<times> 'b \<times> 'c) bio" where
  "des_triple d e f = bio_bind d (\<lambda>x. bio_bind e (\<lambda>y. bio_bind f (\<lambda>z. bio_return (x, y, z))))"

definition ser_quad ::
  "('a \<Rightarrow> unit bio) \<Rightarrow> ('b \<Rightarrow> unit bio) \<Rightarrow> ('c \<Rightarrow> unit bio) \<Rightarrow> ('d \<Rightarrow> unit bio) \<Rightarrow> 'a \<times> 'b \<times> 'c \<times> 'd \<Rightarrow> unit bio" where
  "ser_quad s t u v p = (case p of (w, x, y, z) \<Rightarrow> bio_then (s w) (bio_then (t x) (bio_then (u y) (v z))))"

definition des_quad :: "'a bio \<Rightarrow> 'b bio \<Rightarrow> 'c bio \<Rightarrow> 'd bio \<Rightarrow> ('a \<times> 'b \<times> 'c \<times> 'd) bio" where
  "des_quad d e f g =
     bio_bind d (\<lambda>w. bio_bind e (\<lambda>x. bio_bind f (\<lambda>y. bio_bind g (\<lambda>z. bio_return (w, x, y, z)))))"

section \<open>The byte mode of the macro\<close>

record byte_env =
  be_ser :: "syn_type \<Rightarrow> val \<Rightarrow> unit byio"
  be_des :: "syn_type \<Rightarrow> val byio"
  be_with :: "string \<Rightarrow> ((val \<Rightarrow> unit byio) \<times> val byio) option"

text \<open>
  The primitives for which the macro writes the bytes itself. For \<open>i8\<close> it emits \<open>write_u8\<close> and
  \<open>read_u8\<close> without a cast, which the compiler refuses.
\<close>

definition byte_inline :: "syn_type \<Rightarrow> prim_type option" where
  "byte_inline ty =
     (case type_ident_name ty of
        Some n \<Rightarrow> (if n \<in> {''u8'', ''u16'', ''i16'', ''u32'', ''i32'', ''u64'', ''i64'', ''f32'', ''f64'', ''bool''} then prim_named n else None)
      | None \<Rightarrow> None)"

definition gen_byte_serialize_field ::
  "byte_order \<Rightarrow> byte_env \<Rightarrow> (string \<times> nat) list \<Rightarrow> syn_field \<Rightarrow> (val \<Rightarrow> unit byio) option" where
  "gen_byte_serialize_field bo env defaults f =
     (case get_with_path (be_with env) f of
        Some w \<Rightarrow> Some (fst w)
      | None \<Rightarrow>
          (case get_field_bit_width f defaults of
             None \<Rightarrow> None
           | Some bits \<Rightarrow>
               if bits > 0 then
                 (if type_ident_name (sf_ty f) = Some ''i8'' then None
                  else case byte_inline (sf_ty f) of
                         Some t \<Rightarrow> Some (\<lambda>v. byte_ser_prim bo t (prim_val v))
                       | None \<Rightarrow> Some (be_ser env (sf_ty f)))
               else Some (be_ser env (sf_ty f))))"

definition gen_byte_deserialize_field ::
  "byte_order \<Rightarrow> byte_env \<Rightarrow> (string \<times> nat) list \<Rightarrow> syn_field \<Rightarrow> val byio option" where
  "gen_byte_deserialize_field bo env defaults f =
     (case get_with_path (be_with env) f of
        Some w \<Rightarrow> Some (snd w)
      | None \<Rightarrow>
          (case get_field_bit_width f defaults of
             None \<Rightarrow> None
           | Some bits \<Rightarrow>
               if bits > 0 then
                 (if type_ident_name (sf_ty f) = Some ''i8'' then None
                  else case byte_inline (sf_ty f) of
                         Some t \<Rightarrow> Some (by_bind (byte_des_prim bo t) (\<lambda>w. by_return (Prim w)))
                       | None \<Rightarrow> Some (be_des env (sf_ty f)))
               else Some (be_des env (sf_ty f))))"

fun run_byte_writers :: "(val \<Rightarrow> unit byio) option list \<Rightarrow> val list \<Rightarrow> unit byio" where
  "run_byte_writers (s # ss) (v # vs) =
     (case s of Some ser \<Rightarrow> by_then (ser v) (run_byte_writers ss vs) | None \<Rightarrow> run_byte_writers ss vs)"
| "run_byte_writers _ _ = by_return ()"

fun run_byte_readers :: "'a byio list \<Rightarrow> 'a list byio" where
  "run_byte_readers [] = by_return []"
| "run_byte_readers (d # ds) = by_bind d (\<lambda>v. by_bind (run_byte_readers ds) (\<lambda>vs. by_return (v # vs)))"

definition gen_byte_fields_serialize :: "byte_order \<Rightarrow> byte_env \<Rightarrow> derive_input \<Rightarrow> syn_fields \<Rightarrow> (val list \<Rightarrow> unit byio) option" where
  "gen_byte_fields_serialize bo env input flds =
     (case flds of
        NamedFields fs \<Rightarrow> map_option run_byte_writers (statements (gen_byte_serialize_field bo env (get_default_bits input)) fs)
      | UnnamedFields fs \<Rightarrow> map_option run_byte_writers (statements (gen_byte_serialize_field bo env (get_default_bits input)) fs)
      | UnitFields \<Rightarrow> Some (\<lambda>_. by_return ()))"

definition gen_byte_fields_deserialize ::
  "byte_order \<Rightarrow> rust_env \<Rightarrow> byte_env \<Rightarrow> derive_input \<Rightarrow> syn_fields \<Rightarrow> val list byio option" where
  "gen_byte_fields_deserialize bo renv env input flds =
     (case flds of
        NamedFields fs \<Rightarrow>
          map_option (\<lambda>ds. by_bind (run_byte_readers ds) (\<lambda>vs. by_return (place_named renv fs vs)))
            (all_present (map (gen_byte_deserialize_field bo env (get_default_bits input)) (filter should_serialize_field fs)))
      | UnnamedFields fs \<Rightarrow>
          if positions_agree fs
          then map_option (\<lambda>ds. by_bind (run_byte_readers ds) (\<lambda>vs. by_return (place_unnamed renv fs vs)))
            (all_present (map (gen_byte_deserialize_field bo env (get_default_bits input)) (filter should_serialize_field fs)))
          else None
      | UnitFields \<Rightarrow> Some (by_return []))"

text \<open>The index of a variant is one byte here, whatever the width: \<open>write_u8(index as u8)\<close>.\<close>

definition gen_byte_enum_serialize :: "byte_order \<Rightarrow> byte_env \<Rightarrow> derive_input \<Rightarrow> syn_variant list \<Rightarrow> (val \<Rightarrow> unit byio) option" where
  "gen_byte_enum_serialize bo env input variants =
     (case enum_variant_bits (length variants) (get_enum_bits input) of
        None \<Rightarrow> None
      | Some bits \<Rightarrow>
          if \<not> pinned_ids_ok bits variants then None
          else map_option (\<lambda>arms v. case v of
                 Variant i vs \<Rightarrow> by_then (write_u8 (of_nat (fst (arms ! i)))) (snd (arms ! i) vs)
               | _ \<Rightarrow> by_return ())
             (all_present (map (\<lambda>(i, v). map_option (Pair (variant_index i v)) (gen_byte_fields_serialize bo env input (vr_fields v)))
               (enumerate 0 variants))))"

fun match_byte_arms :: "nat \<Rightarrow> (nat \<times> val list byio) list \<Rightarrow> nat \<Rightarrow> val byio" where
  "match_byte_arms i [] n = by_fail InvalidData"
| "match_byte_arms i ((n', des) # arms) n =
     (if n = n' then by_bind des (\<lambda>vs. by_return (Variant i vs)) else match_byte_arms (i + 1) arms n)"

definition gen_byte_enum_deserialize ::
  "byte_order \<Rightarrow> rust_env \<Rightarrow> byte_env \<Rightarrow> derive_input \<Rightarrow> syn_variant list \<Rightarrow> val byio option" where
  "gen_byte_enum_deserialize bo renv env input variants =
     (case enum_variant_bits (length variants) (get_enum_bits input) of
        None \<Rightarrow> None
      | Some bits \<Rightarrow>
          map_option (\<lambda>arms. by_bind read_u8 (\<lambda>n. match_byte_arms 0 arms (unat n)))
            (all_present (map (\<lambda>(i, v). map_option (Pair (variant_index i v)) (gen_byte_fields_deserialize bo renv env input (vr_fields v)))
              (enumerate 0 variants))))"

definition derive_byte_serialize :: "byte_order \<Rightarrow> byte_env \<Rightarrow> derive_input \<Rightarrow> (val \<Rightarrow> unit byio) option" where
  "derive_byte_serialize bo env input =
     (case di_data input of
        StructData flds \<Rightarrow> map_option (\<lambda>ser v. ser (struct_val v)) (gen_byte_fields_serialize bo env input flds)
      | EnumData variants \<Rightarrow> gen_byte_enum_serialize bo env input variants
      | UnionData \<Rightarrow> None)"

definition derive_byte_deserialize :: "byte_order \<Rightarrow> rust_env \<Rightarrow> byte_env \<Rightarrow> derive_input \<Rightarrow> val byio option" where
  "derive_byte_deserialize bo renv env input =
     (case di_data input of
        StructData flds \<Rightarrow> map_option (\<lambda>des. by_bind des (\<lambda>vs. by_return (Struct vs))) (gen_byte_fields_deserialize bo renv env input flds)
      | EnumData variants \<Rightarrow> gen_byte_enum_deserialize bo renv env input variants
      | UnionData \<Rightarrow> None)"

text \<open>The four implementations of one \<open>#[derive(NetworkSerialize)]\<close>; the type compiles when all do.\<close>

definition derive_network_serialize ::
  "byte_order \<Rightarrow> rust_env \<Rightarrow> byte_env \<Rightarrow> derive_input \<Rightarrow>
   ((val \<Rightarrow> unit bio) \<times> val bio \<times> (val \<Rightarrow> unit byio) \<times> val byio) option" where
  "derive_network_serialize bo renv env input =
     (case (derive_serialize renv input, derive_deserialize renv input,
            derive_byte_serialize bo env input, derive_byte_deserialize bo renv env input) of
        (Some s, Some d, Some bs, Some bd) \<Rightarrow> Some (s, d, bs, bd)
      | _ \<Rightarrow> None)"

section \<open>The implementations of the library\<close>

text \<open>The types the crate implements the byte-aligned traits for, and the user's types by name.\<close>

type_synonym byte_user_types = "string \<Rightarrow> ((val \<Rightarrow> unit byio) \<times> val byio) option"

fun byte_library_ser :: "byte_order \<Rightarrow> byte_user_types \<Rightarrow> syn_type \<Rightarrow> val \<Rightarrow> unit byio" where
  "byte_library_ser bo user (PathType [(name, [])]) v =
     (case impl_named name of
        Some t \<Rightarrow> byte_ser_prim bo t (prim_val v)
      | None \<Rightarrow> if name = ''String'' then byte_ser_string bo (str_val v)
               else case user name of Some w \<Rightarrow> fst w v | None \<Rightarrow> by_fail InvalidInput)"
| "byte_library_ser bo user (PathType [(name, [t])]) v =
     (if name = ''Vec'' then byte_ser_vec bo (byte_library_ser bo user t) (items_val v)
      else if name = ''Option'' then byte_ser_option (byte_library_ser bo user t) (opt_val v)
      else by_fail InvalidInput)"
| "byte_library_ser bo user (ArrayType t (Some n)) v =
     (if n \<in> set array_sizes then byte_ser_array (byte_library_ser bo user t) (items_val v) else by_fail InvalidInput)"
| "byte_library_ser bo user _ v = by_fail InvalidInput"

fun byte_library_des :: "byte_order \<Rightarrow> byte_user_types \<Rightarrow> syn_type \<Rightarrow> val byio" where
  "byte_library_des bo user (PathType [(name, [])]) =
     (case impl_named name of
        Some t \<Rightarrow> by_bind (byte_des_prim bo t) (\<lambda>w. by_return (Prim w))
      | None \<Rightarrow> if name = ''String'' then by_bind (byte_des_string bo) (\<lambda>s. by_return (Str s))
               else case user name of Some w \<Rightarrow> snd w | None \<Rightarrow> by_fail InvalidInput)"
| "byte_library_des bo user (PathType [(name, [t])]) =
     (if name = ''Vec'' then by_bind (byte_des_vec bo (byte_library_des bo user t)) (\<lambda>vs. by_return (Items vs))
      else if name = ''Option'' then by_bind (byte_des_option (byte_library_des bo user t)) (\<lambda>v. by_return (Opt v))
      else by_fail InvalidInput)"
| "byte_library_des bo user (ArrayType t (Some n)) =
     (if n \<in> set array_sizes then by_bind (byte_des_array (byte_library_des bo user t) n) (\<lambda>vs. by_return (Items vs)) else by_fail InvalidInput)"
| "byte_library_des bo user _ = by_fail InvalidInput"

definition byte_library_env :: "byte_order \<Rightarrow> byte_user_types \<Rightarrow> byte_user_types \<Rightarrow> byte_env" where
  "byte_library_env bo user modules = \<lparr>be_ser = byte_library_ser bo user, be_des = byte_library_des bo user, be_with = modules\<rparr>"

end
