(* ===== verification/Byte_Facts.thy ===== *)
theory Byte_Facts
  imports Byte_Codec
begin

text \<open>
  The byte-aligned codecs are correct. The contract of a writer and a reader is \<open>byte_carries\<close>: the
  writer appends some bytes, the reader takes exactly these off the front and gives the value. What is
  documented of the crate \<open>byteorder\<close> is the locale \<open>byteorder\<close>, interpreted on the little-endian images
  of \<open>Prelude\<close>; the locale \<open>byte_derive_env\<close> adds the trait implementations that the code generated for
  byte mode calls, interpreted on those of the library.
\<close>

section \<open>Carrying a value\<close>

definition byte_carries :: "unit byio \<Rightarrow> 'a byio \<Rightarrow> 'a \<Rightarrow> bool" where
  "byte_carries m d x \<longleftrightarrow> (\<exists>e. (\<forall>out. m out = (Inr (), out @ e)) \<and> (\<forall>rest. d (e @ rest) = (Inr x, rest)))"

lemma byte_carriesI:
  "(\<And>out. m out = (Inr (), out @ e)) \<Longrightarrow> (\<And>rest. d (e @ rest) = (Inr x, rest)) \<Longrightarrow> byte_carries m d x"
  by (auto simp: byte_carries_def)

lemma byte_carries_then:
  assumes "byte_carries m d x" and "byte_carries k (f x) y"
  shows "byte_carries (by_then m k) (by_bind d f) y"
proof -
  from assms(1) obtain e where e: "\<And>out. m out = (Inr (), out @ e)" "\<And>rest. d (e @ rest) = (Inr x, rest)"
    by (auto simp: byte_carries_def)
  from assms(2) obtain g where g: "\<And>out. k out = (Inr (), out @ g)" "\<And>rest. f x (g @ rest) = (Inr y, rest)"
    by (auto simp: byte_carries_def)
  show ?thesis by (rule byte_carriesI[of _ "e @ g"]) (simp_all add: by_then_def by_bind_def e g)
qed

lemma byte_carries_return: "byte_carries (by_return ()) (by_return x) x"
  by (rule byte_carriesI[of _ "[]"]) (simp_all add: by_return_def)

lemma by_then_return [simp]: "by_then m (by_return ()) = m"
  by (rule ext) (auto simp: by_then_def by_bind_def by_return_def split: prod.splits sum.splits)

lemma byte_carries_map: "byte_carries m d x \<Longrightarrow> byte_carries m (by_bind d (\<lambda>a. by_return (f a))) (f x)"
  using byte_carries_then[of m d x "by_return ()" "\<lambda>a. by_return (f a)" "f x"] by (simp add: byte_carries_return)

lemma byte_carries_bytes: "byte_carries (write_all bs) (read_exact (length bs)) bs"
  by (rule byte_carriesI[of _ bs]) (simp_all add: write_all_def read_exact_def)

lemma byte_carries_u8: "byte_carries (write_u8 x) read_u8 x"
  by (rule byte_carriesI[of _ "[x]"]) (simp_all add: write_u8_def write_all_def read_u8_def read_exact_def by_bind_def by_return_def)

lemma byte_carries_items:
  "(\<And>v. v \<in> set vs \<Longrightarrow> byte_carries (ser v) des v) \<Longrightarrow> byte_carries (byte_ser_items ser vs) (byte_des_items des (length vs)) vs"
proof (induction vs)
  case Nil
  then show ?case by (simp add: byte_carries_return)
next
  case (Cons v vs)
  then show ?case by (auto intro!: byte_carries_then[of "ser v"] byte_carries_map)
qed

lemma byte_carries_option:
  assumes "\<And>y. x = Some y \<Longrightarrow> byte_carries (ser y) des y"
  shows "byte_carries (byte_ser_option ser x) (byte_des_option des) x"
proof (cases x)
  case None
  have "byte_carries (by_then (write_u8 0) (by_return ())) (byte_des_option des) None"
    unfolding byte_des_option_def by (rule byte_carries_then[OF byte_carries_u8]) (simp add: byte_carries_return)
  then show ?thesis using None by (simp add: byte_ser_option_def)
next
  case (Some y)
  with assms show ?thesis
    by (auto simp: byte_ser_option_def byte_des_option_def intro!: byte_carries_then[OF byte_carries_u8] byte_carries_map)
qed

text \<open>Tuples, in both modes.\<close>

lemma byte_carries_tuples:
  assumes "byte_carries (s x) d x" and "byte_carries (t y) e y"
  shows "byte_carries (byte_ser_pair s t (x, y)) (byte_des_pair d e) (x, y)"
    and "byte_carries (u z) f z \<Longrightarrow> byte_carries (byte_ser_triple s t u (x, y, z)) (byte_des_triple d e f) (x, y, z)"
    and "byte_carries (u z) f z \<Longrightarrow> byte_carries (v w) g w \<Longrightarrow>
      byte_carries (byte_ser_quad s t u v (x, y, z, w)) (byte_des_quad d e f g) (x, y, z, w)"
  using assms
  by (auto simp: byte_ser_pair_def byte_des_pair_def byte_ser_triple_def byte_des_triple_def byte_ser_quad_def byte_des_quad_def
      intro!: byte_carries_then[OF assms(1)] byte_carries_then[OF assms(2)] byte_carries_then[of "u z"] byte_carries_map)

lemma carries_tuples:
  assumes "carries (s x) d x" and "carries (t y) e y" and "carries (u z) f z"
  shows "carries (ser_triple s t u (x, y, z)) (des_triple d e f) (x, y, z)"
    and "carries (v w) g w \<Longrightarrow> carries (ser_quad s t u v (x, y, z, w)) (des_quad d e f g) (x, y, z, w)"
  using assms
  by (auto simp: ser_triple_def des_triple_def ser_quad_def des_quad_def
      intro!: carries_then[OF assms(1)] carries_then[OF assms(2)] carries_then[OF assms(3)] carries_map)

section \<open>The crate byteorder\<close>

text \<open>\<open>write_u16\<close>, \<open>write_u32\<close>, \<open>write_u64\<close> and their readers: so many bytes, and the low bits come back.\<close>

locale byteorder =
  fixes bo :: byte_order
  assumes put_length: "n \<in> {2, 4, 8} \<Longrightarrow> length (bo_put bo n w) = n"
    and get_put: "n \<in> {2, 4, 8} \<Longrightarrow> bo_get bo n (bo_put bo n w) = take_bit (8 * n) w"
begin

lemma carries_number: "n \<in> {2, 4, 8} \<Longrightarrow> byte_carries (write_uint bo n w) (read_uint bo n) (take_bit (8 * n) w)"
  by (rule byte_carriesI[of _ "bo_put bo n w"])
    (simp_all add: write_uint_def write_all_def read_uint_def read_exact_def by_bind_def by_return_def put_length get_put)

lemma carries_length:
  assumes "k \<le> MAX_DESERIALIZE_LENGTH"
    and "byte_carries m (d k) x"
  shows "byte_carries (by_then (write_uint bo 4 (of_nat k)) m)
    (by_bind (read_uint bo 4) (\<lambda>n. if unat n > MAX_DESERIALIZE_LENGTH then by_fail InvalidData else d (unat n))) x"
proof -
  have "unat (take_bit 32 (of_nat k :: u64)) = k"
    using assms(1) by (simp only: unsigned_take_bit_eq unat_of_nat) (simp add: take_bit_nat_eq_self MAX_DESERIALIZE_LENGTH_def)
  with assms show ?thesis by (intro byte_carries_then[OF carries_number]) simp_all
qed

lemma carries_vector:
  assumes "length vs \<le> MAX_DESERIALIZE_LENGTH" and "\<And>v. v \<in> set vs \<Longrightarrow> byte_carries (ser v) des v"
  shows "byte_carries (byte_ser_vec bo ser vs) (byte_des_vec bo des) vs"
  unfolding byte_ser_vec_def byte_des_vec_def using assms by (intro carries_length byte_carries_items)

lemma carries_text:
  assumes "length s \<le> MAX_DESERIALIZE_LENGTH" and "utf8_valid s"
  shows "byte_carries (byte_ser_string bo s) (byte_des_string bo) s"
proof -
  have "byte_carries (by_then (write_all s) (by_return ()))
      (by_bind (read_exact (length s)) (\<lambda>bs. if utf8_valid bs then by_return bs else by_fail InvalidData)) s"
    by (rule byte_carries_then[OF byte_carries_bytes]) (simp add: assms(2) byte_carries_return)
  with assms(1) show ?thesis unfolding byte_ser_string_def byte_des_string_def by (intro carries_length) simp_all
qed

text \<open>A primitive whose pattern is one of its type.\<close>

lemma carries_primitive:
  assumes "byte_width t \<in> {1, 2, 4, 8}" and "if t = PBool then w = 0 \<or> w = 1 else take_bit (8 * byte_width t) w = w"
  shows "byte_carries (byte_ser_prim bo t w) (byte_des_prim bo t) w"
proof (cases "t = PBool")
  case True
  then show ?thesis
    using assms(2) byte_carries_map[OF byte_carries_u8[of "if w \<noteq> 0 then 1 else 0"], of "\<lambda>v. if v \<noteq> 0 then 1 else 0 :: u64"]
    by (auto simp: byte_prim_defs)
next
  case False
  have "ucast (ucast w :: u8) = w" if "take_bit 8 w = w"
    by (rule bit_word_eqI) (use that in \<open>auto simp: bit_simps dest: arg_cong[of _ _ "\<lambda>w. bit w _"]\<close>)
  then show ?thesis
    using False assms carries_number[of "byte_width t" w] byte_carries_map[OF byte_carries_u8[of "ucast w"], of "ucast :: u8 \<Rightarrow> u64"]
    by (auto simp: byte_prim_defs)
qed

end

definition little_endian :: byte_order where
  "little_endian = \<lparr>bo_put = \<lambda>n w. le_bytes n w, bo_get = \<lambda>n bs. from_le_bytes bs\<rparr>"

lemma from_le_bytes_take: "from_le_bytes (le_bytes n (w :: u64)) = take_bit (8 * n) w"
proof (rule bit_word_eqI)
  fix i
  assume i: "i < LENGTH(64)"
  show "bit (from_le_bytes (le_bytes n w) :: u64) i \<longleftrightarrow> bit (take_bit (8 * n) w) i"
  proof (cases "i < 8 * n")
    case True
    then have "i div 8 < n" by (simp add: div_less_iff_less_mult mult.commute)
    with True i show ?thesis by (simp add: bit_from_le_bytes nth_le_bytes bit_ucast_iff bit_drop_bit_eq bit_take_bit_iff)
  next
    case False
    then show ?thesis by (simp add: bit_from_le_bytes bit_take_bit_iff)
  qed
qed

interpretation le: byteorder little_endian
  by unfold_locales (auto simp: little_endian_def from_le_bytes_take)

section \<open>The code generated for byte mode\<close>

text \<open>
  What a field can carry in byte mode; \<open>#[max_len]\<close>, \<open>#[skip_if]\<close> and \<open>#[byte_align]\<close> have no effect there.
\<close>

definition byte_field_fits ::
  "byte_env \<Rightarrow> (syn_type \<Rightarrow> val \<Rightarrow> bool) \<Rightarrow> ((val \<Rightarrow> unit byio) \<times> val byio \<Rightarrow> val \<Rightarrow> bool) \<Rightarrow> derive_input \<Rightarrow> syn_field \<Rightarrow> val \<Rightarrow> bool" where
  "byte_field_fits env ok okw input f v \<longleftrightarrow>
     (case get_with_path (be_with env) f of
        Some w \<Rightarrow> okw w v
      | None \<Rightarrow>
          (case get_field_bit_width f (get_default_bits input) of
             None \<Rightarrow> False
           | Some bits \<Rightarrow>
               (case (if bits > 0 then byte_inline (sf_ty f) else None) of
                  Some t \<Rightarrow> (case v of Prim w \<Rightarrow> if t = PBool then w = 0 \<or> w = 1 else take_bit (8 * byte_width t) w = w | _ \<Rightarrow> False)
                | None \<Rightarrow> ok (sf_ty f) v)))"

definition byte_slot_fits ::
  "rust_env \<Rightarrow> byte_env \<Rightarrow> (syn_type \<Rightarrow> val \<Rightarrow> bool) \<Rightarrow> ((val \<Rightarrow> unit byio) \<times> val byio \<Rightarrow> val \<Rightarrow> bool) \<Rightarrow> derive_input \<Rightarrow> syn_field \<Rightarrow> val \<Rightarrow> bool" where
  "byte_slot_fits renv env ok okw input f v \<longleftrightarrow>
     (if should_serialize_field f then byte_field_fits env ok okw input f v else v = env_default renv (sf_ty f))"

definition byte_fields_fit ::
  "rust_env \<Rightarrow> byte_env \<Rightarrow> (syn_type \<Rightarrow> val \<Rightarrow> bool) \<Rightarrow> ((val \<Rightarrow> unit byio) \<times> val byio \<Rightarrow> val \<Rightarrow> bool) \<Rightarrow> derive_input \<Rightarrow> syn_fields \<Rightarrow> val list \<Rightarrow> bool" where
  "byte_fields_fit renv env ok okw input flds vs \<longleftrightarrow>
     (case flds of
        NamedFields fs \<Rightarrow> list_all2 (byte_slot_fits renv env ok okw input) fs vs
      | UnnamedFields fs \<Rightarrow> list_all2 (byte_slot_fits renv env ok okw input) fs vs \<and>
          filter should_serialize_field fs = takeWhile should_serialize_field fs
      | UnitFields \<Rightarrow> vs = [])"

text \<open>The variant's index must fit the byte it is written in.\<close>

definition byte_value_fits ::
  "rust_env \<Rightarrow> byte_env \<Rightarrow> (syn_type \<Rightarrow> val \<Rightarrow> bool) \<Rightarrow> ((val \<Rightarrow> unit byio) \<times> val byio \<Rightarrow> val \<Rightarrow> bool) \<Rightarrow> derive_input \<Rightarrow> val \<Rightarrow> bool" where
  "byte_value_fits renv env ok okw input v \<longleftrightarrow>
     (case (di_data input, v) of
        (StructData flds, Struct vs) \<Rightarrow> byte_fields_fit renv env ok okw input flds vs
      | (EnumData variants, Variant i vs) \<Rightarrow> i < length variants \<and> indices_distinct variants \<and>
          variant_index i (variants ! i) < 256 \<and> byte_fields_fit renv env ok okw input (vr_fields (variants ! i)) vs
      | _ \<Rightarrow> False)"

lemma byte_slot_left_out: "list_all2 (byte_slot_fits renv env ok okw input) fs vs \<Longrightarrow> list_all2 (left_out_default renv) fs vs"
  by (erule list_all2_mono) (simp add: byte_slot_fits_def left_out_default_def split: if_splits)

lemma byte_inline_width: "byte_inline ty = Some t \<Longrightarrow> byte_width t \<in> {1, 2, 4, 8}"
  by (auto simp: byte_inline_def prim_named_def byte_width_def split: option.splits if_splits)

text \<open>The interface of the generated code to the trait implementations and modules it calls.\<close>

locale byte_derive_env = byteorder +
  fixes env :: byte_env
    and ok :: "syn_type \<Rightarrow> val \<Rightarrow> bool"
    and okw :: "(val \<Rightarrow> unit byio) \<times> val byio \<Rightarrow> val \<Rightarrow> bool"
  assumes trait_carries: "ok ty v \<Longrightarrow> byte_carries (be_ser env ty v) (be_des env ty) v"
    and module_carries: "okw w v \<Longrightarrow> byte_carries (fst w v) (snd w) v"
begin

lemma field_carries:
  assumes "gen_byte_serialize_field bo env (get_default_bits input) f = Some ser"
    and "gen_byte_deserialize_field bo env (get_default_bits input) f = Some des"
    and "byte_field_fits env ok okw input f v"
  shows "byte_carries (ser v) des v"
proof (cases "get_with_path (be_with env) f")
  case (Some w)
  then show ?thesis using assms module_carries
    by (auto simp: gen_byte_serialize_field_def gen_byte_deserialize_field_def byte_field_fits_def)
next
  case None
  obtain bits where bits: "get_field_bit_width f (get_default_bits input) = Some bits"
    using assms(3) None by (auto simp: byte_field_fits_def split: option.splits)
  have prim: "byte_carries (byte_ser_prim bo t w) (by_bind (byte_des_prim bo t) (\<lambda>w. by_return (Prim w))) (Prim w)"
    if "byte_inline (sf_ty f) = Some t" "if t = PBool then w = 0 \<or> w = 1 else take_bit (8 * byte_width t) w = w" for t w
    using byte_carries_map[OF carries_primitive[OF byte_inline_width[OF that(1)] that(2)], of Prim] .
  show ?thesis
    using assms None bits prim trait_carries
    by (auto simp: gen_byte_serialize_field_def gen_byte_deserialize_field_def byte_field_fits_def split: if_splits option.splits val.splits)
qed

lemma run_carries:
  assumes "list_all2 (byte_slot_fits renv env ok okw input) fs vs"
    and "map (\<lambda>f. if should_serialize_field f then map_option Some (gen_byte_serialize_field bo env (get_default_bits input) f) else Some None) fs = map Some ss"
    and "map (gen_byte_deserialize_field bo env (get_default_bits input)) (filter should_serialize_field fs) = map Some ds"
  shows "byte_carries (run_byte_writers ss vs) (run_byte_readers ds) (read_values fs vs)"
  using assms
proof (induction arbitrary: ss ds rule: list_all2_induct)
  case Nil
  then show ?case by (simp add: read_values_def byte_carries_return)
next
  case (Cons f fs v vs)
  show ?case
  proof (cases "should_serialize_field f")
    case True
    then obtain ser ss' des ds' where g: "ss = Some ser # ss'" "ds = des # ds'"
      "gen_byte_serialize_field bo env (get_default_bits input) f = Some ser" "gen_byte_deserialize_field bo env (get_default_bits input) f = Some des"
      using Cons.prems by (auto simp: Cons_eq_map_conv)
    have "byte_carries (ser v) des v" using field_carries[OF g(3,4)] Cons.hyps(1) True by (simp add: byte_slot_fits_def)
    moreover have "byte_carries (run_byte_writers ss' vs) (run_byte_readers ds') (read_values fs vs)"
      using Cons.IH Cons.prems True g by simp
    ultimately show ?thesis
      using g True by (auto simp: read_values_def intro!: byte_carries_then[of "ser v"] byte_carries_map)
  next
    case False
    then obtain ss' where "ss = None # ss'" using Cons.prems(1) by (auto simp: Cons_eq_map_conv)
    with Cons False show ?thesis by (simp add: read_values_def)
  qed
qed

lemma fields_carry:
  assumes "gen_byte_fields_serialize bo env input flds = Some ser" and "gen_byte_fields_deserialize bo renv env input flds = Some des"
    and "byte_fields_fit renv env ok okw input flds vs"
  shows "byte_carries (ser vs) des vs"
proof (cases flds)
  case (NamedFields fs)
  then obtain ss ds where g: "statements (gen_byte_serialize_field bo env (get_default_bits input)) fs = Some ss" "ser = run_byte_writers ss"
    "all_present (map (gen_byte_deserialize_field bo env (get_default_bits input)) (filter should_serialize_field fs)) = Some ds"
    "des = by_bind (run_byte_readers ds) (\<lambda>vs. by_return (place_named renv fs vs))"
    using assms(1,2) by (auto simp: gen_byte_fields_serialize_def gen_byte_fields_deserialize_def)
  have "byte_carries (run_byte_writers ss vs) (run_byte_readers ds) (read_values fs vs)"
    using assms(3) NamedFields g by (intro run_carries) (auto simp: statements_def all_present_Some byte_fields_fit_def)
  from byte_carries_map[OF this, of "place_named renv fs"] show ?thesis
    using g NamedFields assms(3) by (simp add: byte_fields_fit_def place_named_read byte_slot_left_out)
next
  case (UnnamedFields fs)
  then obtain ss ds where g: "statements (gen_byte_serialize_field bo env (get_default_bits input)) fs = Some ss" "ser = run_byte_writers ss"
    "all_present (map (gen_byte_deserialize_field bo env (get_default_bits input)) (filter should_serialize_field fs)) = Some ds"
    "des = by_bind (run_byte_readers ds) (\<lambda>vs. by_return (place_unnamed renv fs vs))"
    using assms(1,2) by (auto simp: gen_byte_fields_serialize_def gen_byte_fields_deserialize_def split: if_splits)
  have fits: "list_all2 (byte_slot_fits renv env ok okw input) fs vs" "filter should_serialize_field fs = takeWhile should_serialize_field fs"
    using assms(3) UnnamedFields by (simp_all add: byte_fields_fit_def)
  have "byte_carries (run_byte_writers ss vs) (run_byte_readers ds) (read_values fs vs)"
    using fits(1) g by (intro run_carries) (auto simp: statements_def all_present_Some)
  moreover have "place_unnamed renv fs (read_values fs vs) = vs"
    using byte_slot_left_out[OF fits(1)] fits(2) by (rule place_unnamed_read[OF _ trans[OF _ takeWhile_eq_take]])
  ultimately show ?thesis using g byte_carries_map[of _ _ _ "place_unnamed renv fs"] by metis
next
  case UnitFields
  with assms show ?thesis
    by (auto simp: gen_byte_fields_serialize_def gen_byte_fields_deserialize_def byte_fields_fit_def intro: byte_carries_return)
qed

end

lemma match_byte_arms_nth:
  "i < length arms \<Longrightarrow> distinct (map fst arms) \<Longrightarrow>
   match_byte_arms j arms (fst (arms ! i)) = by_bind (snd (arms ! i)) (\<lambda>vs. by_return (Variant (j + i) vs))"
proof (induction arms arbitrary: i j)
  case (Cons arm arms)
  show ?case
  proof (cases i)
    case 0
    then show ?thesis by (cases arm) simp
  next
    case (Suc k)
    with Cons.prems have "arms ! k \<in> set arms" by simp
    with Cons.prems(2) have "fst (arms ! k) \<noteq> fst arm" by (metis distinct.simps(2) image_eqI list.set_map list.simps(9))
    then show ?thesis using Cons.IH[of k "j + 1"] Cons.prems Suc by (cases arm) simp
  qed
qed simp

context byte_derive_env
begin

lemma enum_carries:
  assumes "gen_byte_enum_serialize bo env input variants = Some ser" and "gen_byte_enum_deserialize bo renv env input variants = Some des"
    and "i < length variants" and "indices_distinct variants" and "variant_index i (variants ! i) < 256"
    and "byte_fields_fit renv env ok okw input (vr_fields (variants ! i)) vs"
  shows "byte_carries (ser (Variant i vs)) des (Variant i vs)"
proof -
  obtain arms where a: "map (\<lambda>(i, v). map_option (Pair (variant_index i v)) (gen_byte_fields_serialize bo env input (vr_fields v))) (enumerate 0 variants) = map Some arms"
    "ser (Variant i vs) = by_then (write_u8 (of_nat (fst (arms ! i)))) (snd (arms ! i) vs)"
    using assms(1) by (auto simp: gen_byte_enum_serialize_def all_present_Some split: option.splits if_splits)
  obtain arms' where a': "map (\<lambda>(i, v). map_option (Pair (variant_index i v)) (gen_byte_fields_deserialize bo renv env input (vr_fields v))) (enumerate 0 variants) = map Some arms'"
    "des = by_bind read_u8 (\<lambda>n. match_byte_arms 0 arms' (unat n))"
    using assms(2) by (auto simp: gen_byte_enum_deserialize_def all_present_Some split: option.splits)
  note s = arms_nth[OF a(1)] and d = arms_nth[OF a'(1)]
  let ?n = "variant_index i (variants ! i)"
  have "unat (of_nat ?n :: u8) = ?n" using assms(5) by (simp add: unat_of_nat)
  moreover have "match_byte_arms 0 arms' ?n = by_bind (snd (arms' ! i)) (\<lambda>vs. by_return (Variant i vs))"
    using match_byte_arms_nth[of i arms' 0] d assms(3,4) by (simp add: indices_distinct_def)
  moreover have "byte_carries (snd (arms ! i) vs) (snd (arms' ! i)) vs"
    using fields_carry[OF _ _ assms(6)] s(3)[OF assms(3)] d(3)[OF assms(3)] by blast
  ultimately have "byte_carries (by_then (write_u8 (of_nat ?n)) (snd (arms ! i) vs)) des (Variant i vs)"
    unfolding a'(2) by (intro byte_carries_then[OF byte_carries_u8]) (simp add: byte_carries_map)
  then show ?thesis using a(2) s(3)[OF assms(3)] by simp
qed

lemma derive_carries:
  assumes "derive_byte_serialize bo env input = Some ser" and "derive_byte_deserialize bo renv env input = Some des"
    and "byte_value_fits renv env ok okw input v"
  shows "byte_carries (ser v) des v"
proof (cases "di_data input")
  case (StructData flds)
  then obtain vs where "v = Struct vs" "byte_fields_fit renv env ok okw input flds vs"
    using assms(3) by (auto simp: byte_value_fits_def split: val.splits)
  with StructData assms(1,2) show ?thesis
    using fields_carry[where flds = flds and vs = vs]
    by (auto simp: derive_byte_serialize_def derive_byte_deserialize_def struct_val_def intro!: byte_carries_map)
next
  case (EnumData variants)
  then obtain i vs where "v = Variant i vs" "i < length variants" "indices_distinct variants" "variant_index i (variants ! i) < 256"
    "byte_fields_fit renv env ok okw input (vr_fields (variants ! i)) vs"
    using assms(3) by (auto simp: byte_value_fits_def split: val.splits)
  with EnumData assms(1,2) show ?thesis
    using enum_carries[where variants = variants and i = i and vs = vs] by (simp add: derive_byte_serialize_def derive_byte_deserialize_def)
next
  case UnionData
  with assms(1) show ?thesis by (simp add: derive_byte_serialize_def)
qed

end

section \<open>The implementations of the library\<close>

text \<open>The values the library's implementations carry: up to \<open>MAX_DESERIALIZE_LENGTH\<close> items.\<close>

fun byte_library_ok :: "syn_type \<Rightarrow> val \<Rightarrow> bool" where
  "byte_library_ok (PathType [(name, [])]) v =
     (case (impl_named name, v) of
        (Some t, Prim w) \<Rightarrow> (if t = PBool then w = 0 \<or> w = 1 else take_bit (8 * byte_width t) w = w)
      | (None, Str s) \<Rightarrow> name = ''String'' \<and> utf8_valid s \<and> length s \<le> MAX_DESERIALIZE_LENGTH
      | _ \<Rightarrow> False)"
| "byte_library_ok (PathType [(name, [t])]) v =
     (case v of
        Items vs \<Rightarrow> name = ''Vec'' \<and> length vs \<le> MAX_DESERIALIZE_LENGTH \<and> list_all (byte_library_ok t) vs
      | Opt x \<Rightarrow> name = ''Option'' \<and> (case x of None \<Rightarrow> True | Some y \<Rightarrow> byte_library_ok t y)
      | _ \<Rightarrow> False)"
| "byte_library_ok (ArrayType t (Some n)) v =
     (case v of Items vs \<Rightarrow> n \<in> set array_sizes \<and> length vs = n \<and> list_all (byte_library_ok t) vs | _ \<Rightarrow> False)"
| "byte_library_ok _ v = False"

lemma impl_width: "impl_named name = Some t \<Longrightarrow> byte_width t \<in> {1, 2, 4, 8}"
  by (auto simp: impl_named_def prim_named_def byte_width_def split: if_splits)

context byteorder
begin

lemma implementations_carry:
  "byte_library_ok ty v \<Longrightarrow> byte_carries (byte_library_ser bo user ty v) (byte_library_des bo user ty) v"
proof (induction ty v rule: byte_library_ok.induct)
  case (1 name v)
  then show ?case
    using byte_carries_map[OF carries_primitive[OF impl_width], of name _ _ Prim] byte_carries_map[OF carries_text, of _ Str]
    by (auto split: option.splits val.splits)
next
  case (2 name t v)
  have "byte_carries (byte_ser_option (byte_library_ser bo user t) x) (by_bind (byte_des_option (byte_library_des bo user t)) (\<lambda>v. by_return (Opt v))) (Opt x)"
    if "\<And>y. x = Some y \<Longrightarrow> byte_carries (byte_library_ser bo user t y) (byte_library_des bo user t) y" for x
    using that by (intro byte_carries_map byte_carries_option)
  with 2 show ?case
    using byte_carries_map[OF carries_vector[of _ "byte_library_ser bo user t" "byte_library_des bo user t"], of _ Items]
    by (auto simp: opt_val_def list_all_iff split: val.splits option.splits)
next
  case (3 t n v)
  then show ?case
    using byte_carries_map[OF byte_carries_items[of _ "byte_library_ser bo user t" "byte_library_des bo user t"], of _ Items]
    by (auto simp: byte_ser_array_def byte_des_array_def list_all_iff split: val.splits)
qed simp_all

end

interpretation byte_library: byte_derive_env little_endian "byte_library_env little_endian user modules" byte_library_ok "\<lambda>_ _. False"
  by unfold_locales (simp_all add: byte_library_env_def le.implementations_carry)

section \<open>What the macro accepts\<close>

definition byte_field_accepted :: "byte_env \<Rightarrow> derive_input \<Rightarrow> syn_field \<Rightarrow> bool" where
  "byte_field_accepted env input f \<longleftrightarrow> (if get_with_path (be_with env) f \<noteq> None then True
     else case get_field_bit_width f (get_default_bits input) of
            None \<Rightarrow> False
          | Some bits \<Rightarrow> (if bits > 0 then type_ident_name (sf_ty f) \<noteq> Some ''i8'' else True))"

definition byte_fields_accepted :: "byte_env \<Rightarrow> derive_input \<Rightarrow> syn_fields \<Rightarrow> bool" where
  "byte_fields_accepted env input flds \<longleftrightarrow>
     (case flds of
        NamedFields fs \<Rightarrow> list_all (byte_field_accepted env input) (filter should_serialize_field fs)
      | UnnamedFields fs \<Rightarrow> list_all (byte_field_accepted env input) (filter should_serialize_field fs) \<and> positions_agree fs
      | UnitFields \<Rightarrow> True)"

definition byte_input_accepted :: "byte_env \<Rightarrow> derive_input \<Rightarrow> bool" where
  "byte_input_accepted env input \<longleftrightarrow>
     (case di_data input of
        StructData flds \<Rightarrow> byte_fields_accepted env input flds
      | EnumData variants \<Rightarrow>
          (case enum_variant_bits (length variants) (get_enum_bits input) of
             None \<Rightarrow> False
           | Some bits \<Rightarrow> pinned_ids_ok bits variants \<and> list_all (\<lambda>v. byte_fields_accepted env input (vr_fields v)) variants)
      | UnionData \<Rightarrow> False)"

lemma byte_field_gen_iff:
  "gen_byte_serialize_field bo env (get_default_bits input) f \<noteq> None \<longleftrightarrow> byte_field_accepted env input f"
  "gen_byte_deserialize_field bo env (get_default_bits input) f \<noteq> None \<longleftrightarrow> byte_field_accepted env input f"
  by (auto simp: gen_byte_serialize_field_def gen_byte_deserialize_field_def byte_field_accepted_def split: option.splits if_splits)

text \<open>What \<open>statements\<close> and \<open>all_present\<close> need, whatever generates a field.\<close>

lemma statements_accepted:
  assumes "\<And>f. gen f \<noteq> None \<longleftrightarrow> acc f" and "list_all acc (filter should_serialize_field fs)"
  shows "statements gen fs \<noteq> None" and "all_present (map gen (filter should_serialize_field fs)) \<noteq> None"
  unfolding statements_def all_present_None
  using assms by (auto simp: list_all_iff split: if_splits) (metis option.distinct(1))+

lemma variants_accepted:
  assumes "\<And>v. v \<in> set variants \<Longrightarrow> gen v \<noteq> None"
  shows "all_present (map (\<lambda>(i, v). map_option (Pair (variant_index i v)) (gen v)) (enumerate 0 variants)) \<noteq> None"
  unfolding all_present_None using assms by (auto simp: in_set_enumerate_eq) (metis nth_mem option.distinct(1))

lemma byte_fields_gen_accepted:
  assumes "byte_fields_accepted env input flds"
  shows "gen_byte_fields_serialize bo env input flds \<noteq> None" and "gen_byte_fields_deserialize bo renv env input flds \<noteq> None"
  using assms statements_accepted[OF byte_field_gen_iff(1)] statements_accepted[OF byte_field_gen_iff(2)]
  by (auto simp: byte_fields_accepted_def gen_byte_fields_serialize_def gen_byte_fields_deserialize_def split: syn_fields.splits)

lemma byte_accepted_generates:
  assumes "byte_input_accepted env input"
  obtains ser des where "derive_byte_serialize bo env input = Some ser" and "derive_byte_deserialize bo renv env input = Some des"
proof -
  have "derive_byte_serialize bo env input \<noteq> None \<and> derive_byte_deserialize bo renv env input \<noteq> None"
  proof (cases "di_data input")
    case (EnumData variants)
    then obtain bits where bits: "enum_variant_bits (length variants) (get_enum_bits input) = Some bits" "pinned_ids_ok bits variants"
      and a: "\<forall>v \<in> set variants. byte_fields_accepted env input (vr_fields v)"
      using assms by (auto simp: byte_input_accepted_def list_all_iff split: option.splits)
    have "gen_byte_enum_serialize bo env input variants \<noteq> None"
      using bits variants_accepted[of variants "\<lambda>v. gen_byte_fields_serialize bo env input (vr_fields v)"] a byte_fields_gen_accepted(1)
      by (simp add: gen_byte_enum_serialize_def)
    moreover have "gen_byte_enum_deserialize bo renv env input variants \<noteq> None"
      using bits variants_accepted[of variants "\<lambda>v. gen_byte_fields_deserialize bo renv env input (vr_fields v)"] a byte_fields_gen_accepted(2)
      by (simp add: gen_byte_enum_deserialize_def)
    ultimately show ?thesis using EnumData by (simp add: derive_byte_serialize_def derive_byte_deserialize_def)
  next
    case (StructData flds)
    then show ?thesis
      using assms byte_fields_gen_accepted[of env input flds] by (simp add: byte_input_accepted_def derive_byte_serialize_def derive_byte_deserialize_def)
  next
    case UnionData
    with assms show ?thesis by (simp add: byte_input_accepted_def)
  qed
  then show ?thesis using that by blast
qed

section \<open>Byte mode is correct up to 256 variants\<close>

text \<open>C16: derived byte-mode code round-trips, in the middle of any stream. For every struct and enum the macro
  accepts, the writer appends bytes that do not depend on what is written already, and the reader takes
  exactly these bytes off the front of its input and gives the value: provided the byte order behaves as
  documented, the implementations called carry their values, the value's primitives are patterns of
  their types, fields left out hold their default, those of a tuple come last, no two variants have the
  same index and the variant's index fits one byte.\<close>

theorem byte_derive_roundtrip:
  assumes "byteorder bo"
    and "\<forall>ty v. ok ty v \<longrightarrow> byte_carries (be_ser env ty v) (be_des env ty) v"
    and "\<forall>w v. okw w v \<longrightarrow> byte_carries (fst w v) (snd w) v"
    and "byte_input_accepted env input" and "byte_value_fits renv env ok okw input v"
  shows "\<exists>ser des bs. derive_byte_serialize bo env input = Some ser \<and> derive_byte_deserialize bo renv env input = Some des \<and>
    (\<forall>out. ser v out = (Inr (), out @ bs)) \<and> (\<forall>rest. des (bs @ rest) = (Inr v, rest))"
proof -
  have env: "byte_derive_env bo env ok okw"
    using assms(1-3) by (intro byte_derive_env.intro byte_derive_env_axioms.intro) simp_all
  obtain ser des where sd: "derive_byte_serialize bo env input = Some ser" "derive_byte_deserialize bo renv env input = Some des"
    using assms(4) by (rule byte_accepted_generates)
  from env sd assms(5) have "byte_carries (ser v) des v" by (rule byte_derive_env.derive_carries)
  then show ?thesis using sd by (auto simp: byte_carries_def)
qed

definition byte_player_env :: byte_env where
  "byte_player_env = byte_library_env little_endian (\<lambda>_. None) (\<lambda>_. None)"

definition byte_player :: val where
  "byte_player = Struct [Prim 200, Prim 0xFFFF, Str [0x68, 0x69], Prim 0, Prim 0xFFFFFFF9, Items [Prim 1, Prim 0]]"

theorem byte_derive_roundtrip_witness:
  "\<exists>ser des bs. derive_byte_serialize little_endian byte_player_env player_input = Some ser \<and>
     derive_byte_deserialize little_endian player_env byte_player_env player_input = Some des \<and>
     (\<forall>out. ser byte_player out = (Inr (), out @ bs)) \<and> (\<forall>rest. des (bs @ rest) = (Inr byte_player, rest))"
proof -
  have lib: "\<forall>ty v. byte_library_ok ty v \<longrightarrow> byte_carries (be_ser byte_player_env ty v) (be_des byte_player_env ty) v"
    by (simp add: byte_player_env_def byte_library_env_def le.implementations_carry)
  have "byte_input_accepted byte_player_env player_input"
    by code_simp
  moreover have "byte_value_fits player_env byte_player_env byte_library_ok (\<lambda>_ _. False) player_input byte_player"
    by (simp add: player_simps byte_player_env_def byte_library_env_def byte_player_def byte_value_fits_def byte_fields_fit_def
        byte_slot_fits_def byte_field_fits_def byte_inline_def prim_named_def byte_width_def impl_named_def MAX_DESERIALIZE_LENGTH_def)
  ultimately show ?thesis using lib le.byteorder_axioms by (intro byte_derive_roundtrip) simp_all
qed

lemma match_byte_arms_index:
  "fst (match_byte_arms j arms n s) = Inr (Variant i vs) \<Longrightarrow> j \<le> i \<and> i - j < length arms \<and> fst (arms ! (i - j)) = n"
proof (induction j arms n arbitrary: s rule: match_byte_arms.induct)
  case (1 j n)
  then show ?case by (simp add: by_fail_def)
next
  case (2 j n' des arms n)
  show ?case
  proof (cases "n = n'")
    case True
    with 2(2) have "j = i" by (auto simp: by_bind_def by_return_def split: prod.splits sum.splits)
    with True show ?thesis by simp
  next
    case False
    with 2 have "j + 1 \<le> i \<and> i - (j + 1) < length arms \<and> fst (arms ! (i - (j + 1))) = n" by (metis match_byte_arms.simps(2))
    then show ?thesis by (auto simp: nth_Cons')
  qed
qed

text \<open>C40: a variant beyond the 256th index is lost in byte mode. However many bits the enum asks for, its index
  is written as one byte, so a variant with an index of 256 or more is never the result of reading,
  whatever the bytes, and so never comes back as itself, although writing it reports no error.\<close>

theorem byte_index_lost:
  assumes "derive_byte_deserialize bo renv env \<lparr>di_attrs = attrs, di_data = EnumData variants\<rparr> = Some des"
    and "i < length variants" and "256 \<le> variant_index i (variants ! i)"
  shows "fst (des bytes) \<noteq> Inr (Variant i vs)"
proof
  assume read: "fst (des bytes) = Inr (Variant i vs)"
  let ?input = "\<lparr>di_attrs = attrs, di_data = EnumData variants\<rparr>"
  obtain arms where a: "map (\<lambda>(i, v). map_option (Pair (variant_index i v)) (gen_byte_fields_deserialize bo renv env ?input (vr_fields v))) (enumerate 0 variants) = map Some arms"
    "des = by_bind read_u8 (\<lambda>n. match_byte_arms 0 arms (unat n))"
    using assms(1) by (auto simp: derive_byte_deserialize_def gen_byte_enum_deserialize_def all_present_Some split: option.splits)
  obtain n rest where "fst (match_byte_arms 0 arms (unat (n :: u8)) rest) = Inr (Variant i vs)"
    using read a(2) by (auto simp: by_bind_def split: prod.splits sum.splits)
  from match_byte_arms_index[OF this] have "fst (arms ! i) = unat n" by simp
  with arms_nth(3)[OF a(1) assms(2)] assms(3) unat_u8_less[of n] show False by simp
qed

definition wide_variants :: "syn_variant list" where
  "wide_variants = [\<lparr>vr_attrs = [], vr_fields = UnitFields\<rparr>, \<lparr>vr_attrs = [(''variant_id'', MetaInt 256)], vr_fields = UnitFields\<rparr>]"

definition wide_input :: derive_input where
  "wide_input = \<lparr>di_attrs = [(''bits'', MetaInt 16)], di_data = EnumData wide_variants\<rparr>"

text \<open>Written as the second variant, read as the first.\<close>

lemma wide_variant_trip:
  "\<exists>ser des. derive_byte_serialize bo env wide_input = Some ser \<and> derive_byte_deserialize bo renv env wide_input = Some des \<and>
     ser (Variant 1 []) [] = (Inr (), [0]) \<and> des [0] = (Inr (Variant 0 []), [])"
proof -
  have bits: "enum_variant_bits (Suc (Suc 0)) (Some 16) = Some 16" by code_simp
  show ?thesis
    using bits
    by (simp add: wide_input_def wide_variants_def derive_byte_serialize_def derive_byte_deserialize_def gen_byte_enum_serialize_def
        gen_byte_enum_deserialize_def get_enum_bits_def find_int_def parse_lit_int_def pinned_ids_ok_def get_variant_id_def
        variant_index_def List.map_filter_def gen_byte_fields_serialize_def gen_byte_fields_deserialize_def
        write_u8_def write_all_def read_u8_def read_exact_def by_bind_def by_return_def)
qed

theorem byte_index_lost_witness:
  "\<exists>des. derive_byte_deserialize little_endian player_env byte_player_env wide_input = Some des \<and> fst (des [0]) \<noteq> Inr (Variant 1 [])"
proof -
  obtain des where "derive_byte_deserialize little_endian player_env byte_player_env wide_input = Some des"
    using wide_variant_trip by blast
  moreover have "1 < length wide_variants" "256 \<le> variant_index 1 (wide_variants ! 1)"
    by (simp_all add: wide_variants_def variant_index_def get_variant_id_def parse_lit_int_def)
  ultimately show ?thesis
    using byte_index_lost[of little_endian player_env byte_player_env "[(''bits'', MetaInt 16)]" wide_variants des 1 "[0]" "[]"]
    by (simp add: wide_input_def)
qed

end
