(* ===== verification/Spec2Isabelle.thy ===== *)
theory Spec2Isabelle
  imports Packet Sequence Rust_Std Security Batch Fragment Mtu Config
    Channel_Order Channel_Retransmit Reliability_Facts Congestion Connection_Facts End_To_End Exchange
    Delta Replication Simulator Schema_Packets Byte_Facts
begin

text \<open>
  A verification development for gbnet, a game networking library in Rust: reliable transport over UDP
  with a bit-packed wire format. The sources are \<open>gbnet/src\<close> (the library) and \<open>gbnet_macros/src\<close>
  (its derive macros); paths below are relative to \<open>gbnet/src\<close>.

  \<^bold>\<open>The program.\<close> An application holds a client (\<open>client.rs\<close>) or a server (\<open>server.rs\<close>) and calls its
  \<open>update\<close> once per tick. It takes the datagrams that wait at the socket (\<open>socket.rs\<close>), checks and strips
  their CRC (\<open>security.rs\<close>), parses the packet (\<open>packet.rs\<close>, over the bit buffer and the derived codecs of
  \<open>serialize/\<close> and the macros) and hands it to the connection (\<open>connection/\<close>). The connection runs the
  handshake, feeds acknowledgements to the reliability endpoint (\<open>reliability.rs\<close>) and payloads to its
  channels (\<open>channel.rs\<close>), through the fragment assembler (\<open>fragment.rs\<close>) or out of a batch
  (\<open>congestion.rs\<close>); in the other direction it collects the channels' messages in the order of their
  priority, within the budget of the congestion controller, fragments or batches them, numbers the packets
  and queues them for sending. Delta compression, priorities, interest, snapshot interpolation and the
  network simulator stand beside it: the application calls them, no connection does.

  \<^bold>\<open>Conventions.\<close> A struct is a record with a prefix for its fields, an enum a datatype, an operation on
  \<open>&mut self\<close> a function that returns the new state, an \<open>Err\<close> the left of a sum, a panic the value \<open>None\<close>
  (release builds: no overflow or debug assertions). Integers that wrap are words; counters that cannot
  reach their end in practice are \<open>nat\<close>; \<open>f32\<close> and \<open>f64\<close> are exact operations with rounding (\<open>Floats\<close>).
  Every loop ends: structural recursion, or \<open>function\<close> with a measure (bits left to write or read,
  datagrams waiting, messages queued, entries of a map). The only bound chosen by the model is the number
  of turns of the eviction of tokens, one per entry of the table, which is enough (\<open>evict_tokens_exit\<close>).

  \<^bold>\<open>Arguments instead of definitions.\<close> What is not the program's is an argument: the clock (one reading
  per call), the order in which a \<open>HashMap\<close> is walked (\<open>is_iter_order\<close>, collected in \<open>map_orders\<close> and
  \<open>server_env\<close>), random draws, the operating system's socket (\<open>os_socket\<close>: the answers to come and the
  datagrams sent), AES-GCM of the crate \<open>ring\<close> (seal and open), the crate \<open>byteorder\<close> (\<open>byte_order\<close>,
  locale \<open>byteorder\<close>), and for the macros what the compiler and the user supply (\<open>rust_env\<close>, \<open>byte_env\<close>).

  \<^bold>\<open>Foundations.\<close>
  \<^item> \<open>Prelude\<close>: word types, byte images of words, I/O errors, generic lemmas, and the locale
    \<open>invariant_machine\<close> (operations that keep an invariant), interpreted for the assembler, the MTU search,
    the sender's queue, the token table, the window and the endpoint.
  \<^item> \<open>Rust_Std\<close>: instants and durations, \<open>HashMap\<close>, iterator functions, and the locale \<open>evicting_table\<close> of
    tables that drop their oldest entry, interpreted for tokens, fragment buffers and packets in flight.
  \<^item> \<open>Floats\<close>: \<open>f32\<close> and \<open>f64\<close> with rounding, comparison and casts. The two zeros are one value.
  \<^item> \<open>Simulation\<close>: the locale of machines that implement an automaton over observable labels, interpreted
    for the client's session and the server's roster.

  \<^bold>\<open>The wire.\<close>
  \<^item> \<open>Bit_IO\<close> (\<open>serialize/mod.rs\<close>): the bit buffer, its fast paths and loops; a buffer represents a list of
    bits, writes append to it and reads take from its front.
  \<^item> \<open>Codec\<close> (\<open>serialize/primitives.rs\<close>, \<open>collections.rs\<close>): the bit mode of the traits, with the locale
    \<open>bit_codec\<close> of writers and readers that invert each other. \<open>Derive\<close>: single templates of the macro over
    typed values. \<open>Packet\<close> (\<open>packet.rs\<close>): packets; what is read is what was written, and only canonical
    encodings are read.
  \<^item> \<open>Schema\<close> (\<open>gbnet_macros/src/lib.rs\<close>): the macro as a function on syntax trees. \<open>Schema_Facts\<close>: its output
    is correct for every input it accepts, and where it is not. \<open>Schema_Packets\<close>: the codecs of \<open>Packet\<close>
    are its output.
  \<^item> \<open>Byte_Codec\<close>, \<open>Byte_Facts\<close>: the byte-aligned traits and the macro's byte mode.
  \<^item> \<open>Crc\<close>, \<open>Security\<close> (\<open>security.rs\<close>): the checksum and what it detects; tokens, rate limits, cookies and
    nonces.
  \<^item> \<open>Batch\<close> (\<open>congestion.rs\<close>), \<open>Fragment\<close>, \<open>Mtu\<close> (\<open>fragment.rs\<close>): packing, splitting and reassembly, MTU search.

  \<^bold>\<open>A connection.\<close>
  \<^item> \<open>Sequence\<close> (\<open>util.rs\<close>): circular numbers, with the locale \<open>circular_order\<close>.
  \<^item> \<open>Config\<close> (\<open>config.rs\<close>), \<open>Stats\<close> (\<open>stats.rs\<close>), \<open>Socket\<close> (\<open>socket.rs\<close>, \<open>wire.rs\<close>).
  \<^item> \<open>Channel\<close> (\<open>channel.rs\<close>): the five delivery modes. \<open>Channel_Order\<close>: what the receiver delivers over a network
    that loses, duplicates and reorders (a step relation and its invariant). \<open>Channel_Retransmit\<close>: the sender.
  \<^item> \<open>Reliability\<close>, \<open>Reliability_Facts\<close> (\<open>reliability.rs\<close>): sequence buffers, acknowledgement words, round-trip
    times; the word says exactly what has arrived, processing releases exactly what it covers.
  \<^item> \<open>Congestion\<close> (\<open>congestion.rs\<close>): the controller, the window and the bandwidth tracker.
  \<^item> \<open>Connection\<close>, \<open>Connection_Facts\<close> (\<open>connection/\<close>): the handshake as a step relation, the numbering of packets,
    the end of unanswered attempts, the absence of panics.
  \<^item> \<open>Channel_Ends\<close>, \<open>End_To_End\<close>: the two ends of a reliable ordered channel, each through its whole
    connection (\<open>outbox\<close>, \<open>sending\<close> for the sender, \<open>inbox\<close>, \<open>receiving\<close> for the receiver), composed over a
    network that loses, duplicates and reorders (\<open>link_step\<close>): what the one application is handed is what
    the other one sent, in order.

  \<^bold>\<open>Client and server.\<close>
  \<^item> \<open>Client\<close>, \<open>Client_Facts\<close> (\<open>client.rs\<close>): the events a client shows are a run of the session automaton.
  \<^item> \<open>Server\<close>, \<open>Server_Facts\<close> (\<open>server.rs\<close>): the events a server shows are a log of its table of clients; the
    bounds of the tables; what a peer can reach that skips parts of the handshake.
  \<^item> \<open>Exchange\<close>: a client and a server over real datagrams. This theory: from the send queue of one connection
    to the handling of the packets by the other.

  \<^bold>\<open>Replication.\<close>
  \<^item> \<open>Delta\<close> (\<open>delta.rs\<close>, \<open>gbnet_macros/src/delta.rs\<close>): derived differences and the two sides of delta
    compression, with the locale \<open>delta_contract\<close> of the trait; what the receiver accepts is what was sent.
  \<^item> \<open>Replication\<close> (\<open>priority.rs\<close>, \<open>interest.rs\<close>, \<open>interpolation.rs\<close>), \<open>Simulator\<close> (\<open>simulator.rs\<close>).

  \<^bold>\<open>Not modelled.\<close> The texts of errors (\<open>Display\<close>, \<open>Debug\<close>), logging, \<open>to_bit_string\<close>, and accessors that return
  one field have no behaviour to state. The bounds on the type parameters of generic types that the macro adds
  (\<open>add_trait_bounds\<close>) matter to the compiler only. The roots of the crates (\<open>lib.rs\<close>, \<open>connection/mod.rs\<close>'s
  re-exports) declare modules. Tests, examples and benchmarks are not part of the library. Two calls of the
  clock within one operation read the same instant, and a call that allocates does not fail.

  \<^bold>\<open>Where the model is coarser.\<close> Sizes and counters are \<open>nat\<close>: sums of two unvalidated sizes (the midpoint
  of the MTU search) do not wrap. A \<open>SequenceBuffer\<close> of size 0, which \<open>validate\<close> refuses but
  \<open>Connection::new\<close> alone does not, panics on its first packet; the model stores no entry. \<open>Instant\<close>s are
  integers, so one before the start of the clock is a value and no panic. \<open>#[bits]\<close> is modelled on the
  primitive types by their names, not on aliases of them.
\<close>

section \<open>From queue to queue\<close>

text \<open>C10: what a connection queues is what its peer handles. Without encryption and without send
  errors, when all packets of the queue fit the wire and have the peer's protocol id, each leaves as one
  datagram, in order, and the peer that receives the datagram unharmed handles exactly that packet. (A
  packet that cannot be serialized stops the queue.)\<close>

theorem wire_delivery:
  assumes "list_all (\<lambda>p. channel_fits (pkt_type p) \<and> ph_protocol_id (pkt_header p) = nc_protocol_id (cn_config d)) (cn_send_queue c)"
    and "os_send_errors (us_socket u) = []" and "cn_encryption_state c = None" and "cn_encryption_state d = None"
  shows "\<exists>c' u' ds. process_send_queue aead_seal now (c, u) = (Inr (), c', u') \<and> cn_send_queue c' = [] \<and>
    os_outgoing (us_socket u') = os_outgoing (us_socket u) @ map (\<lambda>data. (data, cn_remote_addr c)) ds \<and>
    list_all2 (\<lambda>p data. receive_datagram aead_open od t data (cn_remote_addr d) d =
        handle_packet od t p (touch_recv_time t (record_bytes_received t (length data) d))) (cn_send_queue c) ds"
proof -
  let ?ds = "map (\<lambda>p. append_crc32 (packet_bytes p)) (cn_send_queue c)"
  have fits: "list_all (\<lambda>p. channel_fits (pkt_type p)) (cn_send_queue c)" using assms(1) by (auto simp: list_all_iff)
  have "list_all2 (\<lambda>p data. receive_datagram aead_open od t data (cn_remote_addr d) d =
      handle_packet od t p (touch_recv_time t (record_bytes_received t (length data) d))) (cn_send_queue c) ?ds"
    using assms(1) receive_sealed[OF _ assms(4) refl] by (auto simp: list_all2_map2 list_all_iff intro!: list.rel_refl_strong)
  then show ?thesis
    using process_send_queue_ok[OF fits assms(2), of aead_seal now] assms(3)
    by (auto simp: datagram_def encrypt_outgoing_def comp_def intro!: exI[of _ ?ds])
qed

theorem wire_delivery_witness:
  "\<exists>c' u' ds. process_send_queue (\<lambda>_ _. None) 9 (queue_packet KeepAlive [] example_conn,
      \<lparr>us_socket = \<lparr>os_incoming = [], os_send_errors = [], os_outgoing = []\<rparr>, us_stats = SocketStats_default\<rparr>) = (Inr (), c', u') \<and>
    cn_send_queue c' = [] \<and> os_outgoing (us_socket u') = map (\<lambda>data. (data, example_addr 2)) ds \<and> length ds = 1"
proof -
  let ?c = "queue_packet KeepAlive [] example_conn"
  let ?u = "\<lparr>us_socket = \<lparr>os_incoming = [], os_send_errors = [], os_outgoing = []\<rparr>, us_stats = SocketStats_default\<rparr>"
  have q: "list_all (\<lambda>p. channel_fits (pkt_type p) \<and> ph_protocol_id (pkt_header p) = nc_protocol_id (cn_config shaken)) (cn_send_queue ?c)"
    "length (cn_send_queue ?c) = 1" "cn_remote_addr ?c = example_addr 2" "cn_encryption_state ?c = None"
    by (simp_all add: queue_packet_def create_header_alt push_packet_def with_payload_def Packet_new_def channel_fits_def
        example_conn_def Connection_new_def shaken_config quiet_config_def NetworkConfig_default_def)
  have e: "cn_encryption_state shaken = None"
    by (simp add: shaken_def connect_def example_conn_state send_connection_request_def push_packet_def handle_packet_def
        Packet_new_def queue_packet_def create_header_alt example_conn_def Connection_new_def quiet_config_def NetworkConfig_default_def)
  from wire_delivery[OF q(1) _ q(4) e, of ?u "\<lambda>_ _. None" 9] q(2,3) show ?thesis
    by (fastforce dest: list_all2_lengthD)
qed

text \<open>C30: a datagram damaged on its way, in at most four consecutive bytes anywhere, changes nothing
  at its receiver, with or without encryption.\<close>

theorem damaged_datagram_ignored:
  assumes "append_crc32 data = p @ w @ q" and "length w' = length w" and "length w \<le> 4" and "w' \<noteq> w"
  shows "receive_datagram aead_open od now (p @ w' @ q) addr c = (Inr (), c)"
proof -
  have "validate_and_strip_crc32 (p @ w @ q) = Some data" using assms(1) validate_append by metis
  then have "validate_and_strip_crc32 (p @ w' @ q) = None" using assms(2-4) by (rule burst_rejected)
  then show ?thesis by (simp add: receive_datagram_def)
qed

theorem damaged_datagram_ignored_witness:
  "receive_datagram (\<lambda>_ _. None) example_orders 9 ([1] @ [7, 3] @ le_bytes 4 (crc32c [1, 2, 3])) (example_addr 2) shaken = (Inr (), shaken)"
  by (rule damaged_datagram_ignored[where w = "[2, 3]" and data = "[1, 2, 3]"]) (simp_all add: append_crc32_def)

end
